(* ===== verification/Prelude.thy ===== *)
theory Prelude
  imports Main "HOL-Library.Word" "HOL-Library.Multiset"
begin

text \<open>
  Shared ground of the glider development: the machine-integer types of the Go source,
  wrap-around and truncating arithmetic on \<open>int\<close> for Go's \<open>int\<close> and \<open>int64\<close>, the string
  routines of Go's \<open>strings\<close> package that the code calls, the swap-with-last removal idiom,
  and two generic interfaces: a step relation with an invariant, and a framing (an encoder
  with a prefix decoder). The collections \<open>go_simps\<close> and \<open>word_arith\<close> gather the rewrite
  rules that the component theories add to their proofs.
\<close>

unbundle bit_operations_syntax

named_theorems go_simps \<open>unfoldings of the modelled Go library routines\<close>
named_theorems word_arith \<open>rules that move word goals to natural numbers\<close>

type_synonym u8 = "8 word"
type_synonym u16 = "16 word"
type_synonym u32 = "32 word"
type_synonym u64 = "64 word"
type_synonym bytes = "8 word list"

lemmas [word_arith] = unat_word_ariths word_less_nat_alt word_le_nat_alt

section \<open>Go integers\<close>

text \<open>
  Go's \<open>int\<close>, \<open>int64\<close> and \<open>time.Duration\<close> are 64-bit two's complement. They are modelled as
  \<open>int\<close>, and every arithmetic result that the source may overflow is passed through
  \<open>wrap64\<close>. Go's \<open>/\<close> truncates towards zero.
\<close>

definition wrap64 :: "int \<Rightarrow> int" where
  "wrap64 x = (x + 2 ^ 63) mod 2 ^ 64 - 2 ^ 63"

definition int64_range :: "int \<Rightarrow> bool" where
  "int64_range x \<longleftrightarrow> - (2 ^ 63) \<le> x \<and> x < 2 ^ 63"

definition quot :: "int \<Rightarrow> int \<Rightarrow> int" where
  "quot a b = sgn a * sgn b * (\<bar>a\<bar> div \<bar>b\<bar>)"

lemma wrap64_id [simp]: "int64_range x \<Longrightarrow> wrap64 x = x"
  unfolding wrap64_def int64_range_def by simp

lemma wrap64_range [simp]: "int64_range (wrap64 x)"
proof -
  have "0 \<le> (x + 2 ^ 63) mod 2 ^ 64" and "(x + 2 ^ 63) mod 2 ^ 64 < (2 ^ 64 :: int)"
    by simp_all
  then show ?thesis unfolding wrap64_def int64_range_def by simp
qed

lemma quot_pos [simp]: "0 \<le> a \<Longrightarrow> 0 < b \<Longrightarrow> quot a b = a div b"
  by (cases "a = 0") (simp_all add: quot_def)

section \<open>Go strings\<close>

text \<open>
  A Go \<open>string\<close> is a byte sequence, modelled as a \<open>string\<close> (a list of 8-bit characters).
  \<open>to_lower\<close> is \<open>strings.ToLower\<close> on ASCII text, which host names are; bytes outside
  \<open>A\<close>..\<open>Z\<close> are kept.
\<close>

definition to_lower_char :: "char \<Rightarrow> char" where
  "to_lower_char c =
     (let n = of_char c :: nat in if 65 \<le> n \<and> n \<le> 90 then char_of (n + 32) else c)"

definition to_lower :: "string \<Rightarrow> string" where
  "to_lower s = map to_lower_char s"

text \<open>\<open>strings.LastIndexByte\<close> and \<open>strings.IndexByte\<close>: \<open>-1\<close> when the byte does not occur.\<close>

fun LastIndexByte :: "string \<Rightarrow> char \<Rightarrow> int" where
  "LastIndexByte [] c = -1"
| "LastIndexByte (x # xs) c =
     (let i = LastIndexByte xs c in if 0 \<le> i then i + 1 else if x = c then 0 else -1)"

fun IndexByte :: "string \<Rightarrow> char \<Rightarrow> int" where
  "IndexByte [] c = -1"
| "IndexByte (x # xs) c =
     (if x = c then 0 else let i = IndexByte xs c in if 0 \<le> i then i + 1 else -1)"

lemma LastIndexByte_bounds: "-1 \<le> LastIndexByte s c \<and> LastIndexByte s c < int (length s)"
  by (induction s) (auto simp: Let_def)

lemma LastIndexByte_none: "LastIndexByte s c = -1 \<longleftrightarrow> c \<notin> set s"
proof (induction s)
  case Nil
  then show ?case by simp
next
  case (Cons x xs)
  with LastIndexByte_bounds [of xs c] show ?case by (auto simp: Let_def)
qed

lemma LastIndexByte_append:
  "LastIndexByte (xs @ ys) c =
     (if c \<in> set ys then LastIndexByte ys c + int (length xs) else LastIndexByte xs c)"
proof (induction xs)
  case Nil
  then show ?case by (simp add: LastIndexByte_none)
next
  case (Cons x xs)
  have "c \<in> set ys \<Longrightarrow> 0 \<le> LastIndexByte ys c"
    using LastIndexByte_none [of ys c] LastIndexByte_bounds [of ys c] by linarith
  with Cons show ?case by (auto simp: Let_def)
qed

lemma LastIndexByte_split:
  assumes "LastIndexByte s c = i" and "0 \<le> i"
  shows "s = take (nat i) s @ c # drop (nat i + 1) s" and "c \<notin> set (drop (nat i + 1) s)"
proof -
  have "s = take (nat i) s @ c # drop (nat i + 1) s \<and> c \<notin> set (drop (nat i + 1) s)"
    using assms
  proof (induction s arbitrary: i)
    case Nil
    then show ?case by simp
  next
    case (Cons x xs)
    show ?case
    proof (cases "0 \<le> LastIndexByte xs c")
      case True
      with Cons show ?thesis by (auto simp: Let_def nat_add_distrib)
    next
      case False
      with LastIndexByte_bounds [of xs c] have "LastIndexByte xs c = -1" by linarith
      with False Cons.prems show ?thesis
        by (auto simp: Let_def LastIndexByte_none split: if_splits)
    qed
  qed
  then show "s = take (nat i) s @ c # drop (nat i + 1) s" and "c \<notin> set (drop (nat i + 1) s)"
    by blast+
qed

lemma IndexByte_bounds: "-1 \<le> IndexByte s c \<and> IndexByte s c < int (length s)"
  by (induction s) (auto simp: Let_def)

lemma IndexByte_none: "IndexByte s c = -1 \<longleftrightarrow> c \<notin> set s"
proof (induction s)
  case Nil
  then show ?case by simp
next
  case (Cons x xs)
  with IndexByte_bounds [of xs c] show ?case by (auto simp: Let_def)
qed

lemma IndexByte_neg: "IndexByte s c < 0 \<longleftrightarrow> c \<notin> set s"
  using IndexByte_none [of s c] IndexByte_bounds [of s c] by linarith

text \<open>\<open>strings.Split(s, sep)\<close> for a one-byte separator, and \<open>strings.Join\<close>.\<close>

fun split_on :: "char \<Rightarrow> string \<Rightarrow> string list" where
  "split_on c [] = [[]]"
| "split_on c (x # xs) =
     (if x = c then [] # split_on c xs
      else (case split_on c xs of [] \<Rightarrow> [[x]] | s # ss \<Rightarrow> (x # s) # ss))"

fun join_with :: "string \<Rightarrow> string list \<Rightarrow> string" where
  "join_with sep [] = []"
| "join_with sep [s] = s"
| "join_with sep (s # ss) = s @ sep @ join_with sep ss"

lemma split_on_nonempty [simp]: "split_on c s \<noteq> []"
  by (induction s) (auto split: list.splits)

lemma join_split [simp]: "join_with [c] (split_on c s) = s"
proof (induction s)
  case Nil
  then show ?case by simp
next
  case (Cons x xs)
  obtain t ts where "split_on c xs = t # ts"
    using split_on_nonempty by (meson neq_Nil_conv)
  with Cons show ?case by (cases ts) auto
qed

lemma split_on_append: "c \<notin> set s \<Longrightarrow> split_on c (s @ c # r) = s # split_on c r"
  by (induction s) auto

lemma split_on_none: "c \<notin> set s \<Longrightarrow> split_on c s = [s]"
  by (induction s) auto

lemma split_on_no_sep: "seg \<in> set (split_on c s) \<Longrightarrow> c \<notin> set seg"
proof (induction s arbitrary: seg)
  case Nil
  then show ?case by simp
next
  case (Cons x xs)
  obtain t ts where "split_on c xs = t # ts"
    using split_on_nonempty by (meson neq_Nil_conv)
  with Cons show ?case by (auto split: if_splits)
qed

lemma split_join:
  "ss \<noteq> [] \<Longrightarrow> \<forall>s \<in> set ss. c \<notin> set s \<Longrightarrow> split_on c (join_with [c] ss) = ss"
proof (induction ss rule: induct_list012)
  case (3 x y zs)
  then show ?case by (simp add: split_on_append)
qed (simp_all add: split_on_none)

section \<open>Swap-with-last removal\<close>

text \<open>
  The idiom \<open>xs[i], xs = xs[len(xs)-1], xs[:len(xs)-1]\<close> at the first index that holds \<open>x\<close>.
\<close>

fun find_index :: "'a \<Rightarrow> 'a list \<Rightarrow> nat option" where
  "find_index x [] = None"
| "find_index x (y # ys) = (if y = x then Some 0 else map_option Suc (find_index x ys))"

definition swap_remove :: "'a \<Rightarrow> 'a list \<Rightarrow> 'a list" where
  "swap_remove x xs =
     (case find_index x xs of None \<Rightarrow> xs | Some i \<Rightarrow> butlast (xs[i := last xs]))"

lemma find_index_None [simp]: "find_index x xs = None \<longleftrightarrow> x \<notin> set xs"
  by (induction xs) auto

lemma find_index_Some: "find_index x xs = Some i \<Longrightarrow> i < length xs \<and> xs ! i = x"
  by (induction xs arbitrary: i) (auto split: if_splits)

lemma mset_swap_remove: "mset (swap_remove x xs) = mset xs - {#x#}"
proof (cases "find_index x xs")
  case None
  moreover from None have "x \<notin> set xs" by simp
  ultimately show ?thesis by (simp add: swap_remove_def diff_single_trivial del: find_index_None)
next
  case (Some i)
  then have i: "i < length xs" "xs ! i = x" by (auto dest: find_index_Some)
  then obtain ys z where xs: "xs = ys @ [z]" by (cases xs rule: rev_cases) auto
  show ?thesis
  proof (cases "i < length ys")
    case True
    with i xs have "x \<in># mset ys" by (auto simp: nth_append)
    with True i xs Some show ?thesis
      by (simp add: swap_remove_def list_update_append1 nth_append mset_update butlast_append)
  next
    case False
    with i xs Some show ?thesis
      by (simp add: swap_remove_def list_update_append nth_append)
  qed
qed

lemma swap_remove_remove1: "mset (swap_remove x xs) = mset (remove1 x xs)"
  by (simp add: mset_swap_remove)

lemma distinct_swap_remove: "distinct xs \<Longrightarrow> distinct (swap_remove x xs)"
  by (simp add: mset_eq_imp_distinct_iff [OF swap_remove_remove1])

lemma set_swap_remove: "distinct xs \<Longrightarrow> set (swap_remove x xs) = set xs - {x}"
  by (simp add: mset_eq_setD [OF swap_remove_remove1])

section \<open>Step relations with an invariant\<close>

text \<open>
  The contract of a concurrent component: its start states, its atomic steps and an
  invariant. Whatever the interleaving, every reachable state satisfies the invariant.
\<close>

inductive reach :: "('s \<Rightarrow> bool) \<Rightarrow> ('s \<Rightarrow> 's \<Rightarrow> bool) \<Rightarrow> 's \<Rightarrow> bool"
  for start :: "'s \<Rightarrow> bool" and step :: "'s \<Rightarrow> 's \<Rightarrow> bool" where
  reach_start: "start s \<Longrightarrow> reach start step s"
| reach_step: "reach start step s \<Longrightarrow> step s t \<Longrightarrow> reach start step t"

locale inductive_invariant =
  fixes start :: "'s \<Rightarrow> bool" and step :: "'s \<Rightarrow> 's \<Rightarrow> bool" and inv :: "'s \<Rightarrow> bool"
  assumes inv_start: "start s \<Longrightarrow> inv s"
    and inv_step: "inv s \<Longrightarrow> step s t \<Longrightarrow> inv t"
begin

lemma reach_inv: "reach start step s \<Longrightarrow> inv s"
  by (induction rule: reach.induct) (blast intro: inv_start inv_step)+

end

section \<open>Framings\<close>

text \<open>
  An encoder and a decoder that takes one item off the front of the input and returns the
  rest. The one law is that decoding undoes encoding whatever follows; a reader that
  decodes until the input is empty then recovers any sequence of valid items.
\<close>

fun decode_all :: "('b list \<Rightarrow> ('a \<times> 'b list) option) \<Rightarrow> nat \<Rightarrow> 'b list \<Rightarrow> 'a list option" where
  "decode_all dec n [] = Some []"
| "decode_all dec 0 (b # bs) = None"
| "decode_all dec (Suc n) (b # bs) =
     (case dec (b # bs) of None \<Rightarrow> None
      | Some (x, r) \<Rightarrow> map_option ((#) x) (decode_all dec n r))"

locale framing =
  fixes enc :: "'a \<Rightarrow> 'b list" and dec :: "'b list \<Rightarrow> ('a \<times> 'b list) option"
    and valid :: "'a \<Rightarrow> bool"
  assumes dec_enc: "valid x \<Longrightarrow> dec (enc x @ r) = Some (x, r)"
    and enc_nonempty: "valid x \<Longrightarrow> enc x \<noteq> []"
begin

lemma decode_all_enc:
  "\<forall>x \<in> set xs. valid x \<Longrightarrow> length xs \<le> n \<Longrightarrow> decode_all dec n (concat (map enc xs)) = Some xs"
proof (induction xs arbitrary: n)
  case Nil
  then show ?case by simp
next
  case (Cons x xs)
  then obtain m where n: "n = Suc m" by (cases n) auto
  from Cons.prems have "enc x \<noteq> []" by (auto dest: enc_nonempty)
  then obtain b bs where b: "enc x @ concat (map enc xs) = b # bs" by (cases "enc x") auto
  from Cons.prems have "dec (b # bs) = Some (x, concat (map enc xs))"
    by (simp flip: b add: dec_enc)
  with Cons n b show ?case by simp
qed

lemma enc_prefix_free: "valid x \<Longrightarrow> valid y \<Longrightarrow> enc x @ r = enc y @ s \<Longrightarrow> x = y \<and> r = s"
proof -
  assume vx: "valid x" and vy: "valid y" and eq: "enc x @ r = enc y @ s"
  from dec_enc [OF vx, of r] have "dec (enc y @ s) = Some (x, r)" by (simp only: eq)
  with dec_enc [OF vy, of s] show ?thesis by simp
qed

end

section \<open>Byte orders\<close>

definition be16 :: "u16 \<Rightarrow> bytes" where
  "be16 w = [ucast (drop_bit 8 w), ucast w]"

definition be16_of :: "u8 \<Rightarrow> u8 \<Rightarrow> u16" where
  "be16_of a b = push_bit 8 (ucast a) OR ucast b"

definition be32 :: "u32 \<Rightarrow> bytes" where
  "be32 w = [ucast (drop_bit 24 w), ucast (drop_bit 16 w), ucast (drop_bit 8 w), ucast w]"

definition be32_of :: "u8 \<Rightarrow> u8 \<Rightarrow> u8 \<Rightarrow> u8 \<Rightarrow> u32" where
  "be32_of a b c d =
     push_bit 24 (ucast a) OR push_bit 16 (ucast b) OR push_bit 8 (ucast c) OR ucast d"

lemma be16_of_be16 [simp]: "be16_of (ucast (drop_bit 8 w)) (ucast w) = w"
  unfolding be16_of_def
  by (rule bit_word_eqI) (auto simp: bit_simps)

lemma be32_of_be32 [simp]:
  "be32_of (ucast (drop_bit 24 w)) (ucast (drop_bit 16 w)) (ucast (drop_bit 8 w)) (ucast w) = w"
proof (rule bit_word_eqI)
  fix n assume "n < LENGTH(32)"
  then consider "n < 8" | "8 \<le> n" "n < 16" | "16 \<le> n" "n < 24" | "24 \<le> n" "n < 32"
    by fastforce
  then show "bit (be32_of (ucast (drop_bit 24 w)) (ucast (drop_bit 16 w))
      (ucast (drop_bit 8 w)) (ucast w)) n = bit w n"
    unfolding be32_of_def by cases (auto simp: bit_simps)
qed

lemma be16_nth: "be16_of (be16 w ! 0) (be16 w ! 1) = w"
  by (simp add: be16_def)

lemma length_be16 [simp]: "length (be16 w) = 2" by (simp add: be16_def)
lemma length_be32 [simp]: "length (be32 w) = 4" by (simp add: be32_def)

lemma unat_of_nat_small [simp]:
  "n < 2 ^ LENGTH('a) \<Longrightarrow> unat (of_nat n :: 'a::len word) = n"
  by (simp add: unat_of_nat take_bit_nat_eq_self)

section \<open>Results of calls that may panic\<close>

datatype 'a res = Ok 'a | Err string | Panic | Diverge

fun bind_res :: "'a res \<Rightarrow> ('a \<Rightarrow> 'b res) \<Rightarrow> 'b res" where
  "bind_res (Ok x) f = f x"
| "bind_res (Err e) f = Err e"
| "bind_res Panic f = Panic"
| "bind_res Diverge f = Diverge"

definition byte_char :: "u8 \<Rightarrow> char" where
  "byte_char b = char_of (unat b)"

definition char_byte :: "char \<Rightarrow> u8" where
  "char_byte c = of_nat (of_char c)"

lemma byte_char_byte [simp]: "byte_char (char_byte c) = c"
  by (simp add: byte_char_def char_byte_def unat_of_nat)

lemma char_byte_char [simp]: "char_byte (byte_char b) = b"
proof -
  have "unat b < 256" using unsigned_less [of b] by simp
  then show ?thesis by (simp add: byte_char_def char_byte_def of_char_of)
qed

end
