(* ===== verification/Forwarding.thy ===== *)
theory Forwarding
  imports Prelude
begin

text \<open>
  Forwarders and forwarder groups (\<open>rule/forward.go\<close>, and the state and status handling of
  \<open>rule/group.go\<close>). A forwarder is a heap object named by a \<open>fid\<close>, a group one named by a
  \<open>gid\<close>; the heap is the record \<open>world\<close>. A status handler is always the method value
  \<open>p.onStatusChanged\<close> of a group, so the handler list of a forwarder is a list of \<open>gid\<close>s.
  The invariant \<open>avail_inv\<close> says how the rotation of a group relates to the enabled flags of
  its forwarders when the flags of some forwarders have changed and their handlers have not
  run yet; \<open>status_changed_inv\<close> is the one lemma both the sequential operations and the
  interleaving semantics of theory \<open>Status_Races\<close> rest on.
\<close>

section \<open>Data\<close>

type_synonym fid = nat
type_synonym gid = nat

record Strategy =
  s_Strategy :: string
  s_Check :: string
  s_CheckInterval :: int
  s_CheckTimeout :: int
  s_CheckTolerance :: int
  s_CheckLatencySamples :: int
  s_CheckDisabledOnly :: bool
  s_MaxFailures :: int
  s_DialTimeout :: int
  s_RelayTimeout :: int
  s_IntFace :: string
  s_DialAttempts :: int
  s_DialBudget :: int

record Forwarder =
  f_url :: string
  f_addr :: string
  f_priority :: u32
  f_maxFailures :: u32
  f_disabled :: u32
  f_failures :: u32
  f_latency :: int
  f_intface :: string
  f_handlers :: "gid list"

text \<open>The scheduler a group was built with (the method value stored in \<open>next\<close>).\<close>

datatype scheduler = RR | HA | LHA | DH

text \<open>\<open>g_done\<close>: \<open>None\<close> for a nil channel, \<open>Some c\<close> for a channel that is closed iff \<open>c\<close>.\<close>

record FwdrGroup =
  g_name :: string
  g_config :: Strategy
  g_fwdrs :: "fid list"
  g_avail :: "fid list"
  g_index :: u32
  g_priority :: u32
  g_next :: scheduler
  g_done :: "bool option"
  g_dialAttempts :: int
  g_dialBudget :: int

record world =
  w_fwdr :: "fid \<Rightarrow> Forwarder"
  w_group :: "gid \<Rightarrow> FwdrGroup"
  w_nfwdr :: nat
  w_ngroup :: nat

type_synonym fstore = "fid \<Rightarrow> Forwarder"

definition upd_fwdr :: "fid \<Rightarrow> (Forwarder \<Rightarrow> Forwarder) \<Rightarrow> world \<Rightarrow> world" where
  "upd_fwdr f u w = w\<lparr>w_fwdr := (w_fwdr w)(f := u (w_fwdr w f))\<rparr>"

definition upd_group :: "gid \<Rightarrow> (FwdrGroup \<Rightarrow> FwdrGroup) \<Rightarrow> world \<Rightarrow> world" where
  "upd_group g u w = w\<lparr>w_group := (w_group w)(g := u (w_group w g))\<rparr>"

lemma upd_fwdr_simps [simp]:
  "w_fwdr (upd_fwdr f u w) = (w_fwdr w)(f := u (w_fwdr w f))"
  "w_group (upd_fwdr f u w) = w_group w"
  "w_nfwdr (upd_fwdr f u w) = w_nfwdr w"
  "w_ngroup (upd_fwdr f u w) = w_ngroup w"
  by (simp_all add: upd_fwdr_def)

lemma upd_group_simps [simp]:
  "w_fwdr (upd_group g v w) = w_fwdr w"
  "w_group (upd_group g v w) = (w_group w)(g := v (w_group w g))"
  "w_nfwdr (upd_group g v w) = w_nfwdr w"
  "w_ngroup (upd_group g v w) = w_ngroup w"
  by (simp_all add: upd_group_def)

section \<open>Operations\<close>

definition isTrue :: "u32 \<Rightarrow> bool" where
  "isTrue n \<longleftrightarrow> n AND 1 = 1"

definition Enabled :: "Forwarder \<Rightarrow> bool" where
  "Enabled f \<longleftrightarrow> \<not> isTrue (f_disabled f)"

lemma Enabled_0 [simp]: "f_disabled f = 0 \<Longrightarrow> Enabled f"
  by (simp add: Enabled_def isTrue_def)

lemma not_Enabled_1 [simp]: "f_disabled f = 1 \<Longrightarrow> \<not> Enabled f"
  by (simp add: Enabled_def isTrue_def)

text \<open>\<open>FwdrGroup.init\<close>: the active priority is that of the first enabled forwarder, and the
  rotation is every enabled forwarder of at least that priority.\<close>

fun init_priority :: "fstore \<Rightarrow> fid list \<Rightarrow> u32 \<Rightarrow> u32" where
  "init_priority F [] pri = pri"
| "init_priority F (f # fs) pri =
     (if Enabled (F f) then f_priority (F f) else init_priority F fs pri)"

definition group_init :: "fstore \<Rightarrow> FwdrGroup \<Rightarrow> FwdrGroup" where
  "group_init F p =
     (let pri = init_priority F (g_fwdrs p) (g_priority p);
          av = filter (\<lambda>f. Enabled (F f) \<and> pri \<le> f_priority (F f)) (g_fwdrs p)
      in p\<lparr>g_avail := av, g_priority := (if av = [] then 0 else pri)\<rparr>)"

definition inAvail :: "FwdrGroup \<Rightarrow> fid \<Rightarrow> bool" where
  "inAvail p f \<longleftrightarrow> f \<in> set (g_avail p)"

text \<open>The body of \<open>onStatusChanged\<close>, run with the group's lock held.\<close>

definition status_changed :: "fstore \<Rightarrow> fid \<Rightarrow> FwdrGroup \<Rightarrow> FwdrGroup" where
  "status_changed F f p =
     (let p1 =
        (if Enabled (F f) then
           (if f_priority (F f) = g_priority p then
              (if inAvail p f then p else p\<lparr>g_avail := g_avail p @ [f]\<rparr>)
            else if g_priority p < f_priority (F f) then group_init F p
            else p)
         else p\<lparr>g_avail := swap_remove f (g_avail p)\<rparr>)
      in if g_avail p1 = [] then group_init F p1 else p1)"

definition onStatusChanged :: "gid \<Rightarrow> fid \<Rightarrow> world \<Rightarrow> world" where
  "onStatusChanged g f w = upd_group g (status_changed (w_fwdr w) f) w"

fun run_handlers :: "fid \<Rightarrow> gid list \<Rightarrow> world \<Rightarrow> world" where
  "run_handlers f [] w = w"
| "run_handlers f (h # hs) w = run_handlers f hs (onStatusChanged h f w)"

definition Enable :: "fid \<Rightarrow> world \<Rightarrow> world" where
  "Enable f w =
     (let w1 = (if f_disabled (w_fwdr w f) = 1 then
                  run_handlers f (f_handlers (w_fwdr w f))
                    (upd_fwdr f (f_disabled_update (\<lambda>_. 0)) w)
                else w)
      in upd_fwdr f (f_failures_update (\<lambda>_. 0)) w1)"

definition Disable :: "fid \<Rightarrow> world \<Rightarrow> world" where
  "Disable f w =
     (if f_disabled (w_fwdr w f) = 0 then
        run_handlers f (f_handlers (w_fwdr w f)) (upd_fwdr f (f_disabled_update (\<lambda>_. 1)) w)
      else w)"

definition IncFailures :: "fid \<Rightarrow> world \<Rightarrow> world" where
  "IncFailures f w =
     (let failures = f_failures (w_fwdr w f) + 1;
          w1 = upd_fwdr f (f_failures_update (\<lambda>_. failures)) w
      in if f_maxFailures (w_fwdr w1 f) = 0 then w1
         else if failures = f_maxFailures (w_fwdr w1 f) \<and> Enabled (w_fwdr w1 f)
         then Disable f w1 else w1)"

definition AddHandler :: "gid \<Rightarrow> fid \<Rightarrow> world \<Rightarrow> world" where
  "AddHandler h f w = upd_fwdr f (f_handlers_update (\<lambda>hs. hs @ [h])) w"

definition SetPriority :: "u32 \<Rightarrow> Forwarder \<Rightarrow> Forwarder" where
  "SetPriority l f = f\<lparr>f_priority := l\<rparr>"

definition SetMaxFailures :: "u32 \<Rightarrow> fid \<Rightarrow> world \<Rightarrow> world" where
  "SetMaxFailures l f w = upd_fwdr f (f_maxFailures_update (\<lambda>_. l)) w"

definition SetLatency :: "int \<Rightarrow> fid \<Rightarrow> world \<Rightarrow> world" where
  "SetLatency l f w = upd_fwdr f (f_latency_update (\<lambda>_. l)) w"

section \<open>The rotation invariant\<close>

definition sorted_fwdrs :: "fstore \<Rightarrow> fid list \<Rightarrow> bool" where
  "sorted_fwdrs F fs \<longleftrightarrow> sorted_wrt (\<lambda>x y. f_priority (F y) \<le> f_priority (F x)) fs"

text \<open>What \<open>newFwdrGroup\<close> fixes once and for all.\<close>

definition group_static :: "fstore \<Rightarrow> FwdrGroup \<Rightarrow> bool" where
  "group_static F p \<longleftrightarrow>
     g_fwdrs p \<noteq> [] \<and> distinct (g_fwdrs p) \<and> sorted_fwdrs F (g_fwdrs p)"

text \<open>\<open>U\<close> is the set of forwarders whose flag has changed and whose handler is still due.\<close>

definition avail_inv :: "fid set \<Rightarrow> fstore \<Rightarrow> FwdrGroup \<Rightarrow> bool" where
  "avail_inv U F p \<longleftrightarrow>
     distinct (g_avail p) \<and> set (g_avail p) \<subseteq> set (g_fwdrs p) \<and>
     (\<forall>f \<in> set (g_avail p). f_priority (F f) = g_priority p) \<and>
     (g_avail p = [] \<longrightarrow> g_priority p = 0) \<and>
     (\<forall>f \<in> set (g_fwdrs p) - U. f \<in> set (g_avail p) \<longrightarrow> Enabled (F f)) \<and>
     (\<forall>f \<in> set (g_fwdrs p) - U. Enabled (F f) \<longrightarrow>
        f_priority (F f) \<le> g_priority p \<and>
        (f_priority (F f) = g_priority p \<longrightarrow> f \<in> set (g_avail p)))"

lemma avail_inv_mono: "avail_inv U F p \<Longrightarrow> U \<subseteq> V \<Longrightarrow> avail_inv V F p"
  unfolding avail_inv_def by blast

lemma init_priority_max:
  assumes "sorted_fwdrs F fs" and "f \<in> set fs" and "Enabled (F f)"
  shows "f_priority (F f) \<le> init_priority F fs pri"
    and "\<exists>g \<in> set fs. Enabled (F g) \<and> f_priority (F g) = init_priority F fs pri"
  using assms by (induction fs) (auto simp: sorted_fwdrs_def)

lemma group_init_fields [simp]:
  "g_fwdrs (group_init F p) = g_fwdrs p"
  "g_index (group_init F p) = g_index p"
  "g_next (group_init F p) = g_next p"
  "g_config (group_init F p) = g_config p"
  "g_name (group_init F p) = g_name p"
  "g_dialAttempts (group_init F p) = g_dialAttempts p"
  "g_dialBudget (group_init F p) = g_dialBudget p"
  "g_done (group_init F p) = g_done p"
  by (simp_all add: group_init_def Let_def)

lemma group_init_inv:
  assumes "group_static F p"
  shows "avail_inv U F (group_init F p)"
proof -
  let ?fs = "g_fwdrs p" and ?pri = "init_priority F (g_fwdrs p) (g_priority p)"
  let ?av = "filter (\<lambda>f. Enabled (F f) \<and> ?pri \<le> f_priority (F f)) ?fs"
  from assms have s: "sorted_fwdrs F ?fs" and d: "distinct ?fs"
    by (auto simp: group_static_def)
  have max: "f_priority (F f) \<le> ?pri" if "f \<in> set ?fs" "Enabled (F f)" for f
    using init_priority_max(1) [OF s that] .
  have ne: "?av \<noteq> []" if "f \<in> set ?fs" "Enabled (F f)" for f
    using init_priority_max(2) [OF s that, of "g_priority p"] by (fastforce simp: filter_empty_conv)
  show ?thesis
    unfolding avail_inv_def group_init_def Let_def
    using d max ne by (auto intro: antisym)
qed

lemma status_changed_fields [simp]:
  "g_fwdrs (status_changed F f p) = g_fwdrs p"
  "g_index (status_changed F f p) = g_index p"
  "g_next (status_changed F f p) = g_next p"
  "g_config (status_changed F f p) = g_config p"
  "g_name (status_changed F f p) = g_name p"
  "g_dialAttempts (status_changed F f p) = g_dialAttempts p"
  "g_dialBudget (status_changed F f p) = g_dialBudget p"
  "g_done (status_changed F f p) = g_done p"
  by (simp_all add: status_changed_def Let_def)

text \<open>Running the handler of \<open>f\<close> settles \<open>f\<close> and disturbs no other forwarder.\<close>

lemma status_changed_inv:
  assumes st: "group_static F p" and inv: "avail_inv (insert f U) F p" and f: "f \<in> set (g_fwdrs p)"
  shows "avail_inv U F (status_changed F f p)"
proof -
  have init: "avail_inv U F (group_init F q)" if "g_fwdrs q = g_fwdrs p" for q
    using st that by (intro group_init_inv) (simp add: group_static_def)
  consider (same) "Enabled (F f)" "f_priority (F f) = g_priority p"
    | (up) "Enabled (F f)" "g_priority p < f_priority (F f)"
    | (low) "Enabled (F f)" "f_priority (F f) < g_priority p"
    | (off) "\<not> Enabled (F f)"
    by fastforce
  then show ?thesis
  proof cases
    case same
    then have "avail_inv U F (if inAvail p f then p else p\<lparr>g_avail := g_avail p @ [f]\<rparr>)"
      using inv f unfolding avail_inv_def inAvail_def by auto
    with same init show ?thesis
      by (auto simp: status_changed_def Let_def inAvail_def)
  next
    case up
    then have "f_priority (F f) \<noteq> g_priority p" by auto
    with up init show ?thesis by (simp add: status_changed_def Let_def)
  next
    case low
    then have "avail_inv U F p" using inv unfolding avail_inv_def by auto
    with low init show ?thesis by (auto simp: status_changed_def Let_def)
  next
    case off
    let ?q = "p\<lparr>g_avail := swap_remove f (g_avail p)\<rparr>"
    have "avail_inv U F ?q" if "g_avail ?q \<noteq> []"
      using inv off that unfolding avail_inv_def
      by (auto simp: set_swap_remove distinct_swap_remove)
    with off init [of ?q] show ?thesis
      by (auto simp: status_changed_def Let_def)
  qed
qed

text \<open>In a settled group the rotation is exactly the top tier of enabled forwarders.\<close>

lemma settled_rotation:
  assumes "avail_inv {} F p"
  shows "set (g_avail p) =
    {f \<in> set (g_fwdrs p). Enabled (F f) \<and>
       (\<forall>g \<in> set (g_fwdrs p). Enabled (F g) \<longrightarrow> f_priority (F g) \<le> f_priority (F f))}"
    (is "?A = ?B")
proof
  show "?A \<subseteq> ?B" using assms unfolding avail_inv_def by fastforce
  show "?B \<subseteq> ?A"
  proof
    fix f assume f: "f \<in> ?B"
    show "f \<in> ?A"
    proof (cases "g_avail p")
      case Nil
      then have "g_priority p = 0" using assms by (simp add: avail_inv_def)
      with f assms show ?thesis unfolding avail_inv_def by auto
    next
      case (Cons a as)
      then have "a \<in> ?A" by simp
      with assms have "a \<in> set (g_fwdrs p)" "Enabled (F a)" "f_priority (F a) = g_priority p"
        by (auto simp: avail_inv_def)
      with f have "g_priority p \<le> f_priority (F f)" by auto
      moreover from f assms have "f_priority (F f) \<le> g_priority p" by (simp add: avail_inv_def)
      ultimately have "f_priority (F f) = g_priority p" by (rule antisym [rotated])
      with f assms show ?thesis unfolding avail_inv_def by auto
    qed
  qed
qed

section \<open>Well-formed worlds\<close>

text \<open>
  Every group is settled, every one of its forwarders has exactly that group's handler, and a
  forwarder with a handler belongs to that handler's group.
\<close>

definition wired :: "world \<Rightarrow> bool" where
  "wired w \<longleftrightarrow>
     (\<forall>g < w_ngroup w. \<forall>f \<in> set (g_fwdrs (w_group w g)). f_handlers (w_fwdr w f) = [g]) \<and>
     (\<forall>f. f_handlers (w_fwdr w f) = [] \<or>
        (\<exists>g < w_ngroup w. f_handlers (w_fwdr w f) = [g] \<and> f \<in> set (g_fwdrs (w_group w g))))"

definition world_ok :: "world \<Rightarrow> bool" where
  "world_ok w \<longleftrightarrow>
     (\<forall>f. f_disabled (w_fwdr w f) \<in> {0, 1}) \<and> wired w \<and>
     (\<forall>g < w_ngroup w. group_static (w_fwdr w) (w_group w g) \<and>
        avail_inv {} (w_fwdr w) (w_group w g))"

lemma run_handlers_simps [simp]:
  "w_fwdr (run_handlers f hs w) = w_fwdr w"
  "w_nfwdr (run_handlers f hs w) = w_nfwdr w"
  "w_ngroup (run_handlers f hs w) = w_ngroup w"
  "g_fwdrs (w_group (run_handlers f hs w) g) = g_fwdrs (w_group w g)"
  by (induction hs arbitrary: w) (auto simp: onStatusChanged_def)

lemma avail_inv_cong:
  assumes "avail_inv U F p"
    and "\<And>x. x \<in> set (g_fwdrs p) \<Longrightarrow> f_priority (F' x) = f_priority (F x)"
    and "\<And>x. x \<in> set (g_fwdrs p) - U \<Longrightarrow> Enabled (F' x) = Enabled (F x)"
  shows "avail_inv U F' p"
  using assms unfolding avail_inv_def by auto

lemma group_static_cong:
  assumes "group_static F p"
    and "\<And>x. x \<in> set (g_fwdrs p) \<Longrightarrow> f_priority (F' x) = f_priority (F x)"
  shows "group_static F' p"
proof -
  have "sorted_wrt (\<lambda>x y. f_priority (F' y) \<le> f_priority (F' x)) (g_fwdrs p)"
    using assms by (auto simp: group_static_def sorted_fwdrs_def intro: sorted_wrt_mono_rel [rotated])
  with assms(1) show ?thesis by (simp add: group_static_def sorted_fwdrs_def)
qed

text \<open>Counters, latency and limits may change at any time.\<close>

lemma world_ok_frame:
  assumes "world_ok w"
    and "\<And>x. f_disabled (u x) = f_disabled x" "\<And>x. f_priority (u x) = f_priority x"
    and "\<And>x. f_handlers (u x) = f_handlers x"
  shows "world_ok (upd_fwdr f u w)"
proof -
  let ?F = "w_fwdr (upd_fwdr f u w)"
  have eq: "f_disabled (?F x) = f_disabled (w_fwdr w x)" "f_priority (?F x) = f_priority (w_fwdr w x)"
    "f_handlers (?F x) = f_handlers (w_fwdr w x)" for x
    using assms by simp_all
  then have en: "Enabled (?F x) = Enabled (w_fwdr w x)" for x
    by (simp add: Enabled_def)
  show ?thesis
    using assms(1) unfolding world_ok_def wired_def eq
    by (auto intro: group_static_cong avail_inv_cong simp: eq en simp del: upd_fwdr_simps(1))
qed

lemma world_ok_disabled: "world_ok w \<Longrightarrow> f_disabled (w_fwdr w f) \<noteq> 0 \<Longrightarrow> f_disabled (w_fwdr w f) = 1"
  unfolding world_ok_def by (metis empty_iff insert_iff)

lemma wired_handler:
  assumes "wired w" and "f_handlers (w_fwdr w f) = h # hs"
  shows "hs = []" and "f \<in> set (g_fwdrs (w_group w h))" and "h < w_ngroup w"
proof -
  from assms have "f_handlers (w_fwdr w f) = [] \<or> (\<exists>g < w_ngroup w.
      f_handlers (w_fwdr w f) = [g] \<and> f \<in> set (g_fwdrs (w_group w g)))"
    unfolding wired_def by blast
  with assms(2) show "hs = []" and "f \<in> set (g_fwdrs (w_group w h))" and "h < w_ngroup w"
    by auto
qed

text \<open>Flipping a flag and running the forwarder's handlers.\<close>

lemma world_ok_flip:
  assumes ok: "world_ok w" and v: "v \<in> {0, 1}"
  shows "world_ok (run_handlers f (f_handlers (w_fwdr w f)) (upd_fwdr f (f_disabled_update (\<lambda>_. v)) w))"
    (is "world_ok ?w'")
proof -
  let ?w1 = "upd_fwdr f (f_disabled_update (\<lambda>_. v)) w"
  let ?F = "w_fwdr ?w1"
  have hs: "f_handlers (?F x) = f_handlers (w_fwdr w x)" for x by simp
  have flags: "f_disabled (?F x) \<in> {0, 1}" for x
    using ok v by (auto simp: world_ok_def)
  have "wired w" using ok by (simp add: world_ok_def)
  then have wired': "wired ?w'" unfolding wired_def by simp
  have static: "group_static ?F (w_group w g)" if "g < w_ngroup w" for g
    by (rule group_static_cong [of "w_fwdr w"]) (use ok that in \<open>simp_all add: world_ok_def\<close>)
  have keep: "avail_inv {f} ?F (w_group w g)" if "g < w_ngroup w" for g
    by (rule avail_inv_cong [OF avail_inv_mono [of "{}" "w_fwdr w"]])
      (use ok that in \<open>simp_all add: world_ok_def\<close>)
  have other: "avail_inv {} ?F (w_group w g)" if "g < w_ngroup w" "f \<notin> set (g_fwdrs (w_group w g))" for g
    by (rule avail_inv_cong [of "{}" "w_fwdr w"]) (use ok that in \<open>auto simp: world_ok_def\<close>)
  have "group_static ?F (w_group ?w' g) \<and> avail_inv {} ?F (w_group ?w' g)" if g: "g < w_ngroup w" for g
  proof (cases "f_handlers (w_fwdr w f)")
    case Nil
    with \<open>wired w\<close> g have "f \<notin> set (g_fwdrs (w_group w g))" by (auto simp: wired_def)
    with Nil g show ?thesis by (simp add: static other del: upd_fwdr_simps(1))
  next
    case (Cons h hs)
    note h = wired_handler [OF \<open>wired w\<close> Cons]
    show ?thesis
    proof (cases "g = h")
      case True
      have "avail_inv {} ?F (status_changed ?F f (w_group w h))"
        using status_changed_inv [OF static keep] h by blast
      moreover have "group_static ?F (status_changed ?F f (w_group w h))"
        using static [OF h(3)] by (simp add: group_static_def del: upd_fwdr_simps(1))
      ultimately show ?thesis
        using True Cons h by (simp add: onStatusChanged_def del: upd_fwdr_simps(1))
    next
      case False
      with \<open>wired w\<close> g Cons have "f \<notin> set (g_fwdrs (w_group w g))" by (auto simp: wired_def)
      with False Cons h g show ?thesis
        by (simp add: onStatusChanged_def static other del: upd_fwdr_simps(1))
    qed
  qed
  with flags wired' show ?thesis by (simp add: world_ok_def del: upd_fwdr_simps(1))
qed

lemma world_ok_Enable: "world_ok w \<Longrightarrow> world_ok (Enable f w)"
  unfolding Enable_def Let_def
  by (auto intro!: world_ok_frame world_ok_flip)

lemma world_ok_Disable: "world_ok w \<Longrightarrow> world_ok (Disable f w)"
  unfolding Disable_def by (auto intro: world_ok_flip)

lemma world_ok_IncFailures: "world_ok w \<Longrightarrow> world_ok (IncFailures f w)"
  unfolding IncFailures_def Let_def
  by (auto intro!: world_ok_frame world_ok_Disable)

lemma world_ok_SetLatency: "world_ok w \<Longrightarrow> world_ok (SetLatency l f w)"
  unfolding SetLatency_def by (rule world_ok_frame) simp_all

lemma world_ok_SetMaxFailures: "world_ok w \<Longrightarrow> world_ok (SetMaxFailures l f w)"
  unfolding SetMaxFailures_def by (rule world_ok_frame) simp_all

lemma world_ok_upd_group:
  assumes "world_ok w" and "\<And>p. g_fwdrs (u p) = g_fwdrs p" "\<And>p. g_avail (u p) = g_avail p"
    and "\<And>p. g_priority (u p) = g_priority p"
  shows "world_ok (upd_group g u w)"
proof -
  have eq: "g_fwdrs (w_group (upd_group g u w) h) = g_fwdrs (w_group w h)"
    "g_avail (w_group (upd_group g u w) h) = g_avail (w_group w h)"
    "g_priority (w_group (upd_group g u w) h) = g_priority (w_group w h)" for h
    using assms(2-4) by simp_all
  show ?thesis
    using assms(1) unfolding world_ok_def wired_def group_static_def avail_inv_def eq upd_group_simps(1,4) .
qed

lemmas world_ok_ops = world_ok_Enable world_ok_Disable world_ok_IncFailures
  world_ok_SetLatency world_ok_SetMaxFailures

section \<open>What the operations do to the forwarders\<close>

lemma Enable_fwdr:
  "w_fwdr (Enable f w) = (w_fwdr w)(f := (w_fwdr w f)
     \<lparr>f_disabled := (if f_disabled (w_fwdr w f) = 1 then 0 else f_disabled (w_fwdr w f)),
      f_failures := 0\<rparr>)"
  by (simp add: Enable_def Let_def)

lemma Disable_fwdr:
  "w_fwdr (Disable f w) = (w_fwdr w)(f := (w_fwdr w f)
     \<lparr>f_disabled := (if f_disabled (w_fwdr w f) = 0 then 1 else f_disabled (w_fwdr w f))\<rparr>)"
  by (simp add: Disable_def)

lemma IncFailures_fwdr:
  "w_fwdr (IncFailures f w) = (w_fwdr w)(f := (w_fwdr w f)
     \<lparr>f_failures := f_failures (w_fwdr w f) + 1,
      f_disabled := (if f_maxFailures (w_fwdr w f) \<noteq> 0 \<and>
          f_failures (w_fwdr w f) + 1 = f_maxFailures (w_fwdr w f) \<and>
          f_disabled (w_fwdr w f) = 0 then 1 else f_disabled (w_fwdr w f))\<rparr>)"
  by (auto simp: IncFailures_def Let_def Disable_fwdr fun_eq_iff)

lemma ops_other [simp]:
  "f \<noteq> f' \<Longrightarrow> w_fwdr (Enable f w) f' = w_fwdr w f'"
  "f \<noteq> f' \<Longrightarrow> w_fwdr (Disable f w) f' = w_fwdr w f'"
  "f \<noteq> f' \<Longrightarrow> w_fwdr (IncFailures f w) f' = w_fwdr w f'"
  by (simp_all add: Enable_fwdr Disable_fwdr IncFailures_fwdr)

lemma ops_frame [simp]:
  "w_ngroup (Enable f w) = w_ngroup w" "w_ngroup (Disable f w) = w_ngroup w"
  "w_ngroup (IncFailures f w) = w_ngroup w"
  "g_fwdrs (w_group (Enable f w) g) = g_fwdrs (w_group w g)"
  "g_fwdrs (w_group (Disable f w) g) = g_fwdrs (w_group w g)"
  "g_fwdrs (w_group (IncFailures f w) g) = g_fwdrs (w_group w g)"
  by (simp_all add: Enable_def Disable_def IncFailures_def Let_def)

lemma f_failures_IncFailures_iter:
  "f_failures (w_fwdr ((IncFailures f ^^ k) w) f) = f_failures (w_fwdr w f) + of_nat k"
  by (induction k) (simp_all add: IncFailures_fwdr)

lemma f_maxFailures_IncFailures_iter:
  "f_maxFailures (w_fwdr ((IncFailures f ^^ k) w) f) = f_maxFailures (w_fwdr w f)"
  by (induction k) (simp_all add: IncFailures_fwdr)

text \<open>
  C2. Failure accounting. Starting enabled with a zero counter and a non-zero
  \<open>maxFailures\<close>, a forwarder that is charged \<open>k\<close> failures in a row stays enabled exactly as
  long as \<open>k < maxFailures\<close>: the failure that reaches the limit disables it, and no later one
  (not even after the 32-bit counter wraps) enables it again.
\<close>

theorem maxfailures_disables:
  assumes "f_disabled (w_fwdr w f) = 0" and "f_failures (w_fwdr w f) = 0"
    and "f_maxFailures (w_fwdr w f) \<noteq> 0"
  shows "f_failures (w_fwdr ((IncFailures f ^^ k) w) f) = of_nat k \<and>
    f_disabled (w_fwdr ((IncFailures f ^^ k) w) f) = (if k < unat (f_maxFailures (w_fwdr w f)) then 0 else 1)"
proof (induction k)
  case 0
  from assms(3) have "0 < unat (f_maxFailures (w_fwdr w f))" by (simp add: unat_gt_0)
  with assms show ?case by simp
next
  case (Suc k)
  let ?m = "f_maxFailures (w_fwdr w f)"
  have m: "f_maxFailures (w_fwdr ((IncFailures f ^^ k) w) f) = ?m"
    by (rule f_maxFailures_IncFailures_iter)
  have lim: "unat ?m < 2 ^ 32" using unsigned_less [of ?m] by simp
  have eq: "1 + of_nat k = ?m \<longleftrightarrow> Suc k = unat ?m" if "k < unat ?m"
  proof
    assume "1 + of_nat k = ?m"
    then have "unat (of_nat (Suc k) :: u32) = unat ?m" by simp
    with that lim show "Suc k = unat ?m" by (simp del: of_nat_Suc)
  next
    assume "Suc k = unat ?m"
    then have "of_nat (Suc k) = (of_nat (unat ?m) :: u32)" by simp
    then show "1 + of_nat k = ?m" by simp
  qed
  from Suc eq show ?case
    by (auto simp: IncFailures_fwdr m assms(3) add.commute)
qed

section \<open>Sample objects\<close>

text \<open>A configuration with the defaults of \<open>rule/config.go\<close>, and a forwarder built from its
  priority and its flag; the examples of the later theories are made of them.\<close>

definition sample_strategy :: Strategy where
  "sample_strategy = \<lparr>s_Strategy = ''rr'', s_Check = ''disable'', s_CheckInterval = 30,
     s_CheckTimeout = 10, s_CheckTolerance = 0, s_CheckLatencySamples = 10,
     s_CheckDisabledOnly = False, s_MaxFailures = 3, s_DialTimeout = 3, s_RelayTimeout = 0,
     s_IntFace = [], s_DialAttempts = 3, s_DialBudget = 8\<rparr>"

definition sample_fwdr :: "u32 \<Rightarrow> u32 \<Rightarrow> gid list \<Rightarrow> Forwarder" where
  "sample_fwdr pri dis hs = \<lparr>f_url = [], f_addr = [], f_priority = pri, f_maxFailures = 3,
     f_disabled = dis, f_failures = 0, f_latency = 0, f_intface = [], f_handlers = hs\<rparr>"

definition sample_group :: "fid list \<Rightarrow> fid list \<Rightarrow> u32 \<Rightarrow> scheduler \<Rightarrow> FwdrGroup" where
  "sample_group fs av pri sch = \<lparr>g_name = ''main'', g_config = sample_strategy, g_fwdrs = fs,
     g_avail = av, g_index = 0, g_priority = pri, g_next = sch, g_done = None,
     g_dialAttempts = 3, g_dialBudget = 8000000000\<rparr>"

theorem maxfailures_disables_witness:
  "f_disabled (w_fwdr ((IncFailures 0 ^^ 3)
     \<lparr>w_fwdr = (\<lambda>_. sample_fwdr 0 0 []), w_group = (\<lambda>_. sample_group [] [] 0 RR), w_nfwdr = 1, w_ngroup = 0\<rparr>) 0) = 1"
  using maxfailures_disables
    [of "\<lparr>w_fwdr = (\<lambda>_. sample_fwdr 0 0 []), w_group = (\<lambda>_. sample_group [] [] 0 RR), w_nfwdr = 1, w_ngroup = 0\<rparr>" 0 3]
  by (simp add: sample_fwdr_def)

end
