(* ===== verification/Status_Races.thy ===== *)
theory Status_Races
  imports Forwarding
begin

text \<open>
  Interleavings of status changes (\<open>Enable\<close>, \<open>Disable\<close> and \<open>onStatusChanged\<close> of package
  \<open>rule\<close>). \<open>Enable\<close> and \<open>Disable\<close> flip the flag with a compare-and-swap and run the handlers
  afterwards, without holding the group's lock in between, so several goroutines may have
  flipped flags before any handler runs. A state of the machine is the forwarder store, one
  group and the handler calls still due; a step is one compare-and-swap, one handler run
  under the lock, one update of a counter, a latency or the limit, or one pick that moves the
  round-robin index. The handler body reads the flags while it holds the lock, in one step.
\<close>

record gstate =
  gs_fwdr :: fstore
  gs_group :: FwdrGroup
  gs_due :: "fid list"

definition gs_upd :: "fid \<Rightarrow> (Forwarder \<Rightarrow> Forwarder) \<Rightarrow> gstate \<Rightarrow> gstate" where
  "gs_upd f u s = s\<lparr>gs_fwdr := (gs_fwdr s)(f := u (gs_fwdr s f))\<rparr>"

inductive status_step :: "gstate \<Rightarrow> gstate \<Rightarrow> bool" where
  cas_enable: "f \<in> set (g_fwdrs (gs_group s)) \<Longrightarrow> f_disabled (gs_fwdr s f) = 1 \<Longrightarrow>
     status_step s ((gs_upd f (f_disabled_update (\<lambda>_. 0)) s)\<lparr>gs_due := f # gs_due s\<rparr>)"
| cas_disable: "f \<in> set (g_fwdrs (gs_group s)) \<Longrightarrow> f_disabled (gs_fwdr s f) = 0 \<Longrightarrow>
     status_step s ((gs_upd f (f_disabled_update (\<lambda>_. 1)) s)\<lparr>gs_due := f # gs_due s\<rparr>)"
| handler: "f \<in> set (gs_due s) \<Longrightarrow>
     status_step s (s\<lparr>gs_group := status_changed (gs_fwdr s) f (gs_group s),
                      gs_due := remove1 f (gs_due s)\<rparr>)"
| count: "status_step s (gs_upd f (f_failures_update (\<lambda>_. n)) s)"
| latency: "status_step s (gs_upd f (f_latency_update (\<lambda>_. l)) s)"
| limit: "status_step s (gs_upd f (f_maxFailures_update (\<lambda>_. m)) s)"
| pick: "status_step s (s\<lparr>gs_group := (gs_group s)\<lparr>g_index := i\<rparr>\<rparr>)"

inductive_cases status_stepE: "status_step s t"

text \<open>The start: a freshly built group, \<open>newFwdrGroup\<close> has sorted its forwarders and run
  \<open>init\<close>, no handler is due.\<close>

definition status_start :: "gstate \<Rightarrow> bool" where
  "status_start s \<longleftrightarrow>
     group_static (gs_fwdr s) (gs_group s) \<and> gs_due s = [] \<and>
     (\<exists>p. g_fwdrs p = g_fwdrs (gs_group s) \<and> gs_group s = group_init (gs_fwdr s) p)"

definition status_inv :: "gstate \<Rightarrow> bool" where
  "status_inv s \<longleftrightarrow>
     group_static (gs_fwdr s) (gs_group s) \<and> set (gs_due s) \<subseteq> set (g_fwdrs (gs_group s)) \<and>
     avail_inv (set (gs_due s)) (gs_fwdr s) (gs_group s)"

lemma status_inv_start: "status_start s \<Longrightarrow> status_inv s"
proof -
  assume "status_start s"
  then obtain p where p: "g_fwdrs p = g_fwdrs (gs_group s)" "gs_group s = group_init (gs_fwdr s) p"
    and s: "group_static (gs_fwdr s) (gs_group s)" "gs_due s = []"
    unfolding status_start_def by blast
  then have "group_static (gs_fwdr s) p" by (simp add: group_static_def)
  then have "avail_inv {} (gs_fwdr s) (gs_group s)" by (subst p(2)) (rule group_init_inv)
  with s show ?thesis by (simp add: status_inv_def)
qed

text \<open>One preservation lemma per kind of step.\<close>

lemma status_inv_flip:
  assumes "status_inv s" and "f \<in> set (g_fwdrs (gs_group s))"
  shows "status_inv ((gs_upd f (f_disabled_update (\<lambda>_. v)) s)\<lparr>gs_due := f # gs_due s\<rparr>)"
proof -
  let ?F = "gs_fwdr (gs_upd f (f_disabled_update (\<lambda>_. v)) s)"
  have pri: "f_priority (?F x) = f_priority (gs_fwdr s x)" for x by (simp add: gs_upd_def)
  have "group_static ?F (gs_group s)"
    by (rule group_static_cong [of "gs_fwdr s"]) (use assms in \<open>simp_all add: status_inv_def pri\<close>)
  moreover have "avail_inv (insert f (set (gs_due s))) ?F (gs_group s)"
    by (rule avail_inv_cong [OF avail_inv_mono [of "set (gs_due s)" "gs_fwdr s"]])
      (use assms in \<open>auto simp: status_inv_def gs_upd_def\<close>)
  ultimately show ?thesis using assms by (auto simp: status_inv_def gs_upd_def)
qed

lemma status_inv_handler:
  assumes inv: "status_inv s" and f: "f \<in> set (gs_due s)"
  shows "status_inv (s\<lparr>gs_group := status_changed (gs_fwdr s) f (gs_group s),
                       gs_due := remove1 f (gs_due s)\<rparr>)"
proof -
  let ?U = "set (remove1 f (gs_due s))"
  from f have "set (gs_due s) \<subseteq> insert f ?U"
    by (metis in_set_remove1 insertCI insert_iff subsetI)
  with inv have "avail_inv (insert f ?U) (gs_fwdr s) (gs_group s)"
    by (auto simp: status_inv_def intro: avail_inv_mono)
  then have "avail_inv ?U (gs_fwdr s) (status_changed (gs_fwdr s) f (gs_group s))"
    using inv f by (intro status_changed_inv) (auto simp: status_inv_def)
  moreover have "?U \<subseteq> set (g_fwdrs (gs_group s))"
    using inv set_remove1_subset [of f "gs_due s"] by (auto simp: status_inv_def)
  moreover have "group_static (gs_fwdr s) (status_changed (gs_fwdr s) f (gs_group s))"
    using inv by (simp add: status_inv_def group_static_def)
  ultimately show ?thesis by (simp add: status_inv_def)
qed

lemma status_inv_frame:
  assumes "status_inv s" and "\<And>x. f_disabled (u x) = f_disabled x"
    and "\<And>x. f_priority (u x) = f_priority x"
  shows "status_inv (gs_upd f u s)"
proof -
  let ?F = "gs_fwdr (gs_upd f u s)"
  have eq: "f_priority (?F x) = f_priority (gs_fwdr s x)" "Enabled (?F x) = Enabled (gs_fwdr s x)" for x
    using assms by (simp_all add: gs_upd_def Enabled_def)
  have "group_static ?F (gs_group s)"
    by (rule group_static_cong [of "gs_fwdr s"]) (use assms in \<open>simp_all add: status_inv_def eq\<close>)
  moreover have "avail_inv (set (gs_due s)) ?F (gs_group s)"
    by (rule avail_inv_cong [of _ "gs_fwdr s"]) (use assms in \<open>simp_all add: status_inv_def eq\<close>)
  ultimately show ?thesis using assms(1) by (simp add: status_inv_def gs_upd_def)
qed

lemma status_inv_pick: "status_inv s \<Longrightarrow> status_inv (s\<lparr>gs_group := (gs_group s)\<lparr>g_index := i\<rparr>\<rparr>)"
  by (simp add: status_inv_def group_static_def avail_inv_def)

interpretation races: inductive_invariant status_start status_step status_inv
proof unfold_locales
  show "status_inv s" if "status_start s" for s
    using that by (rule status_inv_start)
  show "status_inv t" if "status_inv s" and "status_step s t" for s t
    using that(2,1)
    by (cases rule: status_step.cases)
      (simp_all add: status_inv_flip status_inv_handler status_inv_frame status_inv_pick)
qed


section \<open>Handlers whose flag reads are torn\<close>

text \<open>
  The lock of the group does not stop other goroutines from flipping flags, so the loads a
  handler makes need not see one state of the flags: \<open>onStatusChanged\<close> loads the flag of its
  forwarder, and each call of \<open>init\<close> walks the forwarders twice. In the finer machine every one
  of these passes has its own reading of the flags. A forwarder whose flag was flipped while
  the handler ran has a handler call of its own due (it cannot have run, for want of the
  lock), so a reading agrees with the current flags on every forwarder that has none due.
\<close>

definition init_with :: "(fid \<Rightarrow> bool) \<Rightarrow> (fid \<Rightarrow> bool) \<Rightarrow> fstore \<Rightarrow> FwdrGroup \<Rightarrow> FwdrGroup" where
  "init_with r1 r2 F p =
     (let pri = (case filter r1 (g_fwdrs p) of [] \<Rightarrow> g_priority p | f # _ \<Rightarrow> f_priority (F f));
          av = filter (\<lambda>f. r2 f \<and> pri \<le> f_priority (F f)) (g_fwdrs p)
      in p\<lparr>g_avail := av, g_priority := (if av = [] then 0 else pri)\<rparr>)"

record reading =
  rd_flag :: bool
  rd_up1 :: "fid \<Rightarrow> bool"
  rd_up2 :: "fid \<Rightarrow> bool"
  rd_end1 :: "fid \<Rightarrow> bool"
  rd_end2 :: "fid \<Rightarrow> bool"

definition status_changed_with :: "reading \<Rightarrow> fstore \<Rightarrow> fid \<Rightarrow> FwdrGroup \<Rightarrow> FwdrGroup" where
  "status_changed_with r F f p =
     (let p1 =
        (if rd_flag r then
           (if f_priority (F f) = g_priority p then
              (if inAvail p f then p else p\<lparr>g_avail := g_avail p @ [f]\<rparr>)
            else if g_priority p < f_priority (F f) then init_with (rd_up1 r) (rd_up2 r) F p
            else p)
         else p\<lparr>g_avail := swap_remove f (g_avail p)\<rparr>)
      in if g_avail p1 = [] then init_with (rd_end1 r) (rd_end2 r) F p1 else p1)"

definition agrees :: "fid list \<Rightarrow> fstore \<Rightarrow> (fid \<Rightarrow> bool) \<Rightarrow> bool" where
  "agrees due F r \<longleftrightarrow> (\<forall>x. x \<notin> set due \<longrightarrow> r x = Enabled (F x))"

definition possible_reading :: "fid list \<Rightarrow> fstore \<Rightarrow> fid \<Rightarrow> reading \<Rightarrow> bool" where
  "possible_reading due F f r \<longleftrightarrow>
     (f \<notin> set due \<longrightarrow> rd_flag r = Enabled (F f)) \<and>
     agrees due F (rd_up1 r) \<and> agrees due F (rd_up2 r) \<and>
     agrees due F (rd_end1 r) \<and> agrees due F (rd_end2 r)"

inductive torn_step :: "gstate \<Rightarrow> gstate \<Rightarrow> bool" where
  whole: "status_step s t \<Longrightarrow> torn_step s t"
| torn: "f \<in> set (gs_due s) \<Longrightarrow> possible_reading (remove1 f (gs_due s)) (gs_fwdr s) f r \<Longrightarrow>
     torn_step s (s\<lparr>gs_group := status_changed_with r (gs_fwdr s) f (gs_group s),
                    gs_due := remove1 f (gs_due s)\<rparr>)"

text \<open>With one reading for all passes the finer handler is the handler of the source.\<close>

lemma init_with_Enabled: "init_with (\<lambda>x. Enabled (F x)) (\<lambda>x. Enabled (F x)) F p = group_init F p"
proof -
  have "(case filter (\<lambda>x. Enabled (F x)) fs of [] \<Rightarrow> c | f # _ \<Rightarrow> f_priority (F f)) = init_priority F fs c"
    for fs c by (induction fs) auto
  then show ?thesis by (simp add: init_with_def group_init_def)
qed

lemma status_changed_whole:
  "status_changed_with \<lparr>rd_flag = Enabled (F f), rd_up1 = \<lambda>x. Enabled (F x), rd_up2 = \<lambda>x. Enabled (F x),
     rd_end1 = \<lambda>x. Enabled (F x), rd_end2 = \<lambda>x. Enabled (F x)\<rparr> F f p = status_changed F f p"
  by (simp add: status_changed_with_def status_changed_def init_with_Enabled Let_def)

lemma init_with_fields [simp]: "g_fwdrs (init_with r1 r2 F p) = g_fwdrs p"
  by (simp add: init_with_def Let_def)

lemma status_changed_with_fields [simp]: "g_fwdrs (status_changed_with r F f p) = g_fwdrs p"
  by (simp add: status_changed_with_def Let_def)

subsection \<open>The rotation stays a duplicate-free part of the group\<close>

definition rotation_inv :: "gstate \<Rightarrow> bool" where
  "rotation_inv s \<longleftrightarrow>
     distinct (g_fwdrs (gs_group s)) \<and> distinct (g_avail (gs_group s)) \<and>
     set (g_avail (gs_group s)) \<subseteq> set (g_fwdrs (gs_group s)) \<and>
     set (gs_due s) \<subseteq> set (g_fwdrs (gs_group s))"

lemma rotation_handler:
  assumes "distinct (g_fwdrs p)" "distinct (g_avail p)" "set (g_avail p) \<subseteq> set (g_fwdrs p)"
    and "f \<in> set (g_fwdrs p)"
  shows "distinct (g_avail (status_changed_with r F f p))"
    and "set (g_avail (status_changed_with r F f p)) \<subseteq> set (g_fwdrs p)"
  using assms
  by (auto simp: status_changed_with_def Let_def init_with_def inAvail_def set_swap_remove
      distinct_swap_remove split: if_splits)

lemma set_remove1_in: "x \<in> set (remove1 f xs) \<Longrightarrow> x \<in> set xs"
  using set_remove1_subset [of f xs] by blast

lemma rotation_inv_handler:
  assumes "rotation_inv s" and "f \<in> set (gs_due s)"
  shows "rotation_inv (s\<lparr>gs_group := status_changed_with r (gs_fwdr s) f (gs_group s),
                         gs_due := remove1 f (gs_due s)\<rparr>)"
proof -
  have "f \<in> set (g_fwdrs (gs_group s))" using assms by (auto simp: rotation_inv_def)
  with assms show ?thesis
    unfolding rotation_inv_def
    by (simp add: rotation_handler) (blast dest: set_remove1_in)
qed

lemma rotation_inv_status_step: "rotation_inv s \<Longrightarrow> status_step s t \<Longrightarrow> rotation_inv t"
proof (erule status_stepE)
  fix f assume "rotation_inv s" "f \<in> set (gs_due s)"
    "t = s\<lparr>gs_group := status_changed (gs_fwdr s) f (gs_group s), gs_due := remove1 f (gs_due s)\<rparr>"
  then show "rotation_inv t"
    using rotation_inv_handler by (simp flip: status_changed_whole)
qed (auto simp: rotation_inv_def gs_upd_def)

lemma rotation_inv_start: "status_start s \<Longrightarrow> rotation_inv s"
  using status_inv_start [of s] by (auto simp: status_inv_def rotation_inv_def avail_inv_def group_static_def)

interpretation torn_races: inductive_invariant status_start torn_step rotation_inv
proof unfold_locales
  show "rotation_inv s" if "status_start s" for s
    using that by (rule rotation_inv_start)
  show "rotation_inv t" if "rotation_inv s" and "torn_step s t" for s t
    using that(2,1)
    by (cases rule: torn_step.cases) (simp_all add: rotation_inv_status_step rotation_inv_handler)
qed

text \<open>
  At every moment of every interleaving, torn flag reads included, the rotation lists no
  forwarder twice, lists only forwarders of the group, and is at most as long as the group.
\<close>

theorem rotation_no_duplicates:
  assumes "reach status_start torn_step s"
  shows "distinct (g_avail (gs_group s)) \<and>
    set (g_avail (gs_group s)) \<subseteq> set (g_fwdrs (gs_group s)) \<and>
    length (g_avail (gs_group s)) \<le> length (g_fwdrs (gs_group s))"
proof -
  have "rotation_inv s" using assms by (rule torn_races.reach_inv)
  then have "distinct (g_avail (gs_group s))" "distinct (g_fwdrs (gs_group s))"
    "set (g_avail (gs_group s)) \<subseteq> set (g_fwdrs (gs_group s))"
    by (simp_all add: rotation_inv_def)
  then show ?thesis using card_mono [of "set (g_fwdrs (gs_group s))" "set (g_avail (gs_group s))"]
    by (simp add: distinct_card)
qed

subsection \<open>One priority for all: torn reads are harmless\<close>

definition uniform :: "u32 \<Rightarrow> gstate \<Rightarrow> bool" where
  "uniform c s \<longleftrightarrow> (\<forall>f \<in> set (g_fwdrs (gs_group s)). f_priority (gs_fwdr s f) = c)"

definition uniform_inv :: "u32 \<Rightarrow> gstate \<Rightarrow> bool" where
  "uniform_inv c s \<longleftrightarrow>
     rotation_inv s \<and> uniform c s \<and> g_priority (gs_group s) \<le> c \<and>
     (\<forall>f \<in> set (g_fwdrs (gs_group s)) - set (gs_due s).
        f \<in> set (g_avail (gs_group s)) \<longleftrightarrow> Enabled (gs_fwdr s f))"

lemma init_with_uniform:
  assumes "\<forall>f \<in> set (g_fwdrs p). f_priority (F f) = c" and "g_priority p \<le> c"
  shows "g_avail (init_with r1 r2 F p) = filter r2 (g_fwdrs p)"
    and "g_priority (init_with r1 r2 F p) \<le> c"
proof -
  let ?pri = "case filter r1 (g_fwdrs p) of [] \<Rightarrow> g_priority p | f # _ \<Rightarrow> f_priority (F f)"
  have pri: "?pri \<le> c"
  proof (cases "filter r1 (g_fwdrs p)")
    case Nil
    then show ?thesis using assms by simp
  next
    case (Cons f fs)
    then have "f \<in> set (filter r1 (g_fwdrs p))" by (simp del: set_filter)
    then have "f \<in> set (g_fwdrs p)" by simp
    with Cons assms show ?thesis by simp
  qed
  then have "filter (\<lambda>f. r2 f \<and> ?pri \<le> f_priority (F f)) (g_fwdrs p) = filter r2 (g_fwdrs p)"
    using assms by (intro filter_cong) auto
  then show "g_avail (init_with r1 r2 F p) = filter r2 (g_fwdrs p)"
    by (simp add: init_with_def Let_def)
  show "g_priority (init_with r1 r2 F p) \<le> c"
    using pri by (simp add: init_with_def Let_def)
qed

lemma agrees_filter:
  assumes "agrees due F r" and "x \<in> set fs - set due"
  shows "x \<in> set (filter r fs) \<longleftrightarrow> Enabled (F x)"
  using assms by (auto simp: agrees_def)

lemma uniform_handler:
  assumes uni: "\<forall>f \<in> set (g_fwdrs p). f_priority (F f) = c" and le: "g_priority p \<le> c"
    and dist: "distinct (g_avail p)"
    and old: "\<forall>x \<in> set (g_fwdrs p) - insert f (set due). x \<in> set (g_avail p) \<longleftrightarrow> Enabled (F x)"
    and f: "f \<in> set (g_fwdrs p)" and r: "possible_reading due F f r"
  shows "(\<forall>x \<in> set (g_fwdrs p) - set due.
      x \<in> set (g_avail (status_changed_with r F f p)) \<longleftrightarrow> Enabled (F x)) \<and>
    g_priority (status_changed_with r F f p) \<le> c"
proof -
  define p1 where "p1 =
    (if rd_flag r then
       (if f_priority (F f) = g_priority p then
          (if inAvail p f then p else p\<lparr>g_avail := g_avail p @ [f]\<rparr>)
        else if g_priority p < f_priority (F f) then init_with (rd_up1 r) (rd_up2 r) F p
        else p)
     else p\<lparr>g_avail := swap_remove f (g_avail p)\<rparr>)"
  have p1: "g_fwdrs p1 = g_fwdrs p" by (simp add: p1_def)
  have up: "g_avail (init_with r1 r2 F p) = filter r2 (g_fwdrs p)" "g_priority (init_with r1 r2 F p) \<le> c"
    for r1 r2 using init_with_uniform [OF uni le] by auto
  have mem: "x \<in> set (g_avail p1) \<longleftrightarrow> Enabled (F x)" if x: "x \<in> set (g_fwdrs p) - set due" for x
  proof -
    have up2: "x \<in> set (filter (rd_up2 r) (g_fwdrs p)) \<longleftrightarrow> Enabled (F x)"
      using r x by (intro agrees_filter) (auto simp: possible_reading_def)
    have flag: "x = f \<Longrightarrow> rd_flag r = Enabled (F f)" using r x by (auto simp: possible_reading_def)
    have "f_priority (F f) = c" using uni f by blast
    with x old flag up2 le dist show ?thesis
      by (auto simp: p1_def inAvail_def up set_swap_remove simp del: set_filter)
  qed
  have pri1: "g_priority p1 \<le> c" using le up by (simp add: p1_def)
  have sc: "status_changed_with r F f p =
      (if g_avail p1 = [] then init_with (rd_end1 r) (rd_end2 r) F p1 else p1)"
    unfolding status_changed_with_def Let_def p1_def ..
  have fin: "g_avail (init_with r1 r2 F p1) = filter r2 (g_fwdrs p)" "g_priority (init_with r1 r2 F p1) \<le> c"
    for r1 r2 using init_with_uniform [of p1 F c, OF _ pri1] uni p1 by auto
  have end2: "x \<in> set (filter (rd_end2 r) (g_fwdrs p)) \<longleftrightarrow> Enabled (F x)"
    if "x \<in> set (g_fwdrs p) - set due" for x
    using r that by (intro agrees_filter) (auto simp: possible_reading_def)
  show ?thesis using mem pri1 fin end2 by (simp add: sc)
qed

lemma uniform_inv_torn:
  assumes inv: "uniform_inv c s" and f: "f \<in> set (gs_due s)"
    and r: "possible_reading (remove1 f (gs_due s)) (gs_fwdr s) f r"
  shows "uniform_inv c (s\<lparr>gs_group := status_changed_with r (gs_fwdr s) f (gs_group s),
                         gs_due := remove1 f (gs_due s)\<rparr>)"
proof -
  have rot: "rotation_inv s" using inv by (simp add: uniform_inv_def)
  then have fin: "f \<in> set (g_fwdrs (gs_group s))" using f by (auto simp: rotation_inv_def)
  have due: "x = f \<or> x \<in> set (remove1 f (gs_due s))" if "x \<in> set (gs_due s)" for x
    using that by (metis in_set_remove1)
  have "(\<forall>x \<in> set (g_fwdrs (gs_group s)) - set (remove1 f (gs_due s)).
      x \<in> set (g_avail (status_changed_with r (gs_fwdr s) f (gs_group s))) \<longleftrightarrow> Enabled (gs_fwdr s x)) \<and>
    g_priority (status_changed_with r (gs_fwdr s) f (gs_group s)) \<le> c"
    by (rule uniform_handler [OF _ _ _ _ fin r])
      (use inv due in \<open>auto simp: uniform_inv_def uniform_def rotation_inv_def\<close>)
  with inv rotation_inv_handler [OF rot f, of r] show ?thesis
    by (simp add: uniform_inv_def uniform_def)
qed

lemma uniform_inv_status_step: "uniform_inv c s \<Longrightarrow> status_step s t \<Longrightarrow> uniform_inv c t"
proof (erule status_stepE)
  fix f assume "uniform_inv c s" "f \<in> set (gs_due s)"
    "t = s\<lparr>gs_group := status_changed (gs_fwdr s) f (gs_group s), gs_due := remove1 f (gs_due s)\<rparr>"
  then show "uniform_inv c t"
    by (subst (asm) status_changed_whole [symmetric])
      (auto intro!: uniform_inv_torn simp: possible_reading_def agrees_def)
qed (auto simp: uniform_inv_def uniform_def rotation_inv_def gs_upd_def Enabled_def)

lemma uniform_inv_start:
  assumes "status_start s" and "uniform c s"
  shows "uniform_inv c s"
proof -
  have inv: "status_inv s" "gs_due s = []"
    using assms status_inv_start by (auto simp: status_start_def)
  obtain p where p: "g_fwdrs p = g_fwdrs (gs_group s)" "gs_group s = group_init (gs_fwdr s) p"
    using assms by (auto simp: status_start_def)
  have a: "avail_inv {} (gs_fwdr s) (gs_group s)" using inv by (simp add: status_inv_def)
  have "g_priority (gs_group s) \<le> c"
  proof (cases "g_avail (gs_group s)")
    case Nil
    then show ?thesis using a by (simp add: avail_inv_def)
  next
    case (Cons x xs)
    then have "x \<in> set (g_avail (gs_group s))" by simp
    then show ?thesis using a assms(2) unfolding avail_inv_def uniform_def by (metis order_refl subsetD)
  qed
  moreover have "\<forall>f \<in> set (g_fwdrs (gs_group s)).
      f \<in> set (g_avail (gs_group s)) \<longleftrightarrow> Enabled (gs_fwdr s f)"
    using settled_rotation [OF a] assms(2) by (auto simp: uniform_def)
  ultimately show ?thesis
    using assms inv rotation_inv_start by (simp add: uniform_inv_def)
qed

interpretation uniform_races:
  inductive_invariant "\<lambda>s. status_start s \<and> uniform c s" torn_step "uniform_inv c" for c
proof unfold_locales
  show "uniform_inv c s" if "status_start s \<and> uniform c s" for s
    using that by (blast intro: uniform_inv_start)
  show "uniform_inv c t" if "uniform_inv c s" and "torn_step s t" for s t
    using that(2,1)
    by (cases rule: torn_step.cases) (simp_all add: uniform_inv_status_step uniform_inv_torn)
qed

text \<open>
  When all forwarders of a group have the same priority (the default), torn flag reads
  cannot hurt: once no handler call is outstanding, the rotation is exactly the set of
  enabled forwarders.
\<close>

theorem uniform_rotation_torn:
  assumes "reach (\<lambda>s. status_start s \<and> uniform c s) torn_step s" and "gs_due s = []"
  shows "set (g_avail (gs_group s)) = {f \<in> set (g_fwdrs (gs_group s)). Enabled (gs_fwdr s f)}"
proof -
  have "uniform_inv c s" using assms(1) by (rule uniform_races.reach_inv)
  with assms(2) show ?thesis by (auto simp: uniform_inv_def rotation_inv_def)
qed

section \<open>Examples of runs\<close>

text \<open>Three forwarders of priorities \<open>pr\<close> with flags \<open>d\<close>.\<close>

definition demo_store :: "(fid \<Rightarrow> u32) \<Rightarrow> (fid \<Rightarrow> u32) \<Rightarrow> fstore" where
  "demo_store pr d = (\<lambda>i. sample_fwdr (pr i) (d i) [0])"

definition demo :: "(fid \<Rightarrow> u32) \<Rightarrow> (fid \<Rightarrow> u32) \<Rightarrow> fid list \<Rightarrow> u32 \<Rightarrow> fid list \<Rightarrow> gstate" where
  "demo pr d av pri due =
     \<lparr>gs_fwdr = demo_store pr d, gs_group = sample_group [0, 1, 2] av pri RR, gs_due = due\<rparr>"

definition tiers :: "fid \<Rightarrow> u32" where
  "tiers i = (if i = 0 then 5 else if i = 1 then 3 else 0)"

lemma demo_flip:
  "gs_upd f (f_disabled_update (\<lambda>_. v)) (demo pr d av pri due) = demo pr (d(f := v)) av pri due"
  by (auto simp: gs_upd_def demo_def demo_store_def sample_fwdr_def fun_eq_iff)

lemma demo_on: "f \<in> {0, 1, 2} \<Longrightarrow> d f = 1 \<Longrightarrow>
    status_step (demo pr d av pri due) (demo pr (d(f := 0)) av pri (f # due))"
  using status_step.cas_enable [of f "demo pr d av pri due"]
  by (simp add: demo_flip) (simp add: demo_def demo_store_def sample_fwdr_def sample_group_def)

lemma demo_off: "f \<in> {0, 1, 2} \<Longrightarrow> d f = 0 \<Longrightarrow>
    status_step (demo pr d av pri due) (demo pr (d(f := 1)) av pri (f # due))"
  using status_step.cas_disable [of f "demo pr d av pri due"]
  by (simp add: demo_flip) (simp add: demo_def demo_store_def sample_fwdr_def sample_group_def)

lemma demo_run: "f \<in> set due \<Longrightarrow>
    status_changed (demo_store pr d) f (sample_group [0, 1, 2] av pri RR) = sample_group [0, 1, 2] av' pri' RR \<Longrightarrow>
    status_step (demo pr d av pri due) (demo pr d av' pri' (remove1 f due))"
  using status_step.handler [of f "demo pr d av pri due"] by (simp add: demo_def)

lemma demo_torn: "f \<in> set due \<Longrightarrow> possible_reading (remove1 f due) (demo_store pr d) f r \<Longrightarrow>
    status_changed_with r (demo_store pr d) f (sample_group [0, 1, 2] av pri RR) = sample_group [0, 1, 2] av' pri' RR \<Longrightarrow>
    torn_step (demo pr d av pri due) (demo pr d av' pri' (remove1 f due))"
  using torn_step.torn [of f "demo pr d av pri due" r] by (simp add: demo_def)

lemma demo_Enabled: "Enabled (demo_store pr d i) = (d i AND 1 \<noteq> 1)"
  by (simp add: demo_store_def sample_fwdr_def Enabled_def isTrue_def)

lemma demo_priority: "f_priority (demo_store pr d i) = pr i"
  by (simp add: demo_store_def sample_fwdr_def)

lemmas demo_eval = status_changed_def status_changed_with_def group_init_def init_with_def Let_def
  inAvail_def swap_remove_def demo_Enabled demo_priority sample_group_def tiers_def

lemma demo_start:
  assumes "sorted_wrt (\<lambda>x y. pr y \<le> pr x) [0, 1, 2]"
  shows "status_start (demo pr (\<lambda>_. 1) [] 0 [])"
  using assms unfolding status_start_def demo_def
  by (auto simp: group_static_def sorted_fwdrs_def demo_priority sample_group_def group_init_def
      demo_Enabled Let_def intro!: exI [of _ "sample_group [0, 1, 2] [] 0 RR"])

lemma demo_tiers_reach:
  "reach status_start status_step (demo tiers ((\<lambda>_. 1)(1 := 0, 0 := 0)) [0] 5 [])"
proof -
  let ?R = "reach status_start status_step"
  have "?R (demo tiers (\<lambda>_. 1) [] 0 [])"
    by (rule reach_start, rule demo_start) (simp add: tiers_def)
  then have "?R (demo tiers ((\<lambda>_. 1)(1 := 0)) [] 0 [1])"
    by (rule reach_step) (rule demo_on, simp_all)
  then have "?R (demo tiers ((\<lambda>_. 1)(1 := 0, 0 := 0)) [] 0 [0, 1])"
    by (rule reach_step) (rule demo_on, simp_all)
  then have "?R (demo tiers ((\<lambda>_. 1)(1 := 0, 0 := 0)) [0] 5 (remove1 1 [0, 1]))"
    by (rule reach_step) (rule demo_run, simp_all add: demo_eval)
  then have "?R (demo tiers ((\<lambda>_. 1)(1 := 0, 0 := 0)) [0] 5 (remove1 0 (remove1 1 [0, 1])))"
    by (rule reach_step) (rule demo_run, simp_all add: demo_eval)
  then show ?thesis by simp
qed


lemma reach_whole: "reach st status_step s \<Longrightarrow> reach st torn_step s"
  by (induction rule: reach.induct) (auto intro: reach.intros torn_step.whole)

theorem rotation_no_duplicates_witness:
  "distinct (g_avail (gs_group (demo tiers ((\<lambda>_. 1)(1 := 0, 0 := 0)) [0] 5 [])))"
  using rotation_no_duplicates [OF reach_whole [OF demo_tiers_reach]] by blast

theorem uniform_rotation_torn_witness:
  "set (g_avail (gs_group (demo (\<lambda>_. 7) ((\<lambda>_. 1)(2 := 0)) [2] 7 []))) = {2}"
proof -
  let ?R = "reach (\<lambda>s. status_start s \<and> uniform 7 s) torn_step"
  have "?R (demo (\<lambda>_. 7) (\<lambda>_. 1) [] 0 [])"
    by (rule reach_start, rule conjI, rule demo_start)
      (simp_all add: uniform_def demo_def demo_priority)
  then have "?R (demo (\<lambda>_. 7) ((\<lambda>_. 1)(2 := 0)) [] 0 [2])"
    by (rule reach_step) (rule torn_step.whole, rule demo_on, simp_all)
  then have "?R (demo (\<lambda>_. 7) ((\<lambda>_. 1)(2 := 0)) [2] 7 (remove1 2 [2]))"
    by (rule reach_step) (rule torn_step.whole, rule demo_run, simp_all add: demo_eval)
  then have r: "?R (demo (\<lambda>_. 7) ((\<lambda>_. 1)(2 := 0)) [2] 7 [])" by simp
  have "gs_due (demo (\<lambda>_. 7) ((\<lambda>_. 1)(2 := 0)) [2] 7 []) = []" by (simp add: demo_def)
  from uniform_rotation_torn [OF r this] show ?thesis
    by (simp add: demo_def sample_group_def demo_Enabled)
qed

subsection \<open>Several priorities: a torn read can leave a forwarder out for good\<close>

text \<open>
  C3. With several priorities in one group, torn reads can leave the rotation wrong with no
  handler call outstanding: forwarder \<open>1\<close> is enabled, the rotation holds only forwarder \<open>2\<close>,
  whose priority is lower, and since \<open>1\<close> is already enabled no later \<open>Enable\<close> of it runs a
  handler. The run: \<open>init\<close> sees forwarder \<open>0\<close> enabled in its first pass and disabled in its
  second, so it finds nobody of priority 5 and leaves an empty rotation of priority 0; the
  pending enable of forwarder \<open>2\<close> then matches that priority and is appended.
\<close>

theorem torn_rotation_misses_forwarder:
  "\<exists>s. reach status_start torn_step s \<and> gs_due s = [] \<and>
     g_fwdrs (gs_group s) = [0, 1, 2] \<and> g_avail (gs_group s) = [2] \<and>
     Enabled (gs_fwdr s 1) \<and> f_priority (gs_fwdr s 2) < f_priority (gs_fwdr s 1)"
proof -
  let ?R = "reach status_start torn_step"
  let ?d = "(\<lambda>_. 1)(1 := 0, 0 := 0, 0 := 1) :: fid \<Rightarrow> u32"
  let ?r = "\<lparr>rd_flag = False, rd_up1 = \<lambda>x. x = 1, rd_up2 = \<lambda>x. x = 1,
             rd_end1 = \<lambda>x. x \<in> {0, 1}, rd_end2 = \<lambda>x. x = 1\<rparr>"
  have "?R (demo tiers ((\<lambda>_. 1)(1 := 0, 0 := 0)) [0] 5 [])"
    by (rule reach_whole) (rule demo_tiers_reach)
  then have "?R (demo tiers ?d [0] 5 [0])"
    by (rule reach_step) (rule torn_step.whole, rule demo_off, simp_all)
  then have "?R (demo tiers (?d(0 := 0)) [0] 5 [0, 0])"
    by (rule reach_step) (rule torn_step.whole, rule demo_on, simp_all)
  then have "?R (demo tiers (?d(0 := 0, 0 := 1)) [0] 5 [0, 0, 0])"
    by (rule reach_step) (rule torn_step.whole, rule demo_off, simp_all)
  then have "?R (demo tiers ?d [0] 5 [0, 0, 0])" by simp
  then have "?R (demo tiers ?d [] 0 (remove1 0 [0, 0, 0]))"
    by (rule reach_step)
      (rule demo_torn [where r = ?r], simp_all add: demo_eval possible_reading_def agrees_def)
  then have "?R (demo tiers ?d [] 0 [0, 0])" by simp
  then have "?R (demo tiers (?d(2 := 0)) [] 0 [2, 0, 0])"
    by (rule reach_step) (rule torn_step.whole, rule demo_on, simp_all)
  then have "?R (demo tiers (?d(2 := 0)) [2] 0 (remove1 2 [2, 0, 0]))"
    by (rule reach_step) (rule torn_step.whole, rule demo_run, simp_all add: demo_eval)
  then have "?R (demo tiers (?d(2 := 0)) [2] 0 [0, 0])" by simp
  then have "?R (demo tiers (?d(2 := 0)) [2] 0 (remove1 0 [0, 0]))"
    by (rule reach_step) (rule torn_step.whole, rule demo_run, simp_all add: demo_eval)
  then have "?R (demo tiers (?d(2 := 0)) [2] 0 [0])" by simp
  then have "?R (demo tiers (?d(2 := 0)) [2] 0 (remove1 0 [0]))"
    by (rule reach_step) (rule torn_step.whole, rule demo_run, simp_all add: demo_eval)
  then show ?thesis
    by (intro exI [of _ "demo tiers (?d(2 := 0)) [2] 0 []"])
      (simp add: demo_def demo_Enabled demo_priority sample_group_def tiers_def)
qed

end
