(* ===== verification/GoNet.thy ===== *)
theory GoNet
  imports Prelude
begin

text \<open>
  The parts of Go's standard library the sources call on text: \<open>net.SplitHostPort\<close> and
  \<open>net.JoinHostPort\<close>, \<open>netip.ParseAddr\<close>, \<open>netip.ParsePrefix\<close> and \<open>Prefix.Contains\<close>,
  \<open>url.ParseQuery\<close>, \<open>strconv.ParseUint\<close> and \<open>strconv.Atoi\<close>. A Go error whose text no caller
  looks at is \<open>None\<close>.
\<close>

section \<open>Host and port\<close>

definition SplitHostPort :: "string \<Rightarrow> (string \<times> string) option" where
  "SplitHostPort hostport =
     (let i = LastIndexByte hostport CHR '':'' in
      if i < 0 then None
      else
        let port = drop (nat i + 1) hostport in
        if hostport ! 0 = CHR ''['' then
          let end = IndexByte hostport CHR '']'' in
          if end < 0 then None
          else if end + 1 \<noteq> i then None
          else if CHR ''['' \<in> set (drop 1 hostport) then None
          else if CHR '']'' \<in> set (drop (nat end + 1) hostport) then None
          else Some (take (nat end - 1) (drop 1 hostport), port)
        else
          let host = take (nat i) hostport in
          if CHR '':'' \<in> set host then None
          else if CHR ''['' \<in> set hostport then None
          else if CHR '']'' \<in> set hostport then None
          else Some (host, port))"

definition JoinHostPort :: "string \<Rightarrow> string \<Rightarrow> string" where
  "JoinHostPort host port =
     (if CHR '':'' \<in> set host then ''['' @ host @ '']:'' @ port else host @ '':'' @ port)"

text \<open>The host and port a call that ignores the error works with.\<close>

definition host_of :: "string \<Rightarrow> string" where
  "host_of s = (case SplitHostPort s of Some (h, _) \<Rightarrow> h | None \<Rightarrow> '''')"

definition port_of :: "string \<Rightarrow> string" where
  "port_of s = (case SplitHostPort s of Some (_, p) \<Rightarrow> p | None \<Rightarrow> '''')"

lemma LastIndexByte_last: "c \<notin> set ys \<Longrightarrow> LastIndexByte (xs @ c # ys) c = int (length xs)"
  using LastIndexByte_append [of xs "c # ys" c] LastIndexByte_none [of ys c] by (simp add: Let_def)

lemma IndexByte_first: "c \<notin> set xs \<Longrightarrow> IndexByte (xs @ c # ys) c = int (length xs)"
  by (induction xs) (auto simp: Let_def)

lemma SplitHostPort_Join:
  assumes "set (host @ port) \<inter> {CHR ''['', CHR '']''} = {}" and "CHR '':'' \<notin> set port"
  shows "SplitHostPort (JoinHostPort host port) = Some (host, port)"
proof (cases "CHR '':'' \<in> set host")
  case True
  let ?s = "(CHR ''['' # host @ [CHR '']'']) @ CHR '':'' # port"
  have s: "JoinHostPort host port = ?s" using True by (simp add: JoinHostPort_def)
  have i: "LastIndexByte ?s CHR '':'' = int (length host) + 2"
    using LastIndexByte_last [OF assms(2), of "CHR ''['' # host @ [CHR '']'']"] by simp
  have e: "IndexByte ?s CHR '']'' = int (length host) + 1"
    using IndexByte_first [of "CHR '']''" "CHR ''['' # host" "CHR '':'' # port"] assms(1) by auto
  show ?thesis
    unfolding s using assms
    by (simp only: SplitHostPort_def Let_def i e) (auto simp: nat_add_distrib)
next
  case False
  let ?s = "host @ CHR '':'' # port"
  have s: "JoinHostPort host port = ?s" using False by (simp add: JoinHostPort_def)
  have i: "LastIndexByte ?s CHR '':'' = int (length host)" by (rule LastIndexByte_last [OF assms(2)])
  have "?s ! 0 \<noteq> CHR ''[''" using assms(1) by (cases host) auto
  then show ?thesis
    unfolding s using assms False by (simp only: SplitHostPort_def Let_def i) auto
qed

section \<open>Numbers\<close>

definition is_digit :: "char \<Rightarrow> bool" where
  "is_digit c = (let n = of_char c :: nat in 48 \<le> n \<and> n \<le> 57)"

definition digit_val :: "char \<Rightarrow> nat" where
  "digit_val c = of_char c - 48"

definition hex_val :: "char \<Rightarrow> nat option" where
  "hex_val c = (let n = of_char c :: nat in
     if 48 \<le> n \<and> n \<le> 57 then Some (n - 48)
     else if 97 \<le> n \<and> n \<le> 102 then Some (n - 87)
     else if 65 \<le> n \<and> n \<le> 70 then Some (n - 55) else None)"

datatype num_error = ErrSyntax | ErrRange

text \<open>
  \<open>strconv.ParseUint(s, 10, bits)\<close>: the value together with the error. A syntax error yields
  0, a range error the largest value, and the characters behind the overflow are not read.
\<close>

fun uint_loop :: "nat \<Rightarrow> string \<Rightarrow> nat \<Rightarrow> nat \<times> num_error option" where
  "uint_loop maxv [] n = (n, None)"
| "uint_loop maxv (c # s) n =
     (if \<not> is_digit c then (0, Some ErrSyntax)
      else let n1 = n * 10 + digit_val c in
        if maxv < n1 then (maxv, Some ErrRange) else uint_loop maxv s n1)"

definition ParseUint :: "string \<Rightarrow> nat \<Rightarrow> nat \<times> num_error option" where
  "ParseUint s bits = (if s = [] then (0, Some ErrSyntax) else uint_loop (2 ^ bits - 1) s 0)"

text \<open>\<open>strconv.Atoi\<close> on a 64-bit platform; only success matters to its callers.\<close>

definition Atoi :: "string \<Rightarrow> int option" where
  "Atoi s = (case s of [] \<Rightarrow> None
     | c # cs \<Rightarrow>
        if c = CHR ''-'' then
          (case ParseUint cs 64 of (n, None) \<Rightarrow> if n \<le> 2 ^ 63 then Some (- int n) else None
           | _ \<Rightarrow> None)
        else
          (case ParseUint (if c = CHR ''+'' then cs else s) 64 of
             (n, None) \<Rightarrow> if n < 2 ^ 63 then Some (int n) else None
           | _ \<Rightarrow> None))"

section \<open>Addresses\<close>

text \<open>
  A \<open>netip.Addr\<close>: the four bytes of an IPv4 address, or the sixteen bytes and the zone of an
  IPv6 one.
\<close>

datatype netip_addr = Addr4 (addr_bytes: bytes) | Addr6 (addr_bytes: bytes) (addr_zone: string)

text \<open>\<open>addr_bytes\<close> is \<open>AsSlice\<close>, which drops the zone.\<close>

fun Is6 :: "netip_addr \<Rightarrow> bool" where
  "Is6 (Addr4 b) = False"
| "Is6 (Addr6 b z) = True"

fun IsUnspecified :: "netip_addr \<Rightarrow> bool" where
  "IsUnspecified (Addr4 b) \<longleftrightarrow> b = replicate 4 0"
| "IsUnspecified (Addr6 b z) \<longleftrightarrow> b = replicate 16 0 \<and> z = []"

fun parseIPv4Fields ::
  "string \<Rightarrow> char option \<Rightarrow> nat \<Rightarrow> nat \<Rightarrow> nat \<Rightarrow> bytes \<Rightarrow> bytes option" where
  "parseIPv4Fields [] prev v pos digLen fs =
     (if pos < 3 then None else Some (fs @ [of_nat v]))"
| "parseIPv4Fields (c # s) prev v pos digLen fs =
     (if is_digit c then
        if digLen = 1 \<and> v = 0 then None
        else let v1 = v * 10 + digit_val c in
          if 255 < v1 then None else parseIPv4Fields s (Some c) v1 pos (digLen + 1) fs
      else if c = CHR ''.'' then
        if prev = None \<or> s = [] \<or> prev = Some CHR ''.'' then None
        else if pos = 3 then None
        else parseIPv4Fields s (Some c) 0 (pos + 1) 0 (fs @ [of_nat v])
      else None)"

definition parseIPv4 :: "string \<Rightarrow> bytes option" where
  "parseIPv4 s = parseIPv4Fields s None 0 0 0 []"

text \<open>One group of hexadecimal digits: the digits read, their value, and the rest.\<close>

fun hex_group :: "string \<Rightarrow> nat \<Rightarrow> nat \<Rightarrow> (nat \<times> nat \<times> string) option" where
  "hex_group [] off acc = Some (off, acc, [])"
| "hex_group (c # s) off acc =
     (case hex_val c of
        None \<Rightarrow> Some (off, acc, c # s)
      | Some d \<Rightarrow> let a = acc * 16 + d in
          if 3 < off then None else if 65535 < a then None else hex_group s (off + 1) a)"

text \<open>The loop of \<open>parseIPv6\<close>: the bytes so far, the place of the ellipsis, the rest of the text.\<close>

function parseIPv6_loop ::
  "string \<Rightarrow> bytes \<Rightarrow> nat option \<Rightarrow> (string \<times> bytes \<times> nat option) option" where
  "parseIPv6_loop s ip ell =
     (if 16 \<le> length ip then Some (s, ip, ell)
      else case hex_group s 0 0 of
        None \<Rightarrow> None
      | Some (off, acc, rest) \<Rightarrow>
          if off = 0 then None
          else if rest \<noteq> [] \<and> hd rest = CHR ''.'' then
            if ell = None \<and> length ip \<noteq> 12 then None
            else if 16 < length ip + 4 then None
            else (case parseIPv4 s of None \<Rightarrow> None | Some b \<Rightarrow> Some ([], ip @ b, ell))
          else
            let ip1 = ip @ [of_nat (acc div 256), of_nat (acc mod 256)] in
            if rest = [] then Some ([], ip1, ell)
            else if hd rest \<noteq> CHR '':'' \<or> length rest = 1 then None
            else if rest ! 1 = CHR '':'' then
              if ell \<noteq> None then None
              else if length rest = 2 then Some ([], ip1, Some (length ip1))
              else parseIPv6_loop (drop 2 rest) ip1 (Some (length ip1))
            else parseIPv6_loop (drop 1 rest) ip1 ell)"
  by pat_completeness auto
termination by (relation "measure (\<lambda>(s, ip, ell). 16 - length ip)") auto

declare parseIPv6_loop.simps [simp del]

definition parseIPv6 :: "string \<Rightarrow> netip_addr option" where
  "parseIPv6 str =
     (let i = IndexByte str CHR ''%'';
          s = (if i = -1 then str else take (nat i) str);
          zone = (if i = -1 then [] else drop (nat i + 1) str)
      in if i \<noteq> -1 \<and> zone = [] then None
      else if take 2 s = ''::'' \<and> length s = 2 then Some (Addr6 (replicate 16 0) zone)
      else
        (case (if take 2 s = ''::'' then parseIPv6_loop (drop 2 s) [] (Some 0)
               else parseIPv6_loop s [] None) of
           None \<Rightarrow> None
         | Some (rest, ip, ell) \<Rightarrow>
             if rest \<noteq> [] then None
             else if length ip < 16 then
               (case ell of None \<Rightarrow> None
                | Some e \<Rightarrow> Some (Addr6 (take e ip @ replicate (16 - length ip) 0 @ drop e ip) zone))
             else if ell \<noteq> None then None
             else Some (Addr6 ip zone)))"

fun addr_kind :: "string \<Rightarrow> char option" where
  "addr_kind [] = None"
| "addr_kind (c # s) = (if c \<in> {CHR ''.'', CHR '':'', CHR ''%''} then Some c else addr_kind s)"

definition ParseAddr :: "string \<Rightarrow> netip_addr option" where
  "ParseAddr s = (case addr_kind s of
       None \<Rightarrow> None
     | Some c \<Rightarrow> if c = CHR ''.'' then map_option Addr4 (parseIPv4 s)
                else if c = CHR '':'' then parseIPv6 s else None)"

text \<open>A parsed address has four or sixteen bytes.\<close>

definition addr_ok :: "netip_addr \<Rightarrow> bool" where
  "addr_ok a = (case a of Addr4 b \<Rightarrow> length b = 4 | Addr6 b _ \<Rightarrow> length b = 16)"

lemma parseIPv4Fields_length:
  "parseIPv4Fields s prev v pos dl fs = Some b \<Longrightarrow> length fs = pos \<Longrightarrow> pos \<le> 3 \<Longrightarrow> length b = 4"
  by (induction s prev v pos dl fs rule: parseIPv4Fields.induct)
    (auto simp: Let_def split: if_splits)

lemma parseIPv4_length: "parseIPv4 s = Some b \<Longrightarrow> length b = 4"
  by (simp add: parseIPv4_def parseIPv4Fields_length)

lemma parseIPv6_loop_length:
  "parseIPv6_loop s ip ell = Some (rest, ip', ell') \<Longrightarrow> even (length ip) \<Longrightarrow> length ip \<le> 16 \<Longrightarrow>
     (\<forall>e. ell = Some e \<longrightarrow> e \<le> length ip) \<Longrightarrow>
     length ip' \<le> 16 \<and> (\<forall>e. ell' = Some e \<longrightarrow> e \<le> length ip')"
proof (induction s ip ell rule: parseIPv6_loop.induct)
  case (1 s ip ell)
  show ?case
  proof (cases "16 \<le> length ip")
    case True
    with 1(3-6) show ?thesis by (simp add: parseIPv6_loop.simps)
  next
    case False
    then have len: "length ip + 2 \<le> 16" using 1(4) by presburger
    obtain off acc r where h: "hex_group s 0 0 = Some (off, acc, r)" and off: "off \<noteq> 0"
      using 1(3) False by (subst (asm) parseIPv6_loop.simps) (auto split: option.splits if_splits)
    let ?ip1 = "ip @ [of_nat (acc div 256), of_nat (acc mod 256)]"
    have e: "\<forall>e. ell = Some e \<longrightarrow> e \<le> length ?ip1" using 1(6) by force
    note eq = 1(3) [unfolded parseIPv6_loop.simps [of s] h option.case prod.case Let_def, simplified False off if_False]
    show ?thesis
    proof (cases "r \<noteq> [] \<and> hd r = CHR ''.''")
      case True
      with eq 1(6) show ?thesis
        by (auto split: if_splits option.splits dest!: parseIPv4_length)
    next
      case dot: False
      note ih = 1(1,2) [OF False h refl refl off dot refl]
      consider "r = [] \<or> r ! 1 = CHR '':'' \<and> length r = 2" | "r \<noteq> []" "r ! 1 = CHR '':''" "length r \<noteq> 2"
        | "r \<noteq> []" "r ! 1 \<noteq> CHR '':''" by blast
      then show ?thesis
      proof cases
        case 1
        with eq dot len e show ?thesis by (auto split: if_splits)
      next
        case 2
        with eq dot have "hd r = CHR '':''" "length r \<noteq> 1" "ell = None"
          "parseIPv6_loop (drop 2 r) ?ip1 (Some (length ?ip1)) = Some (rest, ip', ell')"
          by (auto split: if_splits)
        with 2 len \<open>even (length ip)\<close> show ?thesis by (intro ih(1)) simp_all
      next
        case 3
        with eq dot have "hd r = CHR '':''" "length r \<noteq> 1"
          "parseIPv6_loop (drop 1 r) ?ip1 ell = Some (rest, ip', ell')"
          by (auto split: if_splits)
        with 3 len e \<open>even (length ip)\<close> show ?thesis by (intro ih(2)) simp_all
      qed
    qed
  qed
qed

lemma parseIPv6_ok: "parseIPv6 s = Some a \<Longrightarrow> addr_ok a"
  by (auto simp: parseIPv6_def addr_ok_def Let_def split: if_splits option.splits prod.splits
      dest: parseIPv6_loop_length)

lemma ParseAddr_ok: "ParseAddr s = Some a \<Longrightarrow> addr_ok a"
  by (auto simp: ParseAddr_def addr_ok_def parseIPv4_length split: if_splits option.splits
      dest: parseIPv6_ok)

text \<open>\<open>netip.Prefix\<close>, \<open>netip.ParsePrefix\<close> and \<open>Prefix.Contains\<close>.\<close>

record Prefix =
  p_ip :: netip_addr
  p_bits :: nat

definition ParsePrefix :: "string \<Rightarrow> Prefix option" where
  "ParsePrefix s =
     (let i = LastIndexByte s CHR ''/'' in
      if i < 0 then None
      else case ParseAddr (take (nat i) s) of
        None \<Rightarrow> None
      | Some ip \<Rightarrow>
          if (case ip of Addr6 _ z \<Rightarrow> z \<noteq> [] | _ \<Rightarrow> False) then None
          else let b = drop (nat i + 1) s in
            if 1 < length b \<and> \<not> (is_digit (b ! 0) \<and> b ! 0 \<noteq> CHR ''0'') then None
            else case Atoi b of
              None \<Rightarrow> None
            | Some n \<Rightarrow>
                if n < 0 \<or> (case ip of Addr4 _ \<Rightarrow> 32 | Addr6 _ _ \<Rightarrow> 128) < n then None
                else Some \<lparr>p_ip = ip, p_bits = nat n\<rparr>)"

fun addr_val :: "bytes \<Rightarrow> nat" where
  "addr_val [] = 0"
| "addr_val (b # bs) = unat b * 256 ^ length bs + addr_val bs"

definition Contains :: "Prefix \<Rightarrow> netip_addr \<Rightarrow> bool" where
  "Contains p ip = (case (p_ip p, ip) of
       (Addr4 a, Addr4 b) \<Rightarrow> addr_val a div 2 ^ (32 - p_bits p) = addr_val b div 2 ^ (32 - p_bits p)
     | (Addr6 a _, Addr6 b z) \<Rightarrow>
         z = [] \<and> addr_val a div 2 ^ (128 - p_bits p) = addr_val b div 2 ^ (128 - p_bits p)
     | _ \<Rightarrow> False)"

section \<open>Decimal and dotted text\<close>

text \<open>\<open>strconv.Itoa\<close> on natural numbers and \<open>Addr.String\<close> on IPv4 addresses.\<close>

fun dec :: "nat \<Rightarrow> string" where
  "dec n = (if n < 10 then [char_of (48 + n)] else dec (n div 10) @ [char_of (48 + n mod 10)])"

declare dec.simps [simp del]

definition dotted :: "bytes \<Rightarrow> string" where
  "dotted b = join_with ''.'' (map (\<lambda>x. dec (unat x)) b)"

lemma digit_of_nat [simp]:
  assumes "n < 10"
  shows "is_digit (char_of (48 + n))" and "digit_val (char_of (48 + n)) = n"
  using assms by (simp_all add: is_digit_def digit_val_def of_char_of Let_def)

lemma dec_nonempty [simp]: "dec n \<noteq> []"
  by (subst dec.simps) simp

lemma dec_digits: "c \<in> set (dec n) \<Longrightarrow> is_digit c"
  by (induction n rule: dec.induct) (subst (asm) (2) dec.simps, auto split: if_splits)

lemma uint_loop_append:
  "uint_loop m (s @ t) n =
     (case uint_loop m s n of (v, None) \<Rightarrow> uint_loop m t v | (v, Some e) \<Rightarrow> (v, Some e))"
  by (induction s arbitrary: n) (auto simp: Let_def)

lemma uint_loop_dec: "n \<le> m \<Longrightarrow> uint_loop m (dec n) 0 = (n, None)"
proof (induction n rule: dec.induct)
  case (1 n)
  show ?case
  proof (cases "n < 10")
    case True
    with 1 show ?thesis by (subst dec.simps) (simp add: Let_def)
  next
    case False
    with 1 have "uint_loop m (dec (n div 10)) 0 = (n div 10, None)" by simp
    moreover have "n div 10 * 10 + n mod 10 = n" by simp
    ultimately show ?thesis
      using False 1(2) by (subst dec.simps) (simp add: uint_loop_append Let_def)
  qed
qed

lemma ParseUint_dec: "n < 2 ^ bits \<Longrightarrow> ParseUint (dec n) bits = (n, None)"
  by (simp add: ParseUint_def uint_loop_dec)

lemma Atoi_dec:
  assumes "n < 2 ^ 63"
  shows "Atoi (dec n) = Some (int n)"
proof -
  obtain c cs where d: "dec n = c # cs" by (cases "dec n") auto
  then have "is_digit c" using dec_digits [of c n] by simp
  then have "c \<noteq> CHR ''-''" "c \<noteq> CHR ''+''" by (auto simp: is_digit_def)
  moreover have "ParseUint (dec n) 64 = (n, None)" using assms by (intro ParseUint_dec) simp
  ultimately show ?thesis using assms d by (simp add: Atoi_def)
qed

lemma dec_two: "a \<noteq> 0 \<Longrightarrow> a < 10 \<Longrightarrow> b < 10 \<Longrightarrow> dec (a * 10 + b) = [char_of (48 + a), char_of (48 + b)]"
  by (simp add: dec.simps)

lemma dec_three:
  assumes "a \<noteq> 0" and "a < 10" and "b < 10" and "c < 10"
  shows "dec ((a * 10 + b) * 10 + c) = [char_of (48 + a), char_of (48 + b), char_of (48 + c)]"
proof -
  let ?n = "(a * 10 + b) * 10 + c"
  have "\<not> ?n < 10" "?n div 10 = a * 10 + b" "?n mod 10 = c"
    using assms by (simp_all del: distrib_right_numeral) presburger
  then show ?thesis
    using assms by (simp add: dec.simps [of ?n] dec_two del: distrib_right_numeral)
qed

lemma parseIPv4Fields_dec:
  assumes "n < 256"
  shows "\<exists>c. is_digit c \<and> parseIPv4Fields (dec n @ s) prev 0 pos 0 fs =
    parseIPv4Fields s (Some c) n pos (length (dec n)) fs"
proof -
  define a b c where "a = n div 10 div 10" and "b = n div 10 mod 10" and "c = n mod 10"
  have n: "n = (a * 10 + b) * 10 + c" and bc: "b < 10" "c < 10" "a < 10"
    using assms by (simp_all add: a_def b_def c_def)
  have r: "is_digit (char_of (48 + c))" using bc by simp
  consider "a = 0" "b = 0" | "a = 0" "b \<noteq> 0" | "a \<noteq> 0" by blast
  then show ?thesis
  proof cases
    case 1
    then show ?thesis using n bc r by (intro exI [of _ "char_of (48 + c)"]) (simp add: dec.simps Let_def)
  next
    case 2
    then show ?thesis using n bc r by (intro exI [of _ "char_of (48 + c)"]) (simp add: dec_two Let_def)
  next
    case 3
    then show ?thesis using n bc r assms
      by (intro exI [of _ "char_of (48 + c)"]) (simp add: dec_three Let_def del: distrib_right_numeral)
  qed
qed

lemma not_digit_dot [simp]: "\<not> is_digit CHR ''.''"
  by (simp add: is_digit_def)

lemma digit_not_dot: "is_digit c \<Longrightarrow> c \<noteq> CHR ''.''"
  by auto

lemma parseIPv4Fields_dec_dot:
  assumes "n < 256" and "s \<noteq> []" and "pos < 3"
  shows "parseIPv4Fields (dec n @ CHR ''.'' # s) prev 0 pos 0 fs =
    parseIPv4Fields s (Some CHR ''.'') 0 (pos + 1) 0 (fs @ [of_nat n])"
proof -
  obtain c where "is_digit c" and
    "parseIPv4Fields (dec n @ CHR ''.'' # s) prev 0 pos 0 fs =
     parseIPv4Fields (CHR ''.'' # s) (Some c) n pos (length (dec n)) fs"
    using parseIPv4Fields_dec [OF assms(1)] by blast
  with assms(2,3) show ?thesis by auto
qed

lemma parseIPv4Fields_dec_end:
  assumes "n < 256"
  shows "parseIPv4Fields (dec n) prev 0 (Suc (Suc (Suc 0))) 0 fs = Some (fs @ [of_nat n])"
proof -
  obtain c where "parseIPv4Fields (dec n @ []) prev 0 (Suc (Suc (Suc 0))) 0 fs =
     parseIPv4Fields [] (Some c) n (Suc (Suc (Suc 0))) (length (dec n)) fs"
    using parseIPv4Fields_dec [OF assms] by blast
  then show ?thesis by simp
qed

lemma addr_kind_dec: "addr_kind (dec n @ s) = addr_kind s"
proof -
  have "\<forall>c \<in> set xs. is_digit c \<Longrightarrow> addr_kind (xs @ s) = addr_kind s" for xs
    by (induction xs) (auto simp: is_digit_def)
  then show ?thesis using dec_digits by blast
qed

lemma ParseAddr_dotted:
  assumes "length b = 4"
  shows "ParseAddr (dotted b) = Some (Addr4 b)"
proof -
  obtain w x y z where b: "b = [w, x, y, z]"
    using assms by (auto simp: numeral_eq_Suc length_Suc_conv)
  have small: "unat v < 256" for v :: u8 using unsigned_less [of v] by simp
  show ?thesis
    using small [of w] small [of x] small [of y] small [of z]
    by (simp add: b dotted_def ParseAddr_def addr_kind_dec parseIPv4_def parseIPv4Fields_dec_dot
        parseIPv4Fields_dec_end)
qed

section \<open>Query strings\<close>

definition strings_Cut :: "char \<Rightarrow> string \<Rightarrow> string \<times> string" where
  "strings_Cut c s = (takeWhile (\<lambda>x. x \<noteq> c) s, drop 1 (dropWhile (\<lambda>x. x \<noteq> c) s))"

text \<open>\<open>url.QueryUnescape\<close>.\<close>

fun QueryUnescape :: "string \<Rightarrow> string option" where
  "QueryUnescape [] = Some []"
| "QueryUnescape (c # s) =
     (if c = CHR ''%'' then
        (case s of
           a # b # t \<Rightarrow>
             (case (hex_val a, hex_val b) of
                (Some x, Some y) \<Rightarrow> map_option ((#) (char_of (x * 16 + y))) (QueryUnescape t)
              | _ \<Rightarrow> None)
         | _ \<Rightarrow> None)
      else map_option ((#) (if c = CHR ''+'' then CHR '' '' else c)) (QueryUnescape s))"

text \<open>
  \<open>url.ParseQuery\<close>: the well-formed pairs in order, and whether it reports an error.
  \<open>Values.Get\<close> is the first value of a key.
\<close>

fun query_pairs :: "string list \<Rightarrow> (string \<times> string) list \<times> bool" where
  "query_pairs [] = ([], False)"
| "query_pairs (k # ks) =
     (let (r, bad) = query_pairs ks in
      if CHR '';'' \<in> set k then (r, True)
      else if k = [] then (r, bad)
      else let (a, b) = strings_Cut CHR ''='' k in
        case (QueryUnescape a, QueryUnescape b) of
          (Some a', Some b') \<Rightarrow> ((a', b') # r, bad)
        | _ \<Rightarrow> (r, True))"

definition ParseQuery :: "string \<Rightarrow> (string \<times> string) list \<times> bool" where
  "ParseQuery q = query_pairs (split_on CHR ''&'' q)"

definition Values_Get :: "(string \<times> string) list \<Rightarrow> string \<Rightarrow> string" where
  "Values_Get q k = (case map_of q k of Some v \<Rightarrow> v | None \<Rightarrow> [])"

text \<open>\<open>strings.Contains(s, "://")\<close>.\<close>

fun contains_scheme_sep :: "string \<Rightarrow> bool" where
  "contains_scheme_sep [] = False"
| "contains_scheme_sep (c # s) = (take 3 (c # s) = ''://'' \<or> contains_scheme_sep s)"

lemma contains_scheme_sep_append [simp]: "contains_scheme_sep (s @ ''://'')"
  by (induction s) auto

end
