(* ===== verification/DnsMessage.thy ===== *)
theory DnsMessage
  imports GoNet
begin

text \<open>
  DNS messages (\<open>src/dns/message.go\<close>): the header, questions, resource records, names with
  compression pointers, and both directions of the codec.

  A received message is a slice of a pooled buffer: \<open>b_arr\<close> is the memory up to the slice's
  capacity and \<open>b_len\<close> its length. Indexing and slicing are checked the way Go checks them, a
  slice expression against the capacity, and a failed check is \<open>Panic\<close>. Following a compression
  pointer is a recursive call without a bound in the source; the first argument of \<open>dom_loop\<close>
  is the number of pointers that may still be followed and \<open>Diverge\<close> says that it ran out.
\<close>

unbundle bit_operations_syntax

section \<open>Messages\<close>

record Header =
  h_ID :: u16
  h_Bits :: u16
  h_QDCOUNT :: u16
  h_ANCOUNT :: u16
  h_NSCOUNT :: u16
  h_ARCOUNT :: u16

record Question =
  q_QNAME :: string
  q_QTYPE :: u16
  q_QCLASS :: u16

record RR =
  rr_NAME :: string
  rr_TYPE :: u16
  rr_CLASS :: u16
  rr_TTL :: u32
  rr_RDLENGTH :: u16
  rr_RDATA :: bytes
  rr_IP :: "netip_addr option"

record Message =
  m_Header :: Header
  m_Question :: Question
  m_Answers :: "RR list"

definition QTypeA :: u16 where "QTypeA = 1"
definition QTypeAAAA :: u16 where "QTypeAAAA = 28"
definition ClassINET :: u16 where "ClassINET = 1"
definition HeaderLen :: nat where "HeaderLen = 12"

datatype MsgType = QueryMsg | ResponseMsg

definition SetMsgType :: "MsgType \<Rightarrow> Header \<Rightarrow> Header" where
  "SetMsgType qr h = h\<lparr>h_Bits := h_Bits h OR push_bit 15 (case qr of QueryMsg \<Rightarrow> 0 | ResponseMsg \<Rightarrow> 1)\<rparr>"

definition SetTC :: "u16 \<Rightarrow> Header \<Rightarrow> Header" where
  "SetTC tc h = h\<lparr>h_Bits := h_Bits h OR push_bit 9 tc\<rparr>"

definition SetQdcount :: "int \<Rightarrow> Header \<Rightarrow> Header" where
  "SetQdcount n h = h\<lparr>h_QDCOUNT := of_int n\<rparr>"

definition SetAncount :: "int \<Rightarrow> Header \<Rightarrow> Header" where
  "SetAncount n h = h\<lparr>h_ANCOUNT := of_int n\<rparr>"

definition NewQuestion :: "u16 \<Rightarrow> string \<Rightarrow> Question" where
  "NewQuestion qtype domain = \<lparr>q_QNAME = domain, q_QTYPE = qtype, q_QCLASS = ClassINET\<rparr>"

text \<open>\<open>NewMessage\<close>; \<open>rnd\<close> is the identifier drawn when none is given. No question is set yet.\<close>

definition NewMessage :: "u16 \<Rightarrow> u16 \<Rightarrow> MsgType \<Rightarrow> Message" where
  "NewMessage rnd ident msgType =
     \<lparr>m_Header = SetMsgType msgType
        \<lparr>h_ID = (if ident = 0 then rnd else ident), h_Bits = 0, h_QDCOUNT = 0, h_ANCOUNT = 0, h_NSCOUNT = 0, h_ARCOUNT = 0\<rparr>,
      m_Question = \<lparr>q_QNAME = [], q_QTYPE = 0, q_QCLASS = 0\<rparr>, m_Answers = []\<rparr>"

definition SetQuestion :: "Question \<Rightarrow> Message \<Rightarrow> Message" where
  "SetQuestion q m = m\<lparr>m_Question := q, m_Header := SetQdcount 1 (m_Header m)\<rparr>"

definition AddAnswer :: "RR \<Rightarrow> Message \<Rightarrow> Message" where
  "AddAnswer rr m = m\<lparr>m_Answers := m_Answers m @ [rr]\<rparr>"

section \<open>Encoding\<close>

text \<open>The length byte of a label is the low byte of its length.\<close>

definition MarshalDomain :: "string \<Rightarrow> bytes" where
  "MarshalDomain domain =
     concat (map (\<lambda>seg. of_nat (length seg) # map char_byte seg) (split_on CHR ''.'' domain)) @ [0]"

definition MarshalHeader :: "Header \<Rightarrow> bytes" where
  "MarshalHeader h = be16 (h_ID h) @ be16 (h_Bits h) @ be16 (h_QDCOUNT h) @ be16 (h_ANCOUNT h) @
     be16 (h_NSCOUNT h) @ be16 (h_ARCOUNT h)"

definition MarshalQuestion :: "Question \<Rightarrow> bytes" where
  "MarshalQuestion q = MarshalDomain (q_QNAME q) @ be16 (q_QTYPE q) @ be16 (q_QCLASS q)"

definition MarshalRR :: "RR \<Rightarrow> bytes" where
  "MarshalRR rr = MarshalDomain (rr_NAME rr) @ be16 (rr_TYPE rr) @ be16 (rr_CLASS rr) @ be32 (rr_TTL rr) @
     be16 (rr_RDLENGTH rr) @ rr_RDATA rr"

definition Marshal :: "Message \<Rightarrow> bytes" where
  "Marshal m = MarshalHeader (SetAncount (int (length (m_Answers m))) (SetQdcount 1 (m_Header m))) @
     MarshalQuestion (m_Question m) @ concat (map MarshalRR (m_Answers m))"

section \<open>Decoding\<close>

record buf =
  b_arr :: bytes
  b_len :: nat

definition visible :: "buf \<Rightarrow> bytes" where
  "visible b = take (b_len b) (b_arr b)"

text \<open>\<open>binary.BigEndian.Uint16(b[i : i+2])\<close>, a slice expression checked against the capacity.\<close>

definition slice16 :: "buf \<Rightarrow> nat \<Rightarrow> u16 res" where
  "slice16 b i = (if i + 2 \<le> length (b_arr b) then Ok (be16_of (b_arr b ! i) (b_arr b ! (i + 1))) else Panic)"

text \<open>\<open>b[i:]\<close>, checked against the length.\<close>

definition suffix_from :: "buf \<Rightarrow> nat \<Rightarrow> buf res" where
  "suffix_from b i = (if i \<le> b_len b then Ok \<lparr>b_arr = drop i (b_arr b), b_len = b_len b - i\<rparr> else Panic)"

function dom_loop :: "nat \<Rightarrow> bytes \<Rightarrow> bytes \<Rightarrow> nat \<Rightarrow> string \<Rightarrow> (nat \<times> string) res" where
  "dom_loop d m b idx sb =
     (if length b \<le> idx then Ok (idx, sb)
      else if b ! idx AND 0xC0 = 0xC0 then
        if length b - idx < 2 then Err ''UnmarshalDomainTo: not enough size for compressed domain''
        else
          let offset = unat (be16_of (b ! idx) (b ! (idx + 1)) AND 0x3FFF) in
          if length m < offset then Err ''UnmarshalDomainPointTo: offset larger than msg length''
          else if d = 0 then Diverge
          else bind_res (dom_loop (d - 1) m (drop offset m) 0 sb) (\<lambda>(_, sb'). Ok (idx + 2, sb'))
      else
        let size = unat (b ! idx); idx1 = idx + 1 in
        if size = 0 then Ok (idx1, sb)
        else if 63 < size then Err ''UnmarshalDomainTo: label size larger than 63''
        else if length b < idx1 + size then Err ''UnmarshalDomainTo: label size larger than msg length''
        else dom_loop d m b (idx1 + size)
          (sb @ (if sb \<noteq> [] then ''.'' else []) @ map byte_char (take size (drop idx1 b))))"
  by pat_completeness auto
termination
  by (relation "measures [\<lambda>(d, m, b, idx, sb). d, \<lambda>(d, m, b, idx, sb). length b - idx]") auto

declare dom_loop.simps [simp del]

definition UnmarshalDomainTo :: "nat \<Rightarrow> bytes \<Rightarrow> bytes \<Rightarrow> (nat \<times> string) res" where
  "UnmarshalDomainTo d m b = dom_loop d m b 0 []"

definition UnmarshalHeader :: "bytes \<Rightarrow> Header res" where
  "UnmarshalHeader b =
     (if length b \<noteq> HeaderLen then Err ''unmarshal header bytes has an unexpected size''
      else Ok \<lparr>h_ID = be16_of (b ! 0) (b ! 1), h_Bits = be16_of (b ! 2) (b ! 3), h_QDCOUNT = be16_of (b ! 4) (b ! 5),
        h_ANCOUNT = be16_of (b ! 6) (b ! 7), h_NSCOUNT = be16_of (b ! 8) (b ! 9), h_ARCOUNT = be16_of (b ! 10) (b ! 11)\<rparr>)"

definition UnmarshalQuestion :: "nat \<Rightarrow> bytes \<Rightarrow> buf \<Rightarrow> (Question \<times> nat) res" where
  "UnmarshalQuestion d m b =
     (if b_len b \<le> 5 then Err ''UnmarshalQuestion: not enough data''
      else bind_res (UnmarshalDomainTo d m (visible b)) (\<lambda>(idx, name).
        bind_res (slice16 b idx) (\<lambda>qtype.
        bind_res (slice16 b (idx + 2)) (\<lambda>qclass.
        Ok (\<lparr>q_QNAME = name, q_QTYPE = qtype, q_QCLASS = qclass\<rparr>, idx + 3 + 1)))))"

text \<open>\<open>rr.RDATA[:n]\<close> may read past the record, up to the capacity of the buffer.\<close>

definition rdata_prefix :: "bytes \<Rightarrow> nat \<Rightarrow> bytes res" where
  "rdata_prefix arr n = (if n \<le> length arr then Ok (take n arr) else Panic)"

definition UnmarshalRR :: "nat \<Rightarrow> buf \<Rightarrow> nat \<Rightarrow> (RR \<times> nat) res" where
  "UnmarshalRR d m start =
     bind_res (suffix_from m start) (\<lambda>p.
     bind_res (UnmarshalDomainTo d (visible m) (visible p)) (\<lambda>(n, name).
       if b_len p \<le> n + 10 then Err ''UnmarshalRR: not enough data''
       else
         let a = b_arr p;
             ty = be16_of (a ! n) (a ! (n + 1));
             rdlen = be16_of (a ! (n + 8)) (a ! (n + 9));
             rr = \<lparr>rr_NAME = name, rr_TYPE = ty, rr_CLASS = be16_of (a ! (n + 2)) (a ! (n + 3)),
                   rr_TTL = be32_of (a ! (n + 4)) (a ! (n + 5)) (a ! (n + 6)) (a ! (n + 7)),
                   rr_RDLENGTH = rdlen, rr_RDATA = take (unat rdlen) (drop (n + 10) a), rr_IP = None\<rparr>
         in if b_len p < n + 10 + unat rdlen then Err ''UnmarshalRR: not enough data for RDATA''
            else
              bind_res
                (if ty = QTypeA then bind_res (rdata_prefix (drop (n + 10) a) 4) (\<lambda>x. Ok (Some (Addr4 x)))
                 else if ty = QTypeAAAA then bind_res (rdata_prefix (drop (n + 10) a) 16) (\<lambda>x. Ok (Some (Addr6 x [])))
                 else Ok None)
                (\<lambda>ip. Ok (rr\<lparr>rr_IP := ip\<rparr>, n + 10 + unat rdlen))))"

fun rr_loop :: "nat \<Rightarrow> buf \<Rightarrow> nat \<Rightarrow> nat \<Rightarrow> RR list \<Rightarrow> RR list res" where
  "rr_loop d m 0 rrIdx acc = Ok acc"
| "rr_loop d m (Suc k) rrIdx acc =
     bind_res (UnmarshalRR d m rrIdx) (\<lambda>(rr, rrLen). rr_loop d m k (rrIdx + rrLen) (acc @ [rr]))"

definition UnmarshalMessage :: "nat \<Rightarrow> buf \<Rightarrow> Message res" where
  "UnmarshalMessage d b =
     (if b_len b < HeaderLen then Err ''UnmarshalMessage: not enough data''
      else bind_res (UnmarshalHeader (take HeaderLen (b_arr b))) (\<lambda>h.
        bind_res (UnmarshalQuestion d (visible b) \<lparr>b_arr = drop HeaderLen (b_arr b), b_len = b_len b - HeaderLen\<rparr>) (\<lambda>(q, qLen).
        bind_res (rr_loop d b (unat (h_ANCOUNT h)) (HeaderLen + qLen) []) (\<lambda>answers.
          Ok \<lparr>m_Header = SetAncount (int (length answers)) (SetQdcount 1 h), m_Question = q, m_Answers = answers\<rparr>))))"

section \<open>Names\<close>

definition name_ok :: "string \<Rightarrow> bool" where
  "name_ok s \<longleftrightarrow> (\<forall>seg \<in> set (split_on CHR ''.'' s). 0 < length seg \<and> length seg \<le> 63)"

definition enc_labels :: "string list \<Rightarrow> bytes" where
  "enc_labels ls = concat (map (\<lambda>seg. of_nat (length seg) # map char_byte seg) ls)"

lemma enc_labels_simps [simp]:
  "enc_labels [] = []" "enc_labels (l # ls) = of_nat (length l) # map char_byte l @ enc_labels ls"
  by (simp_all add: enc_labels_def)

lemma MarshalDomain_labels: "MarshalDomain s = enc_labels (split_on CHR ''.'' s) @ [0]"
  by (simp add: MarshalDomain_def enc_labels_def)

definition add_label :: "string \<Rightarrow> string \<Rightarrow> string" where
  "add_label seg sb = sb @ (if sb \<noteq> [] then ''.'' else []) @ seg"

lemma label_byte:
  fixes n :: nat
  assumes "n \<le> 63"
  shows "unat (of_nat n :: u8) = n" and "(of_nat n :: u8) AND 0xC0 \<noteq> 0xC0"
proof -
  show u: "unat (of_nat n :: u8) = n" using assms by (intro unat_of_nat_small) simp
  have "\<not> bit (unat (of_nat n :: u8)) 7" unfolding u using assms by (simp add: bit_iff_odd)
  then have "\<not> bit (of_nat n :: u8) 7" by (simp only: bit_unsigned_iff) simp
  then have "\<not> bit ((of_nat n :: u8) AND 0xC0) 7" by (simp add: bit_and_iff)
  moreover have "bit (0xC0 :: u8) 7" by (simp add: bit_iff_odd)
  ultimately show "(of_nat n :: u8) AND 0xC0 \<noteq> 0xC0" by metis
qed

lemma dom_loop_label:
  assumes "0 < length seg" and "length seg \<le> 63"
  shows "dom_loop d m (pre @ (of_nat (length seg) # map char_byte seg) @ rest) (length pre) sb =
    dom_loop d m (pre @ (of_nat (length seg) # map char_byte seg) @ rest) (length pre + 1 + length seg) (add_label seg sb)"
  using assms label_byte [OF assms(2)]
  by (subst dom_loop.simps) (simp add: nth_append Let_def add_label_def o_def)

lemma dom_loop_labels:
  assumes "\<forall>seg \<in> set ls. 0 < length seg \<and> length seg \<le> 63"
  shows "dom_loop d m (pre @ enc_labels ls @ rest) (length pre) sb =
    dom_loop d m (pre @ enc_labels ls @ rest) (length pre + length (enc_labels ls)) (fold add_label ls sb)"
  using assms
proof (induction ls arbitrary: pre sb)
  case (Cons l ls)
  have "dom_loop d m ((pre @ (of_nat (length l) # map char_byte l)) @ enc_labels ls @ rest)
      (length (pre @ (of_nat (length l) # map char_byte l))) (add_label l sb) =
    dom_loop d m ((pre @ (of_nat (length l) # map char_byte l)) @ enc_labels ls @ rest)
      (length (pre @ (of_nat (length l) # map char_byte l)) + length (enc_labels ls)) (fold add_label ls (add_label l sb))"
    by (rule Cons.IH) (use Cons.prems in simp)
  with Cons.prems dom_loop_label [of l d m pre "enc_labels ls @ rest" sb] show ?case
    by (simp add: add.assoc)
qed simp

lemma add_label_simps [simp]: "add_label seg [] = seg" "sb \<noteq> [] \<Longrightarrow> add_label seg sb = sb @ ''.'' @ seg"
  by (simp_all add: add_label_def)

lemma fold_add_label: "sb \<noteq> [] \<Longrightarrow> ls \<noteq> [] \<Longrightarrow> fold add_label ls sb = sb @ ''.'' @ join_with ''.'' ls"
proof (induction ls arbitrary: sb rule: induct_list012)
  case (3 x y zs)
  have "fold add_label (y # zs) (sb @ ''.'' @ x) = (sb @ ''.'' @ x) @ ''.'' @ join_with ''.'' (y # zs)"
    by (rule 3(2)) simp_all
  with 3(3) show ?case by simp
qed simp_all

lemma fold_add_label_join:
  assumes "\<forall>seg \<in> set ls. 0 < length seg"
  shows "fold add_label ls [] = join_with ''.'' ls"
proof (cases ls)
  case (Cons l ls')
  then show ?thesis
    using assms fold_add_label [of l ls'] by (cases ls') auto
qed simp

text \<open>
  A name that ends in its root label, and one that ends in a pointer: what follows does not matter, and
  the pointer stands for the name at its target.
\<close>

lemma UnmarshalDomainTo_plain:
  assumes "name_ok s"
  shows "UnmarshalDomainTo d m (MarshalDomain s @ rest) = Ok (length (MarshalDomain s), s)"
proof -
  let ?ls = "split_on CHR ''.'' s"
  have ok: "\<forall>seg \<in> set ?ls. 0 < length seg \<and> length seg \<le> 63" using assms by (simp add: name_ok_def)
  have "dom_loop d m (enc_labels ?ls @ [0] @ rest) 0 [] =
      dom_loop d m (enc_labels ?ls @ [0] @ rest) (length (enc_labels ?ls)) (fold add_label ?ls [])"
    using dom_loop_labels [OF ok, of d m "[]" "[0] @ rest" "[]"] by simp
  also have "\<dots> = Ok (length (enc_labels ?ls) + 1, fold add_label ?ls [])"
    by (subst dom_loop.simps) (simp add: Let_def)
  also have "fold add_label ?ls [] = s" using ok fold_add_label_join [of ?ls] by simp
  finally show ?thesis by (simp add: UnmarshalDomainTo_def MarshalDomain_labels)
qed

lemma UnmarshalDomainTo_pointer:
  assumes "\<forall>seg \<in> set ls. 0 < length seg \<and> length seg \<le> 63"
    and "c AND 0xC0 = 0xC0" and "off = unat (be16_of c e AND 0x3FFF)" and "off \<le> length m"
    and "dom_loop d m (drop off m) 0 (fold add_label ls []) = Ok (n, s)"
  shows "UnmarshalDomainTo (Suc d) m (enc_labels ls @ [c, e] @ rest) = Ok (length (enc_labels ls) + 2, s)"
proof -
  have "dom_loop (Suc d) m (enc_labels ls @ [c, e] @ rest) 0 [] =
      dom_loop (Suc d) m (enc_labels ls @ [c, e] @ rest) (length (enc_labels ls)) (fold add_label ls [])"
    using dom_loop_labels [OF assms(1), of "Suc d" m "[]" "[c, e] @ rest" "[]"] by simp
  also have "\<dots> = Ok (length (enc_labels ls) + 2, s)"
    using assms(2-5) by (subst dom_loop.simps) (simp add: Let_def nth_append)
  finally show ?thesis by (simp add: UnmarshalDomainTo_def)
qed

section \<open>Round trips\<close>

lemma be16_of_nth [simp]: "be16_of (be16 w ! 0) (be16 w ! Suc 0) = w"
  by (simp add: be16_def)

lemma be32_of_nth [simp]: "be32_of (be32 w ! 0) (be32 w ! Suc 0) (be32 w ! 2) (be32 w ! 3) = w"
  by (simp add: be32_def numeral_2_eq_2 numeral_3_eq_3)

lemma UnmarshalHeader_Marshal: "UnmarshalHeader (MarshalHeader h) = Ok h"
  by (simp add: UnmarshalHeader_def MarshalHeader_def HeaderLen_def be16_def)

lemma length_MarshalHeader [simp]: "length (MarshalHeader h) = HeaderLen"
  by (simp add: MarshalHeader_def HeaderLen_def)

lemma UnmarshalQuestion_Marshal:
  assumes "name_ok (q_QNAME q)" and "b_arr b = MarshalQuestion q @ rest" and "length (MarshalQuestion q) \<le> b_len b"
  shows "UnmarshalQuestion d m b = Ok (q, length (MarshalQuestion q))"
proof -
  let ?D = "MarshalDomain (q_QNAME q)"
  have vis: "visible b = ?D @ take (b_len b - length ?D) (be16 (q_QTYPE q) @ be16 (q_QCLASS q) @ rest)"
    using assms(2,3) by (simp add: visible_def MarshalQuestion_def)
  have two: "2 \<le> length ?D"
  proof -
    obtain l ls where "split_on CHR ''.'' (q_QNAME q) = l # ls" using split_on_nonempty by (meson neq_Nil_conv)
    then show ?thesis by (simp add: MarshalDomain_labels)
  qed
  have "slice16 b (length ?D) = Ok (q_QTYPE q)" "slice16 b (length ?D + 2) = Ok (q_QCLASS q)"
    by (simp_all add: slice16_def assms(2) MarshalQuestion_def nth_append be16_def)
  moreover have "5 < b_len b" using assms(3) two by (simp add: MarshalQuestion_def)
  ultimately show ?thesis
    using UnmarshalDomainTo_plain [OF assms(1), of d m]
    by (simp add: UnmarshalQuestion_def vis MarshalQuestion_def)
qed

definition rr_addr :: "RR \<Rightarrow> netip_addr option" where
  "rr_addr rr = (if rr_TYPE rr = QTypeA then Some (Addr4 (take 4 (rr_RDATA rr)))
     else if rr_TYPE rr = QTypeAAAA then Some (Addr6 (take 16 (rr_RDATA rr)) []) else None)"

definition rr_ok :: "RR \<Rightarrow> bool" where
  "rr_ok rr \<longleftrightarrow> name_ok (rr_NAME rr) \<and> rr_RDATA rr \<noteq> [] \<and> unat (rr_RDLENGTH rr) = length (rr_RDATA rr) \<and>
     (rr_TYPE rr = QTypeA \<longrightarrow> 4 \<le> length (rr_RDATA rr)) \<and> (rr_TYPE rr = QTypeAAAA \<longrightarrow> 16 \<le> length (rr_RDATA rr)) \<and>
     rr_IP rr = rr_addr rr"

lemma UnmarshalRR_Marshal:
  assumes "rr_ok rr" and "b_arr m = pre @ MarshalRR rr @ rest" and "length pre + length (MarshalRR rr) \<le> b_len m"
  shows "UnmarshalRR d m (length pre) = Ok (rr, length (MarshalRR rr))"
proof -
  let ?D = "MarshalDomain (rr_NAME rr)"
  let ?n = "length ?D"
  have ok: "name_ok (rr_NAME rr)" "rr_RDATA rr \<noteq> []" "unat (rr_RDLENGTH rr) = length (rr_RDATA rr)"
    "rr_TYPE rr = QTypeA \<Longrightarrow> 4 \<le> length (rr_RDATA rr)" "rr_TYPE rr = QTypeAAAA \<Longrightarrow> 16 \<le> length (rr_RDATA rr)"
    "rr_IP rr = rr_addr rr"
    using assms(1) by (auto simp: rr_ok_def)
  define p where "p = \<lparr>b_arr = MarshalRR rr @ rest, b_len = b_len m - length pre\<rparr>"
  have sf: "suffix_from m (length pre) = Ok p" using assms(2,3) by (simp add: suffix_from_def p_def)
  have arr: "b_arr p = ?D @ be16 (rr_TYPE rr) @ be16 (rr_CLASS rr) @ be32 (rr_TTL rr) @ be16 (rr_RDLENGTH rr) @ rr_RDATA rr @ rest"
    by (simp add: p_def MarshalRR_def)
  have len: "?n + 10 + length (rr_RDATA rr) \<le> b_len p" using assms(3) by (simp add: p_def MarshalRR_def)
  have vis: "\<exists>r. visible p = ?D @ r" using len by (simp add: visible_def arr)
  then have dn: "UnmarshalDomainTo d (visible m) (visible p) = Ok (?n, rr_NAME rr)"
    using UnmarshalDomainTo_plain [OF ok(1)] by auto
  let ?a = "b_arr p"
  have f: "be16_of (?a ! ?n) (?a ! (?n + 1)) = rr_TYPE rr" "be16_of (?a ! (?n + 2)) (?a ! (?n + 3)) = rr_CLASS rr"
    "be32_of (?a ! (?n + 4)) (?a ! (?n + 5)) (?a ! (?n + 6)) (?a ! (?n + 7)) = rr_TTL rr"
    "be16_of (?a ! (?n + 8)) (?a ! (?n + 9)) = rr_RDLENGTH rr" "drop (?n + 10) ?a = rr_RDATA rr @ rest"
    by (simp_all add: arr nth_append be16_def be32_def)
  have "0 < length (rr_RDATA rr)" using ok(2) by simp
  then have "\<not> b_len p \<le> ?n + 10" "\<not> b_len p < ?n + 10 + unat (rr_RDLENGTH rr)"
    using len unfolding ok(3) by linarith+
  moreover have "(if rr_TYPE rr = QTypeA then bind_res (rdata_prefix (rr_RDATA rr @ rest) 4) (\<lambda>x. Ok (Some (Addr4 x)))
      else if rr_TYPE rr = QTypeAAAA then bind_res (rdata_prefix (rr_RDATA rr @ rest) 16) (\<lambda>x. Ok (Some (Addr6 x [])))
      else Ok None) = Ok (rr_IP rr)"
    using ok(4-6) by (auto simp: rdata_prefix_def rr_addr_def)
  ultimately show ?thesis
    unfolding UnmarshalRR_def sf bind_res.simps dn prod.case Let_def f
    using ok(3) by (simp add: MarshalRR_def)
qed

lemma rr_loop_Marshal:
  assumes "\<forall>rr \<in> set rrs. rr_ok rr" and "b_arr m = pre @ concat (map MarshalRR rrs) @ rest"
    and "length pre + length (concat (map MarshalRR rrs)) \<le> b_len m"
  shows "rr_loop d m (length rrs) (length pre) acc = Ok (acc @ rrs)"
  using assms
proof (induction rrs arbitrary: pre acc)
  case (Cons rr rrs)
  have 1: "UnmarshalRR d m (length pre) = Ok (rr, length (MarshalRR rr))"
    by (rule UnmarshalRR_Marshal [where rest = "concat (map MarshalRR rrs) @ rest"]) (use Cons.prems in auto)
  have "rr_loop d m (length rrs) (length (pre @ MarshalRR rr)) (acc @ [rr]) = Ok ((acc @ [rr]) @ rrs)"
    by (rule Cons.IH) (use Cons.prems in auto)
  with 1 show ?case by simp
qed simp

lemma UnmarshalMessage_Marshal:
  assumes "name_ok (q_QNAME (m_Question m))" and "\<forall>rr \<in> set (m_Answers m). rr_ok rr" and "length (m_Answers m) < 65536"
  shows "UnmarshalMessage d \<lparr>b_arr = Marshal m @ spare, b_len = length (Marshal m)\<rparr> =
    Ok (m\<lparr>m_Header := SetAncount (int (length (m_Answers m))) (SetQdcount 1 (m_Header m))\<rparr>)"
proof -
  let ?h = "SetAncount (int (length (m_Answers m))) (SetQdcount 1 (m_Header m))"
  let ?b = "\<lparr>b_arr = Marshal m @ spare, b_len = length (Marshal m)\<rparr>"
  let ?Q = "MarshalQuestion (m_Question m)" and ?A = "concat (map MarshalRR (m_Answers m))"
  have q: "UnmarshalQuestion d (visible ?b) \<lparr>b_arr = drop HeaderLen (b_arr ?b), b_len = b_len ?b - HeaderLen\<rparr> =
      Ok (m_Question m, length ?Q)"
    by (rule UnmarshalQuestion_Marshal [OF assms(1), where rest = "?A @ spare"]) (simp_all add: Marshal_def)
  have "rr_loop d ?b (length (m_Answers m)) (length (MarshalHeader ?h @ ?Q)) [] = Ok ([] @ m_Answers m)"
    by (rule rr_loop_Marshal [OF assms(2), where rest = spare]) (simp_all add: Marshal_def)
  moreover have "h_ANCOUNT ?h = of_nat (length (m_Answers m))" by (simp add: SetAncount_def)
  then have "unat (h_ANCOUNT ?h) = length (m_Answers m)" using assms(3) by simp
  moreover have "take HeaderLen (b_arr ?b) = MarshalHeader ?h" "\<not> b_len ?b < HeaderLen" by (simp_all add: Marshal_def)
  ultimately show ?thesis
    using q by (simp add: UnmarshalMessage_def UnmarshalHeader_Marshal) (simp add: SetAncount_def SetQdcount_def)
qed

text \<open>
  C12. Round trip. A message with a question and answers of well-formed names and data, encoded and
  read back from the start of a buffer, is the same message with its counts filled in,
  whatever else the buffer holds, and no pointer is followed.
\<close>

theorem message_roundtrip:
  assumes "name_ok (q_QNAME (m_Question m))" and "\<forall>rr \<in> set (m_Answers m). rr_ok rr" and "length (m_Answers m) < 65536"
  shows "UnmarshalMessage d \<lparr>b_arr = Marshal m @ spare, b_len = length (Marshal m)\<rparr> =
    Ok (m\<lparr>m_Header := SetAncount (int (length (m_Answers m))) (SetQdcount 1 (m_Header m))\<rparr>)"
  using assms by (rule UnmarshalMessage_Marshal)

definition sample_message :: Message where
  "sample_message = AddAnswer \<lparr>rr_NAME = ''a.com'', rr_TYPE = QTypeA, rr_CLASS = ClassINET, rr_TTL = 60, rr_RDLENGTH = 4,
       rr_RDATA = [1, 2, 3, 4], rr_IP = Some (Addr4 [1, 2, 3, 4])\<rparr>
     (SetQuestion (NewQuestion QTypeA ''a.com'') (NewMessage 7 0 ResponseMsg))"

lemma sample_message_ok:
  "q_QNAME (m_Question sample_message) = ''a.com''" "\<forall>rr \<in> set (m_Answers sample_message). rr_ok rr"
  "length (m_Answers sample_message) = 1"
  by (simp_all add: sample_message_def AddAnswer_def SetQuestion_def NewQuestion_def NewMessage_def name_ok_def
      rr_ok_def rr_addr_def QTypeA_def QTypeAAAA_def)

theorem message_roundtrip_witness:
  "\<exists>m. UnmarshalMessage 0 \<lparr>b_arr = Marshal sample_message @ [9, 9], b_len = length (Marshal sample_message)\<rparr> = Ok m \<and>
     q_QNAME (m_Question m) = ''a.com''"
proof -
  have "name_ok (q_QNAME (m_Question sample_message))" by (simp add: sample_message_ok(1) name_ok_def)
  from message_roundtrip [OF this sample_message_ok(2), of 0 "[9, 9]"]
  show ?thesis by (simp add: sample_message_ok)
qed

section \<open>Hostile messages\<close>

lemma UnmarshalQuestion_unterminated:
  assumes "length lbl = n" and "5 \<le> n" and "n \<le> 63" and "4 \<le> length spare"
  shows "\<exists>q. UnmarshalQuestion d m \<lparr>b_arr = (of_nat n # map char_byte lbl) @ spare, b_len = Suc n\<rparr> = Ok (q, n + 5)"
proof -
  let ?b = "\<lparr>b_arr = (of_nat n # map char_byte lbl) @ spare, b_len = Suc n\<rparr>"
  have vis: "visible ?b = of_nat n # map char_byte lbl" using assms(1) by (simp add: visible_def)
  have "dom_loop d m (of_nat n # map char_byte lbl) 0 [] = dom_loop d m (of_nat n # map char_byte lbl) (1 + n) (add_label lbl [])"
    using dom_loop_label [of lbl d m "[]" "[]" "[]"] assms(1-3) by simp
  also have "\<dots> = Ok (1 + n, lbl)" using assms(1) by (subst dom_loop.simps) simp
  finally have "UnmarshalDomainTo d m (visible ?b) = Ok (1 + n, lbl)" unfolding vis UnmarshalDomainTo_def .
  moreover have "\<exists>x y. slice16 ?b (1 + n) = Ok x \<and> slice16 ?b (1 + n + 2) = Ok y"
    using assms(1,4) by (simp add: slice16_def)
  ultimately show ?thesis using assms(2) by (auto simp: UnmarshalQuestion_def)
qed

text \<open>
  A short query can panic the server. When the only label of the question runs to the end of the
  packet, the walk over the name accepts it, type and class are read from whatever the pooled
  buffer holds behind the packet, and with a non-zero answer count the first answer is then looked
  for past the end of the slice, which panics.
\<close>

theorem short_query_panics:
  assumes "length lbl = n" and "5 \<le> n" and "n \<le> 63" and "4 \<le> length spare" and "h_ANCOUNT h \<noteq> 0"
  shows "UnmarshalMessage d \<lparr>b_arr = MarshalHeader h @ (of_nat n # map char_byte lbl) @ spare, b_len = 13 + n\<rparr> = Panic"
proof -
  let ?b = "\<lparr>b_arr = MarshalHeader h @ (of_nat n # map char_byte lbl) @ spare, b_len = 13 + n\<rparr>"
  have H: "HeaderLen = 12" by (simp add: HeaderLen_def)
  obtain q where q: "UnmarshalQuestion d (visible ?b) \<lparr>b_arr = (of_nat n # map char_byte lbl) @ spare, b_len = Suc n\<rparr> = Ok (q, n + 5)"
    using UnmarshalQuestion_unterminated [OF assms(1-4)] by blast
  obtain k where k: "unat (h_ANCOUNT h) = Suc k"
    using assms(5) by (metis not0_implies_Suc unat_eq_0)
  have "suffix_from ?b (12 + (n + 5)) = Panic" by (simp add: suffix_from_def)
  then have r: "rr_loop d ?b (unat (h_ANCOUNT h)) (12 + (n + 5)) [] = Panic"
    by (simp add: k UnmarshalRR_def)
  have "take HeaderLen (b_arr ?b) = MarshalHeader h"
    "\<lparr>b_arr = drop HeaderLen (b_arr ?b), b_len = b_len ?b - HeaderLen\<rparr> =
     \<lparr>b_arr = (of_nat n # map char_byte lbl) @ spare, b_len = Suc n\<rparr>"
    by (simp_all add: H)
  then show ?thesis
    unfolding UnmarshalMessage_def using q r by (simp add: UnmarshalHeader_Marshal H)
qed

theorem short_query_panics_witness:
  "UnmarshalMessage 10 \<lparr>b_arr = MarshalHeader \<lparr>h_ID = 1, h_Bits = 0, h_QDCOUNT = 1, h_ANCOUNT = 1, h_NSCOUNT = 0, h_ARCOUNT = 0\<rparr> @
     (of_nat 5 # map char_byte ''local'') @ [0, 0, 0, 0], b_len = 13 + 5\<rparr> = Panic"
  using short_query_panics [of "''local''" 5 "[0, 0, 0, 0]"
      "\<lparr>h_ID = 1, h_Bits = 0, h_QDCOUNT = 1, h_ANCOUNT = 1, h_NSCOUNT = 0, h_ARCOUNT = 0\<rparr>" 10]
  by simp

lemma pointer_to_itself:
  assumes "drop 12 m = 0xC0 # 0x0C # rest"
  shows "dom_loop d m (drop 12 m) 0 sb = Diverge"
proof (induction d arbitrary: sb)
  have len: "12 \<le> length m" using assms by (metis drop_all list.distinct(1) nle_le)
  have off: "unat (be16_of 0xC0 0x0C AND 0x3FFF) = 12" by (simp add: be16_of_def)
  {
    case 0
    show ?case using len off by (subst dom_loop.simps) (simp add: assms Let_def)
  next
    case (Suc d)
    then show ?case using len off by (subst dom_loop.simps) (simp add: assms Let_def)
  }
qed

text \<open>
  A question whose name is a pointer to itself is followed for ever: however many pointers may be
  followed, decoding does not come to an end. The source has no bound, so the recursion
  exhausts the stack.
\<close>

theorem pointer_loop_diverges:
  assumes "18 \<le> len" and "len \<le> 14 + length rest"
  shows "UnmarshalMessage d \<lparr>b_arr = MarshalHeader h @ [0xC0, 0x0C] @ rest, b_len = len\<rparr> = Diverge"
proof -
  let ?b = "\<lparr>b_arr = MarshalHeader h @ [0xC0, 0x0C] @ rest, b_len = len\<rparr>"
  have H: "HeaderLen = 12" by (simp add: HeaderLen_def)
  have "\<exists>r. drop 12 (visible ?b) = 0xC0 # 0x0C # r"
    using assms by (auto simp: visible_def H take_Cons' drop_take)
  then obtain r where r: "drop 12 (visible ?b) = 0xC0 # 0x0C # r" by blast
  have v: "visible \<lparr>b_arr = drop HeaderLen (b_arr ?b), b_len = len - HeaderLen\<rparr> = drop 12 (visible ?b)"
    using assms(1) by (simp add: visible_def H drop_take min_def)
  have "UnmarshalDomainTo d (visible ?b) (drop 12 (visible ?b)) = Diverge"
    unfolding UnmarshalDomainTo_def by (rule pointer_to_itself [OF r])
  then have "UnmarshalQuestion d (visible ?b) \<lparr>b_arr = drop HeaderLen (b_arr ?b), b_len = len - HeaderLen\<rparr> = Diverge"
    using assms(1) unfolding UnmarshalQuestion_def v by (simp add: H)
  moreover have "take HeaderLen (b_arr ?b) = MarshalHeader h" by simp
  ultimately show ?thesis
    unfolding UnmarshalMessage_def using assms(1) by (simp add: UnmarshalHeader_Marshal H)
qed

theorem pointer_loop_diverges_witness:
  "UnmarshalMessage 1000 \<lparr>b_arr = MarshalHeader \<lparr>h_ID = 1, h_Bits = 0, h_QDCOUNT = 1, h_ANCOUNT = 0, h_NSCOUNT = 0, h_ARCOUNT = 0\<rparr> @
     [0xC0, 0x0C] @ [0, 1, 0, 1], b_len = 18\<rparr> = Diverge"
  by (rule pointer_loop_diverges) simp_all

end
