(* ===== verification/DnsCache.thy ===== *)
theory DnsCache
  imports Prelude "HOL-Library.AList"
begin

text \<open>
  The DNS cache (\<open>src/dns/cache.go\<close>): a least-recently-used cache over a doubly linked list of items,
  next to a store of entries that never leave.

  The items live in a memory (\<open>lc_mem\<close>), pointers are optional addresses, and following a nil
  pointer yields \<open>None\<close>. The list the pointers form is tied to an abstract cache, a plain list of
  entries with the most recent one first, and every operation is shown to do on the pointers
  what the abstract operation does on the list, without ever following a nil pointer. \<open>now\<close> is
  the clock in nanoseconds.
\<close>

section \<open>The cache\<close>

record item =
  i_key :: string
  i_val :: bytes
  i_exp :: int
  i_prev :: "nat option"
  i_next :: "nat option"

record LruCache =
  lc_size :: int
  lc_head :: "nat option"
  lc_tail :: "nat option"
  lc_cache :: "(string \<times> nat) list"
  lc_store :: "string \<Rightarrow> bytes option"
  lc_mem :: "nat \<Rightarrow> item"
  lc_free :: nat

definition set_prev :: "nat \<Rightarrow> nat option \<Rightarrow> (nat \<Rightarrow> item) \<Rightarrow> (nat \<Rightarrow> item)" where
  "set_prev x p h = h(x := (h x)\<lparr>i_prev := p\<rparr>)"

definition set_next :: "nat \<Rightarrow> nat option \<Rightarrow> (nat \<Rightarrow> item) \<Rightarrow> (nat \<Rightarrow> item)" where
  "set_next x n h = h(x := (h x)\<lparr>i_next := n\<rparr>)"

definition NewLruCache :: "int \<Rightarrow> LruCache" where
  "NewLruCache sz =
     \<lparr>lc_size = sz, lc_head = Some 0, lc_tail = Some 1, lc_cache = [(''head'', 0), (''tail'', 1)],
      lc_store = (\<lambda>_. None),
      lc_mem = (\<lambda>i. if i = 0 then \<lparr>i_key = ''head'', i_val = [], i_exp = 0, i_prev = None, i_next = Some 1\<rparr>
                    else \<lparr>i_key = ''tail'', i_val = [], i_exp = 0, i_prev = Some 0, i_next = None\<rparr>),
      lc_free = 2\<rparr>"

text \<open>The end both \<open>putToHead\<close> and \<open>moveToHead\<close> have: link \<open>it\<close> in front of the head.\<close>

definition link_front :: "nat \<Rightarrow> LruCache \<Rightarrow> LruCache option" where
  "link_front it c =
     (case lc_head c of
        None \<Rightarrow> None
      | Some h \<Rightarrow>
          let m1 = set_next it (Some h) (set_prev it None (lc_mem c))
          in Some (c\<lparr>lc_mem := set_prev h (Some it) m1, lc_head := Some it\<rparr>))"

definition moveToHead :: "nat \<Rightarrow> LruCache \<Rightarrow> LruCache option" where
  "moveToHead it c =
     (if Some it \<noteq> lc_head c then
        (if lc_tail c = Some it then
           (case i_prev (lc_mem c it) of
              None \<Rightarrow> None
            | Some p \<Rightarrow> link_front it (c\<lparr>lc_tail := Some p, lc_mem := set_next p None (lc_mem c)\<rparr>))
         else
           (case (i_prev (lc_mem c it), i_next (lc_mem c it)) of
              (Some p, Some n) \<Rightarrow>
                link_front it (c\<lparr>lc_mem := set_prev n (Some p) (set_next p (Some n) (lc_mem c))\<rparr>)
            | _ \<Rightarrow> None))
      else Some c)"

definition putToHead :: "string \<Rightarrow> bytes \<Rightarrow> int \<Rightarrow> LruCache \<Rightarrow> LruCache option" where
  "putToHead k v exp c =
     (let it = lc_free c;
          c1 = c\<lparr>lc_mem := (lc_mem c)(it := \<lparr>i_key = k, i_val = v, i_exp = exp, i_prev = None, i_next = lc_head c\<rparr>),
                 lc_free := Suc it\<rparr>
      in map_option (\<lambda>c2. c2\<lparr>lc_cache := AList.update k it (lc_cache c2)\<rparr>) (link_front it c1))"

definition removeTail :: "LruCache \<Rightarrow> LruCache option" where
  "removeTail c =
     (case lc_tail c of
        None \<Rightarrow> None
      | Some t \<Rightarrow>
          (case i_prev (lc_mem c t) of
             None \<Rightarrow> None
           | Some p \<Rightarrow>
               Some (c\<lparr>lc_cache := AList.delete (i_key (lc_mem c t)) (lc_cache c),
                       lc_mem := set_next p None (lc_mem c), lc_tail := Some p\<rparr>)))"

definition unix :: "int \<Rightarrow> int" where
  "unix t = t div 1000000000"

definition Get :: "int \<Rightarrow> string \<Rightarrow> LruCache \<Rightarrow> ((bytes \<times> bool) \<times> LruCache) option" where
  "Get now k c =
     (case lc_store c k of
        Some v \<Rightarrow> Some ((v, False), c)
      | None \<Rightarrow>
         (case map_of (lc_cache c) k of
            None \<Rightarrow> Some (([], False), c)
          | Some it \<Rightarrow>
              map_option (\<lambda>c'. ((i_val (lc_mem c it), i_exp (lc_mem c it) < unix now), c')) (moveToHead it c)))"

definition Set :: "int \<Rightarrow> string \<Rightarrow> bytes \<Rightarrow> int \<Rightarrow> LruCache \<Rightarrow> LruCache option" where
  "Set now k v ttl c =
     (if ttl = 0 then Some (c\<lparr>lc_store := (lc_store c)(k \<mapsto> v)\<rparr>)
      else
        let exp = unix (now + wrap64 (1000000000 * ttl)) in
        case map_of (lc_cache c) k of
          Some it \<Rightarrow>
            moveToHead it (c\<lparr>lc_mem := (lc_mem c)(it := (lc_mem c it)\<lparr>i_val := v, i_exp := exp\<rparr>)\<rparr>)
        | None \<Rightarrow>
            (case putToHead k v exp c of
               None \<Rightarrow> None
             | Some c1 \<Rightarrow> if lc_size c1 < int (length (lc_cache c1)) then removeTail c1 else Some c1))"

section \<open>The abstract cache\<close>

record lru =
  a_size :: int
  a_items :: "(string \<times> bytes \<times> int) list"
  a_store :: "string \<Rightarrow> bytes option"

definition touch :: "string \<Rightarrow> bytes \<times> int \<Rightarrow> (string \<times> bytes \<times> int) list \<Rightarrow> (string \<times> bytes \<times> int) list" where
  "touch k e xs = (k, e) # filter (\<lambda>x. fst x \<noteq> k) xs"

definition lru_new :: "int \<Rightarrow> lru" where
  "lru_new sz = \<lparr>a_size = sz, a_items = [(''head'', [], 0), (''tail'', [], 0)], a_store = (\<lambda>_. None)\<rparr>"

definition lru_get :: "int \<Rightarrow> string \<Rightarrow> lru \<Rightarrow> (bytes \<times> bool) \<times> lru" where
  "lru_get now k a =
     (case a_store a k of
        Some v \<Rightarrow> ((v, False), a)
      | None \<Rightarrow>
         (case map_of (a_items a) k of
            None \<Rightarrow> (([], False), a)
          | Some (v, exp) \<Rightarrow> ((v, exp < unix now), a\<lparr>a_items := touch k (v, exp) (a_items a)\<rparr>)))"

definition lru_set :: "int \<Rightarrow> string \<Rightarrow> bytes \<Rightarrow> int \<Rightarrow> lru \<Rightarrow> lru" where
  "lru_set now k v ttl a =
     (if ttl = 0 then a\<lparr>a_store := (a_store a)(k \<mapsto> v)\<rparr>
      else
        let exp = unix (now + wrap64 (1000000000 * ttl));
            new = touch k (v, exp) (a_items a)
        in if map_of (a_items a) k = None \<and> a_size a < int (length new)
           then a\<lparr>a_items := butlast new\<rparr> else a\<lparr>a_items := new\<rparr>)"

section \<open>Linked lists in the memory\<close>

definition first_of :: "nat option \<Rightarrow> nat list \<Rightarrow> nat option" where
  "first_of n xs = (case xs of [] \<Rightarrow> n | x # _ \<Rightarrow> Some x)"

definition last_of :: "nat option \<Rightarrow> nat list \<Rightarrow> nat option" where
  "last_of p xs = (if xs = [] then p else Some (last xs))"

fun linked :: "(nat \<Rightarrow> item) \<Rightarrow> nat option \<Rightarrow> nat list \<Rightarrow> nat option \<Rightarrow> bool" where
  "linked h p [] n = True"
| "linked h p (x # xs) n \<longleftrightarrow> i_prev (h x) = p \<and> i_next (h x) = first_of n xs \<and> linked h (Some x) xs n"

lemma first_of_simps [simp]: "first_of n [] = n" "first_of n (x # xs) = Some x"
  "first_of n (xs @ ys) = first_of (first_of n ys) xs"
  by (cases xs; simp add: first_of_def)+

lemma last_of_simps [simp]: "last_of p [] = p" "last_of p (xs @ [x]) = Some x" "last_of p (x # xs) = last_of (Some x) xs"
  by (simp_all add: last_of_def)

lemma linked_append: "linked h p (xs @ ys) n \<longleftrightarrow> linked h p xs (first_of n ys) \<and> linked h (last_of p xs) ys n"
  by (induction xs arbitrary: p) auto

lemma linked_other:
  "x \<notin> set xs \<Longrightarrow> linked (h(x := v)) p xs n = linked h p xs n"
  by (induction xs arbitrary: p) auto

lemma linked_set [simp]:
  "x \<notin> set xs \<Longrightarrow> linked (set_prev x q h) p xs n = linked h p xs n"
  "x \<notin> set xs \<Longrightarrow> linked (set_next x q h) p xs n = linked h p xs n"
  by (simp_all add: set_prev_def set_next_def linked_other)

lemma set_fields [simp]:
  "i_prev (set_prev x q h y) = (if y = x then q else i_prev (h y))" "i_next (set_prev x q h y) = i_next (h y)"
  "i_prev (set_next x q h y) = i_prev (h y)" "i_next (set_next x q h y) = (if y = x then q else i_next (h y))"
  "i_key (set_prev x q h y) = i_key (h y)" "i_val (set_prev x q h y) = i_val (h y)" "i_exp (set_prev x q h y) = i_exp (h y)"
  "i_key (set_next x q h y) = i_key (h y)" "i_val (set_next x q h y) = i_val (h y)" "i_exp (set_next x q h y) = i_exp (h y)"
  by (simp_all add: set_prev_def set_next_def)

lemma linked_new_prev: "y \<notin> set ys \<Longrightarrow> linked h p (y # ys) n \<Longrightarrow> linked (set_prev y q h) q (y # ys) n"
  by simp

lemma linked_new_next: "z \<notin> set xs \<Longrightarrow> linked h p (xs @ [z]) n \<Longrightarrow> linked (set_next z q h) p (xs @ [z]) q"
  by (simp add: linked_append)

text \<open>The payload of an item.\<close>

definition entry :: "(nat \<Rightarrow> item) \<Rightarrow> nat \<Rightarrow> string \<times> bytes \<times> int" where
  "entry h x = (i_key (h x), i_val (h x), i_exp (h x))"

lemma entry_set [simp]: "entry (set_prev x q h) = entry h" "entry (set_next x q h) = entry h"
  by (simp_all add: entry_def fun_eq_iff)

section \<open>Representation\<close>

definition rep :: "LruCache \<Rightarrow> nat list \<Rightarrow> bool" where
  "rep c xs \<longleftrightarrow> xs \<noteq> [] \<and> distinct xs \<and> linked (lc_mem c) None xs None \<and>
     lc_head c = Some (hd xs) \<and> lc_tail c = Some (last xs) \<and> (\<forall>x \<in> set xs. x < lc_free c) \<and>
     distinct (map (\<lambda>x. i_key (lc_mem c x)) xs) \<and> distinct (map fst (lc_cache c)) \<and>
     set (lc_cache c) = (\<lambda>x. (i_key (lc_mem c x), x)) ` set xs"

definition view :: "LruCache \<Rightarrow> nat list \<Rightarrow> lru" where
  "view c xs = \<lparr>a_size = lc_size c, a_items = map (entry (lc_mem c)) xs, a_store = lc_store c\<rparr>"

lemma rep_lookup:
  assumes "rep c xs"
  shows "map_of (lc_cache c) k = Some x \<longleftrightarrow> x \<in> set xs \<and> i_key (lc_mem c x) = k"
    and "map_of (lc_cache c) k = None \<longleftrightarrow> (\<forall>x \<in> set xs. i_key (lc_mem c x) \<noteq> k)"
    and "length (lc_cache c) = length xs"
proof -
  have d: "distinct (map fst (lc_cache c))" and s: "set (lc_cache c) = (\<lambda>x. (i_key (lc_mem c x), x)) ` set xs"
    and dx: "distinct xs"
    using assms by (auto simp: rep_def)
  show 1: "map_of (lc_cache c) k = Some x \<longleftrightarrow> x \<in> set xs \<and> i_key (lc_mem c x) = k" for x
    using d s by (auto simp: map_of_eq_Some_iff)
  show "map_of (lc_cache c) k = None \<longleftrightarrow> (\<forall>x \<in> set xs. i_key (lc_mem c x) \<noteq> k)"
    using 1 by (cases "map_of (lc_cache c) k") auto
  have "length (lc_cache c) = card (set (lc_cache c))" using d distinct_card [of "lc_cache c"] by (simp add: distinct_map)
  also have "\<dots> = card (set xs)" unfolding s by (rule card_image) (simp add: inj_on_def)
  also have "\<dots> = length xs" using dx by (rule distinct_card)
  finally show "length (lc_cache c) = length xs" .
qed

lemma link_front_ok:
  assumes "linked (lc_mem c) None xs None" and "xs \<noteq> []" and "distinct xs" and "it \<notin> set xs" and "lc_head c = Some (hd xs)"
  shows "\<exists>m. link_front it c = Some (c\<lparr>lc_mem := m, lc_head := Some it\<rparr>) \<and> linked m None (it # xs) None \<and>
    entry m = entry (lc_mem c)"
proof -
  obtain y ys where xs: "xs = y # ys" using assms(2) by (cases xs) auto
  let ?m1 = "set_next it (Some y) (set_prev it None (lc_mem c))"
  have "linked ?m1 None (y # ys) None" using assms(1,4) by (simp add: xs)
  then have "linked (set_prev y (Some it) ?m1) (Some it) (y # ys) None"
    using linked_new_prev [of y ys] assms(3) by (simp add: xs)
  then show ?thesis
    using assms(4,5) xs by (auto simp: link_front_def Let_def)
qed

lemma moveToHead_ok:
  assumes "rep c (as @ it # bs)"
  shows "\<exists>c'. moveToHead it c = Some c' \<and> rep c' (it # as @ bs) \<and> view c' (it # as @ bs) = view c (it # as @ bs)"
proof (cases as)
  case Nil
  with assms show ?thesis by (simp add: moveToHead_def rep_def)
next
  case (Cons a as')
  let ?h = "lc_mem c"
  have d: "distinct (as @ it # bs)" and l: "linked ?h None (as @ it # bs) None"
    and hd: "lc_head c = Some (hd as)" and tl: "lc_tail c = Some (last (it # bs))"
    using assms Cons by (auto simp: rep_def)
  obtain ps p where ps: "as = ps @ [p]" using Cons by (metis append_butlast_last_id list.distinct(1))
  have ne: "Some it \<noteq> lc_head c" using d hd Cons by auto
  have pit: "i_prev (?h it) = Some p" "i_next (?h it) = first_of None bs" using l by (simp_all add: ps linked_append)
  have la: "linked ?h None as (Some it)" and lb: "linked ?h (Some it) bs None" using l by (simp_all add: linked_append ps)
  have "\<exists>m tail'. moveToHead it c = link_front it (c\<lparr>lc_tail := tail', lc_mem := m\<rparr>) \<and>
    linked m None (as @ bs) None \<and> entry m = entry ?h \<and> tail' = Some (last (it # as @ bs))"
  proof (cases bs)
    case Nil
    have "linked (set_next p None ?h) None as None"
      using linked_new_next [of p ps ?h None "Some it" None] la d by (simp add: ps)
    with Nil tl ne pit show ?thesis
      by (intro exI [of _ "set_next p None ?h"] exI [of _ "Some p"]) (simp add: moveToHead_def ps)
  next
    case (Cons n ns)
    let ?m = "set_prev n (Some p) (set_next p (Some n) ?h)"
    have "lc_tail c \<noteq> Some it" using tl d Cons by auto
    then have mv: "moveToHead it c = link_front it (c\<lparr>lc_mem := ?m\<rparr>)"
      using ne pit Cons by (simp add: moveToHead_def)
    have a: "linked (set_next p (Some n) ?h) None as (Some n)"
      using linked_new_next [of p ps ?h None "Some it" "Some n"] la d by (simp add: ps)
    have b: "linked ?m (Some p) (n # ns) None"
      using linked_new_prev [of n ns "set_next p (Some n) ?h"] lb d Cons by (simp add: ps)
    have "linked ?m None as (Some n)" using a d Cons by simp
    with b have "linked ?m None (as @ bs) None" by (simp add: linked_append Cons ps)
    moreover have "c\<lparr>lc_tail := lc_tail c, lc_mem := ?m\<rparr> = c\<lparr>lc_mem := ?m\<rparr>" by simp
    then have "moveToHead it c = link_front it (c\<lparr>lc_tail := lc_tail c, lc_mem := ?m\<rparr>)" using mv by (simp only:)
    moreover have "lc_tail c = Some (last (it # as @ bs))" using tl Cons by simp
    ultimately show ?thesis by (metis entry_set)
  qed
  then obtain m tail' where mv: "moveToHead it c = link_front it (c\<lparr>lc_tail := tail', lc_mem := m\<rparr>)"
    and lm: "linked m None (as @ bs) None" and em: "entry m = entry ?h" and t: "tail' = Some (last (it # as @ bs))"
    by blast
  have "\<exists>m'. link_front it (c\<lparr>lc_tail := tail', lc_mem := m\<rparr>) =
      Some (c\<lparr>lc_tail := tail', lc_mem := m', lc_head := Some it\<rparr>) \<and> linked m' None (it # as @ bs) None \<and> entry m' = entry ?h"
    using link_front_ok [of "c\<lparr>lc_tail := tail', lc_mem := m\<rparr>" "as @ bs" it] lm d hd Cons em by auto
  then obtain m' where f: "moveToHead it c = Some (c\<lparr>lc_tail := tail', lc_mem := m', lc_head := Some it\<rparr>)"
    "linked m' None (it # as @ bs) None" "entry m' = entry ?h"
    using mv by auto
  have keys: "i_key (m' x) = i_key (?h x)" for x using fun_cong [OF f(3), of x] by (simp add: entry_def)
  show ?thesis
    using f assms t by (auto simp: rep_def view_def keys)
qed

section \<open>Each operation refines the abstract one\<close>

lemma map_of_entries:
  assumes "distinct (map (\<lambda>x. i_key (h x)) xs)" and "x \<in> set xs"
  shows "map_of (map (entry h) xs) (i_key (h x)) = Some (i_val (h x), i_exp (h x))"
  using assms by (intro map_of_is_SomeI) (auto simp: entry_def o_def)

lemma map_of_entries_None:
  "\<forall>x \<in> set xs. i_key (h x) \<noteq> k \<Longrightarrow> map_of (map (entry h) xs) k = None"
  by (auto simp: map_of_eq_None_iff entry_def)

lemma touch_entries:
  assumes "distinct (map (\<lambda>x. i_key (h x)) (as @ it # bs))"
  shows "touch (i_key (h it)) e (map (entry h) (as @ it # bs)) = (i_key (h it), e) # map (entry h) (as @ bs)"
proof -
  have "filter (\<lambda>x. fst x \<noteq> i_key (h it)) (map (entry h) ys) = map (entry h) ys"
    if "i_key (h it) \<notin> (\<lambda>x. i_key (h x)) ` set ys" for ys
    using that by (auto simp: filter_id_conv entry_def image_iff)
  then show ?thesis using assms by (simp add: touch_def) (simp add: entry_def)
qed

lemma Get_refines:
  assumes "rep c xs"
  shows "\<exists>r c' xs'. Get now k c = Some (r, c') \<and> rep c' xs' \<and> length xs' = length xs \<and>
    lru_get now k (view c xs) = (r, view c' xs')"
proof (cases "lc_store c k")
  case (Some v)
  then show ?thesis using assms by (auto simp: Get_def lru_get_def view_def)
next
  case st: None
  have dk: "distinct (map (\<lambda>x. i_key (lc_mem c x)) xs)" using assms by (simp add: rep_def)
  show ?thesis
  proof (cases "map_of (lc_cache c) k")
    case None
    then have "map_of (map (entry (lc_mem c)) xs) k = None"
      using rep_lookup(2) [OF assms] by (intro map_of_entries_None) auto
    with None st assms show ?thesis by (auto simp: Get_def lru_get_def view_def)
  next
    case (Some it)
    then have it: "it \<in> set xs" "i_key (lc_mem c it) = k" using rep_lookup(1) [OF assms] by auto
    then obtain as bs where xs: "xs = as @ it # bs" by (meson split_list)
    obtain c' where c': "moveToHead it c = Some c'" "rep c' (it # as @ bs)" "view c' (it # as @ bs) = view c (it # as @ bs)"
      using moveToHead_ok [of c as it bs] assms xs by auto
    have m: "map_of (map (entry (lc_mem c)) xs) k = Some (i_val (lc_mem c it), i_exp (lc_mem c it))"
      using map_of_entries [OF dk it(1)] it(2) by simp
    have t: "touch k (i_val (lc_mem c it), i_exp (lc_mem c it)) (map (entry (lc_mem c)) xs) = map (entry (lc_mem c)) (it # as @ bs)"
      using touch_entries [of "lc_mem c" as it bs] dk it(2) xs by (simp add: entry_def)
    have "lru_get now k (view c xs) = ((i_val (lc_mem c it), i_exp (lc_mem c it) < unix now), view c (it # as @ bs))"
      using st m t by (simp add: lru_get_def view_def)
    with c' st Some xs show ?thesis
      by (intro exI [of _ "(i_val (lc_mem c it), i_exp (lc_mem c it) < unix now)"] exI [of _ c'] exI [of _ "it # as @ bs"])
        (simp add: Get_def)
  qed
qed

lemma update_new: "k \<notin> fst ` set al \<Longrightarrow> AList.update k v al = al @ [(k, v)]"
  by (induction al) auto

lemma putToHead_ok:
  assumes "rep c xs" and "\<forall>x \<in> set xs. i_key (lc_mem c x) \<noteq> k"
  shows "\<exists>c'. putToHead k v e c = Some c' \<and> rep c' (lc_free c # xs) \<and> lc_size c' = lc_size c \<and>
    view c' (lc_free c # xs) = (view c xs)\<lparr>a_items := (k, v, e) # a_items (view c xs)\<rparr>"
proof -
  let ?it = "lc_free c"
  let ?m = "(lc_mem c)(?it := \<lparr>i_key = k, i_val = v, i_exp = e, i_prev = None, i_next = lc_head c\<rparr>)"
  have fresh: "?it \<notin> set xs" using assms(1) by (auto simp: rep_def)
  then have lm: "linked ?m None xs None" using assms(1) by (simp add: rep_def linked_other)
  define c1 where "c1 = c\<lparr>lc_mem := ?m, lc_free := Suc ?it\<rparr>"
  have "\<exists>m. link_front ?it c1 = Some (c1\<lparr>lc_mem := m, lc_head := Some ?it\<rparr>) \<and> linked m None (?it # xs) None \<and>
      entry m = entry (lc_mem c1)"
    using assms(1) lm fresh by (intro link_front_ok) (simp_all add: c1_def rep_def)
  then obtain m where m: "link_front ?it c1 = Some (c1\<lparr>lc_mem := m, lc_head := Some ?it\<rparr>)"
    "linked m None (?it # xs) None" "entry m = entry ?m"
    by (auto simp: c1_def)
  have ent: "entry m x = (if x = ?it then (k, v, e) else entry (lc_mem c) x)" for x
    using fun_cong [OF m(3), of x] by (simp add: entry_def)
  then have keys: "i_key (m x) = (if x = ?it then k else i_key (lc_mem c x))" for x
    by (metis entry_def fst_conv)
  have "k \<notin> fst ` set (lc_cache c)" using assms by (auto simp: rep_def)
  then have up: "AList.update k ?it (lc_cache c) = lc_cache c @ [(k, ?it)]" by (rule update_new)
  let ?c' = "c\<lparr>lc_mem := m, lc_free := Suc ?it, lc_head := Some ?it, lc_cache := lc_cache c @ [(k, ?it)]\<rparr>"
  have p: "putToHead k v e c = Some ?c'"
    using m(1) up by (simp add: putToHead_def Let_def c1_def)
  have xs: "(\<lambda>x. i_key (m x)) ` set xs = (\<lambda>x. i_key (lc_mem c x)) ` set xs"
    "map (\<lambda>x. i_key (m x)) xs = map (\<lambda>x. i_key (lc_mem c x)) xs" "map (entry m) xs = map (entry (lc_mem c)) xs"
    "(\<lambda>x. (i_key (m x), x)) ` set xs = (\<lambda>x. (i_key (lc_mem c x), x)) ` set xs"
    using fresh keys ent by (auto intro!: image_cong)
  have kit: "i_key (m ?it) = k" by (simp add: keys)
  have "rep ?c' (?it # xs)"
    using assms m(2) fresh \<open>k \<notin> fst ` set (lc_cache c)\<close>
    by (auto simp: rep_def kit xs less_Suc_eq)
  moreover have "view ?c' (?it # xs) = (view c xs)\<lparr>a_items := (k, v, e) # a_items (view c xs)\<rparr>"
    by (simp add: view_def xs ent)
  ultimately show ?thesis using p by auto
qed

lemma set_delete: "set (AList.delete k al) = {x \<in> set al. fst x \<noteq> k}"
  by (auto simp: AList.delete_eq)

lemma removeTail_ok:
  assumes "rep c xs" and "2 \<le> length xs"
  shows "\<exists>c'. removeTail c = Some c' \<and> rep c' (butlast xs) \<and>
    view c' (butlast xs) = (view c xs)\<lparr>a_items := butlast (a_items (view c xs))\<rparr>"
proof -
  have "butlast xs \<noteq> []" using assms(2) by (cases xs) auto
  then obtain ys p where b: "butlast xs = ys @ [p]" by (metis append_butlast_last_id)
  obtain t where "xs = butlast xs @ [t]" using assms(1) by (metis append_butlast_last_id rep_def)
  then have xs: "xs = ys @ [p, t]" by (simp add: b)
  let ?h = "lc_mem c"
  have l: "linked ?h None (ys @ [p]) (Some t)" "i_prev (?h t) = Some p"
    using assms(1) by (simp_all add: rep_def xs linked_append)
  let ?c' = "c\<lparr>lc_cache := AList.delete (i_key (?h t)) (lc_cache c), lc_mem := set_next p None ?h, lc_tail := Some p\<rparr>"
  have r: "removeTail c = Some ?c'" using assms(1) l(2) by (simp add: removeTail_def rep_def xs)
  have d: "distinct (map (\<lambda>x. i_key (?h x)) (ys @ [p, t]))" "distinct (ys @ [p, t])"
    using assms(1) by (simp_all add: rep_def xs)
  have set_cache: "set (lc_cache c) = (\<lambda>x. (i_key (?h x), x)) ` set (ys @ [p, t])"
    using assms(1) by (simp only: rep_def xs)
  have hd: "hd (ys @ [p, t]) = hd (ys @ [p])" by (cases ys) simp_all
  have "linked (set_next p None ?h) None (ys @ [p]) None"
    using linked_new_next [OF _ l(1), of None] d(2) by simp
  moreover have "set (AList.delete (i_key (?h t)) (lc_cache c)) = (\<lambda>x. (i_key (?h x), x)) ` set (ys @ [p])"
    using d by (auto simp: set_delete set_cache image_iff)
  moreover have "distinct (map fst (AList.delete (i_key (?h t)) (lc_cache c)))"
    using assms(1) by (simp add: rep_def AList.distinct_delete)
  ultimately have "rep ?c' (ys @ [p])"
    using assms(1) d hd by (simp add: rep_def xs)
  then show ?thesis using r by (auto simp: view_def xs butlast_append)
qed

lemma moveToHead_written:
  assumes "rep c xs" and "it \<in> set xs" and "c1 = c\<lparr>lc_mem := (lc_mem c)(it := (lc_mem c it)\<lparr>i_val := v, i_exp := e\<rparr>)\<rparr>"
  shows "\<exists>c' xs'. moveToHead it c1 = Some c' \<and> rep c' xs' \<and> length xs' = length xs \<and>
    view c' xs' = (view c xs)\<lparr>a_items := touch (i_key (lc_mem c it)) (v, e) (a_items (view c xs))\<rparr>"
proof -
  obtain as bs where xs: "xs = as @ it # bs" using assms(2) by (meson split_list)
  have f: "i_prev (lc_mem c1 x) = i_prev (lc_mem c x)" "i_next (lc_mem c1 x) = i_next (lc_mem c x)"
    "i_key (lc_mem c1 x) = i_key (lc_mem c x)" for x
    by (simp_all add: assms(3))
  have "linked (lc_mem c1) p ys n = linked (lc_mem c) p ys n" for p ys n
    by (induction ys arbitrary: p) (simp_all add: f)
  then have "rep c1 (as @ it # bs)" using assms(1) by (simp add: rep_def xs f) (simp add: assms(3))
  then obtain c' where c': "moveToHead it c1 = Some c'" "rep c' (it # as @ bs)" "view c' (it # as @ bs) = view c1 (it # as @ bs)"
    using moveToHead_ok by blast
  have d: "distinct (map (\<lambda>x. i_key (lc_mem c x)) (as @ it # bs))" "it \<notin> set (as @ bs)"
    using assms(1) by (simp_all add: rep_def xs)
  have "map (entry (lc_mem c1)) (as @ bs) = map (entry (lc_mem c)) (as @ bs)"
    using d(2) by (auto simp: assms(3) entry_def)
  then have "view c1 (it # as @ bs) = (view c xs)\<lparr>a_items := touch (i_key (lc_mem c it)) (v, e) (a_items (view c xs))\<rparr>"
    using touch_entries [OF d(1), of "(v, e)"] by (simp add: view_def xs entry_def assms(3))
  with c' show ?thesis by (intro exI [of _ c'] exI [of _ "it # as @ bs"]) (simp add: xs)
qed

lemma touch_absent: "map_of xs k = None \<Longrightarrow> touch k e xs = (k, e) # xs"
  by (auto simp: touch_def map_of_eq_None_iff filter_id_conv)

lemma Set_refines:
  assumes "rep c xs" and "2 \<le> length xs"
  shows "\<exists>c' xs'. Set now k v ttl c = Some c' \<and> rep c' xs' \<and> 2 \<le> length xs' \<and> lru_set now k v ttl (view c xs) = view c' xs'"
proof (cases "ttl = 0")
  case True
  let ?c' = "c\<lparr>lc_store := (lc_store c)(k \<mapsto> v)\<rparr>"
  have "rep ?c' xs" "view ?c' xs = lru_set now k v ttl (view c xs)"
    using assms True by (simp_all add: rep_def view_def lru_set_def)
  then show ?thesis using assms True by (auto simp: Set_def)
next
  case ttl: False
  define e where "e = unix (now + wrap64 (1000000000 * ttl))"
  have dk: "distinct (map (\<lambda>x. i_key (lc_mem c x)) xs)" using assms by (simp add: rep_def)
  show ?thesis
  proof (cases "map_of (lc_cache c) k")
    case (Some it)
    then have it: "it \<in> set xs" "i_key (lc_mem c it) = k" using rep_lookup(1) [OF assms(1)] by auto
    have "map_of (a_items (view c xs)) k \<noteq> None"
      using map_of_entries [OF dk it(1)] it(2) by (simp add: view_def)
    then have st: "lru_set now k v ttl (view c xs) = (view c xs)\<lparr>a_items := touch k (v, e) (a_items (view c xs))\<rparr>"
      using ttl by (auto simp: lru_set_def e_def Let_def)
    obtain c' xs' where "moveToHead it (c\<lparr>lc_mem := (lc_mem c)(it := (lc_mem c it)\<lparr>i_val := v, i_exp := e\<rparr>)\<rparr>) = Some c'"
      "rep c' xs'" "length xs' = length xs" "view c' xs' = (view c xs)\<lparr>a_items := touch k (v, e) (a_items (view c xs))\<rparr>"
      using moveToHead_written [OF assms(1) it(1) refl, where v = v and e = e] it(2) by blast
    then show ?thesis
      using Some ttl assms(2) st by (intro exI [of _ c'] exI [of _ xs']) (simp add: Set_def e_def Let_def)
  next
    case None
    then have ab: "\<forall>x \<in> set xs. i_key (lc_mem c x) \<noteq> k" using rep_lookup(2) [OF assms(1)] by auto
    obtain c1 where c1: "putToHead k v e c = Some c1" "rep c1 (lc_free c # xs)" "lc_size c1 = lc_size c"
      "view c1 (lc_free c # xs) = (view c xs)\<lparr>a_items := (k, v, e) # a_items (view c xs)\<rparr>"
      using putToHead_ok [OF assms(1) ab] by blast
    have na: "map_of (a_items (view c xs)) k = None" using map_of_entries_None [OF ab] by (simp add: view_def)
    have len: "length (lc_cache c1) = Suc (length xs)" "length (a_items (view c xs)) = length xs" "a_size (view c xs) = lc_size c"
      using rep_lookup(3) [OF c1(2)] by (simp_all add: view_def)
    obtain c2 where c2: "removeTail c1 = Some c2" "rep c2 (butlast (lc_free c # xs))"
      "view c2 (butlast (lc_free c # xs)) = (view c1 (lc_free c # xs))\<lparr>a_items := butlast (a_items (view c1 (lc_free c # xs)))\<rparr>"
      using removeTail_ok [OF c1(2)] assms(2) by auto
    show ?thesis
    proof (cases "lc_size c < int (Suc (length xs))")
      case True
      with c1 c2 len ttl None assms(2) touch_absent [OF na, of "(v, e)"] na show ?thesis
        by (intro exI [of _ c2] exI [of _ "butlast (lc_free c # xs)"])
          (auto simp: Set_def lru_set_def e_def [symmetric] Let_def)
    next
      case False
      with c1 len ttl None assms(2) touch_absent [OF na, of "(v, e)"] na show ?thesis
        by (intro exI [of _ c1] exI [of _ "lc_free c # xs"])
          (auto simp: Set_def lru_set_def e_def [symmetric] Let_def)
    qed
  qed
qed

section \<open>Sequences of operations\<close>

datatype cache_op = OpGet int string | OpSet int string bytes int

fun run_cache :: "cache_op list \<Rightarrow> LruCache \<Rightarrow> ((bytes \<times> bool) list \<times> LruCache) option" where
  "run_cache [] c = Some ([], c)"
| "run_cache (OpGet now k # ops) c =
     (case Get now k c of None \<Rightarrow> None | Some (r, c') \<Rightarrow> map_option (\<lambda>(rs, c''). (r # rs, c'')) (run_cache ops c'))"
| "run_cache (OpSet now k v ttl # ops) c =
     (case Set now k v ttl c of None \<Rightarrow> None | Some c' \<Rightarrow> run_cache ops c')"

fun run_lru :: "cache_op list \<Rightarrow> lru \<Rightarrow> (bytes \<times> bool) list \<times> lru" where
  "run_lru [] a = ([], a)"
| "run_lru (OpGet now k # ops) a = (let (r, a') = lru_get now k a; (rs, a'') = run_lru ops a' in (r # rs, a''))"
| "run_lru (OpSet now k v ttl # ops) a = run_lru ops (lru_set now k v ttl a)"

lemma run_refines:
  "rep c xs \<Longrightarrow> 2 \<le> length xs \<Longrightarrow>
   \<exists>rs c' xs'. run_cache ops c = Some (rs, c') \<and> rep c' xs' \<and> 2 \<le> length xs' \<and>
     run_lru ops (view c xs) = (rs, view c' xs')"
proof (induction ops arbitrary: c xs)
  case Nil
  then show ?case by auto
next
  case (Cons op ops)
  show ?case
  proof (cases op)
    case (OpGet now k)
    obtain r c' xs' where g: "Get now k c = Some (r, c')" "rep c' xs'" "length xs' = length xs"
      "lru_get now k (view c xs) = (r, view c' xs')"
      using Get_refines [OF Cons.prems(1)] by blast
    with Cons.IH [of c' xs'] Cons.prems OpGet show ?thesis by fastforce
  next
    case (OpSet now k v ttl)
    obtain c' xs' where g: "Set now k v ttl c = Some c'" "rep c' xs'" "2 \<le> length xs'"
      "lru_set now k v ttl (view c xs) = view c' xs'"
      using Set_refines [OF Cons.prems] by blast
    with Cons.IH [of c' xs'] OpSet show ?thesis by simp
  qed
qed

lemma lru_get_set:
  assumes "ttl \<noteq> 0" and "a_store a k = None" and "a_items a \<noteq> []"
  shows "fst (lru_get now' k (lru_set now k v ttl a)) = (v, unix (now + wrap64 (1000000000 * ttl)) < unix now')"
proof -
  let ?e = "unix (now + wrap64 (1000000000 * ttl))"
  have "\<exists>r. lru_set now k v ttl a = a\<lparr>a_items := (k, v, ?e) # r\<rparr>"
    using assms touch_absent [of "a_items a" k "(v, ?e)"]
    by (cases "map_of (a_items a) k") (auto simp: lru_set_def Let_def touch_def)
  then show ?thesis using assms(2) by (auto simp: lru_get_def)
qed

lemma Get_Set:
  assumes "rep c xs" and "2 \<le> length xs" and "ttl \<noteq> 0" and "lc_store c k = None" and "Set now k v ttl c = Some c1"
  shows "\<exists>c2. Get now' k c1 = Some ((v, unix (now + wrap64 (1000000000 * ttl)) < unix now'), c2)"
proof -
  obtain xs1 where c1: "rep c1 xs1" "lru_set now k v ttl (view c xs) = view c1 xs1"
    using Set_refines [OF assms(1,2), of now k v ttl] assms(5) by auto
  obtain r c2 xs2 where g: "Get now' k c1 = Some (r, c2)" "lru_get now' k (view c1 xs1) = (r, view c2 xs2)"
    using Get_refines [OF c1(1), of now' k] by blast
  have "fst (lru_get now' k (lru_set now k v ttl (view c xs))) = (v, unix (now + wrap64 (1000000000 * ttl)) < unix now')"
    using assms by (intro lru_get_set) (auto simp: view_def)
  with g c1(2) show ?thesis by simp
qed

lemma NewLruCache_rep: "rep (NewLruCache sz) [0, 1]" "view (NewLruCache sz) [0, 1] = lru_new sz"
  by (auto simp: rep_def NewLruCache_def view_def lru_new_def entry_def)

lemma reachable_rep:
  assumes "run_cache ops (NewLruCache sz) = Some (rs, c)"
  shows "\<exists>xs. rep c xs \<and> 2 \<le> length xs"
  using run_refines [OF NewLruCache_rep(1), where ops = ops and sz1 = sz] assms by auto

lemma touch_length: "distinct (map fst xs) \<Longrightarrow> map_of xs k \<noteq> None \<Longrightarrow> length (touch k e xs) = length xs"
proof (induction xs)
  case (Cons x xs)
  have "filter (\<lambda>y. fst y \<noteq> k) xs = xs" if "k \<notin> fst ` set xs"
    using that by (auto simp: filter_id_conv)
  with Cons show ?case by (cases "fst x = k") (auto simp: touch_def map_of_eq_None_iff)
qed simp

lemma touch_distinct: "distinct (map fst xs) \<Longrightarrow> distinct (map fst (touch k e xs))"
  by (auto simp: touch_def distinct_map_filter)

definition lru_ok :: "lru \<Rightarrow> bool" where
  "lru_ok a \<longleftrightarrow> distinct (map fst (a_items a)) \<and> int (length (a_items a)) \<le> max 2 (a_size a) \<and> a_items a \<noteq> []"

lemma lru_ok_touch: "lru_ok a \<Longrightarrow> map_of (a_items a) k \<noteq> None \<Longrightarrow> lru_ok (a\<lparr>a_items := touch k e (a_items a)\<rparr>)"
  using touch_length [of "a_items a" k e] touch_distinct [of "a_items a" k e]
  by (simp add: lru_ok_def) (simp add: touch_def)

lemma lru_get_ok: "lru_ok a \<Longrightarrow> lru_ok (snd (lru_get now k a)) \<and> a_size (snd (lru_get now k a)) = a_size a"
  using lru_ok_touch [of a k] by (auto simp: lru_get_def split: option.split)

lemma lru_set_ok: "lru_ok a \<Longrightarrow> lru_ok (lru_set now k v ttl a) \<and> a_size (lru_set now k v ttl a) = a_size a"
proof (cases "map_of (a_items a) k")
  case None
  assume ok: "lru_ok a"
  have "k \<notin> fst ` set (a_items a)" using None by (simp add: map_of_eq_None_iff)
  moreover have "distinct (map fst (butlast (a_items a)))" "fst ` set (butlast (a_items a)) \<subseteq> fst ` set (a_items a)"
    using ok by (auto simp: lru_ok_def map_butlast distinct_butlast dest: in_set_butlastD)
  ultimately show ?thesis using ok None
    by (auto simp: lru_set_def lru_ok_def Let_def touch_absent)
next
  case (Some e)
  assume ok: "lru_ok a"
  with Some lru_ok_touch [of a k] show ?thesis by (auto simp: lru_set_def Let_def lru_ok_def)
qed

lemma run_lru_ok: "lru_ok a \<Longrightarrow> lru_ok (snd (run_lru ops a)) \<and> a_size (snd (run_lru ops a)) = a_size a"
proof (induction ops a rule: run_lru.induct)
  case (2 now k ops a)
  then show ?case using lru_get_ok [of a now k] by (auto split: prod.split)
next
  case (3 now k v ttl ops a)
  then show ?case using lru_set_ok [of a now k v ttl] by simp
qed simp

text \<open>
  C11. The pointer-based cache is a least-recently-used list: whatever sequence of \<open>Get\<close> and \<open>Set\<close>
  follows \<open>NewLruCache\<close>, no operation follows a nil pointer, the gets return what the abstract
  cache returns, and the index never holds more than the size given (or the two sentinels).
\<close>

theorem cache_refines_lru:
  "\<exists>c. run_cache ops (NewLruCache sz) = Some (fst (run_lru ops (lru_new sz)), c) \<and>
       int (length (lc_cache c)) \<le> max 2 sz"
proof -
  obtain rs c' xs' where r: "run_cache ops (NewLruCache sz) = Some (rs, c')" "rep c' xs'" "run_lru ops (lru_new sz) = (rs, view c' xs')"
    using run_refines [OF NewLruCache_rep(1), where ops = ops and sz1 = sz] unfolding NewLruCache_rep(2) by auto
  have "lru_ok (lru_new sz)" by (simp add: lru_ok_def lru_new_def)
  then have "lru_ok (view c' xs')" "a_size (view c' xs') = sz"
    using run_lru_ok [of "lru_new sz" ops] r(3) by (simp_all add: lru_new_def)
  then have "int (length (lc_cache c')) \<le> max 2 sz"
    using rep_lookup(3) [OF r(2)] by (simp add: lru_ok_def view_def)
  with r show ?thesis by auto
qed

end
