(* ===== verification/Dialing.thy ===== *)
theory Dialing
  imports Forwarding "HOL-Library.Sublist"
begin

text \<open>
  Building a group, choosing forwarders and dialing (\<open>newFwdrGroup\<close>, the four schedulers,
  \<open>nextDialer\<close>, \<open>dialCandidates\<close>, \<open>Forwarder.Dial\<close>, \<open>FwdrGroup.Dial\<close> and \<open>DialUDP\<close> of package
  \<open>rule\<close>). The outcome of a dial and the readings of the clock come from the environment: an
  \<open>attempt\<close> for the i-th dial made on a forwarder. \<open>dial_loop\<close> also returns the forwarders it
  dialed, the list its log lines spell out. The locale \<open>strategy\<close> is what the retry logic
  relies on in a scheduler; it is interpreted for each of the four and for the dispatch
  through \<open>p.next\<close>.
\<close>

section \<open>Schedulers\<close>

definition scheduleRR :: "fstore \<Rightarrow> FwdrGroup \<Rightarrow> string \<Rightarrow> fid \<times> FwdrGroup" where
  "scheduleRR F p dstAddr =
     (let i = g_index p + 1
      in (g_avail p ! unat (i mod of_nat (length (g_avail p))), p\<lparr>g_index := i\<rparr>))"

definition scheduleHA :: "fstore \<Rightarrow> FwdrGroup \<Rightarrow> string \<Rightarrow> fid \<times> FwdrGroup" where
  "scheduleHA F p dstAddr = (g_avail p ! 0, p)"

text \<open>The loop of \<open>scheduleLHA\<close> over the rotation: the best forwarder so far and its latency.\<close>

fun lowest_latency :: "fstore \<Rightarrow> fid list \<Rightarrow> fid \<times> int \<Rightarrow> fid \<times> int" where
  "lowest_latency F [] (newf, lowest) = (newf, lowest)"
| "lowest_latency F (f # fs) (newf, lowest) =
     (if f_latency (F f) < lowest then lowest_latency F fs (f, f_latency (F f))
      else lowest_latency F fs (newf, lowest))"

definition scheduleLHA :: "fstore \<Rightarrow> FwdrGroup \<Rightarrow> string \<Rightarrow> fid \<times> FwdrGroup" where
  "scheduleLHA F p dstAddr =
     (let oldf = g_avail p ! 0;
          newf = fst (lowest_latency F (g_avail p) (oldf, f_latency (F oldf)));
          tolerance = wrap64 (s_CheckTolerance (g_config p) * 1000000)
      in (if f_latency (F newf) < wrap64 (f_latency (F oldf) - tolerance) then newf else oldf, p))"

definition fnv32a :: "string \<Rightarrow> u32" where
  "fnv32a s = fold (\<lambda>c h. (h XOR of_char c) * 16777619) s 2166136261"

definition scheduleDH :: "fstore \<Rightarrow> FwdrGroup \<Rightarrow> string \<Rightarrow> fid \<times> FwdrGroup" where
  "scheduleDH F p dstAddr =
     (g_avail p ! unat (fnv32a dstAddr mod of_nat (length (g_avail p))), p)"

fun schedule :: "scheduler \<Rightarrow> fstore \<Rightarrow> FwdrGroup \<Rightarrow> string \<Rightarrow> fid \<times> FwdrGroup" where
  "schedule RR = scheduleRR"
| "schedule HA = scheduleHA"
| "schedule LHA = scheduleLHA"
| "schedule DH = scheduleDH"

definition nextDialer :: "fstore \<Rightarrow> FwdrGroup \<Rightarrow> string \<Rightarrow> fid \<times> FwdrGroup" where
  "nextDialer F p dstAddr =
     (if g_avail p = [] then
        (let i = g_index p + 1
         in (g_fwdrs p ! unat (i mod of_nat (length (g_fwdrs p))), p\<lparr>g_index := i\<rparr>))
      else schedule (g_next p) F p dstAddr)"

definition NextDialer :: "gid \<Rightarrow> string \<Rightarrow> world \<Rightarrow> fid \<times> world" where
  "NextDialer g dstAddr w =
     (let (f, p) = nextDialer (w_fwdr w) (w_group w g) dstAddr in (f, upd_group g (\<lambda>_. p) w))"

section \<open>Building a group\<close>

definition maxDialBudget :: int where "maxDialBudget = 3600"

definition priLess :: "fstore \<Rightarrow> fid \<Rightarrow> fid \<Rightarrow> bool" where
  "priLess F x y \<longleftrightarrow> f_priority (F y) < f_priority (F x)"

text \<open>
  \<open>sort.Sort\<close> promises a permutation in which no element is less than one before it, and no
  more: it is not stable. It is the parameter \<open>srt\<close> of the constructor.
\<close>

definition sorts :: "((fid \<Rightarrow> fid \<Rightarrow> bool) \<Rightarrow> fid list \<Rightarrow> fid list) \<Rightarrow> bool" where
  "sorts srt \<longleftrightarrow> (\<forall>F xs. mset (srt (priLess F) xs) = mset xs \<and>
     sorted_wrt (\<lambda>x y. \<not> priLess F y x) (srt (priLess F) xs))"

definition strategy_of :: "string \<Rightarrow> scheduler" where
  "strategy_of s =
     (if s = ''rr'' then RR else if s = ''ha'' then HA else if s = ''lha'' then LHA
      else if s = ''dh'' then DH else RR)"

definition fresh_group ::
  "((fid \<Rightarrow> fid \<Rightarrow> bool) \<Rightarrow> fid list \<Rightarrow> fid list) \<Rightarrow> string \<Rightarrow> fid list \<Rightarrow> Strategy \<Rightarrow> fstore \<Rightarrow> FwdrGroup" where
  "fresh_group srt name fwdrs c F =
     (group_init F
        \<lparr>g_name = name, g_config = c, g_fwdrs = srt (priLess F) fwdrs, g_avail = [], g_index = 0,
         g_priority = 0, g_next = RR, g_done = None, g_dialAttempts = max (s_DialAttempts c) 1,
         g_dialBudget = min (max (s_DialBudget c) 0) maxDialBudget * 1000000000\<rparr>)
     \<lparr>g_next := (if 1 < length fwdrs then strategy_of (s_Strategy c) else RR)\<rparr>"

definition newFwdrGroup ::
  "((fid \<Rightarrow> fid \<Rightarrow> bool) \<Rightarrow> fid list \<Rightarrow> fid list) \<Rightarrow> string \<Rightarrow> fid list \<Rightarrow> Strategy \<Rightarrow> world \<Rightarrow> gid \<times> world" where
  "newFwdrGroup srt name fwdrs c w =
     (let p = fresh_group srt name fwdrs c (w_fwdr w);
          g = w_ngroup w;
          w' = w\<lparr>w_group := (w_group w)(g := p), w_ngroup := Suc g\<rparr>
      in (g, fold (AddHandler g) (g_fwdrs p) w'))"

section \<open>Candidates of one dial\<close>

text \<open>The second loop of \<open>dialCandidates\<close>.\<close>

function cand_loop :: "fid list \<Rightarrow> fid \<Rightarrow> nat \<Rightarrow> int \<Rightarrow> nat \<Rightarrow> fid list \<Rightarrow> fid list" where
  "cand_loop pool first start n i out =
     (if i < length pool \<and> int (length out) < n then
        (let f = pool ! ((start + i) mod length pool)
         in cand_loop pool first start n (Suc i) (if f \<noteq> first then out @ [f] else out))
      else out)"
  by pat_completeness auto
termination
  by (relation "measure (\<lambda>(pool, first, start, n, i, out). length pool - i)") auto

declare cand_loop.simps [simp del]

definition dialPool :: "FwdrGroup \<Rightarrow> fid list" where
  "dialPool p = (if g_avail p = [] then g_fwdrs p else g_avail p)"

definition dialCandidates :: "fstore \<Rightarrow> FwdrGroup \<Rightarrow> string \<Rightarrow> int \<Rightarrow> fid list \<times> FwdrGroup" where
  "dialCandidates F p dstAddr n =
     (let pool = dialPool p;
          n' = min n (int (length pool));
          (first, p') = nextDialer F p dstAddr;
          start = (case find_index first pool of None \<Rightarrow> 0 | Some i \<Rightarrow> i + 1)
      in (cand_loop pool first start n' 0 [first], p'))"

section \<open>Dialing\<close>

record attempt =
  a_gate :: int
  a_begin :: int
  a_end :: int
  a_result :: "string + nat"

type_synonym dial_env = "nat \<Rightarrow> fid \<Rightarrow> attempt"
type_synonym dial_ret = "nat option \<times> fid option \<times> string option"

definition Forwarder_Dial :: "fid \<Rightarrow> 'e + 'c \<Rightarrow> world \<Rightarrow> world" where
  "Forwarder_Dial f r w = (case r of Inl err \<Rightarrow> IncFailures f w | Inr c \<Rightarrow> w)"

fun dial_loop ::
  "int \<Rightarrow> int \<Rightarrow> dial_env \<Rightarrow> nat \<Rightarrow> int \<Rightarrow> fid option \<Rightarrow> string option \<Rightarrow> fid list \<Rightarrow> world \<Rightarrow>
     dial_ret \<times> fid list \<times> world" where
  "dial_loop budget start env i lastCost lastDialer lastErr [] w = ((None, lastDialer, lastErr), [], w)"
| "dial_loop budget start env i lastCost lastDialer lastErr (nd # cands) w =
     (if 0 < i \<and> 0 < budget \<and> budget \<le> wrap64 (a_gate (env i nd) - start + lastCost)
      then ((None, lastDialer, lastErr), [], w)
      else
        (let a = env i nd;
             w' = Forwarder_Dial nd (a_result a) w;
             cost = a_end a - a_begin a
         in case a_result a of
              Inr c \<Rightarrow> ((Some c, Some nd, None), [nd], w')
            | Inl err \<Rightarrow>
                (let (r, tried, w'') = dial_loop budget start env (Suc i) cost (Some nd) (Some err) cands w'
                 in (r, nd # tried, w''))))"

definition Dial :: "dial_env \<Rightarrow> int \<Rightarrow> gid \<Rightarrow> string \<Rightarrow> world \<Rightarrow> dial_ret \<times> fid list \<times> world" where
  "Dial env start g addr w =
     (let p = w_group w g;
          (cands, p') = dialCandidates (w_fwdr w) p addr (g_dialAttempts p)
      in dial_loop (g_dialBudget p) start env 0 0 None None cands (upd_group g (\<lambda>_. p') w))"

text \<open>\<open>DialUDP\<close> calls the embedded dialer, so a failure is not charged to the forwarder.\<close>

definition DialUDP :: "(fid \<Rightarrow> string + nat) \<Rightarrow> gid \<Rightarrow> string \<Rightarrow> world \<Rightarrow> dial_ret \<times> world" where
  "DialUDP env g addr w =
     (let (nd, w') = NextDialer g addr w
      in case env nd of
           Inl err \<Rightarrow> ((None, Some nd, Some err), w')
         | Inr pc \<Rightarrow> ((Some pc, Some nd, None), w'))"

section \<open>Candidates: the loop computes a rotation of the pool\<close>

lemma cand_loop_eq:
  assumes "i \<le> length pool" and "int (length out) \<le> n"
  shows "cand_loop pool first start n i out =
    take (nat n) (out @ filter (\<lambda>f. f \<noteq> first) (drop i (rotate start pool)))"
  using assms
proof (induction pool first start n i out rule: cand_loop.induct)
  case (1 pool first start n i out)
  show ?case
  proof (cases "i < length pool \<and> int (length out) < n")
    case True
    then have i: "i < length pool" by simp
    then have d: "drop i (rotate start pool) =
        pool ! ((start + i) mod length pool) # drop (Suc i) (rotate start pool)"
      by (simp add: Cons_nth_drop_Suc [symmetric] nth_rotate)
    from True "1.IH" [OF True refl] i show ?thesis
      by (simp add: cand_loop.simps [of pool first start n i out] Let_def d del: take_append)
  next
    case False
    with "1.prems" consider "i = length pool" | "int (length out) = n" by linarith
    moreover from False have "cand_loop pool first start n i out = out"
      by (subst cand_loop.simps) (simp only: if_False)
    ultimately show ?thesis using "1.prems" by cases auto
  qed
qed

definition cand_spec :: "fid list \<Rightarrow> fid \<Rightarrow> nat \<Rightarrow> fid list" where
  "cand_spec pool first n =
     take n (first # filter (\<lambda>f. f \<noteq> first)
       (rotate (case find_index first pool of None \<Rightarrow> 0 | Some i \<Rightarrow> i + 1) pool))"

lemma cand_spec_props:
  assumes "distinct pool" and "first \<in> set pool" and "0 < n"
  shows "distinct (cand_spec pool first n)" and "set (cand_spec pool first n) \<subseteq> set pool"
    and "length (cand_spec pool first n) = min n (length pool)"
    and "hd (cand_spec pool first n) = first"
proof -
  let ?fs = "filter (\<lambda>f. f \<noteq> first)
    (rotate (case find_index first pool of None \<Rightarrow> 0 | Some i \<Rightarrow> i + 1) pool)"
  have d: "distinct (first # ?fs)" using assms by simp
  then show "distinct (cand_spec pool first n)"
    unfolding cand_spec_def by (rule distinct_take)
  have s: "set (first # ?fs) = set pool" using assms by auto
  then show "set (cand_spec pool first n) \<subseteq> set pool"
    unfolding cand_spec_def by (metis set_take_subset)
  have "length (first # ?fs) = length pool"
    using d s assms(1) by (metis distinct_card)
  then show "length (cand_spec pool first n) = min n (length pool)"
    unfolding cand_spec_def by (simp only: length_take min.commute)
  show "hd (cand_spec pool first n) = first"
    using assms(3) by (cases n) (simp_all add: cand_spec_def)
qed

section \<open>The interface of a scheduler\<close>

locale strategy =
  fixes pick :: "fstore \<Rightarrow> FwdrGroup \<Rightarrow> string \<Rightarrow> fid \<times> FwdrGroup"
  assumes pick_mem: "g_avail p \<noteq> [] \<Longrightarrow> length (g_avail p) < 2 ^ 32 \<Longrightarrow>
      fst (pick F p dst) \<in> set (g_avail p)"
    and pick_frame: "\<exists>i. snd (pick F p dst) = p\<lparr>g_index := i\<rparr>"

text \<open>What the retry logic needs of \<open>nextDialer\<close>: a member of the pool, and no other change
  than the round-robin index.\<close>

locale dialer_choice =
  fixes pickd :: "fstore \<Rightarrow> FwdrGroup \<Rightarrow> string \<Rightarrow> fid \<times> FwdrGroup"
  assumes pickd_mem: "dialPool p \<noteq> [] \<Longrightarrow> length (dialPool p) < 2 ^ 32 \<Longrightarrow>
      fst (pickd F p dst) \<in> set (dialPool p)"
    and pickd_frame: "\<exists>i. snd (pickd F p dst) = p\<lparr>g_index := i\<rparr>"
begin

lemma pickd_fields:
  "g_avail (snd (pickd F p dst)) = g_avail p" "g_fwdrs (snd (pickd F p dst)) = g_fwdrs p"
  "g_priority (snd (pickd F p dst)) = g_priority p" "g_next (snd (pickd F p dst)) = g_next p"
  "g_dialAttempts (snd (pickd F p dst)) = g_dialAttempts p"
  "g_dialBudget (snd (pickd F p dst)) = g_dialBudget p"
  using pickd_frame [of F p dst] by auto

lemma candidates:
  assumes "distinct (dialPool p)" "dialPool p \<noteq> []" "length (dialPool p) < 2 ^ 32" "0 < n"
  shows "distinct (cand_spec (dialPool p) (fst (pickd F p dst)) n)"
    and "set (cand_spec (dialPool p) (fst (pickd F p dst)) n) \<subseteq> set (dialPool p)"
    and "length (cand_spec (dialPool p) (fst (pickd F p dst)) n) = min n (length (dialPool p))"
    and "hd (cand_spec (dialPool p) (fst (pickd F p dst)) n) = fst (pickd F p dst)"
  using cand_spec_props [OF assms(1) pickd_mem [OF assms(2,3)] assms(4)] by simp_all

end

lemma u32_index: "0 < n \<Longrightarrow> n < 2 ^ 32 \<Longrightarrow> unat ((i :: u32) mod of_nat n) = unat i mod n"
  by (simp add: unat_mod)

lemma lowest_latency_mem:
  "fst (lowest_latency F fs (newf, lo)) \<in> insert newf (set fs)"
proof (induction fs arbitrary: newf lo)
  case (Cons f fs)
  from Cons.IH [of f "f_latency (F f)"] Cons.IH [of newf lo] show ?case by auto
qed simp

lemma lowest_latency_min:
  assumes "lo = f_latency (F newf)"
  shows "snd (lowest_latency F fs (newf, lo)) = f_latency (F (fst (lowest_latency F fs (newf, lo)))) \<and>
    snd (lowest_latency F fs (newf, lo)) \<le> lo \<and>
    (\<forall>f \<in> set fs. snd (lowest_latency F fs (newf, lo)) \<le> f_latency (F f))"
  using assms
proof (induction fs arbitrary: newf lo)
  case (Cons f fs)
  from Cons.IH [of "f_latency (F f)" f] Cons.IH [of lo newf] Cons.prems show ?case by force
qed simp

interpretation rr: strategy scheduleRR
proof unfold_locales
  show "fst (scheduleRR F p dst) \<in> set (g_avail p)"
    if "g_avail p \<noteq> []" "length (g_avail p) < 2 ^ 32" for F p dst
    using that by (simp add: scheduleRR_def Let_def u32_index)
  show "\<exists>i. snd (scheduleRR F p dst) = p\<lparr>g_index := i\<rparr>" for F p dst
    by (auto simp: scheduleRR_def Let_def)
qed

interpretation ha: strategy scheduleHA
proof unfold_locales
  show "\<exists>i. snd (scheduleHA F p dst) = p\<lparr>g_index := i\<rparr>" for F p dst
    by (auto simp: scheduleHA_def intro: exI [of _ "g_index p"])
qed (simp add: scheduleHA_def)

interpretation lha: strategy scheduleLHA
proof unfold_locales
  show "fst (scheduleLHA F p dst) \<in> set (g_avail p)" if "g_avail p \<noteq> []" for F p dst
    using lowest_latency_mem [of F "g_avail p" "g_avail p ! 0" "f_latency (F (g_avail p ! 0))"] that
    by (auto simp: scheduleLHA_def Let_def)
  show "\<exists>i. snd (scheduleLHA F p dst) = p\<lparr>g_index := i\<rparr>" for F p dst
    by (auto simp: scheduleLHA_def Let_def intro: exI [of _ "g_index p"])
qed

interpretation dh: strategy scheduleDH
proof unfold_locales
  show "fst (scheduleDH F p dst) \<in> set (g_avail p)"
    if "g_avail p \<noteq> []" "length (g_avail p) < 2 ^ 32" for F p dst
    using that by (simp add: scheduleDH_def u32_index)
  show "\<exists>i. snd (scheduleDH F p dst) = p\<lparr>g_index := i\<rparr>" for F p dst
    by (auto simp: scheduleDH_def intro: exI [of _ "g_index p"])
qed

interpretation sched: strategy "schedule s" for s
  by (cases s) (simp_all add: rr.strategy_axioms ha.strategy_axioms lha.strategy_axioms dh.strategy_axioms)

interpretation choice: dialer_choice nextDialer
proof unfold_locales
  show "fst (nextDialer F p dst) \<in> set (dialPool p)"
    if "dialPool p \<noteq> []" "length (dialPool p) < 2 ^ 32" for F p dst
    using that sched.pick_mem [of p "g_next p" F dst]
    by (auto simp: nextDialer_def dialPool_def Let_def u32_index)
  show "\<exists>i. snd (nextDialer F p dst) = p\<lparr>g_index := i\<rparr>" for F p dst
    using sched.pick_frame [of "g_next p" F p dst] by (auto simp: nextDialer_def Let_def)
qed

text \<open>The loop of the source meets the specification.\<close>

lemma dialCandidates_spec:
  assumes "dialPool p \<noteq> []" and "1 \<le> n"
  shows "dialCandidates F p dst n =
    (cand_spec (dialPool p) (fst (nextDialer F p dst)) (min (nat n) (length (dialPool p))),
     snd (nextDialer F p dst))"
proof -
  have "1 \<le> min n (int (length (dialPool p)))"
    using assms by (cases "dialPool p") auto
  moreover have "nat (min n (int k)) = min (nat n) k" for k :: nat
    by simp
  ultimately show ?thesis
    by (simp add: dialCandidates_def cand_loop_eq cand_spec_def Let_def split_beta)
qed

section \<open>Properties of the schedulers\<close>

text \<open>A sequence of picks, one per destination.\<close>

fun picks :: "fstore \<Rightarrow> FwdrGroup \<Rightarrow> string list \<Rightarrow> fid list" where
  "picks F p [] = []"
| "picks F p (d # ds) = (let (f, p') = nextDialer F p d in f # picks F p' ds)"

lemma picks_RR:
  assumes "g_next p = RR" and "g_avail p \<noteq> []" and "length (g_avail p) < 2 ^ 32"
    and "unat (g_index p) + length ds < 2 ^ 32"
  shows "picks F p ds =
    map (\<lambda>j. g_avail p ! ((unat (g_index p) + 1 + j) mod length (g_avail p))) [0..<length ds]"
  using assms
proof (induction ds arbitrary: p)
  case (Cons d ds)
  let ?p = "p\<lparr>g_index := g_index p + 1\<rparr>" and ?n = "length (g_avail p)"
  have i: "unat (g_index p + 1) = unat (g_index p) + 1"
    using Cons.prems(4) by (simp add: unat_word_ariths)
  have "nextDialer F p d = (g_avail p ! ((unat (g_index p) + 1) mod ?n), ?p)"
    using Cons.prems by (simp add: nextDialer_def scheduleRR_def Let_def u32_index i)
  moreover have "picks F ?p ds =
      map (\<lambda>j. g_avail p ! ((unat (g_index p) + 1 + Suc j) mod ?n)) [0..<length ds]"
    using Cons.IH [of ?p] Cons.prems i by simp
  moreover have "[0..<Suc (length ds)] = 0 # map Suc [0..<length ds]"
    by (simp add: upt_conv_Cons map_Suc_upt del: upt_Suc)
  ultimately show ?case by (simp add: comp_def del: upt_Suc)
qed simp

lemma rotate_as_map: "rotate k xs = map (\<lambda>j. xs ! ((k + j) mod length xs)) [0..<length xs]"
  by (rule nth_equalityI) (simp_all add: nth_rotate)

lemma mset_rotate: "mset (rotate n xs) = mset xs"
proof -
  let ?k = "n mod length xs"
  have "mset (rotate n xs) = mset (take ?k xs) + mset (drop ?k xs)"
    by (simp only: rotate_drop_take mset_append union_commute)
  also have "\<dots> = mset xs" by (simp only: append_take_drop_id flip: mset_append)
  finally show ?thesis .
qed

text \<open>
  C3. Round robin is fair: as many consecutive picks as there are forwarders in the rotation
  visit each of them exactly once, as long as the 32-bit index does not wrap meanwhile.
\<close>

theorem rr_fair:
  assumes "g_next p = RR" and "g_avail p \<noteq> []" and "length ds = length (g_avail p)"
    and "unat (g_index p) + length ds < 2 ^ 32"
  shows "mset (picks F p ds) = mset (g_avail p)"
proof -
  let ?xs = "g_avail p"
  have "picks F p ds = map (\<lambda>j. ?xs ! ((unat (g_index p) + 1 + j) mod length ?xs)) [0..<length ?xs]"
    using picks_RR [of p ds F] assms by simp
  also have "\<dots> = rotate (unat (g_index p) + 1) ?xs" by (rule rotate_as_map [symmetric])
  finally show ?thesis by (simp only: mset_rotate)
qed

text \<open>
  The latency scheduler keeps the first forwarder of the rotation unless some forwarder
  beats it by more than the tolerance, and then it picks one of the lowest latency.
\<close>

theorem lha_picks_fastest:
  fixes F p dst
  defines "old \<equiv> g_avail p ! 0"
    and "tol \<equiv> s_CheckTolerance (g_config p) * 1000000"
    and "r \<equiv> fst (scheduleLHA F p dst)"
  assumes "g_avail p \<noteq> []" and "int64_range tol" and "int64_range (f_latency (F old) - tol)"
  shows "r \<in> set (g_avail p) \<and>
    (if \<exists>f \<in> set (g_avail p). f_latency (F f) < f_latency (F old) - tol
     then \<forall>f \<in> set (g_avail p). f_latency (F r) \<le> f_latency (F f)
     else r = old)"
proof -
  let ?new = "fst (lowest_latency F (g_avail p) (old, f_latency (F old)))"
  have new: "?new \<in> set (g_avail p)"
    using lowest_latency_mem [of F "g_avail p" old "f_latency (F old)"] assms(4)
    by (auto simp: old_def)
  have min: "\<forall>f \<in> set (g_avail p). f_latency (F ?new) \<le> f_latency (F f)"
    using lowest_latency_min [of "f_latency (F old)" F old "g_avail p"] by force
  have r: "r = (if f_latency (F ?new) < f_latency (F old) - tol then ?new else old)"
    using assms by (simp add: scheduleLHA_def Let_def)
  show ?thesis
  proof (cases "f_latency (F ?new) < f_latency (F old) - tol")
    case True
    with r new min show ?thesis by auto
  next
    case False
    with min have "\<not> (\<exists>f \<in> set (g_avail p). f_latency (F f) < f_latency (F old) - tol)"
      by force
    with False r assms(4) show ?thesis by (simp add: old_def)
  qed
qed

section \<open>A fresh group\<close>

lemma fold_AddHandler:
  "w_group (fold (AddHandler g) fs w) = w_group w" "w_ngroup (fold (AddHandler g) fs w) = w_ngroup w"
  "distinct fs \<Longrightarrow> w_fwdr (fold (AddHandler g) fs w) f =
     (if f \<in> set fs then (w_fwdr w f)\<lparr>f_handlers := f_handlers (w_fwdr w f) @ [g]\<rparr> else w_fwdr w f)"
  by (induction fs arbitrary: w) (auto simp: AddHandler_def)

lemma sorts_sorted:
  assumes "sorts srt"
  shows "sorted_fwdrs F (srt (priLess F) xs)" and "mset (srt (priLess F) xs) = mset xs"
  using assms by (auto simp: sorts_def sorted_fwdrs_def priLess_def not_less)

lemma fresh_group_ok:
  assumes "sorts srt" and "fwdrs \<noteq> []" and "distinct fwdrs"
  shows "group_static F (fresh_group srt name fwdrs c F)"
    and "avail_inv {} F (fresh_group srt name fwdrs c F)"
    and "mset (g_fwdrs (fresh_group srt name fwdrs c F)) = mset fwdrs"
proof -
  have fs: "sorted_fwdrs F (srt (priLess F) fwdrs)" "mset (srt (priLess F) fwdrs) = mset fwdrs"
    using sorts_sorted [OF assms(1)] by auto
  moreover from fs(2) assms have "distinct (srt (priLess F) fwdrs)" "srt (priLess F) fwdrs \<noteq> []"
    using mset_eq_imp_distinct_iff by auto
  ultimately have st: "group_static F p" if "g_fwdrs p = srt (priLess F) fwdrs" for p
    using that by (simp add: group_static_def)
  then show "group_static F (fresh_group srt name fwdrs c F)"
    by (simp add: fresh_group_def)
  have "avail_inv {} F (p\<lparr>g_next := n\<rparr>) = avail_inv {} F p" for p n
    by (simp add: avail_inv_def)
  with st show "avail_inv {} F (fresh_group srt name fwdrs c F)"
    by (simp add: fresh_group_def group_init_inv)
  show "mset (g_fwdrs (fresh_group srt name fwdrs c F)) = mset fwdrs"
    using fs by (simp add: fresh_group_def)
qed

lemma group_cong:
  assumes "group_static F p" and "avail_inv {} F p"
    and "\<And>x. f_priority (F' x) = f_priority (F x)" and "\<And>x. Enabled (F' x) = Enabled (F x)"
  shows "group_static F' p \<and> avail_inv {} F' p"
  using group_static_cong [OF assms(1), of F'] avail_inv_cong [OF assms(2), of F'] assms(3,4) by simp

text \<open>Adding a settled group over forwarders without a handler.\<close>

lemma world_ok_add_group:
  assumes ok: "world_ok w" and p: "group_static (w_fwdr w) p" "avail_inv {} (w_fwdr w) p"
    and free: "\<forall>f \<in> set (g_fwdrs p). f_handlers (w_fwdr w f) = []"
  shows "world_ok (fold (AddHandler (w_ngroup w)) (g_fwdrs p)
    (w\<lparr>w_group := (w_group w)(w_ngroup w := p), w_ngroup := Suc (w_ngroup w)\<rparr>))"
    (is "world_ok ?w'")
proof -
  have d: "distinct (g_fwdrs p)" using p by (simp add: group_static_def)
  have F: "w_fwdr ?w' f = (if f \<in> set (g_fwdrs p)
      then (w_fwdr w f)\<lparr>f_handlers := f_handlers (w_fwdr w f) @ [w_ngroup w]\<rparr> else w_fwdr w f)" for f
    using d by (simp add: fold_AddHandler)
  have eq: "f_priority (w_fwdr ?w' f) = f_priority (w_fwdr w f)"
    "f_disabled (w_fwdr ?w' f) = f_disabled (w_fwdr w f)"
    "Enabled (w_fwdr ?w' f) = Enabled (w_fwdr w f)" for f
    by (simp_all add: F Enabled_def)
  have old: "f \<notin> set (g_fwdrs p)" if "h < w_ngroup w" "f \<in> set (g_fwdrs (w_group w h))" for h f
    using ok free that by (auto simp: world_ok_def wired_def)
  have "wired w" using ok by (simp add: world_ok_def)
  have "wired ?w'"
    unfolding wired_def
  proof (intro conjI allI impI ballI)
    fix g f assume "g < w_ngroup ?w'" "f \<in> set (g_fwdrs (w_group ?w' g))"
    then show "f_handlers (w_fwdr ?w' f) = [g]"
      using \<open>wired w\<close> free old
      by (cases "g = w_ngroup w") (auto simp: F fold_AddHandler wired_def less_Suc_eq)
  next
    fix f
    show "f_handlers (w_fwdr ?w' f) = [] \<or> (\<exists>g < w_ngroup ?w'.
        f_handlers (w_fwdr ?w' f) = [g] \<and> f \<in> set (g_fwdrs (w_group ?w' g)))"
    proof (cases "f \<in> set (g_fwdrs p)")
      case True
      with free show ?thesis
        by (intro disjI2 exI [of _ "w_ngroup w"]) (simp add: F fold_AddHandler)
    next
      case False
      have "f_handlers (w_fwdr w f) = [] \<or> (\<exists>g < w_ngroup w.
          f_handlers (w_fwdr w f) = [g] \<and> f \<in> set (g_fwdrs (w_group w g)))"
        using \<open>wired w\<close> unfolding wired_def by blast
      with False show ?thesis by (fastforce simp: F fold_AddHandler)
    qed
  qed
  moreover have "group_static (w_fwdr ?w') (w_group ?w' g) \<and> avail_inv {} (w_fwdr ?w') (w_group ?w' g)"
    if "g < w_ngroup ?w'" for g
    by (rule group_cong [OF _ _ eq(1,3)])
      (use ok p that in \<open>auto simp: fold_AddHandler world_ok_def less_Suc_eq\<close>)
  moreover have "\<forall>f. f_disabled (w_fwdr ?w' f) \<in> {0, 1}" using ok by (simp only: eq) (simp add: world_ok_def)
  ultimately show ?thesis unfolding world_ok_def by blast
qed

text \<open>
  C4. \<open>newFwdrGroup\<close>, over forwarders that no group has yet, keeps the world well formed, whatever
  permutation the sort yields among equal priorities: the new group has the given forwarders in
  descending priority, its rotation is settled, and its dial bounds are clamped to at least
  one attempt and to 0..3600 seconds.
\<close>

theorem newFwdrGroup_ok:
  assumes "sorts srt" and "world_ok w" and "fwdrs \<noteq> []" and "distinct fwdrs"
    and "\<forall>f \<in> set fwdrs. f_handlers (w_fwdr w f) = []"
    and "newFwdrGroup srt name fwdrs c w = (g, w')"
  shows "world_ok w' \<and> g = w_ngroup w \<and> w_ngroup w' = Suc g \<and>
    mset (g_fwdrs (w_group w' g)) = mset fwdrs \<and>
    1 \<le> g_dialAttempts (w_group w' g) \<and>
    0 \<le> g_dialBudget (w_group w' g) \<and> g_dialBudget (w_group w' g) \<le> 3600 * 10 ^ 9"
proof -
  let ?p = "fresh_group srt name fwdrs c (w_fwdr w)"
  note p = fresh_group_ok [OF assms(1,3,4), where F = "w_fwdr w" and name = name and c = c]
  have "set (g_fwdrs ?p) = set fwdrs" using p(3) by (rule mset_eq_setD)
  with assms(5) have "world_ok w'"
    using world_ok_add_group [OF assms(2) p(1,2)] assms(6)
    by (auto simp: newFwdrGroup_def Let_def)
  moreover have "g = w_ngroup w" "w_ngroup w' = Suc g" "w_group w' g = ?p"
    using assms(6) by (auto simp: newFwdrGroup_def Let_def fold_AddHandler)
  ultimately show ?thesis
    using p(3) by (simp add: fresh_group_def maxDialBudget_def)
qed

section \<open>Dialing\<close>

lemma Forwarder_Dial_fwdr:
  "f_failures (w_fwdr (Forwarder_Dial nd r w) f) =
     f_failures (w_fwdr w f) + (if f = nd \<and> isl r then 1 else 0)"
  by (cases r) (auto simp: Forwarder_Dial_def IncFailures_fwdr)

lemma world_ok_Forwarder_Dial: "world_ok w \<Longrightarrow> world_ok (Forwarder_Dial nd r w)"
  by (auto simp: Forwarder_Dial_def world_ok_ops split: sum.split)

text \<open>The three ways one turn of the retry loop can go: the budget stops it, the dial succeeds,
  the dial fails and the loop goes on.\<close>

lemma dial_loop_ConsE:
  assumes "dial_loop budget start env i lc ld le (nd # cands) w = (r, tried, w')"
  obtains (gate) "0 < i" "0 < budget" "budget \<le> wrap64 (a_gate (env i nd) - start + lc)"
      "r = (None, ld, le)" "tried = []" "w' = w"
    | (ok) c where "\<not> (0 < i \<and> 0 < budget \<and> budget \<le> wrap64 (a_gate (env i nd) - start + lc))"
      "a_result (env i nd) = Inr c" "r = (Some c, Some nd, None)" "tried = [nd]" "w' = w"
    | (fail) e t where "\<not> (0 < i \<and> 0 < budget \<and> budget \<le> wrap64 (a_gate (env i nd) - start + lc))"
      "a_result (env i nd) = Inl e" "tried = nd # t"
      "dial_loop budget start env (Suc i) (a_end (env i nd) - a_begin (env i nd)) (Some nd) (Some e)
         cands (IncFailures nd w) = (r, t, w')"
proof (cases "0 < i \<and> 0 < budget \<and> budget \<le> wrap64 (a_gate (env i nd) - start + lc)")
  case True
  with assms show ?thesis by (intro gate) simp_all
next
  case False
  show ?thesis
  proof (cases "a_result (env i nd)")
    case (Inr c)
    with False assms show ?thesis by (intro ok [of c]) (auto simp: Let_def Forwarder_Dial_def)
  next
    case (Inl e)
    obtain r2 t2 w2 where "dial_loop budget start env (Suc i) (a_end (env i nd) - a_begin (env i nd))
        (Some nd) (Some e) cands (IncFailures nd w) = (r2, t2, w2)"
      by (metis prod_cases3)
    with False Inl assms show ?thesis
      by (intro fail [of e t2]) (auto simp: Let_def Forwarder_Dial_def)
  qed
qed

text \<open>What one run of the retry loop returns, in terms of the forwarders it dialed.\<close>

lemma dial_loop_result:
  assumes "dial_loop budget start env i lc ld le cands w = (r, tried, w')"
  shows "prefix tried cands \<and>
    (\<forall>k. k + 1 < length tried \<longrightarrow> isl (a_result (env (i + k) (tried ! k)))) \<and>
    r = (if tried = [] then (None, ld, le)
         else case a_result (env (i + length tried - 1) (last tried)) of
                Inr c \<Rightarrow> (Some c, Some (last tried), None)
              | Inl e \<Rightarrow> (None, Some (last tried), Some e))"
  using assms
proof (induction cands arbitrary: i lc ld le w r tried w')
  case (Cons nd cands)
  from Cons.prems show ?case
  proof (cases rule: dial_loop_ConsE)
    case (fail e t)
    from Cons.IH [OF fail(4)] fail(2,3) show ?thesis
      by (auto simp: nth_Cons split: nat.split sum.split)
  qed simp_all
qed simp

text \<open>The dialer of a result without a connection, or of one with a connection.\<close>

definition charged :: "dial_ret \<Rightarrow> fid list \<Rightarrow> fid \<Rightarrow> bool" where
  "charged r tried f \<longleftrightarrow> f \<in> set tried \<and> (fst r = None \<or> fst (snd r) \<noteq> Some f)"

lemma dial_loop_charges:
  assumes "dial_loop budget start env i lc ld le cands w = (r, tried, w')" and "distinct cands"
  shows "f_failures (w_fwdr w' f) = f_failures (w_fwdr w f) + (if charged r tried f then 1 else 0)"
  using assms
proof (induction cands arbitrary: i lc ld le w r tried w')
  case (Cons nd cands)
  from Cons.prems(1) show ?case
  proof (cases rule: dial_loop_ConsE)
    case (fail e t)
    note res = dial_loop_result [OF fail(4)]
    have nd: "nd \<notin> set t" using Cons.prems(2) res by (auto dest: set_mono_prefix)
    then have "fst r = None \<or> fst (snd r) \<noteq> Some nd"
      using res by (cases "t = []") (auto dest: last_in_set split: sum.splits)
    with Cons.IH [OF fail(4)] Cons.prems(2) fail(3) nd show ?thesis
      by (auto simp: charged_def IncFailures_fwdr)
  qed (simp_all add: charged_def)
qed (simp add: charged_def)

text \<open>The cost of the attempt before the \<open>k\<close>-th.\<close>

definition prev_cost :: "dial_env \<Rightarrow> int \<Rightarrow> nat \<Rightarrow> fid list \<Rightarrow> nat \<Rightarrow> int" where
  "prev_cost env lc i tried k =
     (if k = 0 then lc
      else a_end (env (i + k - 1) (tried ! (k - 1))) - a_begin (env (i + k - 1) (tried ! (k - 1))))"

lemma dial_loop_budget:
  assumes "dial_loop budget start env i lc ld le cands w = (r, tried, w')" and "0 < budget"
    and "k < length tried" and "0 < i + k"
  shows "wrap64 (a_gate (env (i + k) (tried ! k)) - start + prev_cost env lc i tried k) < budget"
  using assms
proof (induction cands arbitrary: i lc ld le w r tried w' k)
  case (Cons nd cands)
  from Cons.prems(1) show ?case
  proof (cases rule: dial_loop_ConsE)
    case (fail e t)
    show ?thesis
    proof (cases k)
      case 0
      with fail Cons.prems(2-) show ?thesis by (simp add: prev_cost_def)
    next
      case (Suc j)
      have "prev_cost env lc i tried k =
          prev_cost env (a_end (env i nd) - a_begin (env i nd)) (Suc i) t j"
        using Suc fail(3) by (auto simp: prev_cost_def nth_Cons')
      with Cons.IH [OF fail(4) Cons.prems(2), of j] Cons.prems(3) Suc fail(3) show ?thesis by simp
    qed
  qed (use Cons.prems(2-) in \<open>simp_all add: prev_cost_def\<close>)
qed simp

text \<open>A loop that ends without a connection before its candidates are used up was stopped by
  the budget.\<close>

lemma dial_loop_stop:
  assumes "dial_loop budget start env i lc ld le cands w = (r, tried, w')"
    and "fst r = None" and "length tried < length cands"
  shows "0 < budget \<and> budget \<le> wrap64 (a_gate (env (i + length tried) (cands ! length tried)) - start +
    prev_cost env lc i tried (length tried))"
  using assms
proof (induction cands arbitrary: i lc ld le w r tried w')
  case (Cons nd cands)
  from Cons.prems(1) show ?case
  proof (cases rule: dial_loop_ConsE)
    case (fail e t)
    have "prev_cost env lc i tried (length tried) =
        prev_cost env (a_end (env i nd) - a_begin (env i nd)) (Suc i) t (length t)"
      using fail(3) by (auto simp: prev_cost_def nth_Cons')
    with Cons.IH [OF fail(4) Cons.prems(2)] Cons.prems(3) fail(3) show ?thesis by simp
  qed (use Cons.prems(2-) in \<open>simp_all add: prev_cost_def\<close>)
qed simp

lemma dial_loop_ok:
  "world_ok w \<Longrightarrow> dial_loop budget start env i lc ld le cands w = (r, tried, w') \<Longrightarrow> world_ok w'"
proof (induction cands arbitrary: i lc ld le w r tried w')
  case (Cons nd cands)
  from Cons.prems(2) show ?case
  proof (cases rule: dial_loop_ConsE)
    case (fail e t)
    from world_ok_IncFailures [OF Cons.prems(1)] fail(4) show ?thesis by (rule Cons.IH)
  qed (use Cons.prems(1) in simp_all)
qed simp

lemma dial_loop_first:
  assumes "dial_loop budget start env 0 lc ld le cands w = (r, tried, w')" and "cands \<noteq> []"
  shows "tried \<noteq> []"
proof -
  from assms(2) obtain nd rest where c: "cands = nd # rest" by (cases cands) auto
  from assms(1) show ?thesis unfolding c by (cases rule: dial_loop_ConsE) simp_all
qed

section \<open>FwdrGroup.Dial\<close>

lemma world_ok_g_index: "world_ok w \<Longrightarrow> world_ok (upd_group g (\<lambda>_. (w_group w g)\<lparr>g_index := i\<rparr>) w)"
proof -
  let ?w' = "upd_group g (\<lambda>_. (w_group w g)\<lparr>g_index := i\<rparr>) w"
  have "g_fwdrs (w_group ?w' h) = g_fwdrs (w_group w h)"
    "group_static F (w_group ?w' h) = group_static F (w_group w h)"
    "avail_inv {} F (w_group ?w' h) = avail_inv {} F (w_group w h)" for h F
    by (simp_all add: group_static_def avail_inv_def)
  then show "world_ok w \<Longrightarrow> world_ok ?w'"
    by (simp add: world_ok_def wired_def del: upd_group_simps(2))
qed

text \<open>Everything the dial of a well-formed group rests on.\<close>

lemma Dial_unfold:
  assumes ok: "world_ok w" and g: "g < w_ngroup w" and n: "1 \<le> g_dialAttempts (w_group w g)"
    and len: "length (g_fwdrs (w_group w g)) < 2 ^ 32"
    and dial: "Dial env start g addr w = (r, tried, w')"
  obtains cands w1 where
    "cands = fst (dialCandidates (w_fwdr w) (w_group w g) addr (g_dialAttempts (w_group w g)))"
    "dial_loop (g_dialBudget (w_group w g)) start env 0 0 None None cands w1 = (r, tried, w')"
    "world_ok w1" "w_fwdr w1 = w_fwdr w" "cands \<noteq> []" "distinct cands"
    "set cands \<subseteq> set (dialPool (w_group w g))"
    "length cands = min (nat (g_dialAttempts (w_group w g))) (length (dialPool (w_group w g)))"
    "hd cands = fst (nextDialer (w_fwdr w) (w_group w g) addr)"
proof -
  let ?p = "w_group w g" and ?n = "g_dialAttempts (w_group w g)"
  from ok g have p: "group_static (w_fwdr w) ?p" "avail_inv {} (w_fwdr w) ?p" by (auto simp: world_ok_def)
  then have pool: "distinct (dialPool ?p)" "dialPool ?p \<noteq> []" "set (dialPool ?p) \<subseteq> set (g_fwdrs ?p)"
    by (auto simp: dialPool_def group_static_def avail_inv_def)
  have plen: "length (dialPool ?p) < 2 ^ 32"
    using pool card_mono [of "set (g_fwdrs ?p)" "set (dialPool ?p)"] len p
    by (simp add: distinct_card group_static_def)
  let ?m = "min (nat ?n) (length (dialPool ?p))"
  have m: "0 < ?m" using n pool by simp
  note c = choice.candidates [OF pool(1,2) plen m, of "w_fwdr w" addr]
  note spec = dialCandidates_spec [OF pool(2) n, of "w_fwdr w" addr]
  obtain i where i: "snd (nextDialer (w_fwdr w) ?p addr) = ?p\<lparr>g_index := i\<rparr>"
    using choice.pickd_frame by blast
  show ?thesis
  proof (rule that [of "cand_spec (dialPool ?p) (fst (nextDialer (w_fwdr w) ?p addr)) ?m"
        "upd_group g (\<lambda>_. ?p\<lparr>g_index := i\<rparr>) w"])
    show "world_ok (upd_group g (\<lambda>_. ?p\<lparr>g_index := i\<rparr>) w)" using ok by (rule world_ok_g_index)
    show "dial_loop (g_dialBudget ?p) start env 0 0 None None
        (cand_spec (dialPool ?p) (fst (nextDialer (w_fwdr w) ?p addr)) ?m)
        (upd_group g (\<lambda>_. ?p\<lparr>g_index := i\<rparr>) w) = (r, tried, w')"
      using dial by (simp add: Dial_def Let_def spec i)
    show "cand_spec (dialPool ?p) (fst (nextDialer (w_fwdr w) ?p addr)) ?m \<noteq> []"
      using m by (cases ?m) (simp_all add: cand_spec_def)
  qed (use c in \<open>simp_all add: spec\<close>)
qed

text \<open>
  C5. \<open>Dial\<close> always dials the forwarder the strategy picks, then only other members of the
  rotation (of the whole group when the rotation is empty), none twice and at most
  \<open>dialAttempts\<close> in all. It goes on only after a failure and returns the connection and the
  forwarder of the attempt that succeeded, or the error and the forwarder of the last one.
\<close>

theorem dial_retries:
  assumes "world_ok w" and "g < w_ngroup w" and "1 \<le> g_dialAttempts (w_group w g)"
    and "length (g_fwdrs (w_group w g)) < 2 ^ 32"
    and "Dial env start g addr w = (r, tried, w')"
  shows "tried \<noteq> [] \<and> hd tried = fst (nextDialer (w_fwdr w) (w_group w g) addr) \<and>
    distinct tried \<and> set tried \<subseteq> set (dialPool (w_group w g)) \<and>
    int (length tried) \<le> g_dialAttempts (w_group w g) \<and>
    (\<forall>k. k + 1 < length tried \<longrightarrow> isl (a_result (env k (tried ! k)))) \<and>
    r = (case a_result (env (length tried - 1) (last tried)) of
           Inr c \<Rightarrow> (Some c, Some (last tried), None)
         | Inl e \<Rightarrow> (None, Some (last tried), Some e))"
proof -
  obtain cands w1 where c:
    "dial_loop (g_dialBudget (w_group w g)) start env 0 0 None None cands w1 = (r, tried, w')"
    "cands \<noteq> []" "distinct cands" "set cands \<subseteq> set (dialPool (w_group w g))"
    "length cands = min (nat (g_dialAttempts (w_group w g))) (length (dialPool (w_group w g)))"
    "hd cands = fst (nextDialer (w_fwdr w) (w_group w g) addr)"
    using Dial_unfold [OF assms] by metis
  have ne: "tried \<noteq> []" using c(1,2) by (rule dial_loop_first)
  have pre: "prefix tried cands" using dial_loop_result [OF c(1)] by blast
  then obtain ys where ys: "cands = tried @ ys" by (auto simp: prefix_def)
  have "int (length tried) \<le> g_dialAttempts (w_group w g)" using ys c(5) assms(3) by simp
  with ne ys c dial_loop_result [OF c(1)] show ?thesis by auto
qed

text \<open>
  C6. Health accounting of a dial: every forwarder that was dialed and failed is charged exactly
  one failure (with 32-bit wrap-around), the one that connected and all others none, and the
  rotations of all groups are settled again afterwards.
\<close>

theorem dial_charges:
  assumes "world_ok w" and "g < w_ngroup w" and "1 \<le> g_dialAttempts (w_group w g)"
    and "length (g_fwdrs (w_group w g)) < 2 ^ 32"
    and "Dial env start g addr w = (r, tried, w')"
  shows "world_ok w' \<and>
    (\<forall>f. f_failures (w_fwdr w' f) = f_failures (w_fwdr w f) +
       (if f \<in> set tried \<and> (fst r = None \<or> fst (snd r) \<noteq> Some f) then 1 else 0))"
proof -
  obtain cands w1 where c:
    "dial_loop (g_dialBudget (w_group w g)) start env 0 0 None None cands w1 = (r, tried, w')"
    "world_ok w1" "w_fwdr w1 = w_fwdr w" "distinct cands"
    using Dial_unfold [OF assms] by metis
  from dial_loop_ok [OF c(2,1)] dial_loop_charges [OF c(1,4)] c(3) show ?thesis
    by (simp add: charged_def)
qed

text \<open>
  The wall-clock bound of a dial with a budget. A retry starts only if the time spent plus
  the cost of the attempt before it is below the budget, so it ends later than the budget
  allows by less than the delay before it started plus what it took longer than its
  predecessor.
\<close>

theorem dial_budget_overshoot:
  assumes "world_ok w" and "g < w_ngroup w" and "1 \<le> g_dialAttempts (w_group w g)"
    and "length (g_fwdrs (w_group w g)) < 2 ^ 32"
    and "Dial env start g addr w = (r, tried, w')"
    and "0 < g_dialBudget (w_group w g)" and "0 < k" and "k < length tried"
    and "int64_range (a_gate (env k (tried ! k)) - start +
      (a_end (env (k - 1) (tried ! (k - 1))) - a_begin (env (k - 1) (tried ! (k - 1)))))"
  shows "a_end (env k (tried ! k)) - start <
    g_dialBudget (w_group w g) + (a_begin (env k (tried ! k)) - a_gate (env k (tried ! k))) +
    ((a_end (env k (tried ! k)) - a_begin (env k (tried ! k))) -
     (a_end (env (k - 1) (tried ! (k - 1))) - a_begin (env (k - 1) (tried ! (k - 1)))))"
proof -
  obtain cands w1 where c:
    "dial_loop (g_dialBudget (w_group w g)) start env 0 0 None None cands w1 = (r, tried, w')"
    using Dial_unfold [OF assms(1-5)] by metis
  from dial_loop_budget [OF c assms(6,8)] assms(7,9) show ?thesis
    by (simp add: prev_cost_def)
qed

text \<open>
  C9. A dial fails early only for lack of time: if it returns no connection although it has
  dialed fewer forwarders than \<open>dialAttempts\<close> and the pool allow, then a budget is set and the
  time spent plus the cost of the last attempt had reached it.
\<close>

theorem dial_gives_up:
  assumes "world_ok w" and "g < w_ngroup w" and "1 \<le> g_dialAttempts (w_group w g)"
    and "length (g_fwdrs (w_group w g)) < 2 ^ 32"
    and "Dial env start g addr w = (r, tried, w')" and "fst r = None"
    and "length tried < min (nat (g_dialAttempts (w_group w g))) (length (dialPool (w_group w g)))"
  shows "0 < g_dialBudget (w_group w g) \<and> (\<exists>f \<in> set (dialPool (w_group w g)) - set tried.
    g_dialBudget (w_group w g) \<le> wrap64 (a_gate (env (length tried) f) - start +
      (a_end (env (length tried - 1) (last tried)) - a_begin (env (length tried - 1) (last tried)))))"
proof -
  obtain cands w1 where c:
    "dial_loop (g_dialBudget (w_group w g)) start env 0 0 None None cands w1 = (r, tried, w')"
    "cands \<noteq> []" "distinct cands" "set cands \<subseteq> set (dialPool (w_group w g))"
    "length cands = min (nat (g_dialAttempts (w_group w g))) (length (dialPool (w_group w g)))"
    using Dial_unfold [OF assms(1-5)] by metis
  have ne: "tried \<noteq> []" using c(1,2) by (rule dial_loop_first)
  obtain ys where ys: "cands = tried @ ys"
    using dial_loop_result [OF c(1)] by (auto simp: prefix_def)
  have lt: "length tried < length cands" using assms(7) c(5) by simp
  have "cands ! length tried \<in> set (dialPool (w_group w g)) - set tried"
    using lt ys c(3,4) by (cases ys) auto
  moreover have "prev_cost env 0 0 tried (length tried) =
      a_end (env (length tried - 1) (last tried)) - a_begin (env (length tried - 1) (last tried))"
    using ne by (simp add: prev_cost_def last_conv_nth)
  ultimately show ?thesis
    using dial_loop_stop [OF c(1) assms(6) lt] by auto
qed

section \<open>A worked example\<close>

definition sample_world :: world where
  "sample_world = \<lparr>w_fwdr = (\<lambda>i. sample_fwdr 0 0 (if i < 2 then [0] else [])),
     w_group = (\<lambda>_. sample_group [0, 1] [0, 1] 0 RR), w_nfwdr = 2, w_ngroup = 1\<rparr>"

text \<open>The first dial takes 3 seconds and fails, the second takes 1 second and connects.\<close>

definition sample_env :: dial_env where
  "sample_env i f = (if i = 0
     then \<lparr>a_gate = 0, a_begin = 0, a_end = 3000000000, a_result = Inl ''timeout''\<rparr>
     else \<lparr>a_gate = 3000000000, a_begin = 3000000000, a_end = 4000000000, a_result = Inr 7\<rparr>)"

definition slow_env :: dial_env where
  "slow_env i f = \<lparr>a_gate = 7000000000 * int i, a_begin = 7000000000 * int i,
     a_end = 7000000000 * (int i + 1), a_result = Inl ''timeout''\<rparr>"

lemma sample_world_ok: "world_ok sample_world"
  by (auto simp: world_ok_def wired_def sample_world_def sample_fwdr_def sample_group_def
      group_static_def sorted_fwdrs_def avail_inv_def Enabled_def isTrue_def)

lemma sample_side:
  "0 < w_ngroup sample_world" "1 \<le> g_dialAttempts (w_group sample_world 0)"
  "length (g_fwdrs (w_group sample_world 0)) < 2 ^ 32"
  by (simp_all add: sample_world_def sample_group_def)

lemma sample_bounds:
  "g_dialAttempts (w_group sample_world 0) = 3" "g_dialBudget (w_group sample_world 0) = 8000000000"
  by (simp_all add: sample_world_def sample_group_def)

lemma sample_cands:
  "dialCandidates (w_fwdr sample_world) (w_group sample_world 0) a 3 =
     ([1, 0], (sample_group [0, 1] [0, 1] 0 RR)\<lparr>g_index := 1\<rparr>)"
  by (simp add: dialCandidates_def dialPool_def nextDialer_def scheduleRR_def Let_def
      sample_world_def sample_group_def cand_loop.simps numeral_2_eq_2)

lemma sample_dial:
  "fst (Dial sample_env 0 0 a sample_world) = (Some 7, Some 0, None)"
  "fst (snd (Dial sample_env 0 0 a sample_world)) = [1, 0]"
  by (simp_all add: Dial_def sample_cands sample_bounds Let_def sample_env_def wrap64_def)

lemma slow_dial:
  "fst (Dial slow_env 0 0 a sample_world) = (None, Some 1, Some ''timeout'')"
  "fst (snd (Dial slow_env 0 0 a sample_world)) = [1]"
  by (simp_all add: Dial_def sample_cands sample_bounds Let_def slow_env_def wrap64_def)

lemma dial_triple:
  "Dial env s g a w = (fst (Dial env s g a w), fst (snd (Dial env s g a w)), snd (snd (Dial env s g a w)))"
  by simp

lemmas sample_dial_args = sample_world_ok sample_side dial_triple

theorem dial_retries_witness:
  "distinct (fst (snd (Dial sample_env 0 0 ''a:80'' sample_world))) \<and>
   fst (snd (Dial sample_env 0 0 ''a:80'' sample_world)) = [1, 0] \<and>
   fst (Dial sample_env 0 0 ''a:80'' sample_world) = (Some 7, Some 0, None)"
  using dial_retries [where env = sample_env and start = 0 and addr = "''a:80''", OF sample_dial_args]
  by (simp add: sample_dial)

theorem dial_charges_witness:
  "f_failures (w_fwdr (snd (snd (Dial sample_env 0 0 ''a:80'' sample_world))) 1) = 1 \<and>
   f_failures (w_fwdr (snd (snd (Dial sample_env 0 0 ''a:80'' sample_world))) 0) = 0"
  using dial_charges [where env = sample_env and start = 0 and addr = "''a:80''", OF sample_dial_args]
  by (simp add: sample_dial) (simp add: sample_world_def sample_fwdr_def)

theorem dial_budget_overshoot_witness:
  "a_end (sample_env 1 0) - 0 < g_dialBudget (w_group sample_world 0) + 0 + (1000000000 - 3000000000)"
  using dial_budget_overshoot [where k = 1 and env = sample_env and start = 0 and addr = "''a:80''", OF sample_dial_args]
  by (simp add: sample_dial sample_bounds) (simp add: sample_env_def int64_range_def)

theorem dial_gives_up_witness:
  "g_dialBudget (w_group sample_world 0) \<le> wrap64 (a_gate (slow_env 1 0) - 0 + 7000000000)"
  using dial_gives_up [where env = slow_env and start = 0 and addr = "''a:80''", OF sample_dial_args]
  by (simp add: slow_dial sample_bounds) (simp add: slow_env_def sample_world_def sample_group_def dialPool_def)

theorem rr_fair_witness:
  "mset (picks (w_fwdr sample_world) (w_group sample_world 0) [''a:80'', ''b:80'']) = {#0, 1#}"
  using rr_fair [of "w_group sample_world 0" "[''a:80'', ''b:80'']" "w_fwdr sample_world"]
  by (simp add: sample_world_def sample_group_def)

theorem lha_picks_fastest_witness:
  "fst (scheduleLHA (\<lambda>i. (sample_fwdr 0 0 [])\<lparr>f_latency := (if i = 1 then 5 else 9)\<rparr>)
     (sample_group [0, 1] [0, 1] 0 LHA) []) \<in> {0, 1}"
  using lha_picks_fastest [of "sample_group [0, 1] [0, 1] 0 LHA"
      "\<lambda>i. (sample_fwdr 0 0 [])\<lparr>f_latency := (if i = 1 then 5 else 9)\<rparr>" "[]"]
  by (simp add: sample_group_def sample_strategy_def int64_range_def)

text \<open>Insertion sort meets the contract of \<open>sort.Sort\<close>.\<close>

fun insert_by :: "(fid \<Rightarrow> fid \<Rightarrow> bool) \<Rightarrow> fid \<Rightarrow> fid list \<Rightarrow> fid list" where
  "insert_by lt x [] = [x]"
| "insert_by lt x (y # ys) = (if lt y x then y # insert_by lt x ys else x # y # ys)"

definition insertion_sort :: "(fid \<Rightarrow> fid \<Rightarrow> bool) \<Rightarrow> fid list \<Rightarrow> fid list" where
  "insertion_sort lt xs = foldr (insert_by lt) xs []"

lemma mset_insert_by [simp]: "mset (insert_by lt x ys) = add_mset x (mset ys)"
  by (induction ys) auto

lemma set_insert_by [simp]: "set (insert_by lt x ys) = insert x (set ys)"
  by (induction ys) auto

lemma sorted_insert_by:
  "sorted_wrt (\<lambda>x y. \<not> priLess F y x) ys \<Longrightarrow> sorted_wrt (\<lambda>x y. \<not> priLess F y x) (insert_by (priLess F) x ys)"
  by (induction ys) (auto simp: priLess_def)

lemma insertion_sort_sorts: "sorts insertion_sort"
  unfolding sorts_def
proof (intro allI conjI)
  fix F xs
  show "mset (insertion_sort (priLess F) xs) = mset xs"
    by (induction xs) (auto simp: insertion_sort_def)
  show "sorted_wrt (\<lambda>x y. \<not> priLess F y x) (insertion_sort (priLess F) xs)"
    by (induction xs) (auto simp: insertion_sort_def sorted_insert_by)
qed

definition empty_world :: world where
  "empty_world = \<lparr>w_fwdr = (\<lambda>i. sample_fwdr (of_nat i) 1 []),
     w_group = (\<lambda>_. sample_group [] [] 0 RR), w_nfwdr = 2, w_ngroup = 0\<rparr>"

lemma empty_world_ok: "world_ok empty_world" "\<forall>f. f_handlers (w_fwdr empty_world f) = []"
  by (simp_all add: world_ok_def wired_def empty_world_def sample_fwdr_def)

theorem newFwdrGroup_ok_witness:
  "world_ok (snd (newFwdrGroup insertion_sort ''main'' [0, 1] sample_strategy empty_world))"
  using newFwdrGroup_ok [where fwdrs = "[0, 1]" and name = "''main''" and c = sample_strategy,
      OF insertion_sort_sorts empty_world_ok(1) _ _ _ prod.collapse [symmetric]]
  by (simp add: empty_world_ok(2))

end
