(* ===== verification/Checker.thy ===== *)
theory Checker
  imports Dialing GoNet
begin

text \<open>
  Health checking (\<open>src/rule/check.go\<close> and the checker half of \<open>src/rule/group.go\<close>): the three
  kinds of checkers, how a group builds one, the warm-up pass before a state is published, and
  the loop of the goroutine that watches one forwarder.

  What the outside decides is an argument: \<open>check_run\<close> holds the clock readings and the outcome
  of every I/O call of one check, \<open>matches\<close> stands for \<open>regexp\<close> matching and \<open>compiles\<close> for the
  regular expressions it accepts, \<open>parse\<close> for \<open>url.Parse\<close>.
\<close>

section \<open>Checkers\<close>

text \<open>An error of a check: \<open>proxy.ErrNotSupported\<close> (or an error that wraps it), or another one.\<close>

datatype check_error = ErrNotSupported | CheckError string

datatype Checker =
    tcpChecker string int
  | httpChecker string string string int string bool
  | fileChecker string

definition newTcpChecker :: "string \<Rightarrow> int \<Rightarrow> Checker" where
  "newTcpChecker addr timeout =
     tcpChecker (if port_of addr = [] then JoinHostPort addr ''80'' else addr) timeout"

text \<open>\<open>None\<close> is the panic of \<open>regexp.MustCompile\<close>.\<close>

definition newHttpChecker ::
  "(string \<Rightarrow> bool) \<Rightarrow> string \<Rightarrow> string \<Rightarrow> string \<Rightarrow> int \<Rightarrow> bool \<Rightarrow> Checker option" where
  "newHttpChecker compiles addr uri expect timeout withTLS =
     (if \<not> compiles expect then None
      else
        let a = (if port_of addr = [] then JoinHostPort addr (if withTLS then ''443'' else ''80'') else addr)
        in Some (httpChecker a uri expect timeout (take (nat (LastIndexByte a CHR '':'')) a) withTLS))"

record check_run =
  r_start :: int
  r_end :: int
  r_dial :: "check_error + nat"
  r_handshake :: "check_error option"
  r_write :: "check_error option"
  r_line :: "check_error + string"
  r_cmd :: "check_error option"

definition Check ::
  "(string \<Rightarrow> string \<Rightarrow> bool) \<Rightarrow> Checker \<Rightarrow> check_run \<Rightarrow> fid \<Rightarrow> world \<Rightarrow> (int \<times> check_error option) \<times> world" where
  "Check matches c r f w = (case c of
       tcpChecker addr timeout \<Rightarrow>
         (let w' = Forwarder_Dial f (r_dial r) w in
          case r_dial r of
            Inl err \<Rightarrow> ((0, Some err), w')
          | Inr rc \<Rightarrow> ((r_end r - r_start r, None), w'))
     | httpChecker addr uri expect timeout serverName withTLS \<Rightarrow>
         (let w' = Forwarder_Dial f (r_dial r) w in
          case r_dial r of
            Inl err \<Rightarrow> ((0, Some err), w')
          | Inr rc \<Rightarrow>
             (case (if withTLS then r_handshake r else None) of
                Some err \<Rightarrow> ((0, Some err), w')
              | None \<Rightarrow>
                 (case r_write r of
                    Some err \<Rightarrow> ((0, Some err), w')
                  | None \<Rightarrow>
                     (case r_line r of
                        Inl err \<Rightarrow> ((0, Some err), w')
                      | Inr line \<Rightarrow>
                          if \<not> matches expect line
                          then ((0, Some (CheckError (''expect: '' @ expect @ '', got: '' @ line))), w')
                          else if timeout < r_end r - r_start r
                          then ((r_end r - r_start r, Some (CheckError ''timeout'')), w')
                          else ((r_end r - r_start r, None), w')))))
     | fileChecker path \<Rightarrow> ((0, r_cmd r), w))"

section \<open>A group's checker\<close>

record url =
  u_scheme :: string
  u_host :: string
  u_path :: string
  u_fragment :: string
  u_requestURI :: string

datatype built = NoChecker | Built Checker | Panics

definition check_config :: "string \<Rightarrow> string" where
  "check_config s = (if contains_scheme_sep s then s else s @ ''://'')"

definition buildChecker ::
  "(string \<Rightarrow> url option) \<Rightarrow> (string \<Rightarrow> bool) \<Rightarrow> gid \<Rightarrow> world \<Rightarrow> built \<times> world" where
  "buildChecker parse compiles g w =
     (let p = w_group w g in
      if length (g_fwdrs p) = 1 then (NoChecker, w)
      else
        let check = check_config (s_Check (g_config p));
            w' = upd_group g (\<lambda>p. p\<lparr>g_config := (g_config p)\<lparr>s_Check := check\<rparr>\<rparr>) w;
            timeout = wrap64 (s_CheckTimeout (g_config p) * 1000000000)
        in case parse check of
             None \<Rightarrow> (NoChecker, w')
           | Some u \<Rightarrow>
               if u_scheme u = ''tcp'' then (Built (newTcpChecker (u_host u) timeout), w')
               else if u_scheme u = ''http'' \<or> u_scheme u = ''https'' then
                 let ex = Values_Get (fst (ParseQuery (u_fragment u))) ''expect'';
                     expect = (if ex \<noteq> [] then ex else ''HTTP'')
                 in case newHttpChecker compiles (u_host u) (u_requestURI u) expect timeout
                           (u_scheme u = ''https'') of
                      None \<Rightarrow> (Panics, w')
                    | Some c \<Rightarrow> (Built c, w')
               else if u_scheme u = ''file'' then (Built (fileChecker (u_host u @ u_path u)), w')
               else (NoChecker, w'))"

definition setLatency :: "gid \<Rightarrow> fid \<Rightarrow> int \<Rightarrow> world \<Rightarrow> world" where
  "setLatency g f elapsed w =
     (let cnt = s_CheckLatencySamples (g_config (w_group w g));
          last = f_latency (w_fwdr w f)
      in SetLatency (if 1 < cnt \<and> 0 < last
                     then quot (wrap64 (wrap64 (last * (cnt - 1)) + elapsed)) cnt
                     else elapsed) f w)"

section \<open>The warm-up pass\<close>

text \<open>The goroutine of one forwarder.\<close>

definition warm_one ::
  "(string \<Rightarrow> string \<Rightarrow> bool) \<Rightarrow> Checker \<Rightarrow> (fid \<Rightarrow> check_run) \<Rightarrow> gid \<Rightarrow> fid \<Rightarrow> world \<Rightarrow> world" where
  "warm_one matches c env g f w =
     (case Check matches c (env f) f w of
        ((elapsed, Some err), w') \<Rightarrow> w'
      | ((elapsed, None), w') \<Rightarrow> Enable f (setLatency g f elapsed w'))"

text \<open>
  \<open>warmCheck\<close>, with the goroutines run to their ends in the order \<open>order\<close>, an arrangement of
  the group's forwarders. The result is \<open>None\<close> when building the checker panics.
\<close>

definition warmCheck ::
  "(string \<Rightarrow> url option) \<Rightarrow> (string \<Rightarrow> bool) \<Rightarrow> (string \<Rightarrow> string \<Rightarrow> bool) \<Rightarrow> (fid \<Rightarrow> check_run) \<Rightarrow>
     fid list \<Rightarrow> gid \<Rightarrow> world \<Rightarrow> world option" where
  "warmCheck parse compiles matches env order g w =
     (case buildChecker parse compiles g w of
        (Panics, _) \<Rightarrow> None
      | (NoChecker, w') \<Rightarrow> Some (fold Enable (g_fwdrs (w_group w' g)) w')
      | (Built c, w') \<Rightarrow> Some (fold (warm_one matches c env g) order w'))"

section \<open>The check loop\<close>

text \<open>The time an iteration sleeps before it looks at the forwarder; 0 when it does not.\<close>

definition check_sleep :: "gid \<Rightarrow> u8 \<Rightarrow> world \<Rightarrow> int" where
  "check_sleep g wait w =
     (let intval = wrap64 (s_CheckInterval (g_config (w_group w g)) * 1000000000);
          d = wrap64 (intval * uint wait)
      in if 0 < d then d else 0)"

text \<open>How an iteration ends: with the next value of \<open>wait\<close>, or by leaving the loop.\<close>

datatype check_next = Continue u8 | Break | Return

text \<open>
  The part of an iteration between its \<open>select\<close> and the check (\<open>None\<close>: run the check), what it
  does with the result of the check, and the whole iteration. The flag of \<open>check_iter\<close> says
  whether the checker ran.
\<close>

definition check_gate :: "gid \<Rightarrow> fid \<Rightarrow> u8 \<Rightarrow> world \<Rightarrow> check_next option" where
  "check_gate g f wait w =
     (let p = w_group w g; fw = w_fwdr w f in
      if g_done p = Some True then Some Return
      else if 0 < wait \<and> f_priority fw < g_priority p then Some (Continue wait)
      else if Enabled fw \<and> s_CheckDisabledOnly (g_config p) then Some (Continue wait)
      else None)"

fun check_apply :: "gid \<Rightarrow> fid \<Rightarrow> u8 \<Rightarrow> int \<times> check_error option \<Rightarrow> world \<Rightarrow> check_next \<times> world" where
  "check_apply g f wait (elapsed, Some ErrNotSupported) w = (Break, Enable f (SetMaxFailures 0 f w))"
| "check_apply g f wait (elapsed, Some (CheckError e)) w =
     (Continue (let wait' = wait + 1 in if 16 < wait' then 16 else wait'), Disable f w)"
| "check_apply g f wait (elapsed, None) w = (Continue 1, Enable f (setLatency g f elapsed w))"

definition check_iter ::
  "(string \<Rightarrow> string \<Rightarrow> bool) \<Rightarrow> Checker \<Rightarrow> check_run \<Rightarrow> gid \<Rightarrow> fid \<Rightarrow> u8 \<Rightarrow> world \<Rightarrow> check_next \<times> bool \<times> world" where
  "check_iter matches c r g f wait w =
     (case check_gate g f wait w of
        Some n \<Rightarrow> (n, False, w)
      | None \<Rightarrow>
          (let (res, w') = Check matches c r f w;
               (n, w'') = check_apply g f wait res w'
           in (n, True, w'')))"

text \<open>
  \<open>check\<close> with nothing else running: one iteration per element of the list, each with its sleep
  and whether it ran the checker.
\<close>

fun check_loop ::
  "(string \<Rightarrow> string \<Rightarrow> bool) \<Rightarrow> Checker \<Rightarrow> gid \<Rightarrow> fid \<Rightarrow> check_run list \<Rightarrow> u8 \<Rightarrow> world \<Rightarrow>
     (int \<times> bool) list \<times> check_next \<times> world" where
  "check_loop matches c g f [] wait w = ([], Continue wait, w)"
| "check_loop matches c g f (r # rs) wait w =
     (let d = check_sleep g wait w;
          (n, ran, w') = check_iter matches c r g f wait w
      in case n of
           Continue wait' \<Rightarrow>
             (let (ds, e, w'') = check_loop matches c g f rs wait' w' in ((d, ran) # ds, e, w''))
         | _ \<Rightarrow> ([(d, ran)], n, w'))"

definition check ::
  "(string \<Rightarrow> string \<Rightarrow> bool) \<Rightarrow> Checker \<Rightarrow> gid \<Rightarrow> fid \<Rightarrow> check_run list \<Rightarrow> world \<Rightarrow>
     (int \<times> bool) list \<times> check_next \<times> world" where
  "check matches c g f rs w = check_loop matches c g f rs 0 w"

text \<open>\<open>startCheckers\<close> makes the channel and starts one loop per forwarder, \<open>stop\<close> closes it.\<close>

definition startCheckers ::
  "(string \<Rightarrow> url option) \<Rightarrow> (string \<Rightarrow> bool) \<Rightarrow> gid \<Rightarrow> world \<Rightarrow> (Checker option \<times> fid list \<times> world) option" where
  "startCheckers parse compiles g w =
     (case buildChecker parse compiles g w of
        (Panics, _) \<Rightarrow> None
      | (NoChecker, w') \<Rightarrow> Some (None, [], w')
      | (Built c, w') \<Rightarrow>
          Some (Some c, g_fwdrs (w_group w' g), upd_group g (\<lambda>p. p\<lparr>g_done := Some False\<rparr>) w'))"

definition stop :: "gid \<Rightarrow> world \<Rightarrow> world" where
  "stop g w = (if g_done (w_group w g) = None then w
     else upd_group g (\<lambda>p. p\<lparr>g_done := Some True\<rparr>) w)"


section \<open>Checks keep the world well formed\<close>

lemma Check_world: "snd (Check m c r f w) = w \<or> snd (Check m c r f w) = IncFailures f w"
  by (auto simp: Check_def Forwarder_Dial_def Let_def split: Checker.split sum.split option.split)

lemma Check_result: "fst (Check m c r f w) = fst (Check m c r f' w')"
  by (auto simp: Check_def Let_def split: Checker.split sum.split option.split)

lemma world_ok_Check: "world_ok w \<Longrightarrow> world_ok (snd (Check m c r f w))"
  using Check_world [of m c r f w] by (auto simp: world_ok_ops)

lemma world_ok_setLatency: "world_ok w \<Longrightarrow> world_ok (setLatency g f e w)"
  by (simp add: setLatency_def Let_def world_ok_ops)

lemma world_ok_stop: "world_ok w \<Longrightarrow> world_ok (stop g w)"
  by (simp add: stop_def world_ok_upd_group)

lemma world_ok_check_apply: "world_ok w \<Longrightarrow> world_ok (snd (check_apply g f wait res w))"
  by (cases "(g, f, wait, res, w)" rule: check_apply.cases)
    (simp_all add: world_ok_ops world_ok_setLatency)

lemma world_ok_warm_one: "world_ok w \<Longrightarrow> world_ok (warm_one m c env g f w)"
  using world_ok_Check [of w m c "env f" f]
  by (auto simp: warm_one_def world_ok_ops world_ok_setLatency split: prod.split option.split)

lemma world_ok_buildChecker: "world_ok w \<Longrightarrow> world_ok (snd (buildChecker parse compiles g w))"
  by (auto simp: buildChecker_def Let_def world_ok_upd_group split: option.split)

lemma buildChecker_frame [simp]:
  "w_fwdr (snd (buildChecker parse compiles g w)) = w_fwdr w"
  "w_ngroup (snd (buildChecker parse compiles g w)) = w_ngroup w"
  "g_fwdrs (w_group (snd (buildChecker parse compiles g w)) h) = g_fwdrs (w_group w h)"
  by (auto simp: buildChecker_def Let_def split: option.split)

lemma setLatency_frame [simp]:
  "w_ngroup (setLatency g f e w) = w_ngroup w" "w_group (setLatency g f e w) = w_group w"
  "f_disabled (w_fwdr (setLatency g f e w) x) = f_disabled (w_fwdr w x)"
  "f_maxFailures (w_fwdr (setLatency g f e w) x) = f_maxFailures (w_fwdr w x)"
  "f_priority (w_fwdr (setLatency g f e w) x) = f_priority (w_fwdr w x)"
  "x \<noteq> f \<Longrightarrow> w_fwdr (setLatency g f e w) x = w_fwdr w x"
  by (simp_all add: setLatency_def Let_def SetLatency_def)

text \<open>The second call of \<open>buildChecker\<close> (from \<open>startCheckers\<close>) finds the text the first one left.\<close>

lemma check_config_idem [simp]: "check_config (check_config s) = check_config s"
  by (simp add: check_config_def)

section \<open>What a check and the warm-up decide\<close>

text \<open>
  An HTTP check succeeds exactly when the dial, the TLS handshake (if any), the request and
  the reply went through, the reply matches, and the whole took at most the timeout. In
  particular, with a timeout of 0, for which no deadline is set on the connection, every check
  that takes any time at all fails.
\<close>

theorem http_check_passes_iff:
  "snd (fst (Check matches (httpChecker addr uri expect timeout serverName withTLS) r f w)) = None \<longleftrightarrow>
     \<not> isl (r_dial r) \<and> (withTLS \<longrightarrow> r_handshake r = None) \<and> r_write r = None \<and>
     (\<exists>line. r_line r = Inr line \<and> matches expect line) \<and> r_end r - r_start r \<le> timeout"
  by (cases "r_dial r"; cases "r_line r"; cases "r_handshake r"; cases "r_write r"; cases withTLS)
    (auto simp: Check_def Let_def)

theorem http_check_passes_iff_witness:
  "snd (fst (Check (\<lambda>_ _. True) (httpChecker ''a:80'' ''/'' ''HTTP'' 0 ''a'' False)
     \<lparr>r_start = 0, r_end = 1, r_dial = Inr 1, r_handshake = None, r_write = None,
      r_line = Inr ''HTTP'', r_cmd = None\<rparr> 0 empty_world)) \<noteq> None"
  by (subst http_check_passes_iff) simp

lemma warm_one_flag:
  assumes "f_disabled (w_fwdr w f) = 1"
  shows "f_disabled (w_fwdr (warm_one m c env g f w) f) =
    (if snd (fst (Check m c (env f) f w)) = None then 0 else 1)"
proof -
  obtain e r w' where C: "Check m c (env f) f w = ((e, r), w')" by (cases "Check m c (env f) f w") auto
  have "f_disabled (w_fwdr w' f) = 1"
    using Check_world [of m c "env f" f w] C assms by (auto simp: IncFailures_fwdr)
  then show ?thesis
    using C by (cases r) (simp_all add: warm_one_def Enable_fwdr)
qed

lemma warm_one_other: "x \<noteq> f \<Longrightarrow> w_fwdr (warm_one m c env g f w) x = w_fwdr w x"
  using Check_world [of m c "env f" f w]
  by (auto simp: warm_one_def split: prod.split option.split)

lemma warm_one_static [simp]:
  "g_fwdrs (w_group (warm_one m c env g f w) h) = g_fwdrs (w_group w h)"
  "w_ngroup (warm_one m c env g f w) = w_ngroup w"
  "f_priority (w_fwdr (warm_one m c env g f w) x) = f_priority (w_fwdr w x)"
  using Check_world [of m c "env f" f w]
  by (auto simp: warm_one_def Enable_fwdr IncFailures_fwdr split: prod.split option.split)

lemma warm_fold_static [simp]:
  "g_fwdrs (w_group (fold (warm_one m c env g) fs w) h) = g_fwdrs (w_group w h)"
  "w_ngroup (fold (warm_one m c env g) fs w) = w_ngroup w"
  "f_priority (w_fwdr (fold (warm_one m c env g) fs w) x) = f_priority (w_fwdr w x)"
  by (induction fs arbitrary: w) simp_all

lemma world_ok_warm_fold: "world_ok w \<Longrightarrow> world_ok (fold (warm_one m c env g) fs w)"
  by (induction fs arbitrary: w) (simp_all add: world_ok_warm_one)

lemma warm_fold_other: "x \<notin> set fs \<Longrightarrow> w_fwdr (fold (warm_one m c env g) fs w) x = w_fwdr w x"
  by (induction fs arbitrary: w) (simp_all add: warm_one_other)

lemma warm_fold_flag:
  assumes "distinct fs" and "\<forall>f \<in> set fs. f_disabled (w_fwdr w f) = 1" and "f \<in> set fs"
  shows "f_disabled (w_fwdr (fold (warm_one m c env g) fs w) f) =
    (if snd (fst (Check m c (env f) f w)) = None then 0 else 1)"
  using assms
proof (induction fs arbitrary: w)
  case (Cons x xs)
  show ?case
  proof (cases "f = x")
    case True
    then show ?thesis using Cons.prems by (simp add: warm_fold_other warm_one_flag)
  next
    case False
    have "f_disabled (w_fwdr (fold (warm_one m c env g) xs (warm_one m c env g x w)) f) =
      (if snd (fst (Check m c (env f) f (warm_one m c env g x w))) = None then 0 else 1)"
    proof (rule Cons.IH)
      show "\<forall>y \<in> set xs. f_disabled (w_fwdr (warm_one m c env g x w) y) = 1"
        using Cons.prems warm_one_other by (metis distinct.simps(2) list.set_intros(2))
    qed (use Cons.prems False in auto)
    then show ?thesis using Check_result [of m c "env f" f "warm_one m c env g x w" f w] by simp
  qed
qed simp

text \<open>
  The warm-up pass. For a fresh group (all forwarders disabled) with a checker, and in
  whatever order the checks finish, afterwards exactly the forwarders whose check succeeded
  are enabled, and the rotation of the group is exactly those of the highest priority among
  them.
\<close>

theorem warmCheck_rotation:
  assumes "world_ok w" and "g < w_ngroup w" and "mset order = mset (g_fwdrs (w_group w g))"
    and "\<forall>f \<in> set (g_fwdrs (w_group w g)). f_disabled (w_fwdr w f) = 1"
    and "fst (buildChecker parse compiles g w) = Built c"
    and "warmCheck parse compiles matches env order g w = Some w'"
  defines "ok \<equiv> {f \<in> set (g_fwdrs (w_group w g)). snd (fst (Check matches c (env f) f w)) = None}"
  shows "world_ok w' \<and>
    {f \<in> set (g_fwdrs (w_group w g)). Enabled (w_fwdr w' f)} = ok \<and>
    set (g_avail (w_group w' g)) =
      {f \<in> ok. \<forall>x \<in> ok. f_priority (w_fwdr w x) \<le> f_priority (w_fwdr w f)}"
proof -
  let ?w1 = "snd (buildChecker parse compiles g w)"
  have w': "w' = fold (warm_one matches c env g) order ?w1"
    using assms(5,6) by (cases "buildChecker parse compiles g w") (simp add: warmCheck_def)
  have ok': "world_ok w'"
    unfolding w' by (intro world_ok_warm_fold world_ok_buildChecker assms(1))
  have mem: "set order = set (g_fwdrs (w_group w g))" "distinct order"
    using assms(1-3) by (auto simp: world_ok_def group_static_def dest: mset_eq_setD mset_eq_imp_distinct_iff)
  have flag: "Enabled (w_fwdr w' f) \<longleftrightarrow> f \<in> ok" if "f \<in> set (g_fwdrs (w_group w g))" for f
    using warm_fold_flag [of order ?w1 f matches c env g] mem that assms(4)
      Check_result [of matches c "env f" f ?w1 f w]
    by (simp add: w' ok_def del: fold_simps split: if_splits)
  have sub: "ok \<subseteq> set (g_fwdrs (w_group w g))" by (auto simp: ok_def)
  have stat: "g_fwdrs (w_group w' g) = g_fwdrs (w_group w g)"
    "\<And>x. f_priority (w_fwdr w' x) = f_priority (w_fwdr w x)" "g < w_ngroup w'"
    using assms(2) by (simp_all add: w')
  have "avail_inv {} (w_fwdr w') (w_group w' g)"
    using ok' stat(3) by (simp add: world_ok_def)
  from settled_rotation [OF this] have "set (g_avail (w_group w' g)) =
      {f \<in> ok. \<forall>x \<in> ok. f_priority (w_fwdr w x) \<le> f_priority (w_fwdr w f)}"
    using flag sub by (auto simp: stat)
  with ok' flag sub show ?thesis by auto
qed

text \<open>A group of two fresh forwarders checked over TCP, of which the second answers.\<close>

definition fresh_world :: world where
  "fresh_world = \<lparr>w_fwdr = (\<lambda>i. sample_fwdr 0 1 (if i < 2 then [0] else [])),
     w_group = (\<lambda>_. (sample_group [0, 1] [] 0 RR)\<lparr>g_config := sample_strategy\<lparr>s_Check := ''tcp://a:80''\<rparr>\<rparr>),
     w_nfwdr = 2, w_ngroup = 1\<rparr>"

definition sample_parse :: "string \<Rightarrow> url option" where
  "sample_parse s = Some \<lparr>u_scheme = ''tcp'', u_host = ''a:80'', u_path = [], u_fragment = [],
     u_requestURI = ''/''\<rparr>"

definition sample_run :: "fid \<Rightarrow> check_run" where
  "sample_run f = \<lparr>r_start = 0, r_end = 5, r_dial = (if f = 1 then Inr 1 else Inl (CheckError ''refused'')),
     r_handshake = None, r_write = None, r_line = Inl (CheckError ''eof''), r_cmd = None\<rparr>"

lemma fresh_world_ok: "world_ok fresh_world"
  by (auto simp: world_ok_def wired_def fresh_world_def sample_fwdr_def sample_group_def
      group_static_def sorted_fwdrs_def avail_inv_def Enabled_def isTrue_def)

lemma fresh_checker:
  "fst (buildChecker sample_parse (\<lambda>_. True) 0 fresh_world) =
     Built (newTcpChecker ''a:80'' (wrap64 (s_CheckTimeout sample_strategy * 1000000000)))"
  by (simp add: buildChecker_def Let_def fresh_world_def sample_group_def sample_parse_def)

theorem warmCheck_rotation_witness:
  "set (g_avail (w_group (the (warmCheck sample_parse (\<lambda>_. True) (\<lambda>_ _. True) sample_run [1, 0] 0
     fresh_world)) 0)) = {1}"
proof -
  have "\<exists>w'. warmCheck sample_parse (\<lambda>_. True) (\<lambda>_ _. True) sample_run [1, 0] 0 fresh_world = Some w'"
    using fresh_checker by (auto simp: warmCheck_def split: prod.split)
  then obtain w' where w': "warmCheck sample_parse (\<lambda>_. True) (\<lambda>_ _. True) sample_run [1, 0] 0 fresh_world = Some w'"
    by blast
  have g: "g_fwdrs (w_group fresh_world 0) = [0, 1]" "0 < w_ngroup fresh_world"
    "f_disabled (w_fwdr fresh_world f) = 1" for f
    by (simp_all add: fresh_world_def sample_group_def sample_fwdr_def)
  have err: "snd (fst (Check m (newTcpChecker a t) (sample_run f) f w)) = None \<longleftrightarrow> f = 1" for m a t f w
    by (simp add: Check_def newTcpChecker_def sample_run_def Let_def)
  have "set (g_avail (w_group w' 0)) = {f \<in> {f \<in> {0, 1}. f = 1}. \<forall>x \<in> {f \<in> {0, 1}. f = 1}.
      f_priority (w_fwdr fresh_world x) \<le> f_priority (w_fwdr fresh_world f)}"
    using warmCheck_rotation [OF fresh_world_ok g(2) _ _ fresh_checker w'] by (simp add: g err)
  then show ?thesis using w' by auto
qed

section \<open>Latency\<close>

text \<open>
  The latency kept for a forwarder is a moving average: with more than one sample
  configured and a positive last value, the new value lies between the last one and the one
  just measured, as long as the product fits 64 bits; otherwise it is the measured one.
\<close>

theorem setLatency_average:
  fixes w g f elapsed
  defines "cnt \<equiv> s_CheckLatencySamples (g_config (w_group w g))"
    and "prev \<equiv> f_latency (w_fwdr w f)"
    and "new \<equiv> f_latency (w_fwdr (setLatency g f elapsed w) f)"
  assumes "0 \<le> elapsed" and "int64_range (prev * (cnt - 1))" and "int64_range (prev * (cnt - 1) + elapsed)"
  shows "if 1 < cnt \<and> 0 < prev then min prev elapsed \<le> new \<and> new \<le> max prev elapsed else new = elapsed"
proof (cases "1 < cnt \<and> 0 < prev")
  case False
  then show ?thesis by (auto simp: new_def prev_def cnt_def setLatency_def SetLatency_def Let_def)
next
  case True
  then have pos: "0 \<le> prev * (cnt - 1) + elapsed" using assms(4) by simp
  have new: "new = (prev * (cnt - 1) + elapsed) div cnt"
    using True assms(5,6) pos
    by (simp add: new_def prev_def cnt_def setLatency_def SetLatency_def Let_def)
  have lo: "min prev elapsed * cnt \<le> prev * (cnt - 1) + elapsed"
    and hi: "prev * (cnt - 1) + elapsed \<le> max prev elapsed * cnt"
  proof -
    have "min prev elapsed * (cnt - 1) \<le> prev * (cnt - 1)" "prev * (cnt - 1) \<le> max prev elapsed * (cnt - 1)"
      using True by (simp_all add: mult_right_mono)
    then show "min prev elapsed * cnt \<le> prev * (cnt - 1) + elapsed"
      and "prev * (cnt - 1) + elapsed \<le> max prev elapsed * cnt"
      by (auto simp: algebra_simps)
  qed
  have "min prev elapsed * cnt div cnt \<le> new" "new \<le> max prev elapsed * cnt div cnt"
    unfolding new using zdiv_mono1 [OF lo, of cnt] zdiv_mono1 [OF hi, of cnt] True by auto
  then show ?thesis using True by simp
qed

theorem setLatency_average_witness:
  "let w = upd_fwdr 0 (f_latency_update (\<lambda>_. 100)) fresh_world;
       w1 = upd_group 0 (g_config_update (s_CheckLatencySamples_update (\<lambda>_. 10))) w
   in 50 \<le> f_latency (w_fwdr (setLatency 0 0 50 w1) 0) \<and> f_latency (w_fwdr (setLatency 0 0 50 w1) 0) \<le> 100"
  using setLatency_average [where g = 0 and f = 0 and elapsed = 50 and w =
      "upd_group 0 (g_config_update (s_CheckLatencySamples_update (\<lambda>_. 10)))
         (upd_fwdr 0 (f_latency_update (\<lambda>_. 100)) fresh_world)"]
  by (simp add: Let_def int64_range_def)

section \<open>The loops, the traffic and the stop of one group\<close>

text \<open>
  The state of a group whose checkers run: the world, the forwarders whose loop is running,
  the \<open>wait\<close> variable of each loop, and the result of a check that is not applied yet. The
  steps interleave the loops with each other, with dials and relays that record failures and
  successes, and with \<open>stop\<close>.
\<close>

record checks =
  c_world :: world
  c_live :: "fid set"
  c_wait :: "fid \<Rightarrow> u8"
  c_result :: "fid \<Rightarrow> (int \<times> check_error option) option"

inductive checks_step ::
  "(string \<Rightarrow> string \<Rightarrow> bool) \<Rightarrow> Checker \<Rightarrow> gid \<Rightarrow> checks \<Rightarrow> checks \<Rightarrow> bool"
  for matches :: "string \<Rightarrow> string \<Rightarrow> bool" and c :: Checker and g :: gid where
  skip_check: "f \<in> c_live s \<Longrightarrow> c_result s f = None \<Longrightarrow>
    check_gate g f (c_wait s f) (c_world s) = Some (Continue n) \<Longrightarrow>
    checks_step matches c g s (s\<lparr>c_wait := (c_wait s)(f := n)\<rparr>)"
| leave: "f \<in> c_live s \<Longrightarrow> c_result s f = None \<Longrightarrow>
    check_gate g f (c_wait s f) (c_world s) = Some Return \<Longrightarrow>
    checks_step matches c g s (s\<lparr>c_live := c_live s - {f}\<rparr>)"
| probe: "f \<in> c_live s \<Longrightarrow> c_result s f = None \<Longrightarrow>
    check_gate g f (c_wait s f) (c_world s) = None \<Longrightarrow>
    Check matches c r f (c_world s) = (res, w') \<Longrightarrow>
    checks_step matches c g s (s\<lparr>c_world := w', c_result := (c_result s)(f := Some res)\<rparr>)"
| apply_result: "f \<in> c_live s \<Longrightarrow> c_result s f = Some res \<Longrightarrow>
    check_apply g f (c_wait s f) res (c_world s) = (Continue n, w') \<Longrightarrow>
    checks_step matches c g s (s\<lparr>c_world := w', c_wait := (c_wait s)(f := n),
      c_result := (c_result s)(f := None)\<rparr>)"
| give_up: "f \<in> c_live s \<Longrightarrow> c_result s f = Some res \<Longrightarrow>
    check_apply g f (c_wait s f) res (c_world s) = (Break, w') \<Longrightarrow>
    checks_step matches c g s (s\<lparr>c_world := w', c_live := c_live s - {f},
      c_result := (c_result s)(f := None)\<rparr>)"
| fail: "checks_step matches c g s (s\<lparr>c_world := IncFailures f (c_world s)\<rparr>)"
| succeed: "checks_step matches c g s (s\<lparr>c_world := Enable f (c_world s)\<rparr>)"
| stop_all: "checks_step matches c g s (s\<lparr>c_world := stop g (c_world s)\<rparr>)"

inductive_cases checks_stepE: "checks_step matches c g s t"

definition checks_start :: "gid \<Rightarrow> checks \<Rightarrow> bool" where
  "checks_start g s \<longleftrightarrow> world_ok (c_world s) \<and> g < w_ngroup (c_world s) \<and>
     c_live s = set (g_fwdrs (w_group (c_world s) g)) \<and> c_wait s = (\<lambda>_. 0) \<and> c_result s = (\<lambda>_. None)"

text \<open>A forwarder whose loop has ended although nobody stopped it is enabled for good.\<close>

definition retired :: "Forwarder \<Rightarrow> bool" where
  "retired f \<longleftrightarrow> f_disabled f = 0 \<and> f_maxFailures f = 0"

definition checks_inv :: "gid \<Rightarrow> checks \<Rightarrow> bool" where
  "checks_inv g s \<longleftrightarrow> world_ok (c_world s) \<and> g < w_ngroup (c_world s) \<and> (\<forall>f. c_wait s f \<le> 16) \<and>
     (\<forall>f \<in> set (g_fwdrs (w_group (c_world s) g)) - c_live s.
        g_done (w_group (c_world s) g) = Some True \<or> retired (w_fwdr (c_world s) f))"

lemma run_handlers_done [simp]: "g_done (w_group (run_handlers f hs w) g) = g_done (w_group w g)"
  by (induction hs arbitrary: w) (auto simp: onStatusChanged_def)

lemma ops_done [simp]:
  "g_done (w_group (Enable f w) g) = g_done (w_group w g)"
  "g_done (w_group (Disable f w) g) = g_done (w_group w g)"
  "g_done (w_group (IncFailures f w) g) = g_done (w_group w g)"
  by (simp_all add: Enable_def Disable_def IncFailures_def Let_def)

lemma check_next_wait: "wait \<le> 16 \<Longrightarrow> check_apply g f wait res w = (Continue n, w') \<Longrightarrow> n \<le> 16"
  by (cases "(g, f, wait, res, w)" rule: check_apply.cases) (auto simp: Let_def not_less)

lemma check_gate_wait: "check_gate g f wait w = Some (Continue n) \<Longrightarrow> n = wait"
  by (auto simp: check_gate_def Let_def split: if_splits)

lemma check_gate_return: "check_gate g f wait w = Some Return \<Longrightarrow> g_done (w_group w g) = Some True"
  by (auto simp: check_gate_def Let_def split: if_splits)

text \<open>What a loop does to the group and to the other forwarders.\<close>

lemma check_apply_frame:
  assumes "check_apply g f wait res w = (n, w')"
  shows "w_ngroup w' = w_ngroup w" "g_fwdrs (w_group w' h) = g_fwdrs (w_group w h)"
    "g_done (w_group w' h) = g_done (w_group w h)" "x \<noteq> f \<Longrightarrow> w_fwdr w' x = w_fwdr w x"
  using assms
  by (cases "(g, f, wait, res, w)" rule: check_apply.cases; auto simp: SetMaxFailures_def)+

lemma Check_frame:
  assumes "Check m c r f w = (res, w')"
  shows "w_ngroup w' = w_ngroup w" "g_fwdrs (w_group w' h) = g_fwdrs (w_group w h)"
    "g_done (w_group w' h) = g_done (w_group w h)" "x \<noteq> f \<Longrightarrow> w_fwdr w' x = w_fwdr w x"
  using Check_world [of m c r f w] assms by auto

lemma check_apply_break:
  assumes "check_apply g f wait res w = (Break, w')" and "world_ok w"
  shows "retired (w_fwdr w' f)"
proof -
  have "f_disabled (w_fwdr w f) \<in> {0, 1}" using assms(2) by (simp add: world_ok_def)
  then show ?thesis using assms(1)
    by (cases "(g, f, wait, res, w)" rule: check_apply.cases)
      (auto simp: retired_def Enable_fwdr SetMaxFailures_def)
qed

lemma retired_ops:
  "retired (w_fwdr w x) \<Longrightarrow> retired (w_fwdr (IncFailures f w) x)"
  "retired (w_fwdr w x) \<Longrightarrow> retired (w_fwdr (Enable f w) x)"
  by (auto simp: retired_def IncFailures_fwdr Enable_fwdr)

text \<open>A step of the loop of \<open>f\<close> that changes the world to \<open>w'\<close>.\<close>

lemma checks_inv_move:
  assumes inv: "checks_inv g s" and "f \<in> c_live s" and "world_ok w'"
    and "w_ngroup w' = w_ngroup (c_world s)"
    and fs: "g_fwdrs (w_group w' g) = g_fwdrs (w_group (c_world s) g)"
    and dn: "g_done (w_group w' g) = g_done (w_group (c_world s) g)"
    and same: "\<And>x. x \<noteq> f \<Longrightarrow> w_fwdr w' x = w_fwdr (c_world s) x"
    and t: "c_world t = w'" "c_wait t = (c_wait s)(f := n)" "n \<le> 16"
      "c_live t = c_live s \<or> c_live t = c_live s - {f} \<and> retired (w_fwdr w' f)"
  shows "checks_inv g t"
proof -
  have "g_done (w_group w' g) = Some True \<or> retired (w_fwdr w' x)"
    if x: "x \<in> set (g_fwdrs (w_group (c_world s) g))" "x \<notin> c_live t" for x
  proof (cases "x = f")
    case True
    with x(2) assms(2) t(4) show ?thesis by auto
  next
    case False
    with x t(4) have "x \<notin> c_live s" by auto
    with x(1) inv have "g_done (w_group (c_world s) g) = Some True \<or> retired (w_fwdr (c_world s) x)"
      by (auto simp: checks_inv_def)
    then show ?thesis using same [OF False] dn by simp
  qed
  moreover have "\<forall>y. c_wait t y \<le> 16" using inv t(2,3) by (simp add: checks_inv_def)
  ultimately show ?thesis
    using inv assms(3,4) t(1) fs unfolding checks_inv_def by simp
qed

lemma checks_inv_step:
  assumes inv: "checks_inv g s" and "checks_step m c g s t"
  shows "checks_inv g t"
  using assms(2)
proof (cases rule: checks_step.cases)
  case (skip_check f n)
  with inv check_gate_wait [OF skip_check(4)] show ?thesis by (auto simp: checks_inv_def)
next
  case (leave f)
  with inv check_gate_return [OF leave(4)] show ?thesis by (auto simp: checks_inv_def)
next
  case (probe f r res w')
  have "world_ok w'"
    using world_ok_Check [of "c_world s" m c r f] probe(5) inv by (simp add: checks_inv_def)
  with inv probe Check_frame [OF probe(5)] show ?thesis
    by (intro checks_inv_move [of g s f w' t "c_wait s f"]) (simp_all add: checks_inv_def)
next
  case (apply_result f res n w')
  have "world_ok w'"
    using world_ok_check_apply [of "c_world s" g f "c_wait s f" res] apply_result(4) inv
    by (simp add: checks_inv_def)
  moreover have "n \<le> 16"
    using check_next_wait [OF _ apply_result(4)] inv by (simp add: checks_inv_def)
  ultimately show ?thesis
    using inv apply_result(1,2) check_apply_frame [OF apply_result(4)]
    by (intro checks_inv_move [of g s f w' t n]) simp_all
next
  case (give_up f res w')
  have w: "world_ok (c_world s)" using inv by (simp add: checks_inv_def)
  then have "world_ok w'"
    using world_ok_check_apply [of "c_world s" g f "c_wait s f" res] give_up(4) by simp
  with inv give_up(1,2) check_apply_frame [OF give_up(4)] check_apply_break [OF give_up(4) w]
  show ?thesis
    by (intro checks_inv_move [of g s f w' t "c_wait s f"]) (simp_all add: checks_inv_def)
next
  case (fail f)
  with inv show ?thesis by (auto simp: checks_inv_def world_ok_ops retired_ops)
next
  case (succeed f)
  with inv show ?thesis by (auto simp: checks_inv_def world_ok_ops retired_ops)
next
  case stop_all
  with inv show ?thesis by (auto simp: checks_inv_def world_ok_stop) (auto simp: stop_def split: if_splits)
qed

interpretation checkers: inductive_invariant "checks_start g" "checks_step m c g" "checks_inv g"
  by unfold_locales (auto simp: checks_inv_step, simp add: checks_start_def checks_inv_def)


text \<open>The loops of the example group, one check of forwarder \<open>1\<close> into its run.\<close>

definition sample_checks :: checks where
  "sample_checks = \<lparr>c_world = fresh_world, c_live = {0, 1}, c_wait = (\<lambda>_. 0), c_result = (\<lambda>_. None)\<rparr>"

lemma sample_checks_reach:
  "reach (checks_start 0) (checks_step m c 0) (sample_checks\<lparr>c_world := stop 0 (c_world sample_checks)\<rparr>)"
proof (rule reach_step)
  show "reach (checks_start 0) (checks_step m c 0) sample_checks"
    by (rule reach_start)
      (simp add: checks_start_def sample_checks_def fresh_world_ok, simp add: fresh_world_def sample_group_def insert_commute)
qed (rule stop_all)


section \<open>Back-off and spinning\<close>

lemma avail_invD:
  assumes "avail_inv U F p" and "f \<in> set (g_avail p)"
  shows "f \<in> set (g_fwdrs p)" and "f_priority (F f) = g_priority p"
proof -
  have "set (g_avail p) \<subseteq> set (g_fwdrs p)" "\<forall>f \<in> set (g_avail p). f_priority (F f) = g_priority p"
    using assms(1) by (simp add: avail_inv_def)+
  with assms(2) show "f \<in> set (g_fwdrs p)" and "f_priority (F f) = g_priority p" by auto
qed

lemma top_priority:
  assumes "world_ok w" and "g < w_ngroup w"
    and "\<forall>x \<in> set (g_fwdrs (w_group w g)). f_priority (w_fwdr w x) \<le> f_priority (w_fwdr w f)"
  shows "g_priority (w_group w g) \<le> f_priority (w_fwdr w f)"
proof (cases "g_avail (w_group w g)")
  case Nil
  with assms(1,2) have "g_priority (w_group w g) = 0" by (simp add: world_ok_def avail_inv_def)
  then show ?thesis by simp
next
  case (Cons x xs)
  have inv: "avail_inv {} (w_fwdr w) (w_group w g)" using assms(1,2) by (simp add: world_ok_def)
  have x: "x \<in> set (g_avail (w_group w g))" by (simp add: Cons)
  show ?thesis
    using bspec [OF assms(3) avail_invD(1) [OF inv x]] unfolding avail_invD(2) [OF inv x] .
qed

lemma run_handlers_config [simp]: "g_config (w_group (run_handlers f hs w) g) = g_config (w_group w g)"
  by (induction hs arbitrary: w) (auto simp: onStatusChanged_def)

lemma config_ops [simp]:
  "g_config (w_group (Enable f w) g) = g_config (w_group w g)"
  "g_config (w_group (Disable f w) g) = g_config (w_group w g)"
  "g_config (w_group (IncFailures f w) g) = g_config (w_group w g)"
  by (simp_all add: Enable_def Disable_def IncFailures_def Let_def)

lemma priority_ops [simp]:
  "f_priority (w_fwdr (Enable f w) x) = f_priority (w_fwdr w x)"
  "f_priority (w_fwdr (Disable f w) x) = f_priority (w_fwdr w x)"
  "f_priority (w_fwdr (IncFailures f w) x) = f_priority (w_fwdr w x)"
  by (simp_all add: Enable_fwdr Disable_fwdr IncFailures_fwdr)

text \<open>The group is checked for real, and nothing outranks the forwarder.\<close>

definition checkable :: "gid \<Rightarrow> fid \<Rightarrow> world \<Rightarrow> bool" where
  "checkable g f w \<longleftrightarrow> world_ok w \<and> g < w_ngroup w \<and> g_done (w_group w g) \<noteq> Some True \<and>
     \<not> s_CheckDisabledOnly (g_config (w_group w g)) \<and>
     (\<forall>x \<in> set (g_fwdrs (w_group w g)). f_priority (w_fwdr w x) \<le> f_priority (w_fwdr w f))"

lemma checkable_gate: "checkable g f w \<Longrightarrow> check_gate g f wait w = None"
  using top_priority [of w g f] by (auto simp: checkable_def check_gate_def Let_def not_less)

lemma next_wait:
  fixes k :: nat
  defines "wt \<equiv> of_nat (min k 16) :: u8"
  shows "(let wait' = wt + 1 in if 16 < wait' then 16 else wait') = of_nat (min (Suc k) 16)"
    and "uint wt = int (min k 16)"
proof -
  have u: "unat wt = min k 16" unfolding wt_def by (rule unat_of_nat_small) simp
  then show "uint wt = int (min k 16)" by (simp add: uint_nat)
  have s: "unat (wt + 1) = min k 16 + 1"
    using u by (simp add: unat_word_ariths)
  show "(let wait' = wt + 1 in if 16 < wait' then 16 else wait') = of_nat (min (Suc k) 16)"
  proof (cases "k < 16")
    case True
    then show ?thesis using s by (simp add: Let_def word_less_nat_alt wt_def)
  next
    case False
    then show ?thesis using s by (simp add: Let_def word_less_nat_alt)
  qed
qed

lemma check_iter_fail:
  assumes "checkable g f w" and "snd (fst (Check m c r f w)) = Some (CheckError e)"
  obtains w' where "check_iter m c r g f (of_nat (min k 16)) w = (Continue (of_nat (min (Suc k) 16)), True, w')"
    and "checkable g f w'" and "f_disabled (w_fwdr w' f) = 1" and "g_config (w_group w' g) = g_config (w_group w g)"
proof -
  obtain d w1 where C: "Check m c r f w = ((d, Some (CheckError e)), w1)"
    using assms(2) by (cases "Check m c r f w") auto
  have w1: "w1 = w \<or> w1 = IncFailures f w" using Check_world [of m c r f w] C by simp
  then have "world_ok w1" using assms(1) by (auto simp: checkable_def world_ok_ops)
  then have fl: "f_disabled (w_fwdr w1 f) \<in> {0, 1}" by (simp add: world_ok_def)
  show thesis
  proof (rule that)
    show "check_iter m c r g f (of_nat (min k 16)) w = (Continue (of_nat (min (Suc k) 16)), True, Disable f w1)"
      unfolding check_iter_def checkable_gate [OF assms(1)] C by (simp only: option.case prod.case Let_def
          check_apply.simps next_wait(1) [unfolded Let_def])
    show "checkable g f (Disable f w1)"
      using w1 assms(1) \<open>world_ok w1\<close> by (auto simp: checkable_def world_ok_ops)
    show "f_disabled (w_fwdr (Disable f w1) f) = 1" using fl by (auto simp: Disable_fwdr)
    show "g_config (w_group (Disable f w1) g) = g_config (w_group w g)" using w1 by auto
  qed
qed

lemma check_sleep_nat:
  assumes "0 < s_CheckInterval (g_config (w_group w g))" and "s_CheckInterval (g_config (w_group w g)) < 2 ^ 29"
  shows "check_sleep g (of_nat (min k 16)) w = int (min k 16) * s_CheckInterval (g_config (w_group w g)) * 10 ^ 9"
proof -
  let ?i = "s_CheckInterval (g_config (w_group w g))"
  define n where "n = int (min k 16)"
  have n: "0 \<le> n" "n \<le> 16" by (auto simp: n_def)
  define v where "v = ?i * 1000000000 * n"
  have v: "v \<le> 16000000000 * ?i" "0 \<le> v"
    using mult_left_mono [OF n(2), of "?i * 1000000000"] n(1) assms(1) by (simp_all add: v_def)
  then have "int64_range v" "int64_range (?i * 1000000000)"
    using assms by (auto simp: int64_range_def)
  then have "check_sleep g (of_nat (min k 16)) w = v"
    using v unfolding check_sleep_def next_wait(2) n_def [symmetric]
    by (simp only: wrap64_id v_def [symmetric] Let_def) simp
  then show ?thesis by (simp add: v_def n_def)
qed

lemma check_loop_fail:
  assumes "checkable g f w" and "\<forall>r \<in> set rs. \<exists>e. snd (fst (Check m c r f w)) = Some (CheckError e)"
    and "i = s_CheckInterval (g_config (w_group w g))" "0 < i" "i < 2 ^ 29"
    and "check_loop m c g f rs (of_nat (min k 16)) w = (ds, n, w')"
  shows "ds = map (\<lambda>j. (int (min j 16) * i * 10 ^ 9, True)) [k ..< k + length rs] \<and>
    n = Continue (of_nat (min (k + length rs) 16)) \<and> (rs \<noteq> [] \<longrightarrow> f_disabled (w_fwdr w' f) = 1) \<and>
    (rs = [] \<longrightarrow> w' = w)"
  using assms
proof (induction rs arbitrary: k w ds n w')
  case (Cons r rs)
  from Cons.prems(2) obtain e where e: "snd (fst (Check m c r f w)) = Some (CheckError e)" by auto
  obtain w1 where it: "check_iter m c r g f (of_nat (min k 16)) w = (Continue (of_nat (min (Suc k) 16)), True, w1)"
    and w1: "checkable g f w1" "f_disabled (w_fwdr w1 f) = 1" "g_config (w_group w1 g) = g_config (w_group w g)"
    using check_iter_fail [OF Cons.prems(1) e] .
  obtain ds1 where l: "check_loop m c g f rs (of_nat (min (Suc k) 16)) w1 = (ds1, n, w')"
    and ds: "ds = (check_sleep g (of_nat (min k 16)) w, True) # ds1"
    using Cons.prems(6) it by (auto simp: Let_def simp del: of_nat_Suc split: prod.splits)
  have "\<forall>r \<in> set rs. \<exists>e. snd (fst (Check m c r f w1)) = Some (CheckError e)"
    using Cons.prems(2) Check_result [of m c _ f w1 f w] by simp
  note ih = Cons.IH [OF w1(1) this _ Cons.prems(4,5) l]
  have upt: "[k ..< k + length (r # rs)] = k # [Suc k ..< Suc k + length rs]"
    by (simp add: upt_rec)
  show ?case
    using ih Cons.prems(3-5) w1 check_sleep_nat [of w g k] unfolding ds upt
    by (cases rs) (auto simp del: upt.simps)
qed simp

text \<open>
  Back-off. A forwarder that no other of its group outranks and whose checks keep failing is
  checked at once and then after 1, 2, 3, ... intervals, from the 17th check on every 16
  intervals, and it is disabled from the first failed check on.
\<close>

theorem check_backoff:
  assumes "checkable g f w" and "\<forall>r \<in> set rs. \<exists>e. snd (fst (Check matches c r f w)) = Some (CheckError e)"
    and "0 < s_CheckInterval (g_config (w_group w g))" and "s_CheckInterval (g_config (w_group w g)) < 2 ^ 29"
    and "check matches c g f rs w = (ds, n, w')"
  shows "ds = map (\<lambda>j. (int (min j 16) * s_CheckInterval (g_config (w_group w g)) * 10 ^ 9, True)) [0 ..< length rs] \<and>
    n = Continue (of_nat (min (length rs) 16)) \<and> (rs \<noteq> [] \<longrightarrow> \<not> Enabled (w_fwdr w' f))"
  using check_loop_fail [OF assms(1,2) refl assms(3,4), of 0 ds n w'] assms(5)
  by (auto simp: check_def)

lemma fresh_checkable: "checkable 0 0 fresh_world"
  unfolding checkable_def
  by (simp add: fresh_world_ok) (simp add: fresh_world_def sample_group_def sample_strategy_def sample_fwdr_def)

theorem check_backoff_witness:
  "map fst (fst (check (\<lambda>_ _. True) (tcpChecker ''a:80'' 0) 0 0 (replicate 3 (sample_run 0)) fresh_world)) =
     [0, 30 * 10 ^ 9, 60 * 10 ^ 9]"
proof -
  obtain ds n w' where r:
    "check (\<lambda>_ _. True) (tcpChecker ''a:80'' 0) 0 0 (replicate 3 (sample_run 0)) fresh_world = (ds, n, w')"
    by (metis prod.exhaust)
  have i: "s_CheckInterval (g_config (w_group fresh_world 0)) = 30"
    by (simp add: fresh_world_def sample_strategy_def)
  show ?thesis
    using check_backoff [OF fresh_checkable _ _ _ r] unfolding r i
    by (simp add: sample_run_def Check_def Let_def upt_rec)
qed

lemma warm_config [simp]:
  "g_config (w_group (warm_one m c env g f w) h) = g_config (w_group w h)"
  "g_done (w_group (warm_one m c env g f w) h) = g_done (w_group w h)"
  using Check_world [of m c "env f" f w]
  by (auto simp: warm_one_def split: prod.split option.split)

lemma warm_fold_config [simp]:
  "g_config (w_group (fold (warm_one m c env g) fs w) h) = g_config (w_group w h)"
  by (induction fs arbitrary: w) simp_all

lemma buildChecker_flag [simp]:
  "s_CheckDisabledOnly (g_config (w_group (snd (buildChecker parse compiles g w)) h)) =
   s_CheckDisabledOnly (g_config (w_group w h))"
  by (auto simp: buildChecker_def Let_def split: option.split)

lemma startCheckers_frame:
  assumes "startCheckers parse compiles g w = Some (Some c, fs, w')"
  shows "w_fwdr w' = w_fwdr w" "fs = g_fwdrs (w_group w g)" "g_done (w_group w' g) = Some False"
    "s_CheckDisabledOnly (g_config (w_group w' g)) = s_CheckDisabledOnly (g_config (w_group w g))"
  using assms buildChecker_frame(1,3) [of parse compiles g w] buildChecker_flag [of parse compiles g w]
  by (cases "buildChecker parse compiles g w"; auto simp: startCheckers_def split: built.splits)+

lemma check_spins:
  assumes "Enabled (w_fwdr w f)" and "s_CheckDisabledOnly (g_config (w_group w g))"
    and "g_done (w_group w g) \<noteq> Some True"
  shows "check_loop m c g f rs 0 w = (replicate (length rs) (0, False), Continue 0, w)"
proof (induction rs)
  case (Cons r rs)
  have "check_sleep g 0 w = 0" by (simp add: check_sleep_def Let_def wrap64_def)
  moreover have "check_iter m c r g f 0 w = (Continue 0, False, w)"
    using assms by (simp add: check_iter_def check_gate_def Let_def)
  ultimately show ?case using Cons by simp
qed simp

text \<open>
  C10. With \<open>checkdisabledonly\<close>, the start-up sequence leaves the check loops of healthy
  forwarders spinning: after the warm-up has enabled a forwarder, the loop that
  \<open>startCheckers\<close> starts for it runs iteration after iteration without ever sleeping and
  without ever checking, because its \<open>wait\<close> is still 0 when it skips the check.
\<close>

theorem warm_forwarder_spins:
  assumes "world_ok w" and "g < w_ngroup w" and "mset order = mset (g_fwdrs (w_group w g))"
    and "\<forall>f \<in> set (g_fwdrs (w_group w g)). f_disabled (w_fwdr w f) = 1"
    and "fst (buildChecker parse compiles g w) = Built c"
    and "warmCheck parse compiles matches env order g w = Some w1"
    and "startCheckers parse compiles g w1 = Some (Some c1, started, w2)"
    and "s_CheckDisabledOnly (g_config (w_group w g))"
    and "f \<in> set (g_fwdrs (w_group w g))" and "snd (fst (Check matches c (env f) f w)) = None"
  shows "f \<in> set started \<and> Enabled (w_fwdr w2 f) \<and>
    check matches c1 g f rs w2 = (replicate (length rs) (0, False), Continue 0, w2)"
proof -
  let ?w = "snd (buildChecker parse compiles g w)"
  have w1: "w1 = fold (warm_one matches c env g) order ?w"
    using assms(5,6) by (cases "buildChecker parse compiles g w") (simp add: warmCheck_def)
  have mem: "set order = set (g_fwdrs (w_group w g))" "distinct order"
    using assms(1-3) by (auto simp: world_ok_def group_static_def dest: mset_eq_setD mset_eq_imp_distinct_iff)
  have "f_disabled (w_fwdr w1 f) = 0"
    using warm_fold_flag [of order ?w f matches c env g] mem assms(4,9,10)
      Check_result [of matches c "env f" f ?w f w] by (simp add: w1)
  then have en: "Enabled (w_fwdr w2 f)" using startCheckers_frame(1) [OF assms(7)] by simp
  have "s_CheckDisabledOnly (g_config (w_group w2 g))"
    using startCheckers_frame(4) [OF assms(7)] assms(8) by (simp add: w1)
  with en startCheckers_frame(3) [OF assms(7)] check_spins
  have "check matches c1 g f rs w2 = (replicate (length rs) (0, False), Continue 0, w2)"
    by (simp add: check_def)
  with en show ?thesis using startCheckers_frame(2) [OF assms(7)] assms(9) by (simp add: w1)
qed

definition lazy_world :: world where
  "lazy_world = upd_group 0 (g_config_update (s_CheckDisabledOnly_update (\<lambda>_. True))) fresh_world"

lemma sample_built:
  "length (g_fwdrs (w_group w 0)) \<noteq> 1 \<Longrightarrow> fst (buildChecker sample_parse (\<lambda>_. True) 0 w) =
     Built (newTcpChecker ''a:80'' (wrap64 (s_CheckTimeout (g_config (w_group w 0)) * 1000000000)))"
  by (simp add: buildChecker_def Let_def sample_parse_def)

lemma lazy_facts:
  "world_ok lazy_world" "0 < w_ngroup lazy_world" "g_fwdrs (w_group lazy_world 0) = [0, 1]"
  "f_disabled (w_fwdr lazy_world f) = 1" "s_CheckDisabledOnly (g_config (w_group lazy_world 0))"
  using fresh_world_ok
  by (simp_all add: lazy_world_def world_ok_upd_group)
    (simp_all add: fresh_world_def sample_group_def sample_fwdr_def)

theorem warm_forwarder_spins_witness:
  "\<exists>w1 c1 started w2.
     warmCheck sample_parse (\<lambda>_. True) (\<lambda>_ _. True) sample_run [1, 0] 0 lazy_world = Some w1 \<and>
     startCheckers sample_parse (\<lambda>_. True) 0 w1 = Some (Some c1, started, w2) \<and>
     check (\<lambda>_ _. True) c1 0 1 (replicate 1000 (sample_run 1)) w2 = (replicate 1000 (0, False), Continue 0, w2)"
proof -
  obtain c where c: "fst (buildChecker sample_parse (\<lambda>_. True) 0 lazy_world) = Built c"
    and cT: "\<exists>t. c = newTcpChecker ''a:80'' t"
    using sample_built [of lazy_world] lazy_facts(3) by auto
  then obtain w1 where w1: "warmCheck sample_parse (\<lambda>_. True) (\<lambda>_ _. True) sample_run [1, 0] 0 lazy_world = Some w1"
    and fs: "g_fwdrs (w_group w1 0) = [0, 1]"
    using lazy_facts(3) buildChecker_frame(3) [of sample_parse "\<lambda>_. True" 0 lazy_world 0]
    by (cases "buildChecker sample_parse (\<lambda>_. True) 0 lazy_world") (auto simp: warmCheck_def)
  then obtain c1 started w2 where w2: "startCheckers sample_parse (\<lambda>_. True) 0 w1 = Some (Some c1, started, w2)"
    using sample_built [of w1]
    by (cases "buildChecker sample_parse (\<lambda>_. True) 0 w1") (auto simp: startCheckers_def)
  have "snd (fst (Check (\<lambda>_ _. True) c (sample_run 1) 1 lazy_world)) = None"
    using cT by (auto simp: Check_def newTcpChecker_def sample_run_def Let_def)
  from warm_forwarder_spins [OF lazy_facts(1,2) _ _ c w1 w2 lazy_facts(5) _ this,
      where rs = "replicate 1000 (sample_run 1)"] w1 w2
  show ?thesis by (simp add: lazy_facts(3,4))
qed

end
