(* ===== verification/ForwarderURL.thy ===== *)
theory ForwarderURL
  imports Dialing GoNet
begin

text \<open>
  From the text of a \<open>forward=\<close> setting to a group of forwarders: the registry of dialers
  (\<open>src/proxy/dialer.go\<close>), the direct dialer (\<open>src/proxy/direct.go\<close>), \<open>ForwarderFromURL\<close>
  and its options (\<open>src/rule/forward.go\<close>), and \<open>NewFwdrGroup\<close> (\<open>src/rule/group.go\<close>).

  The creators of the other protocols' dialers are entries of the registry, an argument of
  the definitions. \<open>ifs\<close> stands for the interfaces of the host: the error
  \<open>net.InterfaceByName\<close> returns for a name, if any.
\<close>

section \<open>The direct dialer\<close>

record Direct =
  di_iface :: "string option"
  di_ip :: "bytes option"
  di_dialTimeout :: int
  di_relayTimeout :: int

definition NewDirect :: "(string \<Rightarrow> string option) \<Rightarrow> string \<Rightarrow> int \<Rightarrow> int \<Rightarrow> string + Direct" where
  "NewDirect ifs intface dialTimeout relayTimeout =
     (let d = \<lparr>di_iface = None, di_ip = None, di_dialTimeout = dialTimeout, di_relayTimeout = relayTimeout\<rparr> in
      if intface \<noteq> [] then
        (case ParseAddr intface of
           Some addr \<Rightarrow> Inr (d\<lparr>di_ip := Some (addr_bytes addr)\<rparr>)
         | None \<Rightarrow>
             (case ifs intface of
                Some err \<Rightarrow> Inl (err @ '': '' @ intface)
              | None \<Rightarrow> Inr (d\<lparr>di_iface := Some intface\<rparr>)))
      else Inr d)"

text \<open>
  \<open>Direct.Dial\<close>: \<open>dial\<close> is the outcome of a dial from a local address, \<open>ips\<close> the addresses of the
  interface (none when it cannot be asked). The address that worked is remembered.
\<close>

fun iface_loop :: "(bytes option \<Rightarrow> string + nat) \<Rightarrow> bytes list \<Rightarrow> (string + nat) option \<Rightarrow> Direct \<Rightarrow>
    (string + nat) option \<times> Direct" where
  "iface_loop dial [] r d = (r, d)"
| "iface_loop dial (ip # ips) r d =
     (case dial (Some ip) of
        Inr c \<Rightarrow> (Some (Inr c), d\<lparr>di_ip := Some ip\<rparr>)
      | Inl err \<Rightarrow> iface_loop dial ips (Some (Inl err)) d)"

definition Direct_Dial :: "(bytes option \<Rightarrow> string + nat) \<Rightarrow> bytes list \<Rightarrow> Direct \<Rightarrow> (string + nat) \<times> Direct" where
  "Direct_Dial dial ips d =
     (let first = (if di_iface d = None \<or> di_ip d \<noteq> None then Some (dial (di_ip d)) else None) in
      case first of
        Some (Inr c) \<Rightarrow> (Inr c, d)
      | _ \<Rightarrow>
         (case iface_loop dial (if di_iface d = None then [] else ips) first d of
            (None, d') \<Rightarrow> (Inl ''dial failed, maybe the interface link is down, please check it'', d')
          | (Some r, d') \<Rightarrow> (r, d')))"

section \<open>The registry\<close>

datatype dialer = DirectDialer Direct | OtherDialer string nat

definition Addr :: "dialer \<Rightarrow> string" where
  "Addr d = (case d of DirectDialer _ \<Rightarrow> ''DIRECT'' | OtherDialer a _ \<Rightarrow> a)"

type_synonym creator = "string \<Rightarrow> dialer \<Rightarrow> string + dialer"

definition RegisterDialer :: "string \<Rightarrow> creator \<Rightarrow> (string \<rightharpoonup> creator) \<Rightarrow> (string \<rightharpoonup> creator)" where
  "RegisterDialer name c creators = creators(to_lower name \<mapsto> c)"

text \<open>The creator \<open>direct.go\<close> registers; the upstream dialer is never nil here.\<close>

definition NewDirectDialer :: creator where
  "NewDirectDialer s d = Inr d"

definition DialerFromURL :: "(string \<rightharpoonup> creator) \<Rightarrow> string \<Rightarrow> dialer \<Rightarrow> string + dialer" where
  "DialerFromURL creators s d =
     (let s1 = (if contains_scheme_sep s then s else s @ ''://'');
          scheme = take (nat (IndexByte s1 CHR '':'')) s1
      in case creators (to_lower scheme) of
           Some c \<Rightarrow> c s1 d
         | None \<Rightarrow> Inl (''unknown scheme '' @ [CHR 0x27] @ scheme @ [CHR 0x27]))"

section \<open>Forwarders\<close>

definition zero_fwdr :: Forwarder where
  "zero_fwdr = \<lparr>f_url = [], f_addr = [], f_priority = 0, f_maxFailures = 0, f_disabled = 0,
     f_failures = 0, f_latency = 0, f_intface = [], f_handlers = []\<rparr>"

datatype option_error = BadQuery | BadPriority num_error

definition parseOption :: "string \<Rightarrow> Forwarder \<Rightarrow> Forwarder \<times> option_error option" where
  "parseOption opt f =
     (let (query, bad) = ParseQuery opt in
      if bad then (f, Some BadQuery)
      else
        let p = Values_Get query ''priority'';
            (priority, err) = (if p \<noteq> [] then ParseUint p 32 else (0, None));
            f1 = SetPriority (of_nat priority) f
        in (f1\<lparr>f_intface := Values_Get query ''interface''\<rparr>, map_option BadPriority err))"

text \<open>The loop over the chained URLs: the dialer so far and the addresses collected.\<close>

fun chain_loop :: "(string \<rightharpoonup> creator) \<Rightarrow> string list \<Rightarrow> dialer \<Rightarrow> string list \<Rightarrow> string + dialer \<times> string list" where
  "chain_loop creators [] d addrs = Inr (d, addrs)"
| "chain_loop creators (url # urls) d addrs =
     (case DialerFromURL creators url d of
        Inl err \<Rightarrow> Inl err
      | Inr d' \<Rightarrow> chain_loop creators urls d'
          (if addrs = [] \<or> Addr d' \<noteq> last addrs then addrs @ [Addr d'] else addrs))"

text \<open>The error of \<open>parseOption\<close> is assigned and then overwritten by the next call.\<close>

definition ForwarderFromURL ::
  "(string \<rightharpoonup> creator) \<Rightarrow> (string \<Rightarrow> string option) \<Rightarrow> string \<Rightarrow> string \<Rightarrow> int \<Rightarrow> int \<Rightarrow> string + Forwarder \<times> dialer" where
  "ForwarderFromURL creators ifs s intface dialTimeout relayTimeout =
     (let f = zero_fwdr\<lparr>f_url := s\<rparr>;
          ss = split_on CHR ''#'' s;
          f1 = (if 1 < length ss then fst (parseOption (ss ! 1) f) else f);
          iface = (if f_intface f1 \<noteq> [] \<and> f_intface f1 \<noteq> intface then f_intface f1 else intface)
      in case NewDirect ifs iface dialTimeout relayTimeout of
           Inl err \<Rightarrow> Inl err
         | Inr d \<Rightarrow>
            (case chain_loop creators (split_on CHR '','' (ss ! 0)) (DirectDialer d) [] of
               Inl err \<Rightarrow> Inl err
             | Inr (d', addrs) \<Rightarrow>
                 Inr (f1\<lparr>f_addr := (if addrs \<noteq> [] then join_with '','' addrs else Addr d'),
                        f_disabled := 1\<rparr>, d')))"

definition DirectForwarder ::
  "(string \<Rightarrow> string option) \<Rightarrow> string \<Rightarrow> int \<Rightarrow> int \<Rightarrow> string + Forwarder \<times> dialer" where
  "DirectForwarder ifs intface dialTimeout relayTimeout =
     (case NewDirect ifs intface dialTimeout relayTimeout of
        Inl err \<Rightarrow> Inl err
      | Inr d \<Rightarrow> Inr (zero_fwdr\<lparr>f_addr := Addr (DirectDialer d)\<rparr>, DirectDialer d))"

section \<open>Groups\<close>

definition alloc_fwdr :: "Forwarder \<Rightarrow> world \<Rightarrow> fid \<times> world" where
  "alloc_fwdr f w = (w_nfwdr w, w\<lparr>w_fwdr := (w_fwdr w)(w_nfwdr w := f), w_nfwdr := Suc (w_nfwdr w)\<rparr>)"

text \<open>The loop of \<open>NewFwdrGroup\<close> over the forwarder chains.\<close>

fun load_fwdrs ::
  "(string \<rightharpoonup> creator) \<Rightarrow> (string \<Rightarrow> string option) \<Rightarrow> Strategy \<Rightarrow> string list \<Rightarrow> fid list \<Rightarrow> world \<Rightarrow> string + fid list \<times> world" where
  "load_fwdrs creators ifs c [] fwdrs w = Inr (fwdrs, w)"
| "load_fwdrs creators ifs c (chain # rest) fwdrs w =
     (case ForwarderFromURL creators ifs chain (s_IntFace c) (wrap64 (s_DialTimeout c * 1000000000))
             (wrap64 (s_RelayTimeout c * 1000000000)) of
        Inl err \<Rightarrow> Inl err
      | Inr (f, d) \<Rightarrow>
          (let (i, w1) = alloc_fwdr f w;
               w2 = SetMaxFailures (of_int (s_MaxFailures c)) i w1
           in load_fwdrs creators ifs c rest (fwdrs @ [i]) w2))"

text \<open>\<open>filepath.Base\<close>, \<open>filepath.Ext\<close> and \<open>strings.TrimSuffix\<close>.\<close>

definition path_Base :: "string \<Rightarrow> string" where
  "path_Base p =
     (if p = [] then ''.''
      else let q = rev (dropWhile (\<lambda>c. c = CHR ''/'') (rev p)) in
        if q = [] then ''/'' else drop (nat (LastIndexByte q CHR ''/'' + 1)) q)"

definition path_Ext :: "string \<Rightarrow> string" where
  "path_Ext p =
     (let q = drop (nat (LastIndexByte p CHR ''/'' + 1)) p;
          i = LastIndexByte q CHR ''.''
      in if i < 0 then [] else drop (nat i) q)"

definition TrimSuffix :: "string \<Rightarrow> string \<Rightarrow> string" where
  "TrimSuffix s suf =
     (if length suf \<le> length s \<and> drop (length s - length suf) s = suf
      then take (length s - length suf) s else s)"

text \<open>
  \<open>NewFwdrGroup\<close>: the new group, the strategy record it leaves behind (a group without
  forwarders sets it to round robin) and the new world; on an error the objects built so far
  are unreachable and the world stays as it was.
\<close>

definition NewFwdrGroup ::
  "(string \<rightharpoonup> creator) \<Rightarrow> (string \<Rightarrow> string option) \<Rightarrow> ((fid \<Rightarrow> fid \<Rightarrow> bool) \<Rightarrow> fid list \<Rightarrow> fid list) \<Rightarrow>
     string \<Rightarrow> string list \<Rightarrow> Strategy \<Rightarrow> world \<Rightarrow> string + gid \<times> Strategy \<times> world" where
  "NewFwdrGroup creators ifs srt rulePath s c w =
     (let name = TrimSuffix (path_Base rulePath) (path_Ext rulePath) in
      case load_fwdrs creators ifs c s [] w of
        Inl err \<Rightarrow> Inl err
      | Inr (fwdrs, w1) \<Rightarrow>
          if fwdrs = [] then
            (case DirectForwarder ifs (s_IntFace c) (wrap64 (s_DialTimeout c * 1000000000))
                    (wrap64 (s_RelayTimeout c * 1000000000)) of
               Inl err \<Rightarrow> Inl err
             | Inr (f, d) \<Rightarrow>
                 (let (i, w2) = alloc_fwdr f w1;
                      c' = c\<lparr>s_Strategy := ''rr''\<rparr>;
                      (g, w3) = newFwdrGroup srt name [i] c' w2
                  in Inr (g, c', w3)))
          else
            (let (g, w2) = newFwdrGroup srt name fwdrs c w1 in Inr (g, c, w2)))"

section \<open>What loading does to the world\<close>

text \<open>No group has a forwarder that is not allocated yet.\<close>

definition bounded :: "world \<Rightarrow> bool" where
  "bounded w \<longleftrightarrow> (\<forall>g < w_ngroup w. \<forall>f \<in> set (g_fwdrs (w_group w g)). f < w_nfwdr w)"

text \<open>\<open>w'\<close> has everything \<open>w\<close> has, unchanged, and possibly more.\<close>

definition extends :: "world \<Rightarrow> world \<Rightarrow> bool" where
  "extends w w' \<longleftrightarrow> w_nfwdr w \<le> w_nfwdr w' \<and> w_ngroup w \<le> w_ngroup w' \<and>
     (\<forall>f < w_nfwdr w. w_fwdr w' f = w_fwdr w f) \<and> (\<forall>g < w_ngroup w. w_group w' g = w_group w g)"

lemma extends_refl [simp]: "extends w w"
  by (simp add: extends_def)

lemma extends_trans: "extends u v \<Longrightarrow> extends v w \<Longrightarrow> extends u w"
  by (auto simp: extends_def)

lemma unallocated_handlers:
  assumes "world_ok w" and "bounded w" and "w_nfwdr w \<le> f"
  shows "f_handlers (w_fwdr w f) = []"
proof -
  have "f_handlers (w_fwdr w f) = [] \<or>
      (\<exists>g < w_ngroup w. f_handlers (w_fwdr w f) = [g] \<and> f \<in> set (g_fwdrs (w_group w g)))"
    using assms(1) unfolding world_ok_def wired_def by blast
  with assms(2,3) show ?thesis by (fastforce simp: bounded_def)
qed

text \<open>Storing a forwarder without handlers in a cell no group uses.\<close>

lemma world_ok_alloc:
  assumes "world_ok w" and "bounded w" and "f_handlers f = []" and "f_disabled f \<in> {0, 1}"
    and "alloc_fwdr f w = (i, w')"
  shows "world_ok w'" and "bounded w'" and "extends w w'" and "i = w_nfwdr w" and "w_nfwdr w' = Suc i"
    and "w_fwdr w' = (w_fwdr w)(i := f)" and "w_ngroup w' = w_ngroup w" and "w_group w' = w_group w"
proof -
  have w': "w' = w\<lparr>w_fwdr := (w_fwdr w)(w_nfwdr w := f), w_nfwdr := Suc (w_nfwdr w)\<rparr>" and i: "i = w_nfwdr w"
    using assms(5) by (auto simp: alloc_fwdr_def)
  have mem: "x \<noteq> w_nfwdr w" if "g < w_ngroup w" "x \<in> set (g_fwdrs (w_group w g))" for g x
    using assms(2) that by (auto simp: bounded_def)
  have "group_static (w_fwdr w') (w_group w g) \<and> avail_inv {} (w_fwdr w') (w_group w g)" if g: "g < w_ngroup w" for g
  proof
    show "group_static (w_fwdr w') (w_group w g)"
      by (rule group_static_cong [of "w_fwdr w"]) (use assms(1) g mem [OF g] in \<open>auto simp: w' world_ok_def\<close>)
    show "avail_inv {} (w_fwdr w') (w_group w g)"
      by (rule avail_inv_cong [of "{}" "w_fwdr w"]) (use assms(1) g mem [OF g] in \<open>auto simp: w' world_ok_def\<close>)
  qed
  moreover have "wired w'"
    using assms(1,3) mem unfolding world_ok_def wired_def w' by auto
  ultimately show "world_ok w'"
    using assms(1,4) by (auto simp: w' world_ok_def)
  show "bounded w'" using assms(2) by (auto simp: w' bounded_def less_Suc_eq)
  show "extends w w'" by (simp add: w' extends_def)
  show "i = w_nfwdr w" "w_nfwdr w' = Suc i" "w_fwdr w' = (w_fwdr w)(i := f)"
    "w_ngroup w' = w_ngroup w" "w_group w' = w_group w"
    by (simp_all add: i w')
qed

lemma parseOption_frame:
  "f_handlers (fst (parseOption opt f)) = f_handlers f" "f_url (fst (parseOption opt f)) = f_url f"
  by (auto simp: parseOption_def Let_def SetPriority_def split: prod.splits)

lemma ForwarderFromURL_fresh:
  assumes "ForwarderFromURL creators ifs s intface dt rt = Inr (f, d)"
  shows "f_handlers f = []" and "f_disabled f = 1" and "f_url f = s"
  using assms
  by (auto simp: ForwarderFromURL_def Let_def zero_fwdr_def parseOption_frame split: sum.splits if_splits)

lemma DirectForwarder_fresh:
  assumes "DirectForwarder ifs intface dt rt = Inr (f, d)"
  shows "f_handlers f = []" and "f_disabled f = 0" and "f_addr f = ''DIRECT''"
  using assms by (auto simp: DirectForwarder_def zero_fwdr_def Addr_def split: sum.splits)

text \<open>The forwarder a chain is turned into.\<close>

definition loaded :: "(string \<rightharpoonup> creator) \<Rightarrow> (string \<Rightarrow> string option) \<Rightarrow> Strategy \<Rightarrow> string \<Rightarrow> Forwarder \<Rightarrow> bool" where
  "loaded creators ifs c chain f \<longleftrightarrow>
     (\<exists>f0 d. ForwarderFromURL creators ifs chain (s_IntFace c) (wrap64 (s_DialTimeout c * 1000000000))
        (wrap64 (s_RelayTimeout c * 1000000000)) = Inr (f0, d) \<and>
      f = f0\<lparr>f_maxFailures := of_int (s_MaxFailures c)\<rparr>)"

lemma load_fwdrs_ok:
  assumes "load_fwdrs creators ifs c cs fs w = Inr (fs', w')" and "world_ok w" and "bounded w"
  shows "world_ok w' \<and> bounded w' \<and> extends w w' \<and> w_ngroup w' = w_ngroup w \<and> w_group w' = w_group w \<and>
    w_nfwdr w' = w_nfwdr w + length cs \<and> fs' = fs @ [w_nfwdr w ..< w_nfwdr w + length cs] \<and>
    (\<forall>k < length cs. loaded creators ifs c (cs ! k) (w_fwdr w' (w_nfwdr w + k)))"
  using assms
proof (induction cs arbitrary: fs w)
  case (Cons chain cs)
  obtain f0 d where f0: "ForwarderFromURL creators ifs chain (s_IntFace c) (wrap64 (s_DialTimeout c * 1000000000))
      (wrap64 (s_RelayTimeout c * 1000000000)) = Inr (f0, d)"
    using Cons.prems(1) by (auto split: sum.splits)
  note fresh = ForwarderFromURL_fresh [OF f0]
  obtain i w1 where a: "alloc_fwdr f0 w = (i, w1)" by (cases "alloc_fwdr f0 w")
  have fl: "f_disabled f0 \<in> {0, 1}" using fresh(2) by simp
  note w1 = world_ok_alloc [OF Cons.prems(2,3) fresh(1) fl a]
  let ?w2 = "SetMaxFailures (of_int (s_MaxFailures c)) i w1"
  have l: "load_fwdrs creators ifs c cs (fs @ [i]) ?w2 = Inr (fs', w')"
    using Cons.prems(1) f0 a by simp
  have ok2: "world_ok ?w2" by (rule world_ok_SetMaxFailures [OF w1(1)])
  have w2: "bounded ?w2" "w_nfwdr ?w2 = Suc (w_nfwdr w)" "w_ngroup ?w2 = w_ngroup w"
    "w_group ?w2 = w_group w" "extends w ?w2"
    using w1(2-8) by (simp_all add: bounded_def extends_def SetMaxFailures_def)
  have "w_fwdr ?w2 (w_nfwdr w) = f0\<lparr>f_maxFailures := of_int (s_MaxFailures c)\<rparr>"
    using w1(4,6) by (simp add: SetMaxFailures_def)
  then have ld: "loaded creators ifs c chain (w_fwdr ?w2 (w_nfwdr w))"
    using f0 by (auto simp: loaded_def)
  note ih = Cons.IH [OF l ok2 w2(1)]
  have ext: "extends ?w2 w'" using ih by blast
  then have keep: "w_fwdr w' (w_nfwdr w) = w_fwdr ?w2 (w_nfwdr w)"
    using w2(2) by (simp add: extends_def)
  have "loaded creators ifs c ((chain # cs) ! k) (w_fwdr w' (w_nfwdr w + k))" if "k < length (chain # cs)" for k
    using that ih ld keep w2(2) by (cases k) auto
  moreover have "fs' = fs @ [w_nfwdr w ..< w_nfwdr w + length (chain # cs)]"
    using ih w2(2) w1(4) upt_conv_Cons [of "w_nfwdr w" "w_nfwdr w + length (chain # cs)"]
    by (simp del: upt.simps)
  ultimately show ?case
    using ih w2 extends_trans [OF w2(5) ext] by auto
qed simp

lemma newFwdrGroup_extends:
  assumes "newFwdrGroup srt name fs c w = (g, w')" and "sorts srt" and "fs \<noteq> []" and "distinct fs"
    and "world_ok w" and "bounded w" and "\<forall>f \<in> set fs. f_handlers (w_fwdr w f) = []"
    and "extends w0 w" and "w_ngroup w = w_ngroup w0" and "\<forall>f \<in> set fs. w_nfwdr w0 \<le> f \<and> f < w_nfwdr w"
  shows "world_ok w' \<and> bounded w' \<and> extends w0 w' \<and> g = w_ngroup w0 \<and> w_ngroup w' = Suc g \<and>
    mset (g_fwdrs (w_group w' g)) = mset fs \<and> g_done (w_group w' g) = None \<and> g_config (w_group w' g) = c \<and>
    (\<forall>f. w_fwdr w' f = (if f \<in> set fs then (w_fwdr w f)\<lparr>f_handlers := [g]\<rparr> else w_fwdr w f))"
proof -
  let ?p = "fresh_group srt name fs c (w_fwdr w)"
  note p = fresh_group_ok [OF assms(2-4), where F = "w_fwdr w" and name = name and c = c]
  have m: "set (g_fwdrs ?p) = set fs" "distinct (g_fwdrs ?p)"
    using p(3) assms(4) by (auto dest: mset_eq_setD mset_eq_imp_distinct_iff)
  have n: "w_nfwdr (fold (AddHandler h) xs v) = w_nfwdr v" for h xs v
    by (induction xs arbitrary: v) (auto simp: AddHandler_def)
  have w': "g = w_ngroup w" "w_ngroup w' = Suc g" "w_group w' = (w_group w)(g := ?p)" "w_nfwdr w' = w_nfwdr w"
    "\<And>f. w_fwdr w' f = (if f \<in> set fs then (w_fwdr w f)\<lparr>f_handlers := [g]\<rparr> else w_fwdr w f)"
    using assms(1,7) m by (auto simp: newFwdrGroup_def Let_def fold_AddHandler n)
  have "world_ok w'"
    using world_ok_add_group [OF assms(5) p(1,2)] assms(1,7) m by (auto simp: newFwdrGroup_def Let_def)
  moreover have "bounded w'" using assms(6,10) m w' by (auto simp: bounded_def less_Suc_eq)
  moreover have "extends w0 w'"
  proof -
    have "f \<notin> set fs" if "f < w_nfwdr w0" for f using assms(10) that by (meson leD)
    then show ?thesis using assms(8,9) w' by (simp add: extends_def)
  qed
  ultimately show ?thesis using w' assms(9) p(3) by (simp add: fresh_group_def)
qed

text \<open>The forwarders of a group built from the chains \<open>s\<close>, or the one direct forwarder.\<close>

definition built_from ::
  "(string \<rightharpoonup> creator) \<Rightarrow> (string \<Rightarrow> string option) \<Rightarrow> Strategy \<Rightarrow> string list \<Rightarrow> gid \<Rightarrow> world \<Rightarrow> bool" where
  "built_from creators ifs c s g w \<longleftrightarrow>
     (if s = [] then \<exists>f. g_fwdrs (w_group w g) = [f] \<and> f_addr (w_fwdr w f) = ''DIRECT'' \<and> f_disabled (w_fwdr w f) = 0
      else \<exists>fs. mset (g_fwdrs (w_group w g)) = mset fs \<and> length fs = length s \<and>
        (\<forall>k < length s. \<exists>f0. loaded creators ifs c (s ! k) f0 \<and> w_fwdr w (fs ! k) = f0\<lparr>f_handlers := [g]\<rparr>))"

lemma NewFwdrGroup_built:
  assumes "NewFwdrGroup creators ifs srt path s c w = Inr (g, c', w')" and "sorts srt"
    and "world_ok w" and "bounded w"
  shows "world_ok w' \<and> bounded w' \<and> extends w w' \<and> g = w_ngroup w \<and> w_ngroup w' = Suc g \<and>
    g_done (w_group w' g) = None \<and> c' = (if s = [] then c\<lparr>s_Strategy := ''rr''\<rparr> else c) \<and>
    g_config (w_group w' g) = c' \<and> built_from creators ifs c s g w'"
proof -
  obtain fs w1 where l: "load_fwdrs creators ifs c s [] w = Inr (fs, w1)"
    using assms(1) by (auto simp: NewFwdrGroup_def Let_def split: sum.splits)
  note w1 = load_fwdrs_ok [OF l assms(3,4)]
  show ?thesis
  proof (cases "s = []")
    case True
    with l have e: "fs = []" "w1 = w" by auto
    obtain f d where f: "DirectForwarder ifs (s_IntFace c) (wrap64 (s_DialTimeout c * 1000000000))
        (wrap64 (s_RelayTimeout c * 1000000000)) = Inr (f, d)"
      using assms(1) l e by (auto simp: NewFwdrGroup_def Let_def split: sum.splits)
    note fresh = DirectForwarder_fresh [OF f]
    obtain i w2 where a: "alloc_fwdr f w = (i, w2)" by (cases "alloc_fwdr f w")
    have fl: "f_disabled f \<in> {0, 1}" using fresh(2) by simp
    note w2 = world_ok_alloc [OF assms(3,4) fresh(1) fl a]
    have n: "newFwdrGroup srt (TrimSuffix (path_Base path) (path_Ext path)) [i] (c\<lparr>s_Strategy := ''rr''\<rparr>) w2 = (g, w')"
      and c': "c' = c\<lparr>s_Strategy := ''rr''\<rparr>"
      using assms(1) l e f a by (auto simp: NewFwdrGroup_def Let_def split: prod.splits)
    have nb: "\<forall>x \<in> set [i]. w_nfwdr w \<le> x \<and> x < w_nfwdr w2" "\<forall>x \<in> set [i]. f_handlers (w_fwdr w2 x) = []"
      using w2(4-6) fresh(1) by simp_all
    note r = newFwdrGroup_extends [OF n assms(2) _ _ w2(1,2) nb(2) w2(3,7) nb(1)]
    have "built_from creators ifs c s g w'"
      using r fresh w2(6) True by (auto simp: built_from_def)
    then show ?thesis using r c' True by auto
  next
    case False
    have fs: "fs = [w_nfwdr w ..< w_nfwdr w + length s]" "fs \<noteq> []" "distinct fs" "length fs = length s"
      using w1 False by auto
    have n: "newFwdrGroup srt (TrimSuffix (path_Base path) (path_Ext path)) fs c w1 = (g, w')" and c': "c' = c"
      using assms(1) l fs(2) by (auto simp: NewFwdrGroup_def Let_def split: prod.splits)
    have ld: "loaded creators ifs c (s ! k) (w_fwdr w1 (fs ! k))" if "k < length s" for k
      using w1 fs(1) that by simp
    have hs: "\<forall>x \<in> set fs. f_handlers (w_fwdr w1 x) = []"
    proof
      fix x assume "x \<in> set fs"
      then obtain k where "k < length s" "x = fs ! k" using fs(4) by (metis in_set_conv_nth)
      with ld [of k] show "f_handlers (w_fwdr w1 x) = []"
        by (auto simp: loaded_def dest: ForwarderFromURL_fresh)
    qed
    have nb: "\<forall>x \<in> set fs. w_nfwdr w \<le> x \<and> x < w_nfwdr w1" using w1 fs(1) by auto
    have r: "world_ok w' \<and> bounded w' \<and> extends w w' \<and> g = w_ngroup w \<and> w_ngroup w' = Suc g \<and>
      mset (g_fwdrs (w_group w' g)) = mset fs \<and> g_done (w_group w' g) = None \<and> g_config (w_group w' g) = c \<and>
      (\<forall>f. w_fwdr w' f = (if f \<in> set fs then (w_fwdr w1 f)\<lparr>f_handlers := [g]\<rparr> else w_fwdr w1 f))"
      by (rule newFwdrGroup_extends [OF n assms(2) fs(2,3) _ _ hs _ _ nb]) (use w1 in simp_all)
    have "built_from creators ifs c s g w'"
      unfolding built_from_def using False r ld fs(4)
      by (simp, intro exI [of _ fs]) auto
    then show ?thesis using r c' False by auto
  qed
qed

section \<open>Options\<close>

lemma QueryUnescape_plain: "CHR ''%'' \<notin> set s \<Longrightarrow> CHR ''+'' \<notin> set s \<Longrightarrow> QueryUnescape s = Some s"
  by (induction s) auto

lemma ParseQuery_priority:
  assumes "set p \<inter> {CHR ''&'', CHR '';'', CHR ''%'', CHR ''+''} = {}"
  shows "ParseQuery (''priority='' @ p) = ([(''priority'', p)], False)"
proof -
  have "split_on CHR ''&'' (''priority='' @ p) = [''priority='' @ p]"
    by (rule split_on_none) (use assms in auto)
  moreover have "strings_Cut CHR ''='' (''priority='' @ p) = (''priority'', p)"
    by (simp add: strings_Cut_def)
  moreover have "QueryUnescape p = Some p" using assms by (intro QueryUnescape_plain) auto
  moreover have "QueryUnescape ''priority'' = Some ''priority''" by simp
  moreover have "CHR '';'' \<notin> set (''priority='' @ p)" using assms by auto
  ultimately show ?thesis by (simp add: ParseQuery_def del: QueryUnescape.simps)
qed

lemma ForwarderFromURL_option:
  assumes "CHR ''#'' \<notin> set base" and "CHR ''#'' \<notin> set opt"
    and "ForwarderFromURL creators ifs base intface dt rt = Inr (f0, d)"
    and f1: "f1 = fst (parseOption opt (zero_fwdr\<lparr>f_url := base @ CHR ''#'' # opt\<rparr>))" "f_intface f1 = []"
  shows "ForwarderFromURL creators ifs (base @ CHR ''#'' # opt) intface dt rt =
    Inr (f1\<lparr>f_addr := f_addr f0, f_disabled := 1\<rparr>, d)"
proof -
  have s0: "split_on CHR ''#'' base = [base]" using assms(1) by (rule split_on_none)
  have s1: "split_on CHR ''#'' (base @ CHR ''#'' # opt) = [base, opt]"
    using assms(1,2) by (simp add: split_on_append split_on_none)
  obtain nd where nd: "NewDirect ifs intface dt rt = Inr nd"
    using assms(3) by (auto simp: ForwarderFromURL_def Let_def s0 zero_fwdr_def split: sum.splits)
  obtain addrs where ch: "chain_loop creators (split_on CHR '','' base) (DirectDialer nd) [] = Inr (d, addrs)"
    and f0: "f_addr f0 = (if addrs \<noteq> [] then join_with '','' addrs else Addr d)"
    using assms(3) nd by (auto simp: ForwarderFromURL_def Let_def s0 zero_fwdr_def split: sum.splits)
  show ?thesis
    using nd ch f0 f1(2) unfolding ForwarderFromURL_def Let_def s1 f1(1) [symmetric]
    by (simp add: f1(1) [symmetric])
qed

text \<open>
  C19. The error of a malformed \<open>#priority=\<close> option is lost: whenever the URL without options is
  accepted, so is the URL with \<open>#priority=p\<close> for any text \<open>p\<close>, with the same dialer, and the
  priority is whatever \<open>ParseUint\<close> left behind, 0 for text that is no number and 4294967295,
  the highest there is, for a number that does not fit 32 bits.
\<close>

theorem bad_priority_accepted:
  assumes "CHR ''#'' \<notin> set base" and "ForwarderFromURL creators ifs base intface dt rt = Inr (f0, d)"
    and "p \<noteq> []" and "set p \<inter> {CHR ''#'', CHR ''&'', CHR '';'', CHR ''%'', CHR ''+''} = {}"
  shows "\<exists>f. ForwarderFromURL creators ifs (base @ ''#priority='' @ p) intface dt rt = Inr (f, d) \<and>
    f_addr f = f_addr f0 \<and> f_priority f = of_nat (fst (ParseUint p 32))"
proof -
  define f1 where "f1 = fst (parseOption (''priority='' @ p) (zero_fwdr\<lparr>f_url := base @ CHR ''#'' # ''priority='' @ p\<rparr>))"
  have q: "ParseQuery (''priority='' @ p) = ([(''priority'', p)], False)"
    using assms(4) by (intro ParseQuery_priority) auto
  have f1: "f_intface f1 = []" "f_priority f1 = of_nat (fst (ParseUint p 32))"
    using assms(3) unfolding f1_def parseOption_def q
    by (cases "ParseUint p 32"; simp add: Values_Get_def SetPriority_def)+
  have "CHR ''#'' \<notin> set (''priority='' @ p)" using assms(4) by auto
  from ForwarderFromURL_option [OF assms(1) this assms(2) f1_def f1(1)] f1(2)
  show ?thesis by simp
qed

definition sample_creators :: "string \<rightharpoonup> creator" where
  "sample_creators = RegisterDialer ''direct'' NewDirectDialer (\<lambda>_. None)"

lemma direct_url:
  "\<exists>f d. ForwarderFromURL sample_creators (\<lambda>_. None) ''direct://'' [] dt rt = Inr (f, d) \<and> f_addr f = ''DIRECT''"
proof -
  have "to_lower ''direct'' = ''direct''"
    by (simp add: to_lower_def to_lower_char_def Let_def)
  then show ?thesis
    by (simp add: ForwarderFromURL_def NewDirect_def DialerFromURL_def zero_fwdr_def Let_def Addr_def
        sample_creators_def RegisterDialer_def NewDirectDialer_def)
qed

theorem bad_priority_accepted_witness:
  "\<exists>f d. ForwarderFromURL sample_creators (\<lambda>_. None) (''direct://'' @ ''#priority='' @ ''9999999999'') [] 0 0 =
     Inr (f, d) \<and> f_priority f = 4294967295"
proof -
  obtain f0 d where "ForwarderFromURL sample_creators (\<lambda>_. None) ''direct://'' [] 0 0 = Inr (f0, d)"
    using direct_url by blast
  moreover have "fst (ParseUint ''9999999999'' 32) = 4294967295"
    by (simp add: ParseUint_def is_digit_def digit_val_def Let_def)
  ultimately show ?thesis
    using bad_priority_accepted [of "''direct://''" sample_creators "\<lambda>_. None" "[]" 0 0 f0 d "''9999999999''"]
    by auto
qed

end
