(* ===== verification/DomainWalk.thy ===== *)
theory DomainWalk
  imports Prelude
begin

text \<open>
  The walk from the last label of a host name to the whole name that the rule proxy
  (\<open>findDialer\<close> and \<open>AddDomainIP\<close> in \<open>src/rule/proxy.go\<close>), the DNS client (\<open>UpStream\<close> in
  \<open>src/dns/client.go\<close>) and the ipset manager share:

    for i := len(host); i != -1; {
      i = strings.LastIndexByte(host[:i], '.')
      ... host[i+1:] ...
    }

  \<open>domain_walk\<close> is the walk that stops at the first name with an entry, \<open>domain_visit\<close> the
  one that goes on to the end. Both are tied to \<open>domain_keys\<close>, the names at the label
  boundaries, shortest first.
\<close>

section \<open>The loops\<close>

lemma LastIndexByte_take_less: "LastIndexByte (take i host) c \<noteq> -1 \<Longrightarrow> nat (LastIndexByte (take i host) c) < i"
  using LastIndexByte_bounds [of "take i host" c] by (auto simp: min_def split: if_splits)

function domain_walk :: "(string \<Rightarrow> 'g option) \<Rightarrow> string \<Rightarrow> nat \<Rightarrow> 'g option" where
  "domain_walk m host i =
     (let j = LastIndexByte (take i host) CHR ''.'' in
      case m (drop (nat (j + 1)) host) of
        Some g \<Rightarrow> Some g
      | None \<Rightarrow> if j = -1 then None else domain_walk m host (nat j))"
  by pat_completeness auto
termination
  by (relation "measure (\<lambda>(m, host, i). i)") (auto intro: LastIndexByte_take_less)

function domain_visit :: "(string \<Rightarrow> 's \<Rightarrow> 's) \<Rightarrow> string \<Rightarrow> nat \<Rightarrow> 's \<Rightarrow> 's" where
  "domain_visit f host i s =
     (let j = LastIndexByte (take i host) CHR ''.'';
          s' = f (drop (nat (j + 1)) host) s
      in if j = -1 then s' else domain_visit f host (nat j) s')"
  by pat_completeness auto
termination
  by (relation "measure (\<lambda>(f, host, i, s). i)") (auto intro: LastIndexByte_take_less)

declare domain_walk.simps [simp del] domain_visit.simps [simp del]

section \<open>The names a walk visits\<close>

definition domain_keys :: "string \<Rightarrow> string list" where
  "domain_keys host =
     (let labels = split_on CHR ''.'' host
      in map (\<lambda>k. join_with ''.'' (drop k labels)) (rev [0 ..< length labels]))"

fun first_some :: "('k \<Rightarrow> 'g option) \<Rightarrow> 'k list \<Rightarrow> 'g option" where
  "first_some m [] = None"
| "first_some m (k # ks) = (case m k of Some g \<Rightarrow> Some g | None \<Rightarrow> first_some m ks)"

lemma split_on_snoc: "c \<notin> set seg \<Longrightarrow> split_on c (p @ c # seg) = split_on c p @ [seg]"
proof (induction p)
  case Nil
  then show ?case by (simp add: split_on_none)
next
  case (Cons x p)
  obtain t ts where "split_on c p = t # ts" using split_on_nonempty by (meson neq_Nil_conv)
  with Cons show ?case by auto
qed

lemma join_with_snoc: "ls \<noteq> [] \<Longrightarrow> join_with sep (ls @ [s]) = join_with sep ls @ sep @ s"
proof (induction ls rule: induct_list012)
  case (3 x y zs)
  then show ?case by simp
qed simp_all

text \<open>The names visited from position \<open>length p\<close> of \<open>p @ r\<close>.\<close>

definition keys_from :: "string \<Rightarrow> string \<Rightarrow> string list" where
  "keys_from p r =
     (let ls = split_on CHR ''.'' p in map (\<lambda>k. join_with ''.'' (drop k ls) @ r) (rev [0 ..< length ls]))"

lemma keys_from_nodot: "CHR ''.'' \<notin> set p \<Longrightarrow> keys_from p r = [p @ r]"
  by (simp add: keys_from_def split_on_none)

lemma keys_from_dot:
  assumes "CHR ''.'' \<notin> set seg"
  shows "keys_from (p @ CHR ''.'' # seg) r = (seg @ r) # keys_from p (CHR ''.'' # seg @ r)"
proof -
  let ?ls = "split_on CHR ''.'' p"
  have "join_with ''.'' (drop k (?ls @ [seg])) @ r = join_with ''.'' (drop k ?ls) @ CHR ''.'' # seg @ r"
    if "k < length ?ls" for k
    using that join_with_snoc [of "drop k ?ls" "''.''" seg] by simp
  then show ?thesis
    by (simp add: keys_from_def Let_def split_on_snoc [OF assms])
qed

lemma domain_keys_from: "domain_keys host = keys_from host []"
  by (simp add: domain_keys_def keys_from_def Let_def)

lemma walk_step:
  fixes p r
  defines "j \<equiv> LastIndexByte (take (length p) (p @ r)) CHR ''.''"
  obtains (last) "j = -1" "drop (nat (j + 1)) (p @ r) = p @ r" "keys_from p r = [p @ r]"
  | (more) p' seg where "j = int (length p')" "p = p' @ CHR ''.'' # seg" "drop (nat (j + 1)) (p @ r) = seg @ r"
      "keys_from p r = (seg @ r) # keys_from p' (CHR ''.'' # seg @ r)"
proof (cases "CHR ''.'' \<in> set p")
  case False
  then have "j = -1" by (simp add: j_def LastIndexByte_none)
  with last False keys_from_nodot show thesis by simp
next
  case True
  then obtain p' seg where p: "p = p' @ CHR ''.'' # seg" "CHR ''.'' \<notin> set seg"
    by (metis split_list_last)
  then have j: "j = int (length p')"
    using LastIndexByte_append [of p' "CHR ''.'' # seg" "CHR ''.''"] LastIndexByte_none [of seg "CHR ''.''"]
    by (simp add: j_def Let_def)
  moreover have "drop (nat (j + 1)) (p @ r) = seg @ r" by (simp add: j p nat_add_distrib)
  ultimately show thesis using more keys_from_dot [OF p(2), of p' r] p(1) by simp
qed

lemma domain_walk_from: "domain_walk m (p @ r) (length p) = first_some m (keys_from p r)"
proof (induction "length p" arbitrary: p r rule: less_induct)
  case less
  show ?case
  proof (cases rule: walk_step [of p r])
    case last
    then show ?thesis by (simp add: domain_walk.simps [of m "p @ r"] Let_def split: option.split)
  next
    case (more p' seg)
    have "domain_walk m (p' @ CHR ''.'' # seg @ r) (length p') = first_some m (keys_from p' (CHR ''.'' # seg @ r))"
      by (rule less) (simp add: more(2))
    with more show ?thesis
      by (subst domain_walk.simps) (simp add: Let_def nat_add_distrib split: option.split)
  qed
qed

lemma domain_visit_from: "domain_visit f (p @ r) (length p) s = fold f (keys_from p r) s"
proof (induction "length p" arbitrary: p r s rule: less_induct)
  case less
  show ?case
  proof (cases rule: walk_step [of p r])
    case last
    then show ?thesis by (simp add: domain_visit.simps [of f "p @ r"] Let_def)
  next
    case (more p' seg)
    have "domain_visit f (p' @ CHR ''.'' # seg @ r) (length p') (f (seg @ r) s) =
        fold f (keys_from p' (CHR ''.'' # seg @ r)) (f (seg @ r) s)"
      by (rule less) (simp add: more(2))
    with more show ?thesis
      by (subst domain_visit.simps) (simp add: Let_def nat_add_distrib)
  qed
qed

lemma domain_walk_keys: "domain_walk m host (length host) = first_some m (domain_keys host)"
  using domain_walk_from [of m host "[]"] by (simp add: domain_keys_from)

lemma domain_visit_keys: "domain_visit f host (length host) s = fold f (domain_keys host) s"
  using domain_visit_from [of f host "[]" s] by (simp add: domain_keys_from)

lemma split_on_join: "split_on c (p @ c # q) = split_on c p @ split_on c q"
proof (induction p)
  case (Cons x p)
  obtain t ts where "split_on c p = t # ts" using split_on_nonempty by (meson neq_Nil_conv)
  with Cons show ?case by auto
qed simp

lemma join_with_append:
  "ls \<noteq> [] \<Longrightarrow> ms \<noteq> [] \<Longrightarrow> join_with sep (ls @ ms) = join_with sep ls @ sep @ join_with sep ms"
proof (induction ls rule: induct_list012)
  case (2 x)
  then show ?case by (cases ms) auto
next
  case (3 x y zs)
  then show ?case by simp
qed simp

text \<open>A name below \<open>k\<close> visits the names of \<open>k\<close> first.\<close>

lemma domain_keys_below:
  "domain_keys (h @ CHR ''.'' # k) = domain_keys k @ map (\<lambda>x. x @ CHR ''.'' # k) (domain_keys h)"
proof -
  let ?p = "split_on CHR ''.'' h" and ?q = "split_on CHR ''.'' k"
  have 1: "join_with ''.'' (drop i ?p @ ?q) = join_with ''.'' (drop i ?p) @ CHR ''.'' # k" if "i < length ?p" for i
    using that join_with_append [of "drop i ?p" ?q "''.''"] join_split [of "CHR ''.''" k] by simp
  have "[0 ..< length ?p + length ?q] = [0 ..< length ?p] @ map (\<lambda>i. i + length ?p) [0 ..< length ?q]"
    by (simp add: map_add_upt upt_add_eq_append [of 0, simplified] add.commute)
  then show ?thesis
    by (simp add: domain_keys_def Let_def split_on_join rev_map 1 cong: map_cong)
qed

lemma first_some_append:
  "first_some m (xs @ ys) = (case first_some m xs of Some g \<Rightarrow> Some g | None \<Rightarrow> first_some m ys)"
  by (induction xs) (auto split: option.split)

lemma first_some_None: "first_some m xs = None \<longleftrightarrow> (\<forall>x \<in> set xs. m x = None)"
  by (induction xs) (auto split: option.split)

lemma first_some_SomeD: "first_some m xs = Some g \<Longrightarrow> \<exists>x \<in> set xs. m x = Some g"
  by (induction xs) (auto split: option.splits)

lemma to_lower_idem [simp]: "to_lower (to_lower s) = to_lower s"
proof -
  have "to_lower_char (to_lower_char c) = to_lower_char c" for c
    by (simp add: to_lower_char_def Let_def)
  then show ?thesis by (simp add: to_lower_def)
qed

section \<open>Routing by name\<close>

text \<open>
  What a component that routes by name promises: the entry of the shortest suffix of whole
  labels that has one, and the default when none has.
\<close>

locale name_router =
  fixes table :: "string \<Rightarrow> 'g option" and default :: 'g and route :: "string \<Rightarrow> 'g"
  assumes route_spec:
    "route name = (case first_some table (domain_keys (to_lower name)) of Some g \<Rightarrow> g | None \<Rightarrow> default)"
begin

lemma route_case: "route (to_lower name) = route name"
  by (simp add: route_spec)

lemma route_default: "\<forall>k \<in> set (domain_keys (to_lower name)). table k = None \<Longrightarrow> route name = default"
  by (simp add: route_spec first_some_None [THEN iffD2])

lemma route_entry:
  assumes "first_some table (domain_keys k) = Some g"
  shows "to_lower k = k \<Longrightarrow> route k = g"
    and "to_lower name = h @ CHR ''.'' # k \<Longrightarrow> route name = g"
  using assms by (simp_all add: route_spec domain_keys_below first_some_append)

lemma route_range: "route name = default \<or> (\<exists>k. table k = Some (route name))"
  by (auto simp: route_spec split: option.split dest: first_some_SomeD)

end

end
