(* ===== verification/RuleProxy.thy ===== *)
theory RuleProxy
  imports Checker ForwarderURL DomainWalk
begin

text \<open>
  The rule proxy (\<open>src/rule/proxy.go\<close>, \<open>src/rule/status.go\<close>): one generation of routing tables,
  how it is built from the configuration, how a destination is routed, how a resolved address
  is added, how a reload replaces the generation, and the status report.

  A \<open>sync.Map\<close> is a map; \<open>Range\<close> visits its keys in no particular order, so the order of the CIDR
  keys is an argument of \<open>findDialer\<close>. The environment of the constructors (\<open>env\<close>) collects the
  registry, the host's interfaces, the sort and what health checks see.
\<close>

section \<open>State\<close>

record Config =
  c_RulePath :: string
  c_Forward :: "string list"
  c_Strategy :: Strategy
  c_Domain :: "string list"
  c_IP :: "string list"
  c_CIDR :: "string list"

record proxyState =
  ps_main :: gid
  ps_all :: "gid list"
  ps_domain :: "string \<Rightarrow> gid option"
  ps_ip :: "netip_addr \<Rightarrow> gid option"
  ps_cidr :: "Prefix \<Rightarrow> gid option"

record outside =
  o_creators :: "string \<Rightarrow> creator option"
  o_ifs :: "string \<Rightarrow> string option"
  o_sort :: "(fid \<Rightarrow> fid \<Rightarrow> bool) \<Rightarrow> fid list \<Rightarrow> fid list"
  o_parse :: "string \<Rightarrow> url option"
  o_compiles :: "string \<Rightarrow> bool"
  o_matches :: "string \<Rightarrow> string \<Rightarrow> bool"
  o_run :: "fid \<Rightarrow> check_run"
  o_order :: "gid \<Rightarrow> fid list \<Rightarrow> fid list"

section \<open>Building a generation\<close>

text \<open>The tables one rule adds, in the order of the source.\<close>

definition add_domains :: "gid \<Rightarrow> string list \<Rightarrow> proxyState \<Rightarrow> proxyState" where
  "add_domains g ds s = fold (\<lambda>d s. s\<lparr>ps_domain := (ps_domain s)(to_lower d \<mapsto> g)\<rparr>) ds s"

definition add_ips :: "gid \<Rightarrow> string list \<Rightarrow> proxyState \<Rightarrow> proxyState" where
  "add_ips g ips s =
     fold (\<lambda>t s. case ParseAddr t of None \<Rightarrow> s | Some ip \<Rightarrow> s\<lparr>ps_ip := (ps_ip s)(ip \<mapsto> g)\<rparr>) ips s"

definition add_cidrs :: "gid \<Rightarrow> string list \<Rightarrow> proxyState \<Rightarrow> proxyState" where
  "add_cidrs g cs s =
     fold (\<lambda>t s. case ParsePrefix t of None \<Rightarrow> s | Some p \<Rightarrow> s\<lparr>ps_cidr := (ps_cidr s)(p \<mapsto> g)\<rparr>) cs s"

fun add_rules :: "outside \<Rightarrow> Config list \<Rightarrow> proxyState \<Rightarrow> world \<Rightarrow> string + proxyState \<times> world" where
  "add_rules env [] s w = Inr (s, w)"
| "add_rules env (r # rs) s w =
     (case NewFwdrGroup (o_creators env) (o_ifs env) (o_sort env) (c_RulePath r) (c_Forward r) (c_Strategy r) w of
        Inl err \<Rightarrow> Inl (''rule '' @ c_RulePath r @ '': '' @ err)
      | Inr (g, c', w') \<Rightarrow>
          add_rules env rs
            (add_cidrs g (c_CIDR r) (add_ips g (c_IP r) (add_domains g (c_Domain r) (s\<lparr>ps_all := ps_all s @ [g]\<rparr>)))) w')"

text \<open>The hosts of the main forwarders are reached directly.\<close>

definition direct_host :: "gid \<Rightarrow> string \<Rightarrow> proxyState \<Rightarrow> proxyState" where
  "direct_host direct addr s =
     (let host = host_of (hd (split_on CHR '','' addr)) in
      case ParseAddr host of
        None \<Rightarrow> s\<lparr>ps_domain := (ps_domain s)(to_lower host \<mapsto> direct)\<rparr>
      | Some _ \<Rightarrow> s)"

definition buildState :: "outside \<Rightarrow> string list \<Rightarrow> Strategy \<Rightarrow> Config list \<Rightarrow> world \<Rightarrow> string + proxyState \<times> world" where
  "buildState env mainForwarders mainStrategy rules w =
     (case NewFwdrGroup (o_creators env) (o_ifs env) (o_sort env) ''main'' mainForwarders mainStrategy w of
        Inl err \<Rightarrow> Inl (''main forwarders: '' @ err)
      | Inr (mainGroup, strategy1, w1) \<Rightarrow>
         (case add_rules env rules
                 \<lparr>ps_main = mainGroup, ps_all = [], ps_domain = (\<lambda>_. None), ps_ip = (\<lambda>_. None),
                  ps_cidr = (\<lambda>_. None)\<rparr> w1 of
            Inl err \<Rightarrow> Inl err
          | Inr (s, w2) \<Rightarrow>
             (case NewFwdrGroup (o_creators env) (o_ifs env) (o_sort env) [] [] strategy1 w2 of
                Inl err \<Rightarrow> Inl (''direct forwarder: '' @ err)
              | Inr (direct, strategy2, w3) \<Rightarrow>
                  (let s1 = s\<lparr>ps_domain := (ps_domain s)(''direct'' \<mapsto> direct)\<rparr>;
                       s2 = (if mainForwarders \<noteq> []
                             then fold (\<lambda>f. direct_host direct (f_addr (w_fwdr w3 f)))
                                    (g_fwdrs (w_group w3 (ps_main s1))) s1
                             else s1)
                   in Inr (s2, w3)))))"

section \<open>Checkers of a generation\<close>

definition groups :: "proxyState \<Rightarrow> gid list" where
  "groups s = ps_main s # ps_all s"

text \<open>\<open>None\<close> is the panic of a check expression that does not compile.\<close>

fun warm_groups :: "outside \<Rightarrow> gid list \<Rightarrow> world \<Rightarrow> world option" where
  "warm_groups env [] w = Some w"
| "warm_groups env (g # gs) w =
     (case warmCheck (o_parse env) (o_compiles env) (o_matches env) (o_run env)
             (o_order env g (g_fwdrs (w_group w g))) g w of
        None \<Rightarrow> None
      | Some w' \<Rightarrow> warm_groups env gs w')"

definition state_warmCheck :: "outside \<Rightarrow> proxyState \<Rightarrow> world \<Rightarrow> world option" where
  "state_warmCheck env s w = warm_groups env (groups s) w"

text \<open>The loops that are started: the checker, the group and the forwarder of each.\<close>

fun start_groups :: "outside \<Rightarrow> gid list \<Rightarrow> world \<Rightarrow> ((Checker \<times> gid \<times> fid) list \<times> world) option" where
  "start_groups env [] w = Some ([], w)"
| "start_groups env (g # gs) w =
     (case startCheckers (o_parse env) (o_compiles env) g w of
        None \<Rightarrow> None
      | Some (c, fs, w') \<Rightarrow>
          (case start_groups env gs w' of
             None \<Rightarrow> None
           | Some (ls, w'') \<Rightarrow>
               Some ((case c of None \<Rightarrow> [] | Some c' \<Rightarrow> map (\<lambda>f. (c', g, f)) fs) @ ls, w'')))"

definition state_startCheckers :: "outside \<Rightarrow> proxyState \<Rightarrow> world \<Rightarrow> ((Checker \<times> gid \<times> fid) list \<times> world) option" where
  "state_startCheckers env s w = start_groups env (groups s) w"

definition stopCheckers :: "proxyState \<Rightarrow> world \<Rightarrow> world" where
  "stopCheckers s w = fold stop (groups s) w"

datatype 'a outcome = Panicked | Failed string | Finished 'a

definition NewProxy ::
  "outside \<Rightarrow> string list \<Rightarrow> Strategy \<Rightarrow> Config list \<Rightarrow> world \<Rightarrow>
     (proxyState \<times> (Checker \<times> gid \<times> fid) list \<times> world) outcome" where
  "NewProxy env mainForwarders mainStrategy rules w =
     (case buildState env mainForwarders mainStrategy rules w of
        Inl err \<Rightarrow> Failed err
      | Inr (s, w1) \<Rightarrow>
         (case state_warmCheck env s w1 of
            None \<Rightarrow> Panicked
          | Some w2 \<Rightarrow>
             (case state_startCheckers env s w2 of
                None \<Rightarrow> Panicked
              | Some (loops, w3) \<Rightarrow> Finished (s, loops, w3))))"

definition Reload ::
  "outside \<Rightarrow> string list \<Rightarrow> Strategy \<Rightarrow> Config list \<Rightarrow> proxyState \<Rightarrow> world \<Rightarrow>
     (proxyState \<times> (Checker \<times> gid \<times> fid) list \<times> world) outcome" where
  "Reload env mainForwarders mainStrategy rules old w =
     (case buildState env mainForwarders mainStrategy rules w of
        Inl err \<Rightarrow> Failed err
      | Inr (s, w1) \<Rightarrow>
         (case state_warmCheck env s w1 of
            None \<Rightarrow> Panicked
          | Some w2 \<Rightarrow>
             (case state_startCheckers env s w2 of
                None \<Rightarrow> Panicked
              | Some (loops, w3) \<Rightarrow> Finished (s, loops, stopCheckers old w3))))"

section \<open>Routing\<close>

text \<open>\<open>cidrMap.Range\<close> over the keys in the order \<open>order\<close>, until one contains the address.\<close>

fun range_cidrs :: "(Prefix \<Rightarrow> gid option) \<Rightarrow> Prefix list \<Rightarrow> netip_addr \<Rightarrow> gid option" where
  "range_cidrs m [] ip = None"
| "range_cidrs m (p # ps) ip = (if Contains p ip then m p else range_cidrs m ps ip)"

definition route_ip :: "Prefix list \<Rightarrow> proxyState \<Rightarrow> netip_addr \<Rightarrow> gid option" where
  "route_ip order s ip = (case ps_ip s ip of Some g \<Rightarrow> Some g | None \<Rightarrow> range_cidrs (ps_cidr s) order ip)"

definition route_host :: "proxyState \<Rightarrow> string \<Rightarrow> gid" where
  "route_host s host =
     (case domain_walk (ps_domain s) (to_lower host) (length (to_lower host)) of
        Some g \<Rightarrow> g
      | None \<Rightarrow> ps_main s)"

definition findDialer :: "Prefix list \<Rightarrow> proxyState \<Rightarrow> string \<Rightarrow> gid" where
  "findDialer order s dstAddr =
     (case SplitHostPort dstAddr of
        None \<Rightarrow> ps_main s
      | Some (host, _) \<Rightarrow>
         (case (case ParseAddr host of None \<Rightarrow> None | Some ip \<Rightarrow> route_ip order s ip) of
            Some g \<Rightarrow> g
          | None \<Rightarrow> route_host s host))"

definition Proxy_Dial :: "dial_env \<Rightarrow> int \<Rightarrow> Prefix list \<Rightarrow> proxyState \<Rightarrow> string \<Rightarrow> world \<Rightarrow> dial_ret \<times> fid list \<times> world" where
  "Proxy_Dial env start order s addr w = Dial env start (findDialer order s addr) addr w"

definition Proxy_DialUDP :: "(fid \<Rightarrow> string + nat) \<Rightarrow> Prefix list \<Rightarrow> proxyState \<Rightarrow> string \<Rightarrow> world \<Rightarrow> dial_ret \<times> world" where
  "Proxy_DialUDP env order s addr w = DialUDP env (findDialer order s addr) addr w"

definition Proxy_NextDialer :: "Prefix list \<Rightarrow> proxyState \<Rightarrow> string \<Rightarrow> world \<Rightarrow> fid \<times> world" where
  "Proxy_NextDialer order s dstAddr w = NextDialer (findDialer order s dstAddr) dstAddr w"

definition Record :: "fid \<Rightarrow> bool \<Rightarrow> world \<Rightarrow> world" where
  "Record f success w = (if \<not> success then IncFailures f w else Enable f w)"

definition AddDomainIP :: "string \<Rightarrow> netip_addr \<Rightarrow> proxyState \<Rightarrow> proxyState" where
  "AddDomainIP domain ip s =
     domain_visit (\<lambda>key s. case ps_domain s key of
                             Some g \<Rightarrow> s\<lparr>ps_ip := (ps_ip s)(ip \<mapsto> g)\<rparr>
                           | None \<Rightarrow> s)
       (to_lower domain) (length (to_lower domain)) s"

section \<open>Status\<close>

record ForwarderStatus =
  fs_Addr :: string
  fs_Enabled :: bool
  fs_Priority :: u32
  fs_Failures :: u32
  fs_LatencyMs :: int

record GroupStatus =
  gs_Group :: string
  gs_Enabled :: nat
  gs_Total :: nat
  gs_Forwarders :: "ForwarderStatus list"

definition Status :: "gid \<Rightarrow> world \<Rightarrow> GroupStatus" where
  "Status g w =
     (let p = w_group w g in
      \<lparr>gs_Group = g_name p, gs_Enabled = length (g_avail p), gs_Total = length (g_fwdrs p),
       gs_Forwarders = map (\<lambda>f. let x = w_fwdr w f in
          \<lparr>fs_Addr = f_addr x, fs_Enabled = Enabled x, fs_Priority = f_priority x, fs_Failures = f_failures x,
           fs_LatencyMs = quot (f_latency x) 1000000\<rparr>) (g_fwdrs p)\<rparr>)"

definition Proxy_Status :: "proxyState option \<Rightarrow> world \<Rightarrow> GroupStatus list" where
  "Proxy_Status s w = (case s of None \<Rightarrow> [] | Some s' \<Rightarrow> Status (ps_main s') w # map (\<lambda>g. Status g w) (ps_all s'))"

section \<open>Routing by name and by address\<close>

interpretation rules: name_router "ps_domain s" "ps_main s" "route_host s"
  by unfold_locales (simp add: route_host_def domain_walk_keys)

lemma findDialer_name:
  assumes "SplitHostPort dst = Some (host, port)" and "ParseAddr host = None"
  shows "findDialer order s dst = route_host s host"
  using assms by (simp add: findDialer_def)

lemma range_cidrs_None: "range_cidrs m ps ip = None \<Longrightarrow> \<forall>p \<in> set ps. m p \<noteq> None \<Longrightarrow> \<forall>p \<in> set ps. \<not> Contains p ip"
  by (induction ps) (auto split: if_splits)

lemma range_cidrs_Some: "range_cidrs m ps ip = Some g \<Longrightarrow> \<exists>p \<in> set ps. Contains p ip \<and> m p = Some g"
  by (induction ps) (auto split: if_splits)

text \<open>
  C9. Routing by name. A destination whose host is not an address goes to the group of the
  shortest suffix of whole labels, ignoring case, that has a rule, and to the main group
  when none has. The names tried are exactly the host's trailing labels, one more each time.
\<close>

theorem findDialer_by_name:
  assumes "SplitHostPort dst = Some (host, port)" and "ParseAddr host = None"
  shows "findDialer order s dst =
    (case first_some (ps_domain s)
        (let labels = split_on CHR ''.'' (to_lower host)
         in map (\<lambda>k. join_with ''.'' (drop k labels)) (rev [0 ..< length labels])) of
       Some g \<Rightarrow> g | None \<Rightarrow> ps_main s)"
  using rules.route_spec [of s host] findDialer_name [OF assms] by (simp add: domain_keys_def)

text \<open>
  Routing by address. A literal address goes to the group of an exact entry if there is
  one, else to the group of some CIDR rule that contains it if any does; when all CIDR rules that
  contain it name the same group, the order in which the map is walked does not matter.
\<close>

theorem findDialer_by_address:
  assumes "SplitHostPort dst = Some (host, port)" and "ParseAddr host = Some ip"
    and "set order = dom (ps_cidr s)"
  shows "(case ps_ip s ip of
      Some g \<Rightarrow> findDialer order s dst = g
    | None \<Rightarrow>
       (if \<exists>p \<in> dom (ps_cidr s). Contains p ip
        then \<exists>p. Contains p ip \<and> ps_cidr s p = Some (findDialer order s dst)
        else findDialer order s dst = route_host s host)) \<and>
    (\<forall>order'. set order' = dom (ps_cidr s) \<longrightarrow>
      (\<forall>p \<in> dom (ps_cidr s). \<forall>q \<in> dom (ps_cidr s). Contains p ip \<longrightarrow> Contains q ip \<longrightarrow> ps_cidr s p = ps_cidr s q) \<longrightarrow>
      findDialer order' s dst = findDialer order s dst)"
proof -
  have F: "findDialer o' s dst = (case ps_ip s ip of Some g \<Rightarrow> g
      | None \<Rightarrow> (case range_cidrs (ps_cidr s) o' ip of Some g \<Rightarrow> g | None \<Rightarrow> route_host s host))" for o'
    using assms(1,2) by (simp add: findDialer_def route_ip_def split: option.split)
  have none: "range_cidrs (ps_cidr s) o' ip = None \<longleftrightarrow> (\<forall>p \<in> dom (ps_cidr s). \<not> Contains p ip)"
    if "set o' = dom (ps_cidr s)" for o'
    using range_cidrs_None [of "ps_cidr s" o' ip] range_cidrs_Some [of "ps_cidr s" o' ip] that
    by (cases "range_cidrs (ps_cidr s) o' ip") (auto simp: dom_def)
  have first: "case ps_ip s ip of
      Some g \<Rightarrow> findDialer order s dst = g
    | None \<Rightarrow>
       (if \<exists>p \<in> dom (ps_cidr s). Contains p ip
        then \<exists>p. Contains p ip \<and> ps_cidr s p = Some (findDialer order s dst)
        else findDialer order s dst = route_host s host)"
    using none [OF assms(3)] range_cidrs_Some [of "ps_cidr s" order ip]
    by (auto simp: F split: option.split)
  have "findDialer order' s dst = findDialer order s dst"
    if o': "set order' = dom (ps_cidr s)" and same: "\<forall>p \<in> dom (ps_cidr s). \<forall>q \<in> dom (ps_cidr s).
        Contains p ip \<longrightarrow> Contains q ip \<longrightarrow> ps_cidr s p = ps_cidr s q" for order'
  proof (cases "range_cidrs (ps_cidr s) order ip")
    case None
    then have "range_cidrs (ps_cidr s) order' ip = None" using none [OF assms(3)] none [OF o'] by simp
    with None show ?thesis by (simp add: F split: option.split)
  next
    case (Some g)
    then have "range_cidrs (ps_cidr s) order' ip \<noteq> None" using none [OF assms(3)] none [OF o'] by force
    then obtain g' where g': "range_cidrs (ps_cidr s) order' ip = Some g'" by blast
    from range_cidrs_Some [OF Some] range_cidrs_Some [OF g'] same have "g' = g"
      by (metis domI option.inject)
    with Some g' show ?thesis by (simp add: F split: option.split)
  qed
  with first show ?thesis by blast
qed

lemma AddDomainIP_keys:
  "AddDomainIP domain ip s =
     (case first_some (ps_domain s) (rev (domain_keys (to_lower domain))) of
        Some g \<Rightarrow> s\<lparr>ps_ip := (ps_ip s)(ip \<mapsto> g)\<rparr>
      | None \<Rightarrow> s)"
proof -
  let ?f = "\<lambda>key s. case ps_domain s key of Some g \<Rightarrow> s\<lparr>ps_ip := (ps_ip s)(ip \<mapsto> g)\<rparr> | None \<Rightarrow> s"
  have "fold ?f ks s = (case first_some (ps_domain s) (rev ks) of
        Some g \<Rightarrow> s\<lparr>ps_ip := (ps_ip s)(ip \<mapsto> g)\<rparr> | None \<Rightarrow> s)" for ks
    by (induction ks rule: rev_induct) (auto split: option.split)
  then show ?thesis by (simp add: AddDomainIP_def domain_visit_keys)
qed

text \<open>
  C16. A resolved address follows the longest suffix. After \<open>AddDomainIP\<close> has recorded address \<open>ip\<close>
  for a name, a dial to that address goes to the group of the longest suffix of the name that has
  a rule, whatever was recorded before; without a matching rule nothing changes. Dialing the
  name itself uses the shortest suffix, so the two agree whenever all rules that match the name have
  the same group.
\<close>

theorem AddDomainIP_routes:
  assumes "SplitHostPort dst = Some (host, port)" and "ParseAddr host = Some ip"
    and "SplitHostPort named = Some (name, port')" and "ParseAddr name = None"
  shows "findDialer order (AddDomainIP name ip s) dst =
      (case first_some (ps_domain s) (rev (domain_keys (to_lower name))) of
         Some g \<Rightarrow> g | None \<Rightarrow> findDialer order s dst) \<and>
    ((\<exists>k \<in> set (domain_keys (to_lower name)). ps_domain s k \<noteq> None) \<longrightarrow>
     (\<forall>k \<in> set (domain_keys (to_lower name)). ps_domain s k \<in> {None, Some g}) \<longrightarrow>
     findDialer order (AddDomainIP name ip s) dst = g \<and> findDialer order s named = g)"
proof -
  let ?ks = "domain_keys (to_lower name)"
  have A: "findDialer order (AddDomainIP name ip s) dst =
      (case first_some (ps_domain s) (rev ?ks) of Some g \<Rightarrow> g | None \<Rightarrow> findDialer order s dst)"
    using assms(1,2) by (auto simp: findDialer_def route_ip_def AddDomainIP_keys split: option.split)
  have B: "findDialer order s named = (case first_some (ps_domain s) ?ks of Some g \<Rightarrow> g | None \<Rightarrow> ps_main s)"
    using rules.route_spec [of s name] findDialer_name [OF assms(3,4)] by simp
  have C: "first_some (ps_domain s) xs = Some g"
    if "\<exists>k \<in> set xs. ps_domain s k \<noteq> None" "\<forall>k \<in> set xs. ps_domain s k \<in> {None, Some g}" for xs
    using that by (induction xs) (auto split: option.split)
  show ?thesis
    using A B C [of ?ks] C [of "rev ?ks"] by simp
qed

text \<open>
  C24. The two orders can disagree: with a rule for \<open>com\<close> and one for \<open>a.com\<close>, the name \<open>a.com\<close> goes
  to the group of the broader rule and the address it resolves to goes to the other's.
\<close>

definition two_rules :: proxyState where
  "two_rules = \<lparr>ps_main = 0, ps_all = [1, 2],
     ps_domain = (\<lambda>_. None)(''com'' := Some 1, ''a.com'' := Some 2), ps_ip = (\<lambda>_. None), ps_cidr = (\<lambda>_. None)\<rparr>"

theorem name_and_address_disagree:
  "findDialer [] two_rules ''a.com:80'' = 1 \<and>
   (\<exists>ip. ParseAddr ''1.2.3.4'' = Some ip \<and> findDialer [] (AddDomainIP ''a.com'' ip two_rules) ''1.2.3.4:80'' = 2)"
proof -
  have s: "SplitHostPort ''a.com:80'' = Some (''a.com'', ''80'')" "SplitHostPort ''1.2.3.4:80'' = Some (''1.2.3.4'', ''80'')"
    by (simp_all add: SplitHostPort_def Let_def)
  have n: "ParseAddr ''a.com'' = None" by (simp add: ParseAddr_def parseIPv4_def is_digit_def)
  have a: "ParseAddr ''1.2.3.4'' = Some (Addr4 [1, 2, 3, 4])"
    by (simp add: ParseAddr_def parseIPv4_def is_digit_def digit_val_def Let_def)
  have k: "domain_keys (to_lower ''a.com'') = [''com'', ''a.com'']"
    by (simp add: domain_keys_def Let_def to_lower_def to_lower_char_def)
  show ?thesis
    using s n a k findDialer_name [OF s(1) n, of "[]" two_rules] rules.route_spec [of two_rules "''a.com''"]
    by (simp add: findDialer_def route_ip_def AddDomainIP_keys) (simp add: two_rules_def)
qed

section \<open>Effects confined to some groups\<close>

text \<open>From \<open>w\<close> to \<open>w'\<close> only the groups in \<open>G\<close> and their forwarders have changed.\<close>

definition within :: "gid set \<Rightarrow> world \<Rightarrow> world \<Rightarrow> bool" where
  "within G w w' \<longleftrightarrow> w_nfwdr w' = w_nfwdr w \<and> w_ngroup w' = w_ngroup w \<and>
     (\<forall>g. g_fwdrs (w_group w' g) = g_fwdrs (w_group w g)) \<and>
     (\<forall>g. g \<notin> G \<longrightarrow> w_group w' g = w_group w g) \<and>
     (\<forall>f. f_handlers (w_fwdr w' f) = f_handlers (w_fwdr w f)) \<and>
     (\<forall>f. set (f_handlers (w_fwdr w f)) \<inter> G = {} \<longrightarrow> w_fwdr w' f = w_fwdr w f)"

lemma within_refl [simp]: "within G w w"
  by (simp add: within_def)

lemma within_trans: "within G u v \<Longrightarrow> within G v w \<Longrightarrow> within G u w"
  unfolding within_def by simp

lemma within_mono: "within G u v \<Longrightarrow> G \<subseteq> H \<Longrightarrow> within H u v"
  unfolding within_def by blast

lemma within_bounded: "within G w w' \<Longrightarrow> bounded w \<Longrightarrow> bounded w'"
  by (simp add: within_def bounded_def)

lemma nfwdr_ops [simp]:
  "w_nfwdr (Enable f w) = w_nfwdr w" "w_nfwdr (Disable f w) = w_nfwdr w" "w_nfwdr (IncFailures f w) = w_nfwdr w"
  by (simp_all add: Enable_def Disable_def IncFailures_def Let_def)

lemma handlers_ops [simp]:
  "f_handlers (w_fwdr (Enable f w) x) = f_handlers (w_fwdr w x)"
  "f_handlers (w_fwdr (Disable f w) x) = f_handlers (w_fwdr w x)"
  "f_handlers (w_fwdr (IncFailures f w) x) = f_handlers (w_fwdr w x)"
  by (simp_all add: Enable_fwdr Disable_fwdr IncFailures_fwdr)

lemma run_handlers_other: "g \<notin> set hs \<Longrightarrow> w_group (run_handlers f hs w) g = w_group w g"
  by (induction hs arbitrary: w) (auto simp: onStatusChanged_def)

lemma group_ops_other:
  assumes "g \<notin> set (f_handlers (w_fwdr w f))"
  shows "w_group (Enable f w) g = w_group w g" "w_group (Disable f w) g = w_group w g"
    "w_group (IncFailures f w) g = w_group w g"
  using assms by (simp_all add: Enable_def Disable_def IncFailures_def Let_def run_handlers_other)

lemma within_ops:
  assumes "f_handlers (w_fwdr w f) = [g]"
  shows "within {g} w (Enable f w)" and "within {g} w (Disable f w)" and "within {g} w (IncFailures f w)"
    and "within {g} w (SetLatency l f w)"
proof -
  have "w_fwdr (Enable f w) x = w_fwdr w x" "w_fwdr (Disable f w) x = w_fwdr w x"
    "w_fwdr (IncFailures f w) x = w_fwdr w x" if "g \<notin> set (f_handlers (w_fwdr w x))" for x
    using that assms by (cases "f = x"; simp)+
  with assms show "within {g} w (Enable f w)" and "within {g} w (Disable f w)" and "within {g} w (IncFailures f w)"
    by (auto simp: within_def group_ops_other)
  show "within {g} w (SetLatency l f w)" using assms by (auto simp: within_def SetLatency_def)
qed

lemma within_upd_group: "(\<And>p. g_fwdrs (u p) = g_fwdrs p) \<Longrightarrow> within {g} w (upd_group g u w)"
  by (simp add: within_def)

lemma within_buildChecker: "within {g} w (snd (buildChecker parse compiles g w))"
  by (auto simp: buildChecker_def Let_def within_upd_group split: option.split)

lemma within_handlers: "within G w w' \<Longrightarrow> f_handlers (w_fwdr w' f) = f_handlers (w_fwdr w f)"
  by (simp add: within_def)

lemma within_warm_one:
  assumes "f_handlers (w_fwdr w f) = [g]"
  shows "within {g} w (warm_one m c env g f w)"
proof -
  obtain e r w1 where C: "Check m c (env f) f w = ((e, r), w1)" by (cases "Check m c (env f) f w") auto
  have 1: "within {g} w w1" using Check_world [of m c "env f" f w] C within_ops(3) [OF assms] by auto
  show ?thesis
  proof (cases r)
    case None
    have 2: "within {g} w1 (setLatency g f e w1)"
      using within_ops(4) within_handlers [OF 1] assms by (simp add: setLatency_def Let_def)
    have 3: "within {g} (setLatency g f e w1) (Enable f (setLatency g f e w1))"
      using within_ops(1) within_handlers [OF 1] within_handlers [OF 2] assms by simp
    show ?thesis
      using within_trans [OF within_trans [OF 1 2] 3] C None by (simp add: warm_one_def)
  qed (use 1 C in \<open>simp add: warm_one_def\<close>)
qed

lemma within_fold:
  assumes "\<And>f w. f \<in> set fs \<Longrightarrow> f_handlers (w_fwdr w f) = [g] \<Longrightarrow> within {g} w (op f w)"
    and "\<forall>f \<in> set fs. f_handlers (w_fwdr w f) = [g]"
  shows "within {g} w (fold op fs w)"
  using assms
proof (induction fs arbitrary: w)
  case (Cons f fs)
  have 1: "within {g} w (op f w)" using Cons.prems by simp
  have "within {g} (op f w) (fold op fs (op f w))"
    by (rule Cons.IH) (use Cons.prems within_handlers [OF 1] in auto)
  with 1 show ?case using within_trans by simp
qed simp

lemma within_warmCheck:
  assumes "warmCheck parse compiles m env order g w = Some w'" and "world_ok w" and "g < w_ngroup w"
    and "set order = set (g_fwdrs (w_group w g))"
  shows "within {g} w w' \<and> world_ok w' \<and> g_done (w_group w' g) = g_done (w_group w g)"
proof -
  let ?w1 = "snd (buildChecker parse compiles g w)"
  have ok1: "world_ok ?w1" using assms(2) by (rule world_ok_buildChecker)
  have h: "\<forall>f \<in> set (g_fwdrs (w_group w g)). f_handlers (w_fwdr ?w1 f) = [g]"
    using assms(2,3) by (simp add: world_ok_def wired_def)
  have dn: "g_done (w_group ?w1 g) = g_done (w_group w g)"
    by (auto simp: buildChecker_def Let_def split: option.split)
  have E: "within {g} ?w1 (fold Enable (g_fwdrs (w_group w g)) ?w1)"
    by (rule within_fold [OF within_ops(1)]) (use h in auto)
  have W: "within {g} ?w1 (fold (warm_one m c env g) order ?w1)" for c
    by (rule within_fold [OF within_warm_one]) (use h assms(4) in auto)
  have okE: "world_ok (fold Enable fs v)" "g_done (w_group (fold Enable fs v) g) = g_done (w_group v g)"
    if "world_ok v" for fs v
    using that by (induction fs arbitrary: v) (simp_all add: world_ok_ops)
  have dW: "g_done (w_group (fold (warm_one m c env g) fs v) g) = g_done (w_group v g)" for c fs v
    by (induction fs arbitrary: v) simp_all
  show ?thesis
    using assms(1) within_trans [OF within_buildChecker E] within_trans [OF within_buildChecker W]
      okE [OF ok1] world_ok_warm_fold [OF ok1] dn dW buildChecker_frame(3) [of parse compiles g w g]
    by (cases "buildChecker parse compiles g w") (auto simp: warmCheck_def split: built.splits)
qed

lemma within_startCheckers:
  assumes "startCheckers parse compiles g w = Some (c, fs, w')" and "world_ok w"
  shows "within {g} w w' \<and> world_ok w' \<and>
    (c \<noteq> None \<longrightarrow> fs = g_fwdrs (w_group w g) \<and> g_done (w_group w' g) = Some False)"
proof -
  let ?w1 = "snd (buildChecker parse compiles g w)"
  have ok1: "world_ok ?w1" using assms(2) by (rule world_ok_buildChecker)
  have "within {g} ?w1 (upd_group g (\<lambda>p. p\<lparr>g_done := Some False\<rparr>) ?w1)"
    by (simp add: within_upd_group)
  from within_trans [OF within_buildChecker this]
  show ?thesis
    using assms(1) within_buildChecker [of g w parse compiles] ok1
      world_ok_upd_group [OF ok1, of "\<lambda>p. p\<lparr>g_done := Some False\<rparr>" g] buildChecker_frame(3) [of parse compiles g w g]
    by (cases "buildChecker parse compiles g w") (auto simp: startCheckers_def split: built.splits)
qed

lemma warm_groups_ok:
  assumes "warm_groups env gs w = Some w'" and "world_ok w" and "set gs \<subseteq> {..< w_ngroup w}"
    and "\<forall>g fs. mset (o_order env g fs) = mset fs"
  shows "within (set gs) w w' \<and> world_ok w' \<and> (\<forall>g. g_done (w_group w' g) = g_done (w_group w g))"
  using assms
proof (induction gs arbitrary: w)
  case (Cons g gs)
  obtain w1 where w1: "warmCheck (o_parse env) (o_compiles env) (o_matches env) (o_run env)
      (o_order env g (g_fwdrs (w_group w g))) g w = Some w1" and r: "warm_groups env gs w1 = Some w'"
    using Cons.prems(1) by (auto split: option.splits)
  have "set (o_order env g (g_fwdrs (w_group w g))) = set (g_fwdrs (w_group w g))"
    using Cons.prems(4) mset_eq_setD by blast
  from within_warmCheck [OF w1 Cons.prems(2) _ this] Cons.prems(3)
  have 1: "within {g} w w1" "world_ok w1" "g_done (w_group w1 g) = g_done (w_group w g)" by auto
  then have d1: "g_done (w_group w1 h) = g_done (w_group w h)" for h
    by (cases "h = g") (simp_all add: within_def)
  have "within (set gs) w1 w' \<and> world_ok w' \<and> (\<forall>g. g_done (w_group w' g) = g_done (w_group w1 g))"
    by (rule Cons.IH [OF r 1(2)]) (use Cons.prems(3,4) 1(1) in \<open>auto simp: within_def\<close>)
  then show ?case
    using within_trans [of "set (g # gs)" w w1 w'] within_mono [of _ w w1] within_mono [of _ w1 w'] 1(1) d1
    by (metis insert_subset list.simps(15) set_subset_Cons subset_insertI within_mono empty_subsetI insertI1)
qed simp

lemma start_groups_ok:
  assumes "start_groups env gs w = Some (ls, w')" and "world_ok w" and "distinct gs"
  shows "within (set gs) w w' \<and> world_ok w' \<and>
    (\<forall>(c, g, f) \<in> set ls. g \<in> set gs \<and> f \<in> set (g_fwdrs (w_group w' g)) \<and> g_done (w_group w' g) = Some False)"
  using assms
proof (induction gs arbitrary: w ls)
  case (Cons g gs)
  obtain c fs w1 ls1 where w1: "startCheckers (o_parse env) (o_compiles env) g w = Some (c, fs, w1)"
    and r: "start_groups env gs w1 = Some (ls1, w')"
    and ls: "ls = (case c of None \<Rightarrow> [] | Some c' \<Rightarrow> map (\<lambda>f. (c', g, f)) fs) @ ls1"
    using Cons.prems(1) by (auto split: option.splits)
  note s1 = within_startCheckers [OF w1 Cons.prems(2)]
  have ih: "within (set gs) w1 w' \<and> world_ok w' \<and>
    (\<forall>(c, g, f) \<in> set ls1. g \<in> set gs \<and> f \<in> set (g_fwdrs (w_group w' g)) \<and> g_done (w_group w' g) = Some False)"
    by (rule Cons.IH [OF r]) (use s1 Cons.prems(3) in auto)
  have "within (set (g # gs)) w w1" "within (set (g # gs)) w1 w'"
    using s1 ih within_mono by (auto simp: subset_insertI)
  then have W: "within (set (g # gs)) w w'" by (rule within_trans)
  have keep: "w_group w' g = w_group w1 g" using ih Cons.prems(3) by (simp add: within_def)
  have mine: "f \<in> set (g_fwdrs (w_group w' g)) \<and> g_done (w_group w' g) = Some False"
    if "c = Some c'" "f \<in> set fs" for c' f
    using s1 that keep W by (simp add: within_def)
  have "g' \<in> set (g # gs) \<and> f \<in> set (g_fwdrs (w_group w' g')) \<and> g_done (w_group w' g') = Some False"
    if "(c', g', f) \<in> set ls" for c' g' f
  proof (cases "(c', g', f) \<in> set ls1")
    case True
    with ih show ?thesis by auto
  next
    case False
    with that ls mine show ?thesis by (auto split: option.splits)
  qed
  with W ih show ?case by blast
qed simp

lemma fold_stop:
  "w_fwdr (fold stop gs w) = w_fwdr w" "w_nfwdr (fold stop gs w) = w_nfwdr w" "w_ngroup (fold stop gs w) = w_ngroup w"
  "w_group (fold stop gs w) g =
     (if g \<in> set gs \<and> g_done (w_group w g) \<noteq> None then (w_group w g)\<lparr>g_done := Some True\<rparr> else w_group w g)"
  by (induction gs arbitrary: w) (auto simp: stop_def)

lemma world_ok_stopCheckers: "world_ok w \<Longrightarrow> world_ok (stopCheckers s w)"
proof -
  have "world_ok w \<Longrightarrow> world_ok (fold stop gs w)" for gs
    by (induction gs arbitrary: w) (simp_all add: world_ok_stop)
  then show "world_ok w \<Longrightarrow> world_ok (stopCheckers s w)" by (simp add: stopCheckers_def)
qed

section \<open>A generation refers to its own groups only\<close>

definition refs :: "proxyState \<Rightarrow> gid set" where
  "refs s = set (groups s) \<union> ran (ps_domain s) \<union> ran (ps_ip s) \<union> ran (ps_cidr s)"

definition proxy_ok :: "proxyState \<Rightarrow> world \<Rightarrow> bool" where
  "proxy_ok s w \<longleftrightarrow> world_ok w \<and> bounded w \<and> refs s \<subseteq> {..< w_ngroup w}"

lemma ran_upd: "ran (m(k \<mapsto> v)) \<subseteq> insert v (ran m)"
  by (auto simp: ran_def)

lemma refs_domain: "refs (s\<lparr>ps_domain := (ps_domain s)(k \<mapsto> g)\<rparr>) \<subseteq> insert g (refs s)"
  using ran_upd [of "ps_domain s" k g] by (auto simp: refs_def groups_def)

lemma refs_ip: "refs (s\<lparr>ps_ip := (ps_ip s)(k \<mapsto> g)\<rparr>) \<subseteq> insert g (refs s)"
  using ran_upd [of "ps_ip s" k g] by (auto simp: refs_def groups_def)

lemma refs_cidr: "refs (s\<lparr>ps_cidr := (ps_cidr s)(k \<mapsto> g)\<rparr>) \<subseteq> insert g (refs s)"
  using ran_upd [of "ps_cidr s" k g] by (auto simp: refs_def groups_def)

lemma refs_fold:
  assumes "\<And>x s. refs (f x s) \<subseteq> insert g (refs s)" and "\<And>x s. groups (f x s) = groups s"
  shows "refs (fold f xs s) \<subseteq> insert g (refs s)" and "groups (fold f xs s) = groups s"
proof -
  have "refs (fold f xs s) \<subseteq> insert g (refs s) \<and> groups (fold f xs s) = groups s"
  proof (induction xs arbitrary: s)
    case (Cons x xs)
    then show ?case using assms [of x s] by fastforce
  qed auto
  then show "refs (fold f xs s) \<subseteq> insert g (refs s)" and "groups (fold f xs s) = groups s" by auto
qed

lemma refs_add:
  "refs (add_domains g ds s) \<subseteq> insert g (refs s)" "groups (add_domains g ds s) = groups s"
  "refs (add_ips g is s) \<subseteq> insert g (refs s)" "groups (add_ips g is s) = groups s"
  "refs (add_cidrs g cs s) \<subseteq> insert g (refs s)" "groups (add_cidrs g cs s) = groups s"
  unfolding add_domains_def add_ips_def add_cidrs_def
  by (rule refs_fold [where g = g]; use refs_domain refs_ip refs_cidr in \<open>auto simp: groups_def split: option.split\<close>)+

lemma refs_direct_host: "refs (direct_host d a s) \<subseteq> insert d (refs s)" "groups (direct_host d a s) = groups s"
  using refs_domain [of s] by (auto simp: direct_host_def Let_def groups_def split: option.split)

text \<open>
  What one step of building a generation over \<open>w0\<close> keeps: the world is well formed, everything
  older is untouched, the tables refer to new groups only, and no checker runs yet.
\<close>

definition building :: "world \<Rightarrow> proxyState \<Rightarrow> world \<Rightarrow> bool" where
  "building w0 s w \<longleftrightarrow> world_ok w \<and> bounded w \<and> extends w0 w \<and> refs s \<subseteq> {w_ngroup w0 ..< w_ngroup w} \<and>
     (\<forall>g \<in> {w_ngroup w0 ..< w_ngroup w}. g_done (w_group w g) = None) \<and> distinct (groups s)"

lemma building_step:
  assumes "building w0 s w" and "NewFwdrGroup (o_creators env) (o_ifs env) (o_sort env) path fw c w = Inr (g, c', w')"
    and "sorts (o_sort env)"
    and "refs s' \<subseteq> insert g (refs s)" and "groups s' = groups s \<or> groups s' = groups s @ [g]"
  shows "building w0 s' w'" and "extends w w'" and "g = w_ngroup w" and "w_ngroup w' = Suc g"
proof -
  have b: "world_ok w" "bounded w" "extends w0 w" "refs s \<subseteq> {w_ngroup w0 ..< w_ngroup w}" "distinct (groups s)"
    "\<forall>g \<in> {w_ngroup w0 ..< w_ngroup w}. g_done (w_group w g) = None"
    using assms(1) by (auto simp: building_def)
  note N = NewFwdrGroup_built [OF assms(2,3) b(1,2)]
  then show "extends w w'" and "g = w_ngroup w" and "w_ngroup w' = Suc g" by auto
  have le: "w_ngroup w0 \<le> w_ngroup w" using b(3) by (simp add: extends_def)
  have "g \<notin> set (groups s)" using b(4) N by (auto simp: refs_def)
  then have "distinct (groups s')" using b(5) assms(5) by auto
  moreover have "g_done (w_group w' h) = None" if "h \<in> {w_ngroup w0 ..< w_ngroup w'}" for h
    using that N b(6) by (cases "h = g") (auto simp: extends_def)
  moreover have "refs s' \<subseteq> {w_ngroup w0 ..< w_ngroup w'}"
  proof (rule subset_trans [OF assms(4)])
    have "g = w_ngroup w" "w_ngroup w' = Suc g" using N by auto
    then show "insert g (refs s) \<subseteq> {w_ngroup w0 ..< w_ngroup w'}" using b(4) le by force
  qed
  ultimately show "building w0 s' w'"
    using N extends_trans [OF b(3)] by (auto simp: building_def)
qed

lemma add_rules_ok:
  assumes "add_rules env rs s w = Inr (s', w')" and "building w0 s w" and "sorts (o_sort env)"
  shows "building w0 s' w' \<and> extends w w' \<and> ps_main s' = ps_main s \<and> length (ps_all s') = length (ps_all s) + length rs"
  using assms
proof (induction rs arbitrary: s w)
  case (Cons r rs)
  obtain g c' w1 where N: "NewFwdrGroup (o_creators env) (o_ifs env) (o_sort env) (c_RulePath r) (c_Forward r)
      (c_Strategy r) w = Inr (g, c', w1)"
    using Cons.prems(1) by (auto split: sum.splits)
  let ?s = "add_cidrs g (c_CIDR r) (add_ips g (c_IP r) (add_domains g (c_Domain r) (s\<lparr>ps_all := ps_all s @ [g]\<rparr>)))"
  have r: "add_rules env rs ?s w1 = Inr (s', w')" using Cons.prems(1) N by simp
  have gr: "groups ?s = groups s @ [g]"
    unfolding refs_add(2,4,6) by (simp add: groups_def)
  then have mn: "ps_main ?s = ps_main s" "ps_all ?s = ps_all s @ [g]" by (simp_all add: groups_def)
  have "refs (s\<lparr>ps_all := ps_all s @ [g]\<rparr>) \<subseteq> insert g (refs s)" by (auto simp: refs_def groups_def)
  then have "refs ?s \<subseteq> insert g (refs s)" using refs_add by blast
  note b = building_step [OF Cons.prems(2) N Cons.prems(3) this disjI2 [OF gr]]
  from Cons.IH [OF r b(1) Cons.prems(3)] b(2) extends_trans mn show ?case by auto
qed simp

lemma building_start:
  assumes "world_ok w" and "bounded w" and "sorts (o_sort env)"
    and "NewFwdrGroup (o_creators env) (o_ifs env) (o_sort env) path fw c w = Inr (g, c', w')"
  shows "building w \<lparr>ps_main = g, ps_all = [], ps_domain = (\<lambda>_. None), ps_ip = (\<lambda>_. None), ps_cidr = (\<lambda>_. None)\<rparr> w'"
  using NewFwdrGroup_built [OF assms(4,3,1,2)]
  by (auto simp: building_def refs_def groups_def ran_def)

text \<open>The pieces of a successful build.\<close>

lemma buildState_parts:
  assumes "buildState env mf c rules w = Inr (s, w')" and "world_ok w" and "bounded w" and "sorts (o_sort env)"
  obtains s1 direct c1 c2 w1 w2 where
    "NewFwdrGroup (o_creators env) (o_ifs env) (o_sort env) ''main'' mf c w = Inr (ps_main s, c1, w1)"
    "building w s1 w2" "extends w1 w2" "groups s = groups s1"
    "NewFwdrGroup (o_creators env) (o_ifs env) (o_sort env) [] [] c1 w2 = Inr (direct, c2, w')"
    "s = (if mf \<noteq> [] then fold (\<lambda>f. direct_host direct (f_addr (w_fwdr w' f))) (g_fwdrs (w_group w' (ps_main s)))
            (s1\<lparr>ps_domain := (ps_domain s1)(''direct'' \<mapsto> direct)\<rparr>)
          else s1\<lparr>ps_domain := (ps_domain s1)(''direct'' \<mapsto> direct)\<rparr>)"
    "building w s w'" "length (ps_all s) = length rules"
proof -
  obtain g c1 w1 where N1: "NewFwdrGroup (o_creators env) (o_ifs env) (o_sort env) ''main'' mf c w = Inr (g, c1, w1)"
    using assms(1) by (auto simp: buildState_def split: sum.splits)
  let ?s0 = "\<lparr>ps_main = g, ps_all = [], ps_domain = (\<lambda>_. None), ps_ip = (\<lambda>_. None), ps_cidr = (\<lambda>_. None)\<rparr>"
  obtain s1 w2 where R: "add_rules env rules ?s0 w1 = Inr (s1, w2)"
    using assms(1) N1 by (auto simp: buildState_def split: sum.splits)
  obtain direct c2 where N2: "NewFwdrGroup (o_creators env) (o_ifs env) (o_sort env) [] [] c1 w2 = Inr (direct, c2, w')"
    using assms(1) N1 R by (auto simp: buildState_def Let_def split: sum.splits)
  let ?s1 = "s1\<lparr>ps_domain := (ps_domain s1)(''direct'' \<mapsto> direct)\<rparr>"
  let ?f = "\<lambda>f. direct_host direct (f_addr (w_fwdr w' f))"
  note b1 = add_rules_ok [OF R building_start [OF assms(2,3,4) N1] assms(4)]
  have s: "s = (if mf \<noteq> [] then fold ?f (g_fwdrs (w_group w' (ps_main s1))) ?s1 else ?s1)"
    using assms(1) N1 R N2 by (auto simp: buildState_def Let_def split: if_splits)
  have fold: "refs (fold ?f xs ?s1) \<subseteq> insert direct (refs ?s1)" "groups (fold ?f xs ?s1) = groups ?s1" for xs
    by (rule refs_fold [where g = direct]; use refs_direct_host in auto)+
  have g1: "groups ?s1 = groups s1" by (simp add: groups_def)
  have r1: "refs ?s1 \<subseteq> insert direct (refs s1)" by (rule refs_domain)
  have gs: "groups s = groups s1" using s fold(2) g1 by auto
  moreover have "refs s \<subseteq> insert direct (refs s1)" using s fold(1) r1 by (cases "mf \<noteq> []") auto
  ultimately have b2: "building w s w'" using building_step(1) [OF _ N2 assms(4)] b1 by blast
  have m: "ps_main s = ps_main s1" "ps_all s = ps_all s1" using gs by (simp_all add: groups_def)
  have g: "ps_main s = g" using m(1) b1 by simp
  show thesis
  proof (rule that)
    show "NewFwdrGroup (o_creators env) (o_ifs env) (o_sort env) ''main'' mf c w = Inr (ps_main s, c1, w1)"
      unfolding g by (rule N1)
    show "s = (if mf \<noteq> [] then fold ?f (g_fwdrs (w_group w' (ps_main s))) ?s1 else ?s1)"
      unfolding m(1) by (rule s)
    show "length (ps_all s) = length rules" unfolding m(2) using b1 by simp
  qed (use b1 gs N2 b2 in blast)+
qed

section \<open>Reload\<close>

text \<open>Warming up and starting a freshly built generation leaves everything older alone.\<close>

lemma publish_frame:
  assumes b: "building w s w1" and "world_ok w"
    and W: "warm_groups env (groups s) w1 = Some w2" and S: "start_groups env (groups s) w2 = Some (loops, w3)"
    and "\<forall>g fs. mset (o_order env g fs) = mset fs"
  shows "world_ok w3" and "bounded w3" and "w_ngroup w3 = w_ngroup w1"
    and "\<forall>(c, g, f) \<in> set loops. g \<in> set (groups s) \<and> f \<in> set (g_fwdrs (w_group w3 g)) \<and>
      g_done (w_group w3 g) = Some False"
    and "\<And>g. g < w_ngroup w \<Longrightarrow> w_group w3 g = w_group w g"
    and "\<And>f. f < w_nfwdr w \<Longrightarrow> w_fwdr w3 f = w_fwdr w f"
proof -
  have b1: "world_ok w1" "bounded w1" "extends w w1" "refs s \<subseteq> {w_ngroup w ..< w_ngroup w1}" "distinct (groups s)"
    using b by (auto simp: building_def)
  have gs: "set (groups s) \<subseteq> {w_ngroup w ..< w_ngroup w1}" using b1(4) by (auto simp: refs_def)
  have "set (groups s) \<subseteq> {..< w_ngroup w1}" using gs by auto
  from warm_groups_ok [OF W b1(1) this assms(5)]
  have W': "within (set (groups s)) w1 w2" "world_ok w2" by auto
  note S' = start_groups_ok [OF S W'(2) b1(5)]
  then show "world_ok w3" and "\<forall>(c, g, f) \<in> set loops. g \<in> set (groups s) \<and>
      f \<in> set (g_fwdrs (w_group w3 g)) \<and> g_done (w_group w3 g) = Some False" by auto
  have in3: "within (set (groups s)) w1 w3" using within_trans [OF W'(1)] S' by blast
  then show "w_ngroup w3 = w_ngroup w1" by (simp add: within_def)
  show "bounded w3" by (rule within_bounded [OF in3 b1(2)])
  show "w_group w3 g = w_group w g" if g: "g < w_ngroup w" for g
  proof -
    have "g \<notin> set (groups s)" using gs g by auto
    then show ?thesis using in3 b1(3) g by (simp add: within_def extends_def)
  qed
  show "w_fwdr w3 f = w_fwdr w f" if f: "f < w_nfwdr w" for f
  proof -
    have "g < w_ngroup w" if g: "g \<in> set (f_handlers (w_fwdr w f))" for g
    proof -
      obtain h hs where hh: "f_handlers (w_fwdr w f) = h # hs" using g
        by (cases "f_handlers (w_fwdr w f)") auto
      have "wired w" using assms(2) by (simp add: world_ok_def)
      from wired_handler [OF this hh] hh g show ?thesis by simp
    qed
    then have "set (f_handlers (w_fwdr w f)) \<inter> set (groups s) = {}" using gs by fastforce
    then have "set (f_handlers (w_fwdr w1 f)) \<inter> set (groups s) = {}"
      using b1(3) f by (simp add: extends_def)
    then show ?thesis using in3 b1(3) f by (simp add: within_def extends_def)
  qed
qed


section \<open>Hosts of the main forwarders\<close>

lemma fold_direct_host:
  "ps_domain (fold (\<lambda>f. direct_host d (a f)) fs s) k =
     (if \<exists>f \<in> set fs. ParseAddr (host_of (hd (split_on CHR '','' (a f)))) = None \<and>
           to_lower (host_of (hd (split_on CHR '','' (a f)))) = k
      then Some d else ps_domain s k)"
  by (induction fs arbitrary: s) (auto simp: direct_host_def Let_def split: option.splits)

lemma domain_keys_dot: "domain_keys (h @ ''.'') = [] # map (\<lambda>x. x @ ''.'') (domain_keys h)"
  using domain_keys_below [of h "[]"] by (simp add: domain_keys_def)

text \<open>
  C13. A main forwarder without a host and port in its address (\<open>direct://\<close> with an interface, a
  Unix socket, \<open>reject://\<close>) makes every fully qualified name, the ones written with a final dot,
  bypass all forwarders and all rules: the empty host of that forwarder is registered for
  direct access, and the walk over \<open>host.\<close> starts with the empty name.
\<close>

theorem portless_forwarder_bypass:
  assumes "world_ok w" and "bounded w" and "sorts (o_sort env)"
    and "buildState env mf strat rules w = Inr (s, w')" and "mf \<noteq> []"
    and "f \<in> set (g_fwdrs (w_group w' (ps_main s)))"
    and "SplitHostPort (hd (split_on CHR '','' (f_addr (w_fwdr w' f)))) = None"
    and "set (h @ port) \<inter> {CHR '':'', CHR ''['', CHR '']''} = {}" and "ParseAddr (h @ ''.'') = None"
  shows "\<exists>x. g_fwdrs (w_group w' (findDialer order s (JoinHostPort (h @ ''.'') port))) = [x] \<and>
    f_addr (w_fwdr w' x) = ''DIRECT''"
proof -
  obtain s1 d c1 c2 w1 w2 where b: "building w s1 w2"
    and N: "NewFwdrGroup (o_creators env) (o_ifs env) (o_sort env) [] [] c1 w2 = Inr (d, c2, w')"
    and s: "s = (if mf \<noteq> [] then fold (\<lambda>f. direct_host d (f_addr (w_fwdr w' f))) (g_fwdrs (w_group w' (ps_main s)))
            (s1\<lparr>ps_domain := (ps_domain s1)(''direct'' \<mapsto> d)\<rparr>)
          else s1\<lparr>ps_domain := (ps_domain s1)(''direct'' \<mapsto> d)\<rparr>)"
    by (rule buildState_parts [OF assms(4,1,2,3)])
  have "host_of (hd (split_on CHR '','' (f_addr (w_fwdr w' f)))) = []"
    using assms(7) by (simp add: host_of_def)
  then have "ps_domain s [] = Some d"
    using assms(5,6) by (subst s) (auto simp: fold_direct_host ParseAddr_def to_lower_def intro!: bexI [of _ f])
  moreover have "SplitHostPort (JoinHostPort (h @ ''.'') port) = Some (h @ ''.'', port)"
    by (rule SplitHostPort_Join) (use assms(8) in auto)
  moreover have "to_lower (h @ ''.'') = to_lower h @ ''.''"
    by (simp add: to_lower_def to_lower_char_def Let_def)
  ultimately have "findDialer order s (JoinHostPort (h @ ''.'') port) = d"
    using findDialer_name [OF _ assms(9)] rules.route_spec [of s "h @ ''.''"]
    by (simp add: domain_keys_dot)
  moreover have "world_ok w2" "bounded w2" using b by (auto simp: building_def)
  ultimately show ?thesis
    using NewFwdrGroup_built [OF N assms(3)] by (auto simp: built_from_def)
qed

section \<open>Status\<close>

text \<open>
  The status of a group is consistent with itself: it lists all its forwarders, and the
  number it gives as enabled is the number of listed forwarders that are enabled and of the
  highest priority among the enabled ones, the ones a dial picks from.
\<close>

theorem status_counts_rotation:
  assumes "world_ok w" and "g < w_ngroup w"
  shows "let st = Status g w in
    length (gs_Forwarders st) = gs_Total st \<and> gs_Enabled st \<le> gs_Total st \<and>
    gs_Enabled st = length (filter (\<lambda>x. fs_Enabled x \<and>
      (\<forall>y \<in> set (gs_Forwarders st). fs_Enabled y \<longrightarrow> fs_Priority y \<le> fs_Priority x)) (gs_Forwarders st))"
proof -
  let ?p = "w_group w g"
  let ?P = "\<lambda>f. Enabled (w_fwdr w f) \<and> (\<forall>y \<in> set (g_fwdrs ?p). Enabled (w_fwdr w y) \<longrightarrow>
    f_priority (w_fwdr w y) \<le> f_priority (w_fwdr w f))"
  have inv: "avail_inv {} (w_fwdr w) ?p" and d: "distinct (g_fwdrs ?p)"
    using assms by (simp_all add: world_ok_def group_static_def)
  have "distinct (g_avail ?p)" using inv by (simp add: avail_inv_def)
  then have "length (g_avail ?p) = card (set (g_avail ?p))" by (simp add: distinct_card)
  also have "set (g_avail ?p) = set (filter ?P (g_fwdrs ?p))"
    using settled_rotation [OF inv] by auto
  also have "card \<dots> = length (filter ?P (g_fwdrs ?p))" using d by (simp add: distinct_card del: set_filter)
  finally have n: "length (g_avail ?p) = length (filter ?P (g_fwdrs ?p))" .
  show ?thesis
    by (simp add: Status_def Let_def filter_map o_def n del: set_filter)
qed

section \<open>Worked examples\<close>

lemma sample_hosts:
  "SplitHostPort ''a.com:80'' = Some (''a.com'', ''80'')" "SplitHostPort ''1.2.3.4:80'' = Some (''1.2.3.4'', ''80'')"
  "ParseAddr ''a.com'' = None" "ParseAddr ''1.2.3.4'' = Some (Addr4 [1, 2, 3, 4])"
  by (simp_all add: SplitHostPort_def Let_def ParseAddr_def parseIPv4_def is_digit_def digit_val_def)

lemma sample_keys: "domain_keys (to_lower ''a.com'') = [''com'', ''a.com'']"
  by (simp add: domain_keys_def Let_def to_lower_def to_lower_char_def)

theorem findDialer_by_name_witness: "findDialer [] two_rules ''a.com:80'' = 1"
  using findDialer_by_name [OF sample_hosts(1,3), of "[]" two_rules] sample_keys
  by (simp add: domain_keys_def) (simp add: two_rules_def)

definition sample_prefix :: Prefix where
  "sample_prefix = \<lparr>p_ip = Addr4 [1, 2, 0, 0], p_bits = 16\<rparr>"

definition cidr_rules :: proxyState where
  "cidr_rules = two_rules\<lparr>ps_cidr := [sample_prefix \<mapsto> 2]\<rparr>"

theorem findDialer_by_address_witness: "findDialer [sample_prefix] cidr_rules ''1.2.3.4:80'' = 2"
proof -
  have c: "ps_ip cidr_rules ip = None" "ps_cidr cidr_rules = [sample_prefix \<mapsto> 2]" for ip
    by (simp_all add: cidr_rules_def two_rules_def)
  have "Contains sample_prefix (Addr4 [1, 2, 3, 4])" by (simp add: Contains_def sample_prefix_def)
  then have "\<exists>p. Contains p (Addr4 [1, 2, 3, 4]) \<and>
      ps_cidr cidr_rules p = Some (findDialer [sample_prefix] cidr_rules ''1.2.3.4:80'')"
    using conjunct1 [OF findDialer_by_address [OF sample_hosts(2,4), of "[sample_prefix]" cidr_rules]]
    unfolding c by simp
  then show ?thesis unfolding c by (auto split: if_splits)
qed

theorem AddDomainIP_routes_witness:
  "findDialer [] (AddDomainIP ''a.com'' (Addr4 [1, 2, 3, 4]) two_rules) ''1.2.3.4:80'' = 2"
  using AddDomainIP_routes [OF sample_hosts(2,4,1,3), of "[]" two_rules]
  by (simp add: sample_keys) (simp add: two_rules_def)

definition sample_outside :: outside where
  "sample_outside = \<lparr>o_creators = sample_creators, o_ifs = (\<lambda>_. None), o_sort = insertion_sort,
     o_parse = sample_parse, o_compiles = (\<lambda>_. True), o_matches = (\<lambda>_ _. True), o_run = sample_run,
     o_order = (\<lambda>_ fs. fs)\<rparr>"

definition sample_old :: proxyState where
  "sample_old = \<lparr>ps_main = 0, ps_all = [], ps_domain = (\<lambda>_. None), ps_ip = (\<lambda>_. None), ps_cidr = (\<lambda>_. None)\<rparr>"

lemma sample_old_ok: "proxy_ok sample_old sample_world"
proof -
  have "bounded sample_world" by (auto simp: bounded_def sample_world_def sample_group_def)
  moreover have "w_ngroup sample_world = 1" by (simp add: sample_world_def)
  ultimately show ?thesis
    using sample_world_ok by (auto simp: proxy_ok_def sample_old_def refs_def groups_def ran_def)
qed

lemma sample_NewFwdrGroup:
  assumes "s_IntFace c = []" and "s = [] \<or> s = [''direct://'']"
  shows "\<exists>g c' w'. NewFwdrGroup (o_creators sample_outside) (o_ifs sample_outside) (o_sort sample_outside) path s c w =
    Inr (g, c', w') \<and> s_IntFace c' = []"
proof -
  obtain f d where f: "ForwarderFromURL sample_creators (\<lambda>_. None) ''direct://'' [] (wrap64 (s_DialTimeout c * 1000000000))
      (wrap64 (s_RelayTimeout c * 1000000000)) = Inr (f, d)"
    using direct_url by blast
  show ?thesis
    using assms f
    by (auto simp: sample_outside_def NewFwdrGroup_def DirectForwarder_def NewDirect_def Let_def alloc_fwdr_def
        split: prod.split)
qed

lemma sample_build:
  obtains s w' x where "buildState sample_outside [''direct://''] sample_strategy [] w = Inr (s, w')"
    and "world_ok w \<Longrightarrow> bounded w \<Longrightarrow> g_fwdrs (w_group w' (ps_main s)) = [x] \<and> f_addr (w_fwdr w' x) = ''DIRECT''"
    and "ps_all s = []"
proof -
  have i: "s_IntFace sample_strategy = []" by (simp add: sample_strategy_def)
  have srt: "sorts (o_sort sample_outside)" by (simp add: sample_outside_def insertion_sort_sorts)
  obtain g c1 w1 where N1: "NewFwdrGroup (o_creators sample_outside) (o_ifs sample_outside) (o_sort sample_outside)
      ''main'' [''direct://''] sample_strategy w = Inr (g, c1, w1)" "s_IntFace c1 = []"
    using sample_NewFwdrGroup [OF i] by blast
  obtain d c2 w2 where N2: "NewFwdrGroup (o_creators sample_outside) (o_ifs sample_outside) (o_sort sample_outside)
      [] [] c1 w1 = Inr (d, c2, w2)"
    using sample_NewFwdrGroup [OF N1(2)] by blast
  obtain s where B: "buildState sample_outside [''direct://''] sample_strategy [] w = Inr (s, w2)"
    using N1 N2 by (auto simp: buildState_def Let_def)
  have gs: "groups s = [g]"
  proof -
    have "groups (fold (\<lambda>f. direct_host d (f_addr (w_fwdr w2 f))) fs t) = groups t" for fs t
      by (rule refs_fold(2) [where g = d]) (use refs_direct_host in auto)
    with N1 N2 B show ?thesis by (auto simp: buildState_def Let_def groups_def)
  qed
  then have m: "ps_main s = g" "ps_all s = []" by (auto simp: groups_def)
  have "\<exists>x. g_fwdrs (w_group w2 g) = [x] \<and> f_addr (w_fwdr w2 x) = ''DIRECT''" if ok: "world_ok w" "bounded w"
  proof -
    note M = NewFwdrGroup_built [OF N1(1) srt ok]
    then have ext: "extends w1 w2" and lt: "g < w_ngroup w1" and bd: "bounded w1"
      using NewFwdrGroup_built [OF N2 srt] by auto
    obtain fs f0 where fs: "mset (g_fwdrs (w_group w1 g)) = mset fs" "length fs = 1"
      "loaded sample_creators (\<lambda>_. None) sample_strategy ''direct://'' f0" "w_fwdr w1 (fs ! 0) = f0\<lparr>f_handlers := [g]\<rparr>"
      using M by (auto simp: built_from_def sample_outside_def)
    then obtain x where x: "g_fwdrs (w_group w1 g) = [x]" "fs = [x]"
      by (cases fs) auto
    have "x < w_nfwdr w1" using bd lt x(1) by (auto simp: bounded_def)
    moreover have "f_addr f0 = ''DIRECT''"
      using fs(3) i direct_url [of "wrap64 (s_DialTimeout sample_strategy * 1000000000)"
          "wrap64 (s_RelayTimeout sample_strategy * 1000000000)"] by (auto simp: loaded_def)
    ultimately show ?thesis using ext lt x fs(4) by (auto simp: extends_def)
  qed
  then show thesis using that [OF B] m by (cases "world_ok w \<and> bounded w") auto
qed

lemma sample_env_facts:
  "sorts (o_sort sample_outside)" "\<forall>g fs. mset (o_order sample_outside g fs) = mset fs"
  by (simp_all add: sample_outside_def insertion_sort_sorts)

lemma sample_ok: "world_ok sample_world" "bounded sample_world"
  using sample_old_ok by (simp_all add: proxy_ok_def)

theorem portless_forwarder_bypass_witness:
  "\<exists>s w' x. buildState sample_outside [''direct://''] sample_strategy [] sample_world = Inr (s, w') \<and>
     g_fwdrs (w_group w' (findDialer [] s (JoinHostPort (''a.com'' @ ''.'') ''80''))) = [x] \<and>
     f_addr (w_fwdr w' x) = ''DIRECT''"
proof -
  obtain s w' x where B: "buildState sample_outside [''direct://''] sample_strategy [] sample_world = Inr (s, w')"
    and x: "g_fwdrs (w_group w' (ps_main s)) = [x]" "f_addr (w_fwdr w' x) = ''DIRECT''"
    using sample_build [of sample_world] sample_ok by metis
  have "SplitHostPort (hd (split_on CHR '','' (f_addr (w_fwdr w' x)))) = None"
    by (simp add: x(2) SplitHostPort_def Let_def)
  moreover have "ParseAddr (''a.com'' @ ''.'') = None" by (simp add: ParseAddr_def parseIPv4_def is_digit_def)
  ultimately show ?thesis
    using portless_forwarder_bypass [OF sample_ok sample_env_facts(1) B, of x "''a.com''" "''80''" "[]"] B x(1) by auto
qed

theorem status_counts_rotation_witness: "gs_Enabled (Status 0 sample_world) = 2"
  using status_counts_rotation [OF sample_world_ok, of 0]
  by (simp add: sample_world_def Let_def Status_def sample_group_def sample_fwdr_def)


end
