(* ===== verification/DnsClient.thy ===== *)
theory DnsClient
  imports DnsMessage DnsCache RuleProxy
begin

text \<open>
  The DNS client and server (\<open>src/dns/client.go\<close>, \<open>src/dns/upstream.go\<close>, \<open>src/dns/server.go\<close>):
  upstream servers and their rotation, the exchange with an upstream over the dialer the rule
  proxy chooses, the handling of answers, custom records, and the cache in front of it all.

  The whole of the client's surroundings is the record \<open>dns\<close>: the client, the forwarders and groups
  of the rule package, and the published proxy state that the answer handlers write to. What comes
  from outside is \<open>dns_env\<close>: the outcome of every dial, the clock, the order in which the CIDR map
  is ranged over and the stale bytes behind a pooled buffer. The deadline of a connection
  shows only in these outcomes. Logging is left out. Upstreams are objects with an identity,
  because the rotation index is shared by all names that use them.
\<close>

section \<open>Upstreams\<close>

record UPStream =
  us_index :: u32
  us_servers :: "string list"

definition NewUPStream :: "string list \<Rightarrow> UPStream" where
  "NewUPStream servers =
     \<lparr>us_index = 0,
      us_servers = map (\<lambda>s. if port_of s = '''' then JoinHostPort s ''53'' else s) servers\<rparr>"

text \<open>With no server the index is taken modulo zero, which panics.\<close>

definition server_at :: "UPStream \<Rightarrow> u32 \<Rightarrow> string option" where
  "server_at u i = (if us_servers u = [] then None else Some (us_servers u ! unat (i mod of_nat (length (us_servers u)))))"

definition Server :: "UPStream \<Rightarrow> string option" where
  "Server u = server_at u (us_index u)"

definition Switch :: "UPStream \<Rightarrow> string option \<times> UPStream" where
  "Switch u = (let i = us_index u + 1 in (server_at u i, u\<lparr>us_index := i\<rparr>))"

definition SwitchIf :: "string \<Rightarrow> UPStream \<Rightarrow> string option \<times> UPStream" where
  "SwitchIf server u = (if Server u = Some server then Switch u else (Server u, u))"

definition Len :: "UPStream \<Rightarrow> nat" where
  "Len u = length (us_servers u)"

section \<open>The client\<close>

record DnsConfig =
  dc_Servers :: "string list"
  dc_Timeout :: int
  dc_MaxTTL :: int
  dc_MinTTL :: int
  dc_Records :: "string list"
  dc_AlwaysTCP :: bool
  dc_CacheSize :: int
  dc_CacheLog :: bool
  dc_NoAAAA :: bool

type_synonym AnswerHandler = "string \<Rightarrow> netip_addr \<Rightarrow> proxyState \<Rightarrow> proxyState"

record Client =
  c_cache :: LruCache
  c_config :: DnsConfig
  c_ups :: "nat \<Rightarrow> UPStream"
  c_nups :: nat
  c_upStream :: nat
  c_upStreamMap :: "string \<Rightarrow> nat option"
  c_handlers :: "AnswerHandler list"

record dns =
  d_client :: Client
  d_world :: world
  d_state :: proxyState

text \<open>A connection: whether the write fails, the bytes that arrive, and the first datagram.\<close>

record conn =
  cn_write :: "string option"
  cn_in :: bytes
  cn_datagram :: "string + bytes"

record dns_env =
  e_dial :: "nat \<Rightarrow> string \<Rightarrow> string + conn"
  e_now :: int
  e_order :: "Prefix list"
  e_spare :: bytes
  e_fuel :: nat

definition upd_client :: "(Client \<Rightarrow> Client) \<Rightarrow> dns \<Rightarrow> dns" where
  "upd_client f s = s\<lparr>d_client := f (d_client s)\<rparr>"

definition qKey :: "Question \<Rightarrow> string" where
  "qKey q = q_QNAME q @ ''/'' @ dec (unat (q_QTYPE q))"

subsection \<open>Configuration\<close>

definition SetServers :: "string \<Rightarrow> string list \<Rightarrow> Client \<Rightarrow> Client" where
  "SetServers domain servers c =
     c\<lparr>c_ups := (c_ups c)(c_nups c := NewUPStream servers), c_nups := Suc (c_nups c),
       c_upStreamMap := (c_upStreamMap c)(to_lower domain \<mapsto> c_nups c)\<rparr>"

definition UpStream :: "Client \<Rightarrow> string \<Rightarrow> nat" where
  "UpStream c domain =
     (case domain_walk (c_upStreamMap c) (to_lower domain) (length (to_lower domain)) of
        Some u \<Rightarrow> u
      | None \<Rightarrow> c_upStream c)"

definition Dns_AddHandler :: "AnswerHandler \<Rightarrow> Client \<Rightarrow> Client" where
  "Dns_AddHandler h c = c\<lparr>c_handlers := c_handlers c @ [h]\<rparr>"

definition MakeResponse :: "u16 \<Rightarrow> string \<Rightarrow> string \<Rightarrow> u32 \<Rightarrow> string + Message" where
  "MakeResponse rnd domain ip ttl =
     (case ParseAddr ip of
        None \<Rightarrow> Inl ''unable to parse IP''
      | Some addr \<Rightarrow>
          let qtype = (if Is6 addr then QTypeAAAA else QTypeA);
              rdlen = (if Is6 addr then 16 else 4);
              m = SetQuestion (NewQuestion qtype domain) (NewMessage rnd 0 ResponseMsg)
          in Inr (AddAnswer \<lparr>rr_NAME = domain, rr_TYPE = qtype, rr_CLASS = ClassINET, rr_TTL = ttl,
               rr_RDLENGTH = rdlen, rr_RDATA = addr_bytes addr, rr_IP = None\<rparr> m))"

definition AddRecord :: "u16 \<Rightarrow> int \<Rightarrow> string \<Rightarrow> Client \<Rightarrow> Client res" where
  "AddRecord rnd now rec c =
     (if CHR ''/'' \<notin> set rec then Err ''wrong record format, must contain a slash''
      else
        let (domain, ip) = strings_Cut CHR ''/'' rec in
        case MakeResponse rnd domain ip (of_int (dc_MaxTTL (c_config c))) of
          Inl e \<Rightarrow> Err e
        | Inr m \<Rightarrow>
           (case Set now (qKey (m_Question m)) (Marshal m) 0 (c_cache c) of
              None \<Rightarrow> Panic
            | Some ca \<Rightarrow> Ok (c\<lparr>c_cache := ca\<rparr>)))"

text \<open>A record that cannot be added is logged and skipped.\<close>

definition NewClient :: "u16 \<Rightarrow> int \<Rightarrow> DnsConfig \<Rightarrow> Client" where
  "NewClient rnd now config =
     fold (\<lambda>rec c. case AddRecord rnd now rec c of Ok c' \<Rightarrow> c' | _ \<Rightarrow> c) (dc_Records config)
       \<lparr>c_cache = NewLruCache (dc_CacheSize config), c_config = config,
        c_ups = (\<lambda>_. NewUPStream (dc_Servers config)), c_nups = 1, c_upStream = 0,
        c_upStreamMap = (\<lambda>_. None), c_handlers = []\<rparr>"

subsection \<open>Talking to an upstream\<close>

definition UDPMaxLen :: nat where "UDPMaxLen = 1232"

definition exchangeTCP :: "bytes \<Rightarrow> conn \<Rightarrow> bytes \<Rightarrow> bytes \<times> (string + buf)" where
  "exchangeTCP spare rc reqBytes =
     (let out = be16 (of_nat (length reqBytes)) @ reqBytes in
      case cn_write rc of
        Some e \<Rightarrow> ([], Inl e)
      | None \<Rightarrow>
          (case cn_in rc of
             a # b # body \<Rightarrow>
               let respLen = unat (be16_of a b) in
               if length body < respLen then (out, Inl ''unexpected EOF'')
               else (out, Inr \<lparr>b_arr = take respLen body @ spare, b_len = respLen\<rparr>)
           | _ \<Rightarrow> (out, Inl ''EOF'')))"

text \<open>A datagram longer than the buffer is cut off by the read.\<close>

definition exchangeUDP :: "bytes \<Rightarrow> conn \<Rightarrow> bytes \<Rightarrow> bytes \<times> (string + buf)" where
  "exchangeUDP spare rc reqBytes =
     (case cn_write rc of
        Some e \<Rightarrow> ([], Inl e)
      | None \<Rightarrow>
          (case cn_datagram rc of
             Inl e \<Rightarrow> (reqBytes, Inl e)
           | Inr d \<Rightarrow>
               let got = take UDPMaxLen d in
               (reqBytes, Inr \<lparr>b_arr = got @ spare, b_len = length got\<rparr>)))"

definition on_network :: "string \<Rightarrow> bytes \<Rightarrow> conn \<Rightarrow> bytes \<Rightarrow> bytes \<times> (string + buf)" where
  "on_network network = (if network = ''tcp'' then exchangeTCP else exchangeUDP)"

text \<open>
  The loop over the upstream's servers, \<open>n\<close> turns left: the server used last, the outcome of
  the last turn, the upstream and the forwarders. \<open>None\<close> is the modulo by zero.
\<close>

fun ex_loop :: "dns_env \<Rightarrow> string \<Rightarrow> fid \<Rightarrow> bytes \<Rightarrow> nat \<Rightarrow> nat \<Rightarrow> string \<Rightarrow> string + buf \<Rightarrow> UPStream \<Rightarrow> world \<Rightarrow>
    (string \<times> (string + buf) \<times> UPStream \<times> world) option" where
  "ex_loop env network f reqBytes i 0 server r u w = Some (server, r, u, w)"
| "ex_loop env network f reqBytes i (Suc n) server r u w =
     (let d = e_dial env i server;
          w' = Forwarder_Dial f d w;
          r' = (case d of Inl e \<Rightarrow> Inl e | Inr rc \<Rightarrow> snd (on_network network (e_spare env) rc reqBytes))
      in case r' of
           Inr b \<Rightarrow> Some (server, r', u, w')
         | Inl e \<Rightarrow>
            (case SwitchIf server u of
               (None, _) \<Rightarrow> None
             | (Some newServer, u') \<Rightarrow> ex_loop env network f reqBytes (Suc i) n newServer r' u' w'))"

definition exchange :: "dns_env \<Rightarrow> string \<Rightarrow> bytes \<Rightarrow> bool \<Rightarrow> dns \<Rightarrow>
    (string \<times> string \<times> string \<times> (string + buf)) option \<times> dns" where
  "exchange env qname reqBytes preferTCP s =
     (let c = d_client s;
          (f0, w0) = Proxy_NextDialer (e_order env) (d_state s) (qname @ '':0'') (d_world s);
          (f, w1) = (if f_addr (w_fwdr w0 f0) = ''REJECT''
                     then Proxy_NextDialer (e_order env) (d_state s) ''direct:0'' w0 else (f0, w0));
          addr = f_addr (w_fwdr w1 f);
          network = (if \<not> preferTCP \<and> \<not> dc_AlwaysTCP (c_config c) \<and> addr = ''DIRECT'' then ''udp'' else ''tcp'');
          ui = UpStream c qname;
          ups = c_ups c ui
      in case Server ups of
           None \<Rightarrow> (None, s\<lparr>d_world := w1\<rparr>)
         | Some server \<Rightarrow>
            (case ex_loop env network f reqBytes 0 (Len ups) server (Inl '''') ups w1 of
               None \<Rightarrow> (None, s\<lparr>d_world := w1\<rparr>)
             | Some (server', r, ups', w2) \<Rightarrow>
                 let w3 = (case r of Inl e \<Rightarrow> Record f False w2 | Inr b \<Rightarrow> w2)
                 in (Some (server', network, addr, r),
                     s\<lparr>d_world := w3, d_client := c\<lparr>c_ups := (c_ups c)(ui := ups')\<rparr>\<rparr>)))"

subsection \<open>Answers\<close>

definition extract_one :: "AnswerHandler list \<Rightarrow> string \<Rightarrow> RR \<Rightarrow> netip_addr list \<times> int \<times> proxyState \<Rightarrow> netip_addr list \<times> int \<times> proxyState" where
  "extract_one hs qname answer acc =
     (case acc of (ips, ttl, st) \<Rightarrow>
        if rr_TYPE answer = QTypeA \<or> rr_TYPE answer = QTypeAAAA then
          let (ips', st') = (case rr_IP answer of
                  Some ip \<Rightarrow> if \<not> IsUnspecified ip then (ips @ [ip], fold (\<lambda>h. h qname ip) hs st) else (ips, st)
                | None \<Rightarrow> (ips, st));
              ttl' = (if rr_TTL answer \<noteq> 0 then uint (rr_TTL answer) else ttl)
          in (ips', ttl', st')
        else (ips, ttl, st))"

definition extractAnswer :: "Client \<Rightarrow> Message \<Rightarrow> proxyState \<Rightarrow> netip_addr list \<times> int \<times> proxyState" where
  "extractAnswer c resp st =
     fold (extract_one (c_handlers c) (q_QNAME (m_Question resp))) (m_Answers resp) ([], dc_MinTTL (c_config c), st)"

definition clamp_ttl :: "DnsConfig \<Rightarrow> int \<Rightarrow> int" where
  "clamp_ttl cfg ttl =
     (let t = (if dc_MaxTTL cfg < ttl then dc_MaxTTL cfg else if ttl < dc_MinTTL cfg then dc_MinTTL cfg else ttl)
      in if t \<le> 0 then 1800 else t)"

definition handleAnswer :: "dns_env \<Rightarrow> buf \<Rightarrow> dns \<Rightarrow> unit res \<times> dns" where
  "handleAnswer env respBytes s =
     (case UnmarshalMessage (e_fuel env) respBytes of
        Ok resp \<Rightarrow>
          let (ips, ttl, st) = extractAnswer (d_client s) resp (d_state s);
              ttl' = clamp_ttl (c_config (d_client s)) ttl;
              s1 = s\<lparr>d_state := st\<rparr>
          in (case Set (e_now env) (qKey (m_Question resp)) (visible respBytes) ttl' (c_cache (d_client s)) of
                None \<Rightarrow> (Panic, s1)
              | Some ca \<Rightarrow> (Ok (), upd_client (c_cache_update (\<lambda>_. ca)) s1))
      | Err e \<Rightarrow> (Err e, s)
      | Panic \<Rightarrow> (Panic, s)
      | Diverge \<Rightarrow> (Diverge, s))"

subsection \<open>Requests\<close>

text \<open>
  \<open>Exchange\<close>, with the goroutine that refreshes an expired entry as a job for later
  (\<open>refresh\<close>).
\<close>

type_synonym job = "string \<times> bytes \<times> bool"

definition refresh :: "dns_env \<Rightarrow> job \<Rightarrow> dns \<Rightarrow> unit res \<times> dns" where
  "refresh env j s =
     (case j of (qname, reqBytes, preferTCP) \<Rightarrow>
        case exchange env qname reqBytes preferTCP s of
          (None, s') \<Rightarrow> (Panic, s')
        | (Some (server, network, dialerAddr, r), s') \<Rightarrow>
           (case r of Inl e \<Rightarrow> (Ok (), s') | Inr b \<Rightarrow> handleAnswer env b s'))"

definition wants_address :: "Question \<Rightarrow> bool" where
  "wants_address q \<longleftrightarrow> q_QTYPE q = QTypeA \<or> q_QTYPE q = QTypeAAAA"

text \<open>The request once the cache has not answered it.\<close>

definition ask_upstream :: "dns_env \<Rightarrow> Message \<Rightarrow> bytes \<Rightarrow> bool \<Rightarrow> dns \<Rightarrow> bytes res \<times> dns" where
  "ask_upstream env req reqBytes preferTCP s =
     (case exchange env (q_QNAME (m_Question req)) reqBytes preferTCP s of
        (None, s') \<Rightarrow> (Panic, s')
      | (Some (server, network, dialerAddr, r), s') \<Rightarrow>
         (case r of
            Inl e \<Rightarrow> (Err e, s')
          | Inr b \<Rightarrow>
              if \<not> wants_address (m_Question req) then (Ok (visible b), s')
              else (case handleAnswer env b s' of
                      (Ok _, s'') \<Rightarrow> (Ok (visible b), s'')
                    | (Err e, s'') \<Rightarrow> (Err e, s'')
                    | (Panic, s'') \<Rightarrow> (Panic, s'')
                    | (Diverge, s'') \<Rightarrow> (Diverge, s''))))"

definition Exchange :: "dns_env \<Rightarrow> buf \<Rightarrow> bool \<Rightarrow> dns \<Rightarrow> bytes res \<times> job option \<times> dns" where
  "Exchange env reqBytes preferTCP s =
     (case UnmarshalMessage (e_fuel env) reqBytes of
        Err e \<Rightarrow> (Err e, None, s)
      | Panic \<Rightarrow> (Panic, None, s)
      | Diverge \<Rightarrow> (Diverge, None, s)
      | Ok req \<Rightarrow>
          if dc_NoAAAA (c_config (d_client s)) \<and> q_QTYPE (m_Question req) = QTypeAAAA then
            let v = visible reqBytes in (Ok (v[2 := v ! 2 OR push_bit 7 1]), None, s)
          else if wants_address (m_Question req) then
            (case Get (e_now env) (qKey (m_Question req)) (c_cache (d_client s)) of
               None \<Rightarrow> (Panic, None, s)
             | Some ((v, expired), ca) \<Rightarrow>
                 let s1 = upd_client (c_cache_update (\<lambda>_. ca)) s in
                 if 2 < length v then
                   (Ok (be16 (h_ID (m_Header req)) @ drop 2 v),
                    if expired then Some (q_QNAME (m_Question req), visible reqBytes, preferTCP) else None, s1)
                 else let (r, s2) = ask_upstream env req (visible reqBytes) preferTCP s1 in (r, None, s2))
          else let (r, s2) = ask_upstream env req (visible reqBytes) preferTCP s in (r, None, s2))"

section \<open>The server\<close>

text \<open>The reply written to the client, and what the goroutine leaves behind.\<close>

definition ServePacket :: "dns_env \<Rightarrow> buf \<Rightarrow> dns \<Rightarrow> bytes option res \<times> job option \<times> dns" where
  "ServePacket env reqBytes s =
     (let (r, j, s') = Exchange env reqBytes False s in
      (case r of Ok v \<Rightarrow> Ok (Some v) | Err e \<Rightarrow> Ok None | Panic \<Rightarrow> Panic | Diverge \<Rightarrow> Diverge, j, s'))"

definition ServeTCP :: "dns_env \<Rightarrow> bytes \<Rightarrow> dns \<Rightarrow> bytes option res \<times> job option \<times> dns" where
  "ServeTCP env input s =
     (case input of
        a # b # body \<Rightarrow>
          let reqLen = unat (be16_of a b) in
          if length body < reqLen then (Ok None, None, s)
          else
            let (r, j, s') = Exchange env \<lparr>b_arr = take reqLen body @ e_spare env, b_len = reqLen\<rparr> True s in
            (case r of Ok v \<Rightarrow> Ok (Some (be16 (of_nat (length v)) @ v)) | Err e \<Rightarrow> Ok None | Panic \<Rightarrow> Panic | Diverge \<Rightarrow> Diverge,
             j, s')
      | _ \<Rightarrow> (Ok None, None, s))"

section \<open>Upstreams by name\<close>

interpretation upstreams: name_router "c_upStreamMap c" "c_upStream c" "UpStream c"
  by unfold_locales (simp add: UpStream_def domain_walk_keys)

text \<open>Servers set for a domain are used for it and for every name below it that has no entry of its own nearer the root.\<close>

lemma SetServers_UpStream:
  assumes "first_some (c_upStreamMap (SetServers k servers c)) (domain_keys (to_lower k)) = Some (c_nups c)"
  shows "to_lower name = h @ CHR ''.'' # to_lower k \<Longrightarrow> UpStream (SetServers k servers c) name = c_nups c"
    and "c_ups (SetServers k servers c) (c_nups c) = NewUPStream servers"
  using upstreams.route_entry(2) [OF assms] by (simp_all add: SetServers_def)

section \<open>Finding a server that works\<close>

lemma server_at_nth:
  assumes "us_servers u \<noteq> []" and "length (us_servers u) < 2 ^ 32"
  shows "server_at u i = Some (us_servers u ! (unat i mod length (us_servers u)))"
proof -
  have "unat (of_nat (length (us_servers u)) :: u32) = length (us_servers u)"
    using assms(2) by (intro unat_of_nat_small) simp
  then show ?thesis using assms(1) by (simp add: server_at_def unat_mod)
qed

definition answers :: "dns_env \<Rightarrow> string \<Rightarrow> bytes \<Rightarrow> nat \<Rightarrow> string \<Rightarrow> buf option" where
  "answers env network reqBytes i server =
     (case e_dial env i server of
        Inl e \<Rightarrow> None
      | Inr rc \<Rightarrow> (case snd (on_network network (e_spare env) rc reqBytes) of Inl e \<Rightarrow> None | Inr b \<Rightarrow> Some b))"

lemma ex_loop_Suc:
  assumes "Server u = Some server" and "0 < length (us_servers u)"
  shows "answers env network req i server = Some b \<Longrightarrow>
      \<exists>w'. ex_loop env network f req i (Suc n) server r u w = Some (server, Inr b, u, w')"
    and "answers env network req i server = None \<Longrightarrow> Switch u = (Some server', u') \<Longrightarrow>
      \<exists>r' w'. ex_loop env network f req i (Suc n) server r u w = ex_loop env network f req (Suc i) n server' r' u' w'"
  using assms by (auto simp: answers_def Let_def SwitchIf_def split: sum.splits)

lemma ex_loop_finds:
  assumes "us_servers u = ss" and "Server u = Some server" and "k < n" and "unat (us_index u) + n < 2 ^ 32"
    and "length ss < 2 ^ 32" and "ss \<noteq> []"
    and "answers env network req (i + k) (ss ! ((unat (us_index u) + k) mod length ss)) \<noteq> None"
  shows "\<exists>j \<le> k. \<exists>b u' w'. ex_loop env network f req i n server r u w =
      Some (ss ! ((unat (us_index u) + j) mod length ss), Inr b, u', w') \<and>
    answers env network req (i + j) (ss ! ((unat (us_index u) + j) mod length ss)) = Some b \<and>
    (\<forall>l < j. answers env network req (i + l) (ss ! ((unat (us_index u) + l) mod length ss)) = None)"
  using assms
proof (induction n arbitrary: i k server r u w)
  case (Suc n)
  have server: "server = ss ! (unat (us_index u) mod length ss)"
    using Suc.prems server_at_nth [of u "us_index u"] by (simp add: Server_def)
  show ?case
  proof (cases "answers env network req i server")
    case (Some b)
    then obtain w' where "ex_loop env network f req i (Suc n) server r u w = Some (server, Inr b, u, w')"
      using ex_loop_Suc(1) [OF Suc.prems(2)] Suc.prems(1,6) by blast
    with Some server show ?thesis by (intro exI [of _ 0]) auto
  next
    case None
    with Suc.prems(7) server obtain k' where k: "k = Suc k'" by (cases k) auto
    let ?u = "u\<lparr>us_index := us_index u + 1\<rparr>"
    have ui: "unat (us_index u + 1) = Suc (unat (us_index u))"
      using Suc.prems(4) by (simp add: unat_word_ariths)
    have sw: "Switch u = (Some (ss ! (unat (us_index ?u) mod length ss)), ?u)"
      using Suc.prems(1,5,6) server_at_nth [of u "us_index u + 1"] by (simp add: Switch_def Let_def)
    obtain r' w' where step: "ex_loop env network f req i (Suc n) server r u w =
        ex_loop env network f req (Suc i) n (ss ! (unat (us_index ?u) mod length ss)) r' ?u w'"
      using ex_loop_Suc(2) [OF Suc.prems(2) _ None sw] Suc.prems(1,6) by blast
    have "Server ?u = Some (ss ! (unat (us_index ?u) mod length ss))"
      using Suc.prems(1,5,6) server_at_nth [of ?u "us_index ?u"] by (simp add: Server_def)
    then have "\<exists>j \<le> k'. \<exists>b u' w''. ex_loop env network f req (Suc i) n (ss ! (unat (us_index ?u) mod length ss)) r' ?u w' =
          Some (ss ! ((unat (us_index ?u) + j) mod length ss), Inr b, u', w'') \<and>
        answers env network req (Suc i + j) (ss ! ((unat (us_index ?u) + j) mod length ss)) = Some b \<and>
        (\<forall>l < j. answers env network req (Suc i + l) (ss ! ((unat (us_index ?u) + l) mod length ss)) = None)"
      using Suc.prems ui by (intro Suc.IH) (simp_all add: k)
    then obtain j b u' w'' where j: "j \<le> k'"
      "ex_loop env network f req (Suc i) n (ss ! (unat (us_index ?u) mod length ss)) r' ?u w' =
         Some (ss ! ((unat (us_index u) + Suc j) mod length ss), Inr b, u', w'')"
      "answers env network req (i + Suc j) (ss ! ((unat (us_index u) + Suc j) mod length ss)) = Some b"
      "\<forall>l < j. answers env network req (i + Suc l) (ss ! ((unat (us_index u) + Suc l) mod length ss)) = None"
      by (auto simp: ui)
    have "\<forall>l < Suc j. answers env network req (i + l) (ss ! ((unat (us_index u) + l) mod length ss)) = None"
      using j(4) None server by (auto simp: less_Suc_eq_0_disj)
    with j step k show ?thesis by (intro exI [of _ "Suc j"]) auto
  qed
qed simp

lemma rotation_hits:
  assumes "p < n"
  shows "\<exists>k < n. (start + k) mod n = (p :: nat)"
proof -
  have le: "start mod n \<le> p + n" using assms mod_less_divisor [of n start] by linarith
  have "(start + (p + n - start mod n) mod n) mod n = (start mod n + (p + n - start mod n)) mod n"
    by (simp add: mod_simps)
  also have "\<dots> = p" using assms le by simp
  finally show ?thesis using assms by (intro exI [of _ "(p + n - start mod n) mod n"]) simp
qed

text \<open>
  Failover. As long as one upstream server of the name answers, a query gets an answer, over
  whichever network was chosen: the servers are tried in rotation from the current one, each at
  most once, and the answer is the one of the first server that works.
\<close>

theorem exchange_finds_server:
  assumes "us_servers (c_ups (d_client s) (UpStream (d_client s) qname)) = ss"
    and "unat (us_index (c_ups (d_client s) (UpStream (d_client s) qname))) = start"
    and "start + length ss < 2 ^ 32" and "good \<in> set ss"
    and "\<forall>network i. answers env network reqBytes i good \<noteq> None"
  shows "\<exists>j < length ss. \<exists>network addr b s'.
    exchange env qname reqBytes preferTCP s = (Some (ss ! ((start + j) mod length ss), network, addr, Inr b), s') \<and>
    answers env network reqBytes j (ss ! ((start + j) mod length ss)) = Some b \<and>
    (\<forall>l < j. answers env network reqBytes l (ss ! ((start + l) mod length ss)) = None)"
proof -
  let ?c = "d_client s"
  let ?u = "c_ups ?c (UpStream ?c qname)"
  obtain f0 w0 where d0: "Proxy_NextDialer (e_order env) (d_state s) (qname @ '':0'') (d_world s) = (f0, w0)" by fastforce
  obtain f w1 where d1: "(if f_addr (w_fwdr w0 f0) = ''REJECT''
      then Proxy_NextDialer (e_order env) (d_state s) ''direct:0'' w0 else (f0, w0)) = (f, w1)" by fastforce
  define network where "network = (if \<not> preferTCP \<and> \<not> dc_AlwaysTCP (c_config ?c) \<and> f_addr (w_fwdr w1 f) = ''DIRECT'' then ''udp'' else ''tcp'')"
  have ne: "ss \<noteq> []" using assms(4) by auto
  obtain p where p: "p < length ss" "ss ! p = good" using assms(4) by (metis in_set_conv_nth)
  obtain k where k: "k < length ss" "(start + k) mod length ss = p"
    using rotation_hits [OF p(1)] by blast
  have sv: "Server ?u = Some (ss ! (start mod length ss))"
    using server_at_nth [of ?u "us_index ?u"] assms(1-3) ne by (simp add: Server_def)
  have "\<exists>j \<le> k. \<exists>b u' w'. ex_loop env network f reqBytes 0 (length ss) (ss ! (start mod length ss)) (Inl '''') ?u w1 =
      Some (ss ! ((unat (us_index ?u) + j) mod length ss), Inr b, u', w') \<and>
    answers env network reqBytes (0 + j) (ss ! ((unat (us_index ?u) + j) mod length ss)) = Some b \<and>
    (\<forall>l < j. answers env network reqBytes (0 + l) (ss ! ((unat (us_index ?u) + l) mod length ss)) = None)"
    using assms sv k p ne by (intro ex_loop_finds) auto
  then obtain j b u' w' where j: "j \<le> k"
    "ex_loop env network f reqBytes 0 (length ss) (ss ! (start mod length ss)) (Inl '''') ?u w1 =
      Some (ss ! ((start + j) mod length ss), Inr b, u', w')"
    "answers env network reqBytes j (ss ! ((start + j) mod length ss)) = Some b"
    "\<forall>l < j. answers env network reqBytes l (ss ! ((start + l) mod length ss)) = None"
    unfolding assms(2) by auto
  have "\<exists>addr s'. exchange env qname reqBytes preferTCP s = (Some (ss ! ((start + j) mod length ss), network, addr, Inr b), s')"
    unfolding exchange_def Let_def d0 prod.case d1 network_def [symmetric] sv option.case Len_def assms(1) j(2) by simp
  with j k show ?thesis by (meson le_less_trans)
qed

section \<open>Custom records\<close>

lemma Marshal_ID: "be16 i @ drop 2 (Marshal m) = Marshal (m\<lparr>m_Header := (m_Header m)\<lparr>h_ID := i\<rparr>\<rparr>)"
  by (simp add: Marshal_def MarshalHeader_def SetAncount_def SetQdcount_def be16_def)

lemma Marshal_IP: "Marshal (m\<lparr>m_Answers := map (rr_IP_update g) (m_Answers m)\<rparr>) = Marshal m"
proof -
  have "MarshalRR (rr_IP_update g rr) = MarshalRR rr" for rr by (simp add: MarshalRR_def)
  then show ?thesis by (simp add: Marshal_def o_def)
qed

lemma length_Marshal: "2 < length (Marshal m)"
  by (simp add: Marshal_def HeaderLen_def)

definition unzoned :: "netip_addr \<Rightarrow> netip_addr" where
  "unzoned a = (case a of Addr4 b \<Rightarrow> Addr4 b | Addr6 b z \<Rightarrow> Addr6 b [])"

definition record_type :: "netip_addr \<Rightarrow> u16" where
  "record_type a = (if Is6 a then QTypeAAAA else QTypeA)"

lemma MakeResponse_decodes:
  assumes "ParseAddr ip = Some a" and "name_ok d" and "MakeResponse rnd d ip ttl = Inr m"
  shows "\<exists>m'. UnmarshalMessage k \<lparr>b_arr = (be16 i @ drop 2 (Marshal m)) @ spare, b_len = length (be16 i @ drop 2 (Marshal m))\<rparr> = Ok m' \<and>
    h_ID (m_Header m') = i \<and> m_Question m' = NewQuestion (record_type a) d \<and>
    map rr_IP (m_Answers m') = [Some (unzoned a)] \<and> map rr_TTL (m_Answers m') = [ttl]"
proof -
  define m1 where "m1 = m\<lparr>m_Header := (m_Header m)\<lparr>h_ID := i\<rparr>, m_Answers := map (rr_IP_update (\<lambda>_. Some (unzoned a))) (m_Answers m)\<rparr>"
  have b: "be16 i @ drop 2 (Marshal m) = Marshal m1"
    using Marshal_IP [where m = "m\<lparr>m_Header := (m_Header m)\<lparr>h_ID := i\<rparr>\<rparr>"] by (simp add: Marshal_ID m1_def)
  have len: "length (addr_bytes a) = (if Is6 a then 16 else 4)"
    using ParseAddr_ok [OF assms(1)] by (cases a) (simp_all add: addr_ok_def)
  have m: "m_Question m1 = NewQuestion (record_type a) d" "length (m_Answers m1) = 1" "map rr_TTL (m_Answers m1) = [ttl]"
    "map rr_IP (m_Answers m1) = [Some (unzoned a)]" "h_ID (m_Header m1) = i"
    using assms(3) by (auto simp: m1_def MakeResponse_def assms(1) Let_def AddAnswer_def SetQuestion_def NewMessage_def record_type_def)
  have "\<forall>rr \<in> set (m_Answers m1). rr_ok rr"
    using assms(2,3) len by (cases a)
      (auto simp: m1_def MakeResponse_def assms(1) Let_def AddAnswer_def SetQuestion_def NewMessage_def rr_ok_def rr_addr_def
        unzoned_def QTypeA_def QTypeAAAA_def)
  then have "UnmarshalMessage k \<lparr>b_arr = Marshal m1 @ spare, b_len = length (Marshal m1)\<rparr> =
      Ok (m1\<lparr>m_Header := SetAncount (int (length (m_Answers m1))) (SetQdcount 1 (m_Header m1))\<rparr>)"
    using assms(2) m(1,2) by (intro UnmarshalMessage_Marshal) (simp_all add: NewQuestion_def)
  then show ?thesis using m unfolding b by (simp add: SetAncount_def SetQdcount_def)
qed

lemma strings_Cut_at: "c \<notin> set a \<Longrightarrow> strings_Cut c (a @ c # b) = (a, b)"
  by (induction a) (auto simp: strings_Cut_def)

lemma AddRecord_stores:
  assumes "ParseAddr ip = Some a" and "CHR ''/'' \<notin> set d"
  shows "\<exists>m c'. MakeResponse rnd d ip (of_int (dc_MaxTTL (c_config c))) = Inr m \<and>
    AddRecord rnd now (d @ ''/'' @ ip) c = Ok c' \<and> c_config c' = c_config c \<and>
    lc_store (c_cache c') (qKey (NewQuestion (record_type a) d)) = Some (Marshal m)"
proof -
  have cut: "strings_Cut CHR ''/'' (d @ CHR ''/'' # ip) = (d, ip)" by (rule strings_Cut_at [OF assms(2)])
  obtain m where m: "MakeResponse rnd d ip (of_int (dc_MaxTTL (c_config c))) = Inr m" "m_Question m = NewQuestion (record_type a) d"
    using assms(1) by (simp add: MakeResponse_def AddAnswer_def SetQuestion_def record_type_def Let_def)
  then show ?thesis by (simp add: AddRecord_def cut Set_def)
qed

lemma Exchange_store:
  assumes "UnmarshalMessage (e_fuel env) reqBytes = Ok req" and "wants_address (m_Question req)"
    and "\<not> (dc_NoAAAA (c_config (d_client s)) \<and> q_QTYPE (m_Question req) = QTypeAAAA)"
    and "lc_store (c_cache (d_client s)) (qKey (m_Question req)) = Some v" and "2 < length v"
  shows "Exchange env reqBytes preferTCP s = (Ok (be16 (h_ID (m_Header req)) @ drop 2 v), None, s)"
  using assms by (auto simp: Exchange_def Get_def upd_client_def)

text \<open>
  Custom records. After a record was added for a well-formed name, a query for the name and the
  type of its address is answered from the record alone: nothing else of the state changes, no
  upstream is asked, and the reply decodes to the identifier and question of the request and to
  exactly the recorded address.
\<close>

theorem custom_record_answered:
  assumes "ParseAddr ip = Some a" and "name_ok d" and "CHR ''/'' \<notin> set d"
    and "UnmarshalMessage (e_fuel env) reqBytes = Ok req"
    and "m_Question req = NewQuestion (record_type a) d"
    and "\<not> (dc_NoAAAA (c_config c) \<and> Is6 a)"
  shows "\<exists>c' v. AddRecord rnd now (d @ ''/'' @ ip) c = Ok c' \<and>
    Exchange env reqBytes preferTCP (s\<lparr>d_client := c'\<rparr>) = (Ok v, None, s\<lparr>d_client := c'\<rparr>) \<and>
    (\<exists>m. UnmarshalMessage k \<lparr>b_arr = v @ spare, b_len = length v\<rparr> = Ok m \<and>
      h_ID (m_Header m) = h_ID (m_Header req) \<and> m_Question m = m_Question req \<and>
      map rr_IP (m_Answers m) = [Some (unzoned a)] \<and> map rr_TTL (m_Answers m) = [of_int (dc_MaxTTL (c_config c))])"
proof -
  obtain m c' where m: "MakeResponse rnd d ip (of_int (dc_MaxTTL (c_config c))) = Inr m"
    "AddRecord rnd now (d @ ''/'' @ ip) c = Ok c'" "c_config c' = c_config c"
    "lc_store (c_cache c') (qKey (NewQuestion (record_type a) d)) = Some (Marshal m)"
    using AddRecord_stores [OF assms(1,3)] by blast
  have ty: "q_QTYPE (m_Question req) = record_type a" by (simp add: assms(5) NewQuestion_def)
  have w: "wants_address (m_Question req)" by (simp add: wants_address_def ty record_type_def)
  have aaaa: "record_type a = QTypeAAAA \<longleftrightarrow> Is6 a" by (simp add: record_type_def QTypeA_def QTypeAAAA_def)
  have "Exchange env reqBytes preferTCP (s\<lparr>d_client := c'\<rparr>) =
      (Ok (be16 (h_ID (m_Header req)) @ drop 2 (Marshal m)), None, s\<lparr>d_client := c'\<rparr>)"
    using assms(4-6) m(3,4) w by (intro Exchange_store) (auto simp: NewQuestion_def aaaa length_Marshal)
  with m(2) MakeResponse_decodes [OF assms(1,2) m(1), of k "h_ID (m_Header req)" spare] show ?thesis
    unfolding assms(5)
    by (intro exI [of _ c'] exI [of _ "be16 (h_ID (m_Header req)) @ drop 2 (Marshal m)"] conjI)
qed

section \<open>Answers\<close>

lemma clamp_ttl_range: "0 < dc_MinTTL cfg \<Longrightarrow> dc_MinTTL cfg \<le> dc_MaxTTL cfg \<Longrightarrow>
    dc_MinTTL cfg \<le> clamp_ttl cfg t \<and> clamp_ttl cfg t \<le> dc_MaxTTL cfg"
  by (auto simp: clamp_ttl_def Let_def)

lemma clamp_ttl_pos: "0 < clamp_ttl cfg t"
  by (auto simp: clamp_ttl_def Let_def)

lemma handleAnswer_Ok:
  assumes "handleAnswer env b s = (Ok (), s')"
  obtains resp ips ttl ca where "UnmarshalMessage (e_fuel env) b = Ok resp"
    "extractAnswer (d_client s) resp (d_state s) = (ips, ttl, d_state s')"
    "Set (e_now env) (qKey (m_Question resp)) (visible b) (clamp_ttl (c_config (d_client s)) ttl) (c_cache (d_client s)) = Some ca"
    "d_client s' = (d_client s)\<lparr>c_cache := ca\<rparr>" "d_world s' = d_world s"
  using assms
  by (auto simp: handleAnswer_def upd_client_def Let_def split: res.splits option.splits prod.splits)


text \<open>All rules that match a name, and there is one, have group \<open>g\<close>.\<close>

definition agree :: "proxyState \<Rightarrow> string \<Rightarrow> gid \<Rightarrow> bool" where
  "agree st name g \<longleftrightarrow>
     (\<exists>k \<in> set (domain_keys (to_lower name)). ps_domain st k \<noteq> None) \<and>
     (\<forall>k \<in> set (domain_keys (to_lower name)). ps_domain st k \<in> {None, Some g})"

lemma agree_first:
  assumes "agree st name g"
  shows "first_some (ps_domain st) (domain_keys (to_lower name)) = Some g"
    and "first_some (ps_domain st) (rev (domain_keys (to_lower name))) = Some g"
proof -
  have "first_some (ps_domain st) xs = Some g"
    if "\<exists>k \<in> set xs. ps_domain st k \<noteq> None" "\<forall>k \<in> set xs. ps_domain st k \<in> {None, Some g}" for xs
    using that by (induction xs) (auto split: option.split)
  then show "first_some (ps_domain st) (domain_keys (to_lower name)) = Some g"
    "first_some (ps_domain st) (rev (domain_keys (to_lower name))) = Some g"
    using assms by (simp_all add: agree_def)
qed

definition usable :: "RR \<Rightarrow> netip_addr \<Rightarrow> bool" where
  "usable rr ip \<longleftrightarrow> (rr_TYPE rr = QTypeA \<or> rr_TYPE rr = QTypeAAAA) \<and> rr_IP rr = Some ip \<and> \<not> IsUnspecified ip"

lemma extract_one_records:
  assumes "agree st name g" and "extract_one [AddDomainIP] name rr (ips, t, st) = (ips', t', st')"
  shows "ps_domain st' = ps_domain st" and "ps_ip st ip = Some g \<or> usable rr ip \<Longrightarrow> ps_ip st' ip = Some g"
  using assms agree_first [OF assms(1)]
  by (auto simp: extract_one_def usable_def AddDomainIP_keys Let_def split: if_splits option.splits)

lemma extract_records:
  assumes "agree st name g" and "fold (extract_one [AddDomainIP] name) rrs (ips, t, st) = (ips', t', st')"
  shows "ps_domain st' = ps_domain st \<and>
    (\<forall>ip. ps_ip st ip = Some g \<or> (\<exists>rr \<in> set rrs. usable rr ip) \<longrightarrow> ps_ip st' ip = Some g)"
  using assms
proof (induction rrs arbitrary: ips t st)
  case (Cons rr rrs)
  obtain ips1 t1 st1 where 1: "extract_one [AddDomainIP] name rr (ips, t, st) = (ips1, t1, st1)" by (metis prod_cases3)
  note r = extract_one_records [OF Cons.prems(1) 1]
  have "agree st1 name g" using Cons.prems(1) by (simp add: agree_def r(1))
  then show ?case using Cons.IH [of st1 ips1 t1] Cons.prems(2) 1 r by auto
qed simp

section \<open>A client at work\<close>

definition sample_dns_config :: DnsConfig where
  "sample_dns_config = \<lparr>dc_Servers = [''1.1.1.1'', ''8.8.8.8:53''], dc_Timeout = 3, dc_MaxTTL = 1800, dc_MinTTL = 60, dc_Records = [],
     dc_AlwaysTCP = False, dc_CacheSize = 4096, dc_CacheLog = False, dc_NoAAAA = False\<rparr>"

definition sample_dns :: dns where
  "sample_dns = \<lparr>d_client = NewClient 7 0 sample_dns_config, d_world = sample_world, d_state = two_rules\<rparr>"

definition sample_query :: Message where
  "sample_query = SetQuestion (NewQuestion QTypeA ''a.com'') (NewMessage 5 0 QueryMsg)"

definition wire :: "Message \<Rightarrow> buf" where
  "wire m = \<lparr>b_arr = Marshal m @ [9, 9], b_len = length (Marshal m)\<rparr>"

text \<open>The first server refuses, the second one answers.\<close>

definition sample_dns_env :: dns_env where
  "sample_dns_env = \<lparr>e_dial = (\<lambda>i s. if s = ''1.1.1.1:53'' then Inl ''refused''
       else Inr \<lparr>cn_write = None, cn_in = be16 2 @ [1, 2], cn_datagram = Inr [1, 2]\<rparr>),
     e_now = 1000000000000, e_order = [], e_spare = [], e_fuel = 10\<rparr>"

lemma wire_query: "UnmarshalMessage k (wire sample_query) =
    Ok (sample_query\<lparr>m_Header := SetAncount (int (length (m_Answers sample_query))) (SetQdcount 1 (m_Header sample_query))\<rparr>)"
  unfolding wire_def
  by (rule UnmarshalMessage_Marshal) (simp_all add: sample_query_def SetQuestion_def NewQuestion_def NewMessage_def name_ok_def)

lemma wire_message: "UnmarshalMessage k (wire sample_message) =
    Ok (sample_message\<lparr>m_Header := SetAncount (int (length (m_Answers sample_message))) (SetQdcount 1 (m_Header sample_message))\<rparr>)"
  unfolding wire_def
  by (rule UnmarshalMessage_Marshal) (simp_all add: sample_message_ok name_ok_def)

lemma sample_ports: "port_of ''1.1.1.1'' = ''''" "port_of ''8.8.8.8:53'' = ''53''"
  by (simp_all add: port_of_def SplitHostPort_def Let_def)

lemma sample_upstream: "us_servers (c_ups (d_client sample_dns) u) = [''1.1.1.1:53'', ''8.8.8.8:53'']"
  "us_index (c_ups (d_client sample_dns) u) = 0"
  by (simp_all add: sample_dns_def NewClient_def sample_dns_config_def NewUPStream_def sample_ports JoinHostPort_def)

lemma sample_answers: "answers sample_dns_env network req i ''8.8.8.8:53'' \<noteq> None"
    "answers sample_dns_env network req i ''1.1.1.1:53'' = None"
  by (auto simp: answers_def sample_dns_env_def on_network_def exchangeTCP_def exchangeUDP_def be16_def be16_of_def Let_def)

theorem exchange_finds_server_witness:
  "\<exists>network addr b s'. exchange sample_dns_env ''a.com'' [0, 1] False sample_dns =
     (Some (''8.8.8.8:53'', network, addr, Inr b), s')"
proof -
  let ?ss = "[''1.1.1.1:53'', ''8.8.8.8:53'']"
  have "\<exists>j < length ?ss. \<exists>network addr b s'.
    exchange sample_dns_env ''a.com'' [0, 1] False sample_dns = (Some (?ss ! ((0 + j) mod length ?ss), network, addr, Inr b), s') \<and>
    answers sample_dns_env network [0, 1] j (?ss ! ((0 + j) mod length ?ss)) = Some b \<and>
    (\<forall>l < j. answers sample_dns_env network [0, 1] l (?ss ! ((0 + l) mod length ?ss)) = None)"
    by (rule exchange_finds_server [where good = "''8.8.8.8:53''"]) (simp_all add: sample_upstream sample_answers)
  then obtain j network addr b s' where j: "j < 2"
    "exchange sample_dns_env ''a.com'' [0, 1] False sample_dns = (Some (?ss ! j, network, addr, Inr b), s')"
    "answers sample_dns_env network [0, 1] j (?ss ! j) = Some b"
    by (auto simp: numeral_2_eq_2)
  then have "j \<noteq> 0" using sample_answers(2) by (metis nth_Cons_0 option.distinct(1))
  then have "?ss ! j = ''8.8.8.8:53''" using j(1) by (simp add: less_2_cases_iff)
  with j(2) show ?thesis by auto
qed

theorem custom_record_answered_witness:
  "\<exists>c' v. AddRecord 7 0 (''a.com'' @ ''/'' @ ''1.2.3.4'') (d_client sample_dns) = Ok c' \<and>
     Exchange sample_dns_env (wire sample_query) False (sample_dns\<lparr>d_client := c'\<rparr>) = (Ok v, None, sample_dns\<lparr>d_client := c'\<rparr>)"
proof -
  have "\<exists>c' v. AddRecord 7 0 (''a.com'' @ ''/'' @ ''1.2.3.4'') (d_client sample_dns) = Ok c' \<and>
    Exchange sample_dns_env (wire sample_query) False (sample_dns\<lparr>d_client := c'\<rparr>) = (Ok v, None, sample_dns\<lparr>d_client := c'\<rparr>) \<and>
    (\<exists>m. UnmarshalMessage 3 \<lparr>b_arr = v @ [], b_len = length v\<rparr> = Ok m \<and>
      h_ID (m_Header m) = h_ID (m_Header (sample_query\<lparr>m_Header := SetAncount (int (length (m_Answers sample_query))) (SetQdcount 1 (m_Header sample_query))\<rparr>)) \<and>
      m_Question m = m_Question (sample_query\<lparr>m_Header := SetAncount (int (length (m_Answers sample_query))) (SetQdcount 1 (m_Header sample_query))\<rparr>) \<and>
      map rr_IP (m_Answers m) = [Some (unzoned (Addr4 [1, 2, 3, 4]))] \<and>
      map rr_TTL (m_Answers m) = [of_int (dc_MaxTTL (c_config (d_client sample_dns)))])"
    by (rule custom_record_answered [OF _ _ _ wire_query])
      (simp_all add: sample_hosts name_ok_def sample_query_def SetQuestion_def record_type_def)
  then show ?thesis by blast
qed

lemma sample_cache: "c_cache (d_client sample_dns) = NewLruCache 4096" "c_config (d_client sample_dns) = sample_dns_config"
  by (simp_all add: sample_dns_def NewClient_def sample_dns_config_def)

lemma sample_handled:
  assumes "c_cache (d_client s) = NewLruCache sz"
  shows "\<exists>s'. handleAnswer sample_dns_env (wire sample_message) s = (Ok (), s')"
proof -
  have "Set now k v ttl (NewLruCache sz) \<noteq> None" for now k v ttl
    using Set_refines [OF NewLruCache_rep(1)] by (metis length_Cons list.size(3) numeral_2_eq_2 order_refl option.distinct(1))
  then have "\<exists>ca. Set now k v ttl (NewLruCache sz) = Some ca" for now k v ttl by blast
  moreover obtain ips ttl st where "extractAnswer (d_client s) (sample_message\<lparr>m_Header :=
      SetAncount (int (length (m_Answers sample_message))) (SetQdcount 1 (m_Header sample_message))\<rparr>) (d_state s) = (ips, ttl, st)"
    by (metis prod_cases3)
  ultimately show ?thesis
    by (simp add: handleAnswer_def wire_message assms Let_def) (metis option.simps(5))
qed


end
