(* ===== verification/Channels.thy ===== *)
theory Channels
  imports Prelude
begin

text \<open>
  Dialogues over a byte stream. A protocol step of the proxies is a function that writes to and reads
  from a connection; it becomes a \<open>proc\<close>: write some bytes, read exactly so many
  (\<open>io.ReadFull\<close>), or end with a result, each continuation told about the error if there was one.

  \<open>run_on\<close> lets a process talk to a peer that has sent fixed bytes and closed. \<open>comm\<close> is the
  interleaving of two processes connected to each other. The order of the steps does not
  matter: \<open>comm_joinable\<close> shows that every partial run of a dialogue that can end does end the same way.
\<close>

datatype 'r proc = Done 'r | Recv nat "string + bytes \<Rightarrow> 'r proc" | Send bytes "string option \<Rightarrow> 'r proc"

text \<open>
  Against a fixed input: the bytes written, the result and the input left. The writes succeed as
  long as \<open>w\<close> says so (\<open>w i\<close> is the error of the \<open>i\<close>-th write).
\<close>

primrec run_on :: "'r proc \<Rightarrow> (nat \<Rightarrow> string option) \<Rightarrow> bytes \<Rightarrow> bytes \<times> 'r \<times> bytes" where
  "run_on (Done r) w inp = ([], r, inp)"
| "run_on (Recv n k) w inp =
     (if length inp < n then run_on (k (Inl (if inp = [] then ''EOF'' else ''unexpected EOF''))) w []
      else run_on (k (Inr (take n inp))) w (drop n inp))"
| "run_on (Send b k) w inp =
     (case w 0 of
        Some e \<Rightarrow> run_on (k (Some e)) (\<lambda>i. w (Suc i)) inp
      | None \<Rightarrow> let (out, r) = run_on (k None) (\<lambda>i. w (Suc i)) inp in (b @ out, r))"

text \<open>The first process, the bytes on the way to it, the second one, the bytes on the way to that one.\<close>

inductive comm :: "('a proc \<times> bytes) \<times> ('b proc \<times> bytes) \<Rightarrow> ('a proc \<times> bytes) \<times> ('b proc \<times> bytes) \<Rightarrow> bool" where
  sendL: "comm ((Send b k, bp), (q, bq)) ((k None, bp), (q, bq @ b))"
| recvL: "n \<le> length bp \<Longrightarrow> comm ((Recv n k, bp), (q, bq)) ((k (Inr (take n bp)), drop n bp), (q, bq))"
| sendR: "comm ((p, bp), (Send b k, bq)) ((p, bp @ b), (k None, bq))"
| recvR: "n \<le> length bq \<Longrightarrow> comm ((p, bp), (Recv n k, bq)) ((p, bp), (k (Inr (take n bq)), drop n bq))"

inductive_cases comm_cases: "comm ((p, bp), (q, bq)) t"

lemma recv_more:
  "n \<le> length bp \<Longrightarrow> comm ((Recv n k, bp @ b), qq) ((k (Inr (take n bp)), drop n bp @ b), qq)"
  "n \<le> length bq \<Longrightarrow> comm (pp, (Recv n k, bq @ b)) (pp, (k (Inr (take n bq)), drop n bq @ b))"
  using recvL [of n "bp @ b" k "fst qq" "snd qq"] recvR [of n "bq @ b" "fst pp" "snd pp" k] by simp_all

text \<open>A step of one process and a step of the other lead back together.\<close>

lemma comm_diamond:
  assumes "comm s t" and "comm s u" and "t \<noteq> u"
  shows "\<exists>v. comm t v \<and> comm u v"
proof -
  obtain p bp q bq where s: "s = ((p, bp), (q, bq))" by (metis surj_pair)
  from assms(1) [unfolded s] assms(2) [unfolded s] show ?thesis
    using assms(3)
    by (elim comm_cases; simp; blast intro: sendL sendR recvL recvR recv_more)
qed

text \<open>
  What one run ends in, every run ends in: from any state a run can get to, the final state is still
  reached, whoever was scheduled so far.
\<close>

lemma comm_strip:
  assumes "comm\<^sup>*\<^sup>* s t" and "\<nexists>v. comm t v" and "comm s u"
  shows "comm\<^sup>*\<^sup>* u t"
  using assms(1,3)
proof (induction arbitrary: u rule: converse_rtranclp_induct)
  case base
  with assms(2) show ?case by blast
next
  case (step s s2)
  show ?case
  proof (cases "u = s2")
    case False
    then obtain v where "comm u v" "comm s2 v" using comm_diamond step.hyps(1) step.prems by metis
    then show ?thesis using step.IH by (meson converse_rtranclp_into_rtranclp)
  qed (use step.hyps(2) in simp)
qed

lemma comm_joinable:
  assumes "comm\<^sup>*\<^sup>* s u" and "comm\<^sup>*\<^sup>* s t" and "\<nexists>v. comm t v"
  shows "comm\<^sup>*\<^sup>* u t"
  using assms(1,2)
proof (induction rule: rtranclp_induct)
  case (step y z)
  then show ?case using comm_strip [OF _ assms(3)] by blast
qed

lemma Done_final: "\<nexists>v. comm ((Done x, bp), (Done y, bq)) v"
  by (auto elim: comm_cases)

section \<open>One side of a dialogue\<close>

text \<open>\<open>p\<close> reads \<open>a\<close> and goes on as \<open>p'\<close>; \<open>p\<close> writes \<open>a\<close> and goes on as \<open>p'\<close>.\<close>

inductive eats :: "'r proc \<Rightarrow> bytes \<Rightarrow> 'r proc \<Rightarrow> bool" where
  eats_refl: "eats p [] p"
| eats_recv: "length a = n \<Longrightarrow> eats (k (Inr a)) b p' \<Longrightarrow> eats (Recv n k) (a @ b) p'"

lemma eats_one: "length a = n \<Longrightarrow> eats (Recv n k) a (k (Inr a))"
  using eats_recv [of a n k "[]"] eats_refl by fastforce

lemma eats_trans: "eats p a p' \<Longrightarrow> eats p' b p'' \<Longrightarrow> eats p (a @ b) p''"
  by (induction rule: eats.induct) (auto intro: eats.intros)

lemma eats_comm:
  assumes "eats p a p'"
  shows "comm\<^sup>*\<^sup>* ((p, a @ r), (q, bq)) ((p', r), (q, bq))" and "comm\<^sup>*\<^sup>* ((q', bq'), (p, a @ r)) ((q', bq'), (p', r))"
  using assms
proof (induction rule: eats.induct)
  case (eats_recv a n k b p')
  {
    case 1
    have "comm ((Recv n k, a @ b @ r), (q, bq)) ((k (Inr a), b @ r), (q, bq))"
      using recvL [of n "a @ b @ r" k q bq] eats_recv(1) by simp
    with eats_recv(3) show ?case by (simp add: converse_rtranclp_into_rtranclp)
  next
    case 2
    have "comm ((q', bq'), (Recv n k, a @ b @ r)) ((q', bq'), (k (Inr a), b @ r))"
      using recvR [of n "a @ b @ r" q' bq' k] eats_recv(1) by simp
    with eats_recv(4) show ?case by (simp add: converse_rtranclp_into_rtranclp)
  }
qed simp_all

lemma eats_run: "eats p a p' \<Longrightarrow> run_on p w (a @ r) = run_on p' w r"
  by (induction rule: eats.induct) auto

text \<open>
  A dialogue proceeds when one process writes and the other, waiting, reads just that. \<open>turnL\<close> is
  a message from the first process to the second, \<open>turnR\<close> one the other way.
\<close>

lemma turnL: "eats q b q' \<Longrightarrow> comm\<^sup>*\<^sup>* ((Send b k, []), (q, [])) ((k None, []), (q', []))"
  using eats_comm(2) [of q b q' "k None" "[]" "[]"] sendL [of b k "[]" q "[]"]
  by (simp add: converse_rtranclp_into_rtranclp)

lemma turnR: "eats p b p' \<Longrightarrow> comm\<^sup>*\<^sup>* ((p, []), (Send b k, [])) ((p', []), (k None, []))"
  using eats_comm(1) [of p b p' "[]" "k None" "[]"] sendR [of p "[]" b k "[]"]
  by (simp add: converse_rtranclp_into_rtranclp)

end
