(* ===== verification/SocksAddr.thy ===== *)
theory SocksAddr
  imports GoNet Channels
begin

text \<open>
  Addresses of SOCKS and of the protocols that borrow them: \<open>src/pkg/socks/socks.go\<close>, the addresses of
  VLESS and VMess (\<open>src/proxy/vless/addr.go\<close>, \<open>src/proxy/vmess/addr.go\<close>) and the UDP packets of
  SOCKS5 and Trojan (\<open>src/proxy/socks5/packet.go\<close>, \<open>src/proxy/trojan/packet.go\<close>).

  Reading from a connection is a \<open>proc\<close> that hands its outcome to a continuation. \<open>String\<close> indexes
  its address without checking; \<open>None\<close> is the panic. The textual form of IP addresses is that of the \<open>net\<close> package.
\<close>

section \<open>The textual form of IP addresses\<close>

fun hex_digits :: "nat \<Rightarrow> string" where
  "hex_digits n = (let d = char_of (if n mod 16 < 10 then 48 + n mod 16 else 87 + n mod 16)
     in if n < 16 then [d] else hex_digits (n div 16) @ [d])"

declare hex_digits.simps [simp del]

fun groups16 :: "bytes \<Rightarrow> nat list" where
  "groups16 (a # b # r) = unat (be16_of a b) # groups16 r"
| "groups16 r = []"

text \<open>The first longest run of at least two zero groups, from index \<open>i\<close> on: start and end.\<close>

fun zero_run :: "nat \<Rightarrow> nat list \<Rightarrow> nat \<times> nat \<Rightarrow> nat \<times> nat" where
  "zero_run i [] best = best"
| "zero_run i (g # gs) best =
     (let l = length (takeWhile (\<lambda>x. x = 0) (g # gs))
      in zero_run (Suc i) gs (if 2 \<le> l \<and> snd best - fst best < l then (i, i + l) else best))"

definition ip6_string :: "bytes \<Rightarrow> string" where
  "ip6_string b =
     (let gs = groups16 b; (s, e) = zero_run 0 gs (255, 255);
          hex = (\<lambda>xs. join_with '':'' (map hex_digits xs))
      in if e = s then hex gs else hex (take s gs) @ ''::'' @ hex (drop e gs))"

text \<open>\<open>net.IP.String\<close>: a mapped IPv4 address is written as an IPv4 address.\<close>

definition ip_string :: "bytes \<Rightarrow> string" where
  "ip_string b =
     (if length b = 4 then dotted b
      else if take 12 b = replicate 10 0 @ [0xFF, 0xFF] then dotted (drop 12 b)
      else ip6_string b)"

section \<open>SOCKS addresses\<close>

definition ATypIP4 :: u8 where "ATypIP4 = 1"
definition ATypDomain :: u8 where "ATypDomain = 3"
definition ATypIP6 :: u8 where "ATypIP6 = 4"

definition Errors :: "string list" where
  "Errors = ['''', ''general failure'', ''connection forbidden'', ''network unreachable'', ''host unreachable'',
     ''connection refused'', ''TTL expired'', ''command not supported'', ''address type not supported'', ''socks5UDPAssociate'']"

definition port_num :: "u8 \<Rightarrow> u8 \<Rightarrow> nat" where
  "port_num a b = unat a * 256 + unat b"

definition Addr_String :: "bytes \<Rightarrow> string option" where
  "Addr_String a =
     (case a of
        [] \<Rightarrow> None
      | t # r \<Rightarrow>
          if t = ATypDomain then
            (case r of
               [] \<Rightarrow> None
             | l # d \<Rightarrow>
                 if length d < unat l + 2 then None
                 else Some (JoinHostPort (map byte_char (take (unat l) d)) (dec (port_num (d ! unat l) (d ! (unat l + 1))))))
          else if t = ATypIP4 then
            (if length r < 6 then None else Some (JoinHostPort (ip_string (take 4 r)) (dec (port_num (r ! 4) (r ! 5)))))
          else if t = ATypIP6 then
            (if length r < 18 then None else Some (JoinHostPort (ip_string (take 16 r)) (dec (port_num (r ! 16) (r ! 17)))))
          else Some (JoinHostPort [] []))"

definition recv_or :: "nat \<Rightarrow> (string + 'a \<Rightarrow> 'r proc) \<Rightarrow> (bytes \<Rightarrow> 'r proc) \<Rightarrow> 'r proc" where
  "recv_or n k f = Recv n (\<lambda>r. case r of Inl e \<Rightarrow> k (Inl e) | Inr b \<Rightarrow> f b)"

definition ReadAddr :: "(string + bytes \<Rightarrow> 'r proc) \<Rightarrow> 'r proc" where
  "ReadAddr k =
     recv_or 1 k (\<lambda>b.
       if hd b = ATypDomain then
         recv_or 1 k (\<lambda>l. recv_or (unat (hd l) + 2) k (\<lambda>d. k (Inr (b @ l @ d))))
       else if hd b = ATypIP4 then recv_or (4 + 2) k (\<lambda>d. k (Inr (b @ d)))
       else if hd b = ATypIP6 then recv_or (16 + 2) k (\<lambda>d. k (Inr (b @ d)))
       else k (Inl (Errors ! 8)))"

definition SplitAddr :: "bytes \<Rightarrow> bytes option" where
  "SplitAddr b =
     (if length b < 1 then None
      else
        let addrLen = (if b ! 0 = ATypDomain then (if length b < 2 then None else Some (1 + 1 + unat (b ! 1) + 2))
                       else if b ! 0 = ATypIP4 then Some (1 + 4 + 2)
                       else if b ! 0 = ATypIP6 then Some (1 + 16 + 2)
                       else None)
        in case addrLen of None \<Rightarrow> None | Some n \<Rightarrow> if length b < n then None else Some (take n b))"

definition Socks_ParseAddr :: "string \<Rightarrow> bytes option" where
  "Socks_ParseAddr s =
     (case SplitHostPort s of
        None \<Rightarrow> None
      | Some (host, port) \<Rightarrow>
         (case (case ParseAddr host of
                  Some ip \<Rightarrow> Some ((if Is6 ip then ATypIP6 else ATypIP4) # addr_bytes ip)
                | None \<Rightarrow> if 255 < length host then None
                          else Some (ATypDomain # of_nat (length host) # map char_byte host)) of
            None \<Rightarrow> None
          | Some a \<Rightarrow>
             (case ParseUint port 16 of
                (portnum, None) \<Rightarrow> Some (a @ be16 (of_nat portnum))
              | (_, Some e) \<Rightarrow> None)))"

section \<open>Reading and splitting\<close>

lemmas atyp_defs = ATypIP4_def ATypDomain_def ATypIP6_def

lemma SplitAddr_cases:
  assumes "SplitAddr b = Some a"
  obtains (domain) l d r where "b = ATypDomain # l # d @ r" "a = ATypDomain # l # d" "length d = unat l + 2"
    | (ip4) d r where "b = ATypIP4 # d @ r" "a = ATypIP4 # d" "length d = 6"
    | (ip6) d r where "b = ATypIP6 # d @ r" "a = ATypIP6 # d" "length d = 18"
proof -
  obtain t b' where b: "b = t # b'" using assms by (cases b) (auto simp: SplitAddr_def)
  show thesis
  proof (cases "t = ATypDomain")
    case True
    with assms b obtain l b'' where b': "b' = l # b''" by (cases b') (auto simp: SplitAddr_def)
    with assms b True have "unat l + 2 \<le> length b''" "a = ATypDomain # l # take (unat l + 2) b''"
      by (auto simp: SplitAddr_def split: if_splits)
    then show thesis using domain [of l "take (unat l + 2) b''" "drop (unat l + 2) b''"] b b' True by simp
  next
    case False
    then have "t = ATypIP4 \<and> 6 \<le> length b' \<and> a = ATypIP4 # take 6 b' \<or> t = ATypIP6 \<and> 18 \<le> length b' \<and> a = ATypIP6 # take 18 b'"
      using assms b by (auto simp: SplitAddr_def Let_def split: if_splits)
    then show thesis
      using ip4 [of "take 6 b'" "drop 6 b'"] ip6 [of "take 18 b'" "drop 18 b'"] b by auto
  qed
qed

lemma SplitAddr_simps [simp]:
  "length d = unat l + 2 \<Longrightarrow> SplitAddr (ATypDomain # l # d @ r) = Some (ATypDomain # l # d)"
  "length d' = 6 \<Longrightarrow> SplitAddr (ATypIP4 # d' @ r) = Some (ATypIP4 # d')"
  "length d'' = 18 \<Longrightarrow> SplitAddr (ATypIP6 # d'' @ r) = Some (ATypIP6 # d'')"
  by (simp_all add: SplitAddr_def atyp_defs)

definition wf_addr :: "bytes \<Rightarrow> bool" where
  "wf_addr a \<longleftrightarrow> SplitAddr a = Some a"

lemma SplitAddr_prefix: "SplitAddr b = Some a \<Longrightarrow> wf_addr a \<and> b = a @ drop (length a) b"
  by (erule SplitAddr_cases) (auto simp: wf_addr_def SplitAddr_def atyp_defs)

lemma SplitAddr_append: "wf_addr a \<Longrightarrow> SplitAddr (a @ r) = Some a"
  unfolding wf_addr_def by (erule SplitAddr_cases) auto

lemma wf_addr_length: "wf_addr a \<Longrightarrow> length a \<le> 259"
proof -
  have l: "unat l \<le> 255" for l :: u8
  proof -
    have "unat l < 256" using unsigned_less [of l] by simp
    then show ?thesis by linarith
  qed
  show "wf_addr a \<Longrightarrow> length a \<le> 259" unfolding wf_addr_def by (erule SplitAddr_cases) (use l in simp_all)
qed

text \<open>\<open>SplitAddr\<close> on the front of a longer message, as a decoder: addresses are self-delimiting.\<close>

definition split_off :: "bytes \<Rightarrow> (bytes \<times> bytes) option" where
  "split_off b = map_option (\<lambda>a. (a, drop (length a) b)) (SplitAddr b)"

interpretation addresses: framing "\<lambda>a. a" split_off wf_addr
  by unfold_locales (auto simp: split_off_def SplitAddr_append wf_addr_def [of "[]"] SplitAddr_def [of "[]"])

lemma eats_recv_or: "length a = n \<Longrightarrow> eats (f a) b p \<Longrightarrow> eats (recv_or n k f) (a @ b) p"
  unfolding recv_or_def by (rule eats_recv) simp_all

lemma eats_ReadAddr:
  assumes "wf_addr a"
  shows "eats (ReadAddr k) a (k (Inr a))"
  using assms unfolding wf_addr_def
proof (cases rule: SplitAddr_cases)
  case (domain l d r)
  have "eats (recv_or (unat l + 2) k (\<lambda>d. k (Inr ([ATypDomain] @ [l] @ d)))) (d @ []) (k (Inr a))"
    by (rule eats_recv_or) (use domain eats_refl in simp_all)
  then have "eats (recv_or 1 k (\<lambda>l. recv_or (unat (hd l) + 2) k (\<lambda>d. k (Inr ([ATypDomain] @ l @ d))))) ([l] @ d) (k (Inr a))"
    by (intro eats_recv_or) simp_all
  then have "eats (ReadAddr k) ([ATypDomain] @ [l] @ d) (k (Inr a))"
    unfolding ReadAddr_def by (intro eats_recv_or) (simp_all add: atyp_defs)
  then show ?thesis by (simp add: domain(2))
next
  case (ip4 d r)
  have "eats (recv_or (4 + 2) k (\<lambda>d. k (Inr ([ATypIP4] @ d)))) (d @ []) (k (Inr a))"
    by (rule eats_recv_or) (use ip4 eats_refl in simp_all)
  then have "eats (ReadAddr k) ([ATypIP4] @ d) (k (Inr a))"
    unfolding ReadAddr_def by (intro eats_recv_or) (simp_all add: atyp_defs)
  then show ?thesis by (simp add: ip4(2))
next
  case (ip6 d r)
  have "eats (recv_or (16 + 2) k (\<lambda>d. k (Inr ([ATypIP6] @ d)))) (d @ []) (k (Inr a))"
    by (rule eats_recv_or) (use ip6 eats_refl in simp_all)
  then have "eats (ReadAddr k) ([ATypIP6] @ d) (k (Inr a))"
    unfolding ReadAddr_def by (intro eats_recv_or) (simp_all add: atyp_defs)
  then show ?thesis by (simp add: ip6(2))
qed

lemma run_ReadAddr:
  assumes "SplitAddr inp = Some a"
  shows "run_on (ReadAddr k) w inp = run_on (k (Inr a)) w (drop (length a) inp)"
  using SplitAddr_prefix [OF assms] eats_run [OF eats_ReadAddr] by metis

lemma run_ReadAddr_fails:
  assumes "SplitAddr inp = None"
  shows "\<exists>e rest. run_on (ReadAddr Done) w inp = ([], Inl e, rest)"
proof (cases inp)
  case (Cons t r)
  show ?thesis
  proof (cases "t = ATypDomain")
    case True
    then show ?thesis using assms Cons
      by (cases r) (auto simp: ReadAddr_def recv_or_def SplitAddr_def atyp_defs split: if_splits)
  next
    case False
    then show ?thesis using assms Cons
      by (auto simp: ReadAddr_def recv_or_def SplitAddr_def Let_def split: if_splits)
  qed
qed (simp add: ReadAddr_def recv_or_def)

text \<open>
  C28. The two readers agree. \<open>ReadAddr\<close> on a stream returns exactly the address \<open>SplitAddr\<close> finds at the
  front of the bytes and leaves the rest of the stream untouched, and it fails exactly when
  \<open>SplitAddr\<close> finds none.
\<close>

theorem ReadAddr_SplitAddr:
  "case SplitAddr inp of
     Some a \<Rightarrow> run_on (ReadAddr Done) w inp = ([], Inr a, drop (length a) inp)
   | None \<Rightarrow> \<exists>e rest. run_on (ReadAddr Done) w inp = ([], Inl e, rest)"
  using run_ReadAddr [of inp _ Done w] run_ReadAddr_fails [of inp w]
  by (cases "SplitAddr inp") auto

section \<open>Parsing and printing\<close>

lemma port_num_be16: "port_num (ucast (drop_bit 8 (w :: u16))) (ucast w) = unat w"
proof -
  have "unat w < 65536" using unsigned_less [of w] by simp
  then have "unat w div 256 mod 256 = unat w div 256" by simp
  then have "unat (ucast (drop_bit 8 w) :: u8) = unat w div 256" "unat (ucast w :: u8) = unat w mod 256"
    by (simp_all add: unsigned_ucast_eq take_bit_eq_mod drop_bit_eq_div unat_div)
  then show ?thesis by (simp add: port_num_def)
qed

lemma Socks_ParseAddr_wf: "Socks_ParseAddr s = Some a \<Longrightarrow> wf_addr a"
proof -
  assume p: "Socks_ParseAddr s = Some a"
  then obtain host port n where h: "SplitHostPort s = Some (host, port)" "ParseUint port 16 = (n, None)"
    by (auto simp: Socks_ParseAddr_def split: option.splits prod.splits)
  show "wf_addr a"
  proof (cases "ParseAddr host")
    case None
    with p h have "length host \<le> 255" "a = ATypDomain # of_nat (length host) # map char_byte host @ be16 (of_nat n)"
      by (auto simp: Socks_ParseAddr_def split: if_splits)
    moreover from this have "unat (of_nat (length host) :: u8) = length host" by (intro unat_of_nat_small) simp
    ultimately show ?thesis
      using SplitAddr_simps(1) [of "map char_byte host @ be16 (of_nat n)" "of_nat (length host)" "[]"] by (simp add: wf_addr_def)
  next
    case (Some ip)
    with p h ParseAddr_ok [OF Some] show ?thesis
      using SplitAddr_simps(2) [of "addr_bytes ip @ be16 (of_nat n)" "[]"] SplitAddr_simps(3) [of "addr_bytes ip @ be16 (of_nat n)" "[]"]
      by (cases ip) (auto simp: Socks_ParseAddr_def addr_ok_def wf_addr_def)
  qed
qed

text \<open>Hosts whose textual form is canonical: names, and IPv4 addresses.\<close>

definition plain_host :: "string \<Rightarrow> bool" where
  "plain_host h \<longleftrightarrow> set h \<inter> {CHR ''['', CHR '']''} = {} \<and>
     (ParseAddr h = None \<and> length h \<le> 255 \<or> (\<exists>b. length b = 4 \<and> h = dotted b))"

lemma dec_plain: "set (dec n) \<inter> {CHR ''['', CHR '']''} = {}" "CHR '':'' \<notin> set (dec n)"
proof -
  have "\<not> is_digit CHR ''[''" "\<not> is_digit CHR '']''" "\<not> is_digit CHR '':''" by (simp_all add: is_digit_def)
  then show "set (dec n) \<inter> {CHR ''['', CHR '']''} = {}" "CHR '':'' \<notin> set (dec n)" using dec_digits by auto
qed

lemma SplitHostPort_plain: "plain_host h \<Longrightarrow> SplitHostPort (JoinHostPort h (dec p)) = Some (h, dec p)"
  using dec_plain [of p] by (intro SplitHostPort_Join) (auto simp: plain_host_def)

lemma Socks_ParseAddr_string:
  assumes "plain_host h" and "p < 65536"
  shows "\<exists>a. Socks_ParseAddr (JoinHostPort h (dec p)) = Some a \<and> Addr_String a = Some (JoinHostPort h (dec p))"
proof -
  have u: "ParseUint (dec p) 16 = (p, None)" using assms(2) by (intro ParseUint_dec) simp
  have p: "port_num (ucast (drop_bit 8 (of_nat p :: u16))) (ucast (of_nat p :: u16)) = p"
    using assms(2) by (simp add: port_num_be16 unat_of_nat)
  from assms(1) consider "ParseAddr h = None" "length h \<le> 255" | b where "length b = 4" "h = dotted b"
    by (auto simp: plain_host_def)
  then show ?thesis
  proof cases
    case 1
    then have "unat (of_nat (length h) :: u8) = length h" by (intro unat_of_nat_small) simp
    with 1 SplitHostPort_plain [OF assms(1)] u p show ?thesis
      by (simp add: Socks_ParseAddr_def Addr_String_def nth_append be16_def o_def)
  next
    case 2
    with SplitHostPort_plain [OF assms(1)] u p ParseAddr_dotted [OF 2(1)] show ?thesis
      by (simp add: Socks_ParseAddr_def Addr_String_def nth_append be16_def atyp_defs ip_string_def)
  qed
qed

section \<open>SOCKS5 packets\<close>

record PktConn =
  pc_writeTo :: "string option"
  pc_target :: "bytes option"

text \<open>
  \<open>readFrom\<close> on a datagram from \<open>raddr\<close>, into a buffer of \<open>room\<close> bytes; \<open>resolve\<close> is
  \<open>net.ResolveUDPAddr\<close>.
\<close>

definition readFrom :: "(string \<Rightarrow> string option) \<Rightarrow> nat \<Rightarrow> bytes \<Rightarrow> string \<Rightarrow> PktConn \<Rightarrow> (string + bytes \<times> string \<times> string) \<times> PktConn" where
  "readFrom resolve room data raddr pc =
     (let buf = take room data in
      if length buf < 3 then (Inl ''not enough size to get addr'', pc)
      else
        case SplitAddr (drop 3 buf) of
          None \<Rightarrow> (Inl ''can not get target addr'', pc)
        | Some tgtAddr \<Rightarrow>
           (case Option.bind (Addr_String tgtAddr) resolve of
              None \<Rightarrow> (Inl ''wrong target addr'', pc)
            | Some target \<Rightarrow>
                let pc1 = (if pc_writeTo pc = None then pc\<lparr>pc_writeTo := Some raddr\<rparr> else pc);
                    pc2 = (if pc_target pc1 = None then pc1\<lparr>pc_target := Some tgtAddr\<rparr> else pc1)
                in (Inr (drop (3 + length tgtAddr) buf, raddr, target), pc2)))"

text \<open>The datagram \<open>WriteTo\<close> sends, and to whom.\<close>

definition WriteTo :: "bytes \<Rightarrow> string option \<Rightarrow> PktConn \<Rightarrow> string + bytes \<times> string option" where
  "WriteTo b addr pc =
     (case (case addr of Some a \<Rightarrow> Socks_ParseAddr a | None \<Rightarrow> pc_target pc) of
        None \<Rightarrow> Inl ''invalid addr''
      | Some target \<Rightarrow> Inr ([0, 0, 0] @ target @ b, pc_writeTo pc))"

lemma Addr_String_wf: "wf_addr a \<Longrightarrow> \<exists>s. Addr_String a = Some s"
  unfolding wf_addr_def by (erule SplitAddr_cases) (auto simp: Addr_String_def atyp_defs)

section \<open>Trojan packets\<close>

definition Trojan_ReadFrom :: "(string \<Rightarrow> string option) \<Rightarrow> nat \<Rightarrow> (string + bytes \<times> string \<Rightarrow> 'r proc) \<Rightarrow> 'r proc" where
  "Trojan_ReadFrom resolve room k =
     ReadAddr (\<lambda>r. case r of
       Inl e \<Rightarrow> k (Inl e)
     | Inr tgtAddr \<Rightarrow>
        (case Option.bind (Addr_String tgtAddr) resolve of
           None \<Rightarrow> k (Inl ''cannot resolve'')
         | Some target \<Rightarrow>
             if room < 2 then k (Inl ''buf size is not enough'')
             else recv_or 2 k (\<lambda>l.
               let len = unat (be16_of (l ! 0) (l ! 1)) in
               if room < len then k (Inl ''buf size is not enough'')
               else recv_or 2 k (\<lambda>crlf. recv_or len k (\<lambda>d. k (Inr (d, target)))))))"

definition Trojan_WriteTo :: "bytes \<Rightarrow> string option \<Rightarrow> bytes option \<Rightarrow> string + bytes" where
  "Trojan_WriteTo b addr target =
     (case (case addr of Some a \<Rightarrow> Socks_ParseAddr a | None \<Rightarrow> target) of
        None \<Rightarrow> Inl ''invalid addr''
      | Some t \<Rightarrow> Inr (t @ be16 (of_nat (length b)) @ [0x0D, 0x0A] @ b))"

text \<open>A packet to \<open>(target, payload)\<close> on a stream, and the reader at the other end.\<close>

definition trojan_frame :: "string \<times> bytes \<Rightarrow> bytes" where
  "trojan_frame x = (case Trojan_WriteTo (snd x) (Some (fst x)) None of Inr b \<Rightarrow> b | Inl e \<Rightarrow> [])"

definition trojan_unframe :: "(string \<Rightarrow> string option) \<Rightarrow> nat \<Rightarrow> bytes \<Rightarrow> ((string \<times> bytes) \<times> bytes) option" where
  "trojan_unframe resolve room inp =
     (case run_on (Trojan_ReadFrom resolve room Done) (\<lambda>_. None) inp of
        (_, Inr (d, target), rest) \<Rightarrow> Some ((target, d), rest)
      | (_, Inl e, rest) \<Rightarrow> None)"

definition packet_ok :: "(string \<Rightarrow> string option) \<Rightarrow> nat \<Rightarrow> string \<times> bytes \<Rightarrow> bool" where
  "packet_ok resolve room x \<longleftrightarrow>
     (\<exists>h p. fst x = JoinHostPort h (dec p) \<and> plain_host h \<and> p < 65536) \<and> resolve (fst x) = Some (fst x) \<and>
     2 \<le> room \<and> length (snd x) \<le> room \<and> length (snd x) < 65536"

lemma eats_Trojan_ReadFrom:
  assumes "wf_addr a" and "Option.bind (Addr_String a) resolve = Some t"
    and "2 \<le> room" and "length d \<le> room" and "length d < 65536"
  shows "eats (Trojan_ReadFrom resolve room k) (a @ be16 (of_nat (length d)) @ [0x0D, 0x0A] @ d) (k (Inr (d, t)))"
proof -
  have len: "unat (of_nat (length d) :: u16) = length d" using assms(5) by (intro unat_of_nat_small) simp
  have l: "unat (be16_of (be16 (of_nat (length d)) ! 0) (be16 (of_nat (length d)) ! 1)) = length d"
    by (simp add: be16_def len)
  have "eats (recv_or (length d) k (\<lambda>d. k (Inr (d, t)))) (d @ []) (k (Inr (d, t)))"
    by (rule eats_recv_or) (simp_all add: eats_refl)
  then have "eats (recv_or 2 k (\<lambda>crlf. recv_or (length d) k (\<lambda>d. k (Inr (d, t))))) ([0x0D, 0x0A] @ d) (k (Inr (d, t)))"
    by (intro eats_recv_or) simp_all
  then have "eats (recv_or 2 k (\<lambda>l. let len = unat (be16_of (l ! 0) (l ! 1)) in
      if room < len then k (Inl ''buf size is not enough'')
      else recv_or 2 k (\<lambda>crlf. recv_or len k (\<lambda>d. k (Inr (d, t)))))) (be16 (of_nat (length d)) @ [0x0D, 0x0A] @ d) (k (Inr (d, t)))"
    using assms(4) l by (intro eats_recv_or) (simp_all only: Let_def l, simp_all)
  then show ?thesis
    unfolding Trojan_ReadFrom_def using assms(2,3) by (intro eats_trans [OF eats_ReadAddr [OF assms(1)]]) simp
qed

interpretation trojan: framing trojan_frame "trojan_unframe resolve room" "packet_ok resolve room"
proof
  fix x r
  assume ok: "packet_ok resolve room x"
  then obtain a where a: "Socks_ParseAddr (fst x) = Some a" "Addr_String a = Some (fst x)"
    using Socks_ParseAddr_string unfolding packet_ok_def by metis
  then have f: "trojan_frame x = a @ be16 (of_nat (length (snd x))) @ [0x0D, 0x0A] @ snd x"
    by (simp add: trojan_frame_def Trojan_WriteTo_def)
  have "eats (Trojan_ReadFrom resolve room Done) (trojan_frame x) (Done (Inr (snd x, fst x)))"
    unfolding f using ok Socks_ParseAddr_wf [OF a(1)] a(2) by (intro eats_Trojan_ReadFrom) (auto simp: packet_ok_def)
  then show "trojan_unframe resolve room (trojan_frame x @ r) = Some (x, r)"
    by (simp add: trojan_unframe_def eats_run)
  show "trojan_frame x \<noteq> []" by (simp add: f)
qed

text \<open>
  Trojan's UDP packets survive the stream: packets written one after the other are read back as
  the same targets and payloads in the same order, whatever the packets contain, provided each
  fits the reader's buffer and 16 bits.
\<close>

theorem trojan_stream_roundtrip:
  assumes "\<forall>x \<in> set xs. packet_ok resolve room x"
  shows "decode_all (trojan_unframe resolve room) (length xs) (concat (map trojan_frame xs)) = Some xs"
  using assms by (rule trojan.decode_all_enc) simp

lemma sample_plain: "plain_host ''a.com''"
  by (simp add: plain_host_def ParseAddr_def parseIPv4_def is_digit_def digit_val_def Let_def)

theorem trojan_stream_roundtrip_witness:
  "decode_all (trojan_unframe Some 100) 2 (concat (map trojan_frame [(''a.com:53'', [1, 2]), (''a.com:53'', [])])) =
     Some [(''a.com:53'', [1, 2]), (''a.com:53'', [])]"
proof -
  have "''a.com:53'' = JoinHostPort ''a.com'' (dec 53)" by (simp add: JoinHostPort_def dec.simps char_of_def bit_iff_odd)
  then have "packet_ok Some 100 (''a.com:53'', d)" if "length d \<le> 100" for d
    using that sample_plain unfolding packet_ok_def by (intro conjI exI [of _ "''a.com''"] exI [of _ 53]) simp_all
  then show ?thesis
    using trojan_stream_roundtrip [of "[(''a.com:53'', [1, 2]), (''a.com:53'', [])]" Some 100]
    by (simp add: numeral_2_eq_2)
qed

lemma socks5_packet_roundtrip:
  assumes "WriteTo b (Some (JoinHostPort h (dec p))) pc = Inr (data, dst)" and "plain_host h" and "p < 65536"
    and "length data \<le> room" and "resolve (JoinHostPort h (dec p)) = Some t"
  shows "\<exists>pc2. readFrom resolve room data raddr pc' = (Inr (b, raddr, t), pc2)"
proof -
  obtain a where a: "Socks_ParseAddr (JoinHostPort h (dec p)) = Some a" "Addr_String a = Some (JoinHostPort h (dec p))"
    using Socks_ParseAddr_string [OF assms(2,3)] by blast
  then have d: "data = [0, 0, 0] @ a @ b" using assms(1) by (simp add: WriteTo_def)
  have "SplitAddr (a @ b) = Some a" using Socks_ParseAddr_wf [OF a(1)] by (rule SplitAddr_append)
  then show ?thesis using a(2) assms(4,5) d by (simp add: readFrom_def Let_def numeral_3_eq_3)
qed

section \<open>VLESS addresses\<close>

definition Vless_ParseAddr :: "string \<Rightarrow> (u8 \<times> bytes \<times> u16) option" where
  "Vless_ParseAddr s =
     (case SplitHostPort s of
        None \<Rightarrow> None
      | Some (host, port) \<Rightarrow>
         (case (case ParseAddr host of
                  Some ip \<Rightarrow> Some (if Is6 ip then 3 else 1, addr_bytes ip)
                | None \<Rightarrow> if 255 < length host then None else Some (2, of_nat (length host) # map char_byte host)) of
            None \<Rightarrow> None
          | Some (atyp, addr) \<Rightarrow>
             (case ParseUint port 16 of
                (portnum, None) \<Rightarrow> Some (atyp, addr, of_nat portnum)
              | (_, Some e) \<Rightarrow> None)))"

text \<open>An unknown address type is not an error: the host stays empty.\<close>

definition Vless_ReadAddr :: "(string + u8 \<times> bytes \<times> u16 \<Rightarrow> 'r proc) \<Rightarrow> 'r proc" where
  "Vless_ReadAddr k =
     recv_or 2 k (\<lambda>p.
     recv_or 1 k (\<lambda>t.
       let port = be16_of (p ! 0) (p ! 1); atyp = hd t in
       if atyp = 1 then recv_or 4 k (\<lambda>host. k (Inr (atyp, host, port)))
       else if atyp = 3 then recv_or 16 k (\<lambda>host. k (Inr (atyp, host, port)))
       else if atyp = 2 then recv_or 1 k (\<lambda>l. recv_or (unat (hd l)) k (\<lambda>host. k (Inr (atyp, host, port))))
       else k (Inr (atyp, [], port))))"

definition Vless_AddrString :: "u8 \<Rightarrow> bytes \<Rightarrow> u16 \<Rightarrow> string" where
  "Vless_AddrString atyp addr port =
     JoinHostPort (if atyp = 1 \<or> atyp = 3 then ip_string addr else if atyp = 2 then map byte_char addr else [])
       (dec (unat port))"

definition Vless_ReadAddrString :: "(string + string \<Rightarrow> 'r proc) \<Rightarrow> 'r proc" where
  "Vless_ReadAddrString k =
     Vless_ReadAddr (\<lambda>r. k (case r of Inl e \<Rightarrow> Inl e | Inr (atyp, host, port) \<Rightarrow> Inr (Vless_AddrString atyp host port)))"

text \<open>The address part of a VLESS request: port, type, host.\<close>

definition vless_addr :: "u8 \<times> bytes \<times> u16 \<Rightarrow> bytes" where
  "vless_addr x = (case x of (atyp, addr, port) \<Rightarrow> be16 port @ [atyp] @ addr)"

lemma eats_last: "length a = n \<Longrightarrow> f a = p \<Longrightarrow> eats (recv_or n k f) a p"
  using eats_recv_or [of a n f "[]" p k] eats_refl by auto

lemma eats_Vless_ReadAddr:
  "length host = 4 \<Longrightarrow> eats (Vless_ReadAddr k) (be16 port @ [1] @ host) (k (Inr (1, host, port)))"
  "length host' < 256 \<Longrightarrow>
    eats (Vless_ReadAddr k) (be16 port @ [2] @ [of_nat (length host')] @ host') (k (Inr (2, host', port)))"
proof -
  have p: "be16_of (be16 port ! 0) (be16 port ! Suc 0) = port" by (simp add: be16_def)
  show "eats (Vless_ReadAddr k) (be16 port @ [1] @ host) (k (Inr (1, host, port)))" if "length host = 4"
    unfolding Vless_ReadAddr_def Let_def p using that
    by (intro eats_recv_or [of "be16 port"] eats_recv_or [of "[1]"]) (auto simp: p intro: eats_last)
  assume "length host' < 256"
  then have l: "unat (of_nat (length host') :: u8) = length host'" by (intro unat_of_nat_small) simp
  have "eats (recv_or 1 k (\<lambda>l. recv_or (unat (hd l)) k (\<lambda>host. k (Inr (2, host, port))))) ([of_nat (length host')] @ host') (k (Inr (2, host', port)))"
    by (intro eats_recv_or) (auto simp: l intro: eats_last)
  then show "eats (Vless_ReadAddr k) (be16 port @ [2] @ [of_nat (length host')] @ host') (k (Inr (2, host', port)))"
    unfolding Vless_ReadAddr_def Let_def
    by (intro eats_recv_or [of "be16 port"] eats_recv_or [of "[2]"]) (auto simp: p)
qed

lemma vless_roundtrip:
  assumes "plain_host h" and "p < 65536" and "Vless_ParseAddr (JoinHostPort h (dec p)) = Some x"
  shows "eats (Vless_ReadAddrString k) (vless_addr x) (k (Inr (JoinHostPort h (dec p))))"
proof -
  have u: "ParseUint (dec p) 16 = (p, None)" using assms(2) by (intro ParseUint_dec) simp
  have pn: "unat (of_nat p :: u16) = p" using assms(2) by (intro unat_of_nat_small) simp
  let ?k = "\<lambda>r. k (case r of Inl e \<Rightarrow> Inl e | Inr (atyp, host, port) \<Rightarrow> Inr (Vless_AddrString atyp host port))"
  note h = SplitHostPort_plain [OF assms(1)]
  from assms(1) consider "ParseAddr h = None" "length h \<le> 255" | b where "length b = 4" "h = dotted b"
    by (auto simp: plain_host_def)
  then show ?thesis
  proof cases
    case 1
    have x: "vless_addr x = be16 (of_nat p) @ [2] @ [of_nat (length (map char_byte h))] @ map char_byte h"
      using assms(3) 1 h u by (auto simp: Vless_ParseAddr_def vless_addr_def)
    have "Vless_AddrString 2 (map char_byte h) (of_nat p) = JoinHostPort h (dec p)"
      by (simp add: Vless_AddrString_def pn o_def)
    then show ?thesis unfolding x Vless_ReadAddrString_def
      using eats_Vless_ReadAddr(2) [where host' = "map char_byte h" and port = "of_nat p" and k = "?k"] 1(2) by simp
  next
    case 2
    have x: "vless_addr x = be16 (of_nat p) @ [1] @ b"
      using assms(3) 2 h u ParseAddr_dotted [OF 2(1)] by (auto simp: Vless_ParseAddr_def vless_addr_def)
    have "Vless_AddrString 1 b (of_nat p) = JoinHostPort h (dec p)"
      by (simp add: Vless_AddrString_def pn ip_string_def 2)
    then show ?thesis unfolding x Vless_ReadAddrString_def
      using eats_Vless_ReadAddr(1) [OF 2(1), where port = "of_nat p" and k = "?k"] by simp
  qed
qed

end
