(* ===== verification/Socks5.thy ===== *)
theory Socks5
  imports SocksAddr
begin

text \<open>
  SOCKS5 (\<open>src/proxy/socks5\<close>): the client's \<open>connect\<close> and the server's \<open>handshake\<close> as processes, and the
  two put together. The texts of the client's errors are shortened; nothing depends on them.
\<close>

definition Version :: u8 where "Version = 5"
definition AuthNone :: u8 where "AuthNone = 0"
definition AuthPassword :: u8 where "AuthPassword = 2"
definition CmdConnect :: u8 where "CmdConnect = 1"
definition CmdUDPAssociate :: u8 where "CmdUDPAssociate = 3"

definition to_bytes :: "string \<Rightarrow> bytes" where
  "to_bytes s = map char_byte s"

definition of_bytes :: "bytes \<Rightarrow> string" where
  "of_bytes b = map byte_char b"

lemma of_to_bytes [simp]: "of_bytes (to_bytes s) = s" "length (to_bytes s) = length s"
  by (simp_all add: of_bytes_def to_bytes_def o_def)

definition recv_err :: "nat \<Rightarrow> (string \<Rightarrow> 'r proc) \<Rightarrow> (bytes \<Rightarrow> 'r proc) \<Rightarrow> 'r proc" where
  "recv_err n k f = Recv n (\<lambda>r. case r of Inl e \<Rightarrow> k e | Inr b \<Rightarrow> f b)"

definition send_or :: "bytes \<Rightarrow> (string \<Rightarrow> 'r proc) \<Rightarrow> 'r proc \<Rightarrow> 'r proc" where
  "send_or b k p = Send b (\<lambda>err. case err of Some e \<Rightarrow> k e | None \<Rightarrow> p)"

lemma eats_recv_err: "length a = n \<Longrightarrow> eats (f a) b p \<Longrightarrow> eats (recv_err n k f) (a @ b) p"
  unfolding recv_err_def by (rule eats_recv) simp_all

lemma eats_err_last: "length a = n \<Longrightarrow> f a = p \<Longrightarrow> eats (recv_err n k f) a p"
  using eats_recv_err [of a n f "[]" p k] eats_refl by auto

section \<open>The client\<close>

definition await_reply :: "(string + bytes) proc" where
  "await_reply = recv_err 3 (\<lambda>_. Done (Inl ''failed to read connect reply'')) (\<lambda>b.
     let failure = (if unat (b ! 1) < length Errors then Errors ! unat (b ! 1) else ''unknown error'') in
     if failure \<noteq> [] then Done (Inl failure) else ReadAddr Done)"

definition request :: "string \<Rightarrow> u8 \<Rightarrow> (string + bytes) proc" where
  "request target cmd =
     send_or ([Version, cmd, 0] @ (case Socks_ParseAddr target of Some a \<Rightarrow> a | None \<Rightarrow> [])) (\<lambda>e. Done (Inl ''failed to write connect request''))
       await_reply"

definition await_auth :: "string \<Rightarrow> u8 \<Rightarrow> (string + bytes) proc" where
  "await_auth target cmd =
     recv_err 2 (\<lambda>_. Done (Inl ''failed to read authentication reply'')) (\<lambda>r.
       if r ! 1 \<noteq> 0 then Done (Inl ''rejected username/password'') else request target cmd)"

definition await_greeting :: "string \<Rightarrow> string \<Rightarrow> string \<Rightarrow> u8 \<Rightarrow> (string + bytes) proc" where
  "await_greeting user password target cmd =
     recv_err 2 (\<lambda>_. Done (Inl ''failed to read greeting'')) (\<lambda>b.
       if b ! 0 \<noteq> Version then Done (Inl ''unexpected version'')
       else if b ! 1 = 0xff then Done (Inl ''requires authentication'')
       else if b ! 1 = AuthPassword then
         send_or ([1, of_nat (length user)] @ to_bytes user @ [of_nat (length password)] @ to_bytes password)
           (\<lambda>e. Done (Inl ''failed to write authentication request'')) (await_auth target cmd)
       else request target cmd)"

definition connect :: "string \<Rightarrow> string \<Rightarrow> string \<Rightarrow> u8 \<Rightarrow> (string + bytes) proc" where
  "connect user password target cmd =
     send_or ([Version] @ (if 0 < length user \<and> length user < 256 \<and> length password < 256
                           then [2, AuthNone, AuthPassword] else [1, AuthNone]))
       (\<lambda>e. Done (Inl ''failed to write greeting'')) (await_greeting user password target cmd)"

text \<open>
  \<open>DialUDP\<close>: where the datagrams go, given the address the server bound. An unspecified host
  means the server's own.
\<close>

definition relay_addr :: "string \<Rightarrow> string \<Rightarrow> string" where
  "relay_addr saddr uAddress =
     (case ParseAddr (host_of uAddress) of
        Some ip \<Rightarrow> if IsUnspecified ip then JoinHostPort (host_of saddr) (port_of uAddress) else uAddress
      | None \<Rightarrow> uAddress)"

section \<open>The server\<close>

definition serve_request :: "string \<Rightarrow> (string + bytes) proc" where
  "serve_request localAddr =
     recv_or 3 Done (\<lambda>b.
       let cmd = b ! 1 in
       ReadAddr (\<lambda>r. case r of
         Inl e \<Rightarrow> Done (Inl e)
       | Inr addr \<Rightarrow>
           if cmd = CmdConnect then
             send_or [5, 0, 0, 1, 0, 0, 0, 0, 0, 0] (\<lambda>e. Done (Inl e)) (Done (Inr addr))
           else if cmd = CmdUDPAssociate then
             send_or ([5, 0, 0] @ (case Socks_ParseAddr localAddr of Some a \<Rightarrow> a
                                   | None \<Rightarrow> (case Socks_ParseAddr ''127.0.0.1:0'' of Some a \<Rightarrow> a | None \<Rightarrow> [])))
               (\<lambda>e. Done (Inl (Errors ! 7))) (Done (Inl (Errors ! 9)))
           else Done (Inl (Errors ! 7))))"

definition verify :: "string \<Rightarrow> string \<Rightarrow> (string + bytes) proc \<Rightarrow> bytes \<Rightarrow> bytes \<Rightarrow> (string + bytes) proc" where
  "verify suser spassword next u p =
     (if of_bytes u \<noteq> suser \<or> of_bytes p \<noteq> spassword
      then send_or [1, 1] (\<lambda>e. Done (Inl e)) (Done (Inl ''auth failed''))
      else send_or [1, 0] (\<lambda>e. Done (Inl e)) next)"

definition get_password :: "string \<Rightarrow> string \<Rightarrow> (string + bytes) proc \<Rightarrow> bytes \<Rightarrow> (string + bytes) proc" where
  "get_password suser spassword next u =
     recv_err 1 (\<lambda>_. Done (Inl ''auth failed: cannot get password len'')) (\<lambda>l.
       let passLen = unat (hd l) in
       if passLen = 0 then Send [1, 1] (\<lambda>_. Done (Inl ''auth failed: wrong password length''))
       else recv_err passLen (\<lambda>_. Done (Inl ''auth failed: cannot get password'')) (verify suser spassword next u))"

definition check_password :: "string \<Rightarrow> string \<Rightarrow> (string + bytes) proc \<Rightarrow> (string + bytes) proc" where
  "check_password suser spassword next =
     recv_or 2 Done (\<lambda>b.
       let userLen = unat (b ! 1) in
       if userLen = 0 then Send [1, 1] (\<lambda>_. Done (Inl ''auth failed: wrong username length''))
       else recv_err userLen (\<lambda>_. Done (Inl ''auth failed: cannot get username'')) (get_password suser spassword next))"

definition handshake :: "string \<Rightarrow> string \<Rightarrow> string \<Rightarrow> (string + bytes) proc" where
  "handshake suser spassword localAddr =
     recv_or 2 Done (\<lambda>b.
       recv_or (unat (b ! 1)) Done (\<lambda>methods.
         if suser \<noteq> [] \<and> spassword \<noteq> [] then
           send_or [Version, AuthPassword] (\<lambda>e. Done (Inl e)) (check_password suser spassword (serve_request localAddr))
         else send_or [Version, AuthNone] (\<lambda>e. Done (Inl e)) (serve_request localAddr)))"

section \<open>Both together\<close>

lemma eats_ReadAddr_to: "wf_addr a \<Longrightarrow> k (Inr a) = p \<Longrightarrow> eats (ReadAddr k) a p"
  using eats_ReadAddr by blast

lemmas socks5_consts = Version_def AuthNone_def AuthPassword_def CmdConnect_def CmdUDPAssociate_def

lemma turn_send_or:
  "eats q b q' \<Longrightarrow> comm\<^sup>*\<^sup>* ((send_or b k p, []), (q, [])) ((p, []), (q', []))"
  "eats p' b p'' \<Longrightarrow> comm\<^sup>*\<^sup>* ((p', []), (send_or b k q, [])) ((p'', []), (q, []))"
  using turnL [of q b q' "case_option p k"] turnR [of p' b p'' "case_option q k"] unfolding send_or_def by simp_all

definition connected :: "bytes" where
  "connected = [1, 0, 0, 0, 0, 0, 0]"

lemma wf_connected: "wf_addr connected"
  by (simp add: connected_def wf_addr_def SplitAddr_def atyp_defs numeral_eq_Suc)

lemma serve_request_run:
  assumes "Socks_ParseAddr target = Some a"
  shows "comm\<^sup>*\<^sup>* ((request target CmdConnect, []), (serve_request local, [])) ((Done (Inr connected), []), (Done (Inr a), []))"
proof -
  have wf: "wf_addr a" using assms by (rule Socks_ParseAddr_wf)
  let ?q = "send_or [5, 0, 0, 1, 0, 0, 0, 0, 0, 0] (\<lambda>e. Done (Inl e)) (Done (Inr a))"
  have 1: "eats (serve_request local) ([Version, CmdConnect, 0] @ a) ?q"
    unfolding serve_request_def Let_def
    by (rule eats_recv_or, simp) (rule eats_ReadAddr_to [OF wf], simp add: socks5_consts)
  have "eats await_reply ([5, 0, 0] @ connected) (Done (Inr connected))"
    unfolding await_reply_def using eats_ReadAddr [OF wf_connected, of Done] by (intro eats_recv_err) (simp_all add: Errors_def)
  then have 2: "eats await_reply [5, 0, 0, 1, 0, 0, 0, 0, 0, 0] (Done (Inr connected))"
    by (simp add: connected_def)
  have "comm\<^sup>*\<^sup>* ((request target CmdConnect, []), (serve_request local, [])) ((await_reply, []), (?q, []))"
    unfolding request_def assms option.case by (rule turn_send_or(1) [OF 1])
  also have "comm\<^sup>*\<^sup>* \<dots> ((Done (Inr connected), []), (Done (Inr a), []))"
    by (rule turn_send_or(2) [OF 2])
  finally show ?thesis .
qed

text \<open>What the server does after the client's greeting, and the client after the server's.\<close>

definition chosen :: "string \<Rightarrow> string \<Rightarrow> string \<Rightarrow> (string + bytes) proc" where
  "chosen suser spassword local =
     (if suser \<noteq> [] \<and> spassword \<noteq> []
      then send_or [Version, AuthPassword] (\<lambda>e. Done (Inl e)) (check_password suser spassword (serve_request local))
      else send_or [Version, AuthNone] (\<lambda>e. Done (Inl e)) (serve_request local))"

lemma eats_handshake: "unat n = length ms \<Longrightarrow> eats (handshake suser spassword local) ([v, n] @ ms) (chosen suser spassword local)"
  unfolding handshake_def chosen_def
  by (rule eats_recv_or, simp) (rule eats_last, simp_all)

lemma greeting_turn:
  "comm\<^sup>*\<^sup>* ((connect user password target cmd, []), (handshake suser spassword local, []))
    ((await_greeting user password target cmd, []), (chosen suser spassword local, []))"
  unfolding connect_def
  using eats_handshake [of 2 "[AuthNone, AuthPassword]" suser spassword local Version]
    eats_handshake [of 1 "[AuthNone]" suser spassword local Version]
  by (intro turn_send_or(1)) simp

lemma eats_await_greeting:
  "eats (await_greeting user password target cmd) [Version, AuthNone] (request target cmd)"
  "eats (await_greeting user password target cmd) [Version, AuthPassword]
    (send_or ([1, of_nat (length user)] @ to_bytes user @ [of_nat (length password)] @ to_bytes password)
      (\<lambda>e. Done (Inl ''failed to write authentication request'')) (await_auth target cmd))"
  unfolding await_greeting_def by (rule eats_err_last; simp add: socks5_consts)+

lemma eats_await_auth:
  "eats (await_auth target cmd) [1, 0] (request target cmd)"
  "eats (await_auth target cmd) [1, 1] (Done (Inl ''rejected username/password''))"
  unfolding await_auth_def by (rule eats_err_last; simp)+

lemma byte_len: "length s < 256 \<Longrightarrow> unat (of_nat (length s) :: u8) = length s"
  by (intro unat_of_nat_small) simp

lemma eats_get_password:
  "password \<noteq> [] \<Longrightarrow> length password < 256 \<Longrightarrow>
    eats (get_password suser spassword nx u) ([of_nat (length password)] @ to_bytes password) (verify suser spassword nx u (to_bytes password))"
  "eats (get_password suser spassword nx u) [0] (Send [1, 1] (\<lambda>_. Done (Inl ''auth failed: wrong password length'')))"
proof -
  show "eats (get_password suser spassword nx u) ([of_nat (length password)] @ to_bytes password) (verify suser spassword nx u (to_bytes password))"
    if "password \<noteq> []" "length password < 256"
    unfolding get_password_def Let_def
    by (rule eats_recv_err, simp) (use that in \<open>simp add: byte_len eats_err_last\<close>)
  show "eats (get_password suser spassword nx u) [0] (Send [1, 1] (\<lambda>_. Done (Inl ''auth failed: wrong password length'')))"
    unfolding get_password_def Let_def by (rule eats_err_last) simp_all
qed

lemma eats_check_password:
  "user \<noteq> [] \<Longrightarrow> length user < 256 \<Longrightarrow> eats (get_password suser spassword nx (to_bytes user)) r p \<Longrightarrow>
    eats (check_password suser spassword nx) ([1, of_nat (length user)] @ to_bytes user @ r) p"
  "eats (check_password suser spassword nx) [1, 0] (Send [1, 1] (\<lambda>_. Done (Inl ''auth failed: wrong username length'')))"
proof -
  show "eats (check_password suser spassword nx) ([1, of_nat (length user)] @ to_bytes user @ r) p"
    if "user \<noteq> []" "length user < 256" "eats (get_password suser spassword nx (to_bytes user)) r p"
    unfolding check_password_def Let_def
    by (rule eats_recv_or, simp) (use that in \<open>simp add: byte_len eats_recv_err\<close>)
  show "eats (check_password suser spassword nx) [1, 0] (Send [1, 1] (\<lambda>_. Done (Inl ''auth failed: wrong username length'')))"
    unfolding check_password_def Let_def by (rule eats_last) simp_all
qed

definition password_msg :: "string \<Rightarrow> string \<Rightarrow> bytes" where
  "password_msg user password = [1, of_nat (length user)] @ to_bytes user @ [of_nat (length password)] @ to_bytes password"

definition authenticate :: "string \<Rightarrow> string \<Rightarrow> string \<Rightarrow> u8 \<Rightarrow> (string + bytes) proc" where
  "authenticate user password target cmd =
     send_or (password_msg user password) (\<lambda>e. Done (Inl ''failed to write authentication request'')) (await_auth target cmd)"

lemma chosen_simps:
  "suser = [] \<or> spassword = [] \<Longrightarrow> chosen suser spassword local = send_or [Version, AuthNone] (\<lambda>e. Done (Inl e)) (serve_request local)"
  "suser \<noteq> [] \<Longrightarrow> spassword \<noteq> [] \<Longrightarrow> chosen suser spassword local =
    send_or [Version, AuthPassword] (\<lambda>e. Done (Inl e)) (check_password suser spassword (serve_request local))"
  by (auto simp: chosen_def)

lemma password_turn:
  assumes "suser \<noteq> []" and "spassword \<noteq> []"
  shows "comm\<^sup>*\<^sup>* ((connect user password target cmd, []), (handshake suser spassword local, []))
    ((authenticate user password target cmd, []), (check_password suser spassword (serve_request local), []))"
proof -
  have "comm\<^sup>*\<^sup>* ((await_greeting user password target cmd, []), (chosen suser spassword local, []))
      ((authenticate user password target cmd, []), (check_password suser spassword (serve_request local), []))"
    unfolding chosen_simps(2) [OF assms] authenticate_def password_msg_def
    by (rule turn_send_or(2)) (rule eats_await_greeting(2))
  with greeting_turn show ?thesis by (rule rtranclp_trans)
qed

lemma open_turn:
  assumes "suser = [] \<or> spassword = []"
  shows "comm\<^sup>*\<^sup>* ((connect user password target cmd, []), (handshake suser spassword local, []))
    ((request target cmd, []), (serve_request local, []))"
proof -
  have "comm\<^sup>*\<^sup>* ((await_greeting user password target cmd, []), (chosen suser spassword local, []))
      ((request target cmd, []), (serve_request local, []))"
    unfolding chosen_simps(1) [OF assms] by (rule turn_send_or(2)) (rule eats_await_greeting(1))
  with greeting_turn show ?thesis by (rule rtranclp_trans)
qed

lemma accept_turn:
  assumes "user \<noteq> []" and "password \<noteq> []" and "length user < 256" and "length password < 256"
  shows "comm\<^sup>*\<^sup>* ((authenticate user password target cmd, []), (check_password user password nx, [])) ((request target cmd, []), (nx, []))"
proof -
  have v: "verify user password nx (to_bytes user) (to_bytes password) = send_or [1, 0] (\<lambda>e. Done (Inl e)) nx"
    by (simp add: verify_def)
  have "eats (check_password user password nx) (password_msg user password) (send_or [1, 0] (\<lambda>e. Done (Inl e)) nx)"
    unfolding password_msg_def v [symmetric]
    by (rule eats_check_password(1) [OF assms(1,3) eats_get_password(1) [OF assms(2,4)]])
  then have "comm\<^sup>*\<^sup>* ((authenticate user password target cmd, []), (check_password user password nx, []))
      ((await_auth target cmd, []), (send_or [1, 0] (\<lambda>e. Done (Inl e)) nx, []))"
    unfolding authenticate_def by (rule turn_send_or(1))
  also have "comm\<^sup>*\<^sup>* \<dots> ((request target cmd, []), (nx, []))"
    by (rule turn_send_or(2)) (rule eats_await_auth(1))
  finally show ?thesis .
qed

text \<open>Whatever is wrong with the credentials, the server ends up writing the refusal.\<close>

lemma refusal_eats:
  assumes "user \<noteq> suser \<or> password \<noteq> spassword" and "length user < 256" and "length password < 256"
  shows "\<exists>a rest k e. password_msg user password = a @ rest \<and> eats (check_password suser spassword nx) a (Send [1, 1] k) \<and>
    k None = Done (Inl e)"
proof -
  consider "user = []" | "user \<noteq> []" "password = []" | "user \<noteq> []" "password \<noteq> []" by blast
  then show ?thesis
  proof cases
    case 1
    then have "password_msg user password = [1, 0] @ [of_nat (length password)] @ to_bytes password"
      by (simp add: password_msg_def to_bytes_def)
    with eats_check_password(2) show ?thesis by blast
  next
    case 2
    then have "password_msg user password = ([1, of_nat (length user)] @ to_bytes user @ [0]) @ []"
      by (simp add: password_msg_def to_bytes_def)
    with eats_check_password(1) [OF 2(1) assms(2) eats_get_password(2)] show ?thesis by blast
  next
    case 3
    have v: "verify suser spassword nx (to_bytes user) (to_bytes password) =
        Send [1, 1] (\<lambda>err. case err of Some e \<Rightarrow> Done (Inl e) | None \<Rightarrow> Done (Inl ''auth failed''))"
      using assms(1) by (simp add: verify_def send_or_def)
    have "eats (check_password suser spassword nx) (password_msg user password)
        (Send [1, 1] (\<lambda>err. case err of Some e \<Rightarrow> Done (Inl e) | None \<Rightarrow> Done (Inl ''auth failed'')))"
      unfolding password_msg_def v [symmetric]
      by (rule eats_check_password(1) [OF 3(1) assms(2) eats_get_password(1) [OF 3(2) assms(3)]])
    then show ?thesis by (metis append_Nil2 option.case(1))
  qed
qed

lemma refuse_turn:
  assumes "user \<noteq> suser \<or> password \<noteq> spassword" and "length user < 256" and "length password < 256"
  shows "\<exists>e rest. comm\<^sup>*\<^sup>* ((authenticate user password target cmd, []), (check_password suser spassword nx, []))
    ((Done (Inl ''rejected username/password''), []), (Done (Inl e), rest))"
proof -
  obtain a rest k e where r: "password_msg user password = a @ rest" "eats (check_password suser spassword nx) a (Send [1, 1] k)"
    "k None = Done (Inl e)"
    using refusal_eats [OF assms] by blast
  have "comm ((authenticate user password target cmd, []), (check_password suser spassword nx, []))
      ((await_auth target cmd, []), (check_password suser spassword nx, a @ rest))"
    unfolding authenticate_def send_or_def r(1)
    using sendL [of "a @ rest" "case_option (await_auth target cmd) (\<lambda>e. Done (Inl ''failed to write authentication request''))" "[]"
        "check_password suser spassword nx" "[]"] by simp
  moreover have "comm\<^sup>*\<^sup>* ((await_auth target cmd, []), (check_password suser spassword nx, a @ rest))
      ((await_auth target cmd, []), (Send [1, 1] k, rest))"
    by (rule eats_comm(2) [OF r(2)])
  moreover have "comm ((await_auth target cmd, []), (Send [1, 1] k, rest)) ((await_auth target cmd, [1, 1]), (Done (Inl e), rest))"
    using sendR [of "await_auth target cmd" "[]" "[1, 1]" k rest] by (simp add: r(3))
  moreover have "comm\<^sup>*\<^sup>* ((await_auth target cmd, [1, 1]), (Done (Inl e), rest)) ((Done (Inl ''rejected username/password''), []), (Done (Inl e), rest))"
    using eats_comm(1) [OF eats_await_auth(2) [of target cmd], of "[]"] by simp
  ultimately show ?thesis by (meson converse_rtranclp_into_rtranclp rtranclp_trans)
qed

text \<open>
  C14. The two ends of SOCKS5 fit together. If the server asks for no password, or the client has the
  server's name and password, then client and server come to the same end in every interleaving:
  nothing is left unread, the client is told that it is connected, and the server has exactly the
  address the client was asked to connect to. A server whose user name or password is empty asks for none.
\<close>

theorem socks5_connects:
  assumes "plain_host h" and "p < 65536" and "target = JoinHostPort h (dec p)"
    and "suser = [] \<or> spassword = [] \<or> user = suser \<and> password = spassword \<and> length user < 256 \<and> length password < 256"
    and "comm\<^sup>*\<^sup>* ((connect user password target CmdConnect, []), (handshake suser spassword local, [])) s"
  shows "\<exists>a. Addr_String a = Some target \<and> comm\<^sup>*\<^sup>* s ((Done (Inr connected), []), (Done (Inr a), []))"
proof -
  obtain a where a: "Socks_ParseAddr target = Some a" "Addr_String a = Some target"
    using Socks_ParseAddr_string [OF assms(1,2)] assms(3) by blast
  have "comm\<^sup>*\<^sup>* ((connect user password target CmdConnect, []), (handshake suser spassword local, []))
      ((request target CmdConnect, []), (serve_request local, []))"
  proof (cases "suser = [] \<or> spassword = []")
    case False
    then have "user = suser" "password = spassword" "user \<noteq> []" "password \<noteq> []" "length user < 256" "length password < 256"
      using assms(4) by auto
    then show ?thesis
      using password_turn [of suser spassword user password target CmdConnect local]
        accept_turn [of user password target CmdConnect "serve_request local"] by (auto intro: rtranclp_trans)
  qed (rule open_turn)
  from comm_joinable [OF assms(5) rtranclp_trans [OF this serve_request_run [OF a(1)]] Done_final] a(2)
  show ?thesis by blast
qed

text \<open>
  A server that asks for a password lets nobody else in: with any other name or password, each
  of at most 255 bytes, every interleaving ends with an error at both ends.
\<close>

theorem socks5_rejects:
  assumes "suser \<noteq> []" and "spassword \<noteq> []" and "user \<noteq> suser \<or> password \<noteq> spassword"
    and "length user < 256" and "length password < 256"
    and "comm\<^sup>*\<^sup>* ((connect user password target cmd, []), (handshake suser spassword local, [])) s"
  shows "\<exists>e e' rest. comm\<^sup>*\<^sup>* s ((Done (Inl e), []), (Done (Inl e'), rest))"
proof -
  obtain e rest where r: "comm\<^sup>*\<^sup>* ((authenticate user password target cmd, []), (check_password suser spassword (serve_request local), []))
      ((Done (Inl ''rejected username/password''), []), (Done (Inl e), rest))"
    using refuse_turn [OF assms(3-5)] by blast
  from comm_joinable [OF assms(6) rtranclp_trans [OF password_turn [OF assms(1,2)] r] Done_final] show ?thesis by blast
qed

theorem socks5_connects_witness:
  "\<exists>a. Addr_String a = Some ''a.com:53'' \<and>
     comm\<^sup>*\<^sup>* ((connect ''joe'' ''x'' ''a.com:53'' CmdConnect, []), (handshake ''joe'' ''x'' ''127.0.0.1:1080'', []))
       ((Done (Inr connected), []), (Done (Inr a), []))"
  by (rule socks5_connects [OF sample_plain, where p = 53 and suser = "''joe''" and spassword = "''x''" and user = "''joe''"
        and password = "''x''" and local = "''127.0.0.1:1080''"])
    (simp_all add: JoinHostPort_def dec.simps char_of_def bit_iff_odd)

theorem socks5_rejects_witness:
  "\<exists>e e' rest. comm\<^sup>*\<^sup>* ((connect ''joe'' ''y'' ''a.com:53'' CmdConnect, []), (handshake ''joe'' ''x'' ''127.0.0.1:1080'', []))
       ((Done (Inl e), []), (Done (Inl e'), rest))"
  by (rule socks5_rejects [where suser = "''joe''" and spassword = "''x''" and user = "''joe''" and password = "''y''"
        and target = "''a.com:53''" and cmd = CmdConnect and local = "''127.0.0.1:1080''"]) simp_all

end
