(* ===== verification/WsFrame.thy ===== *)
theory WsFrame
  imports Prelude
begin

text \<open>
  WebSocket frames (\<open>src/proxy/ws/frame.go\<close>): the writer that makes a frame of every write, and the
  reader that hands out the payload of the frames in pieces of whatever size the caller asks for.

  The reader works on the bytes that are still to come on the connection. Its remaining length is
  a Go \<open>int64\<close> taken from the wire, so a length with the top bit set is negative and the slice
  expression \<open>b[:readLen]\<close> panics.
\<close>

unbundle bit_operations_syntax

section \<open>Numbers on the wire\<close>

definition put_be :: "nat \<Rightarrow> nat \<Rightarrow> bytes" where
  "put_be k n = map (\<lambda>i. of_nat (n div 256 ^ i)) (rev [0 ..< k])"

definition get_be :: "bytes \<Rightarrow> nat" where
  "get_be bs = foldl (\<lambda>acc b. acc * 256 + unat b) 0 bs"

lemma length_put_be [simp]: "length (put_be k n) = k"
  by (simp add: put_be_def)

lemma get_put_be: "get_be (put_be k n) = n mod 256 ^ k"
proof -
  have foldl_start: "foldl (\<lambda>acc b. acc * 256 + unat b) a bs = a * 256 ^ length bs + foldl (\<lambda>acc b. acc * 256 + unat b) 0 bs"
    for a and bs :: bytes
  proof (induction bs arbitrary: a)
    case (Cons b bs)
    from Cons [of "a * 256 + unat b"] Cons [of "unat b"] show ?case by (simp add: algebra_simps)
  qed simp
  show ?thesis
  proof (induction k)
    case (Suc k)
    have "get_be (put_be (Suc k) n) = unat (of_nat (n div 256 ^ k) :: u8) * 256 ^ k + get_be (put_be k n)"
      using foldl_start [of "unat (of_nat (n div 256 ^ k) :: u8)" "put_be k n"] by (simp add: get_be_def put_be_def)
    also have "\<dots> = n div 256 ^ k mod 256 * 256 ^ k + n mod 256 ^ k"
      by (simp add: Suc unat_of_nat)
    also have "\<dots> = n mod 256 ^ Suc k"
      by (metis add.commute mod_mult2_eq mult.commute power_Suc2)
    finally show ?case .
  qed (simp add: get_be_def put_be_def)
qed

section \<open>Masking\<close>

definition ws_mask :: "bytes \<Rightarrow> nat \<Rightarrow> bytes \<Rightarrow> bytes" where
  "ws_mask key off b = map (\<lambda>i. b ! i XOR key ! ((i + off) mod 4)) [0 ..< length b]"

lemma length_mask [simp]: "length (ws_mask key off b) = length b"
  by (simp add: ws_mask_def)

lemma mask_twice [simp]: "ws_mask key off (ws_mask key off b) = b"
  by (rule nth_equalityI) (simp_all add: ws_mask_def xor.assoc)

lemma mask_append: "ws_mask key off (a @ b) = ws_mask key off a @ ws_mask key ((length a + off) mod 4) b"
  by (rule nth_equalityI) (auto simp: ws_mask_def nth_append mod_simps add.assoc)

section \<open>The writer\<close>

definition finalBit :: u8 where "finalBit = 0x80"
definition opCodeBinary :: u8 where "opCodeBinary = 2"
definition maskBit :: u8 where "maskBit = 0x80"

definition ws_header :: "bool \<Rightarrow> nat \<Rightarrow> bytes" where
  "ws_header server nPayload =
     (let h1 = (if server then 0 else maskBit) in
      [opCodeBinary OR finalBit] @
      (if nPayload \<le> 125 then [h1 OR of_nat nPayload]
       else if nPayload < 65536 then [h1 OR 126] @ put_be 2 nPayload
       else [h1 OR 127] @ put_be 8 nPayload))"

definition ws_Write :: "bool \<Rightarrow> bytes \<Rightarrow> bytes \<Rightarrow> bytes" where
  "ws_Write server maskKey b =
     ws_header server (length b) @ (if server then b else maskKey @ ws_mask maskKey 0 b)"

section \<open>The reader\<close>

record frameReader =
  fr_left :: int
  fr_server :: bool
  fr_maskKey :: bytes
  fr_maskOffset :: nat

definition FrameReader :: "bool \<Rightarrow> frameReader" where
  "FrameReader server = \<lparr>fr_left = 0, fr_server = server, fr_maskKey = [0, 0, 0, 0], fr_maskOffset = 0\<rparr>"

definition read_full :: "nat \<Rightarrow> bytes \<Rightarrow> (string + bytes) \<times> bytes" where
  "read_full n inp = (if length inp < n then (Inl (if inp = [] then ''EOF'' else ''unexpected EOF''), []) else (Inr (take n inp), drop n inp))"

text \<open>The header of the next frame: what the reader knows afterwards, also when the stream ends inside it.\<close>

definition read_mask :: "frameReader \<Rightarrow> bytes \<Rightarrow> string option \<times> frameReader \<times> bytes" where
  "read_mask r inp =
     (if fr_server r then
        (case read_full 4 inp of
           (Inl e, rest) \<Rightarrow> (Some e, r, rest)
         | (Inr key, rest) \<Rightarrow> (None, r\<lparr>fr_maskKey := key, fr_maskOffset := 0\<rparr>, rest))
      else (None, r, inp))"

definition read_header :: "frameReader \<Rightarrow> bytes \<Rightarrow> string option \<times> frameReader \<times> bytes" where
  "read_header r inp =
     (case read_full 2 inp of
        (Inl e, rest) \<Rightarrow> (Some e, r, rest)
      | (Inr h, rest) \<Rightarrow>
          let r1 = r\<lparr>fr_left := uint (h ! 1 AND 0x7f)\<rparr> in
          if fr_left r1 = 126 then
            (case read_full 2 rest of
               (Inl e, rest') \<Rightarrow> (Some e, r1, rest')
             | (Inr l, rest') \<Rightarrow> read_mask (r1\<lparr>fr_left := int (get_be l)\<rparr>) rest')
          else if fr_left r1 = 127 then
            (case read_full 8 rest of
               (Inl e, rest') \<Rightarrow> (Some e, r1, rest')
             | (Inr l, rest') \<Rightarrow> read_mask (r1\<lparr>fr_left := wrap64 (int (get_be l))\<rparr>) rest')
          else read_mask r1 rest)"

text \<open>
  \<open>Read\<close> into a buffer of \<open>room\<close> bytes: the bytes delivered and the error, if any. At the end of the stream
  the bytes that did arrive are left in the buffer as they are.
\<close>

definition read_payload :: "nat \<Rightarrow> frameReader \<Rightarrow> bytes \<Rightarrow> (bytes \<times> string option) res \<times> frameReader \<times> bytes" where
  "read_payload room r inp =
     (let readLen = min (int room) (fr_left r) in
      if readLen < 0 then (Panic, r, inp)
      else
        case read_full (nat readLen) inp of
          (Inl e, rest) \<Rightarrow> (Ok (inp, Some e), r, rest)
        | (Inr m, rest) \<Rightarrow>
            let r' = r\<lparr>fr_left := fr_left r - int (length m)\<rparr> in
            if fr_server r
            then (Ok (ws_mask (fr_maskKey r) (fr_maskOffset r) m, None),
                  r'\<lparr>fr_maskOffset := (length m + fr_maskOffset r) mod 4\<rparr>, rest)
            else (Ok (m, None), r', rest))"

definition ws_Read :: "nat \<Rightarrow> frameReader \<Rightarrow> bytes \<Rightarrow> (bytes \<times> string option) res \<times> frameReader \<times> bytes" where
  "ws_Read room r inp =
     (case (if fr_left r = 0 then read_header r inp else (None, r, inp)) of
        (Some e, r1, inp1) \<Rightarrow> (Ok ([], Some e), r1, inp1)
      | (None, r1, inp1) \<Rightarrow> read_payload room r1 inp1)"

text \<open>Reads with buffers of the given sizes, up to the first error: everything that was delivered.\<close>

fun ws_reads :: "nat list \<Rightarrow> frameReader \<Rightarrow> bytes \<Rightarrow> bytes res" where
  "ws_reads [] r inp = Ok []"
| "ws_reads (n # ns) r inp =
     (case ws_Read n r inp of
        (Ok (b, None), r', inp') \<Rightarrow> bind_res (ws_reads ns r' inp') (\<lambda>out. Ok (b @ out))
      | (Ok (b, Some e), _, _) \<Rightarrow> Ok b
      | (Err e, _, _) \<Rightarrow> Err e
      | (Panic, _, _) \<Rightarrow> Panic
      | (Diverge, _, _) \<Rightarrow> Diverge)"

section \<open>Reading what was written\<close>

lemma low_bits: "w < 128 \<Longrightarrow> (maskBit OR w) AND 0x7f = w" "w < 128 \<Longrightarrow> w AND 0x7f = w" for w :: u8
proof -
  assume "w < 128"
  then have "take_bit 7 w = w" by (simp add: take_bit_eq_mod word_unat_eq_iff unat_mod word_less_nat_alt)
  moreover have "w AND 0x7f = take_bit 7 w" by (simp add: take_bit_eq_mask mask_eq_exp_minus_1)
  ultimately show "w AND 0x7f = w" by simp
  then show "(maskBit OR w) AND 0x7f = w" by (simp add: maskBit_def word_ao_dist)
qed

lemma read_full_append: "length a = n \<Longrightarrow> read_full n (a @ b) = (Inr a, b)"
  by (simp add: read_full_def)

definition after_header :: "bytes \<Rightarrow> bytes \<Rightarrow> frameReader \<Rightarrow> frameReader" where
  "after_header key p r = (if fr_server r then r\<lparr>fr_left := int (length p), fr_maskKey := key, fr_maskOffset := 0\<rparr>
     else r\<lparr>fr_left := int (length p)\<rparr>)"

definition coded :: "frameReader \<Rightarrow> bytes \<Rightarrow> bytes" where
  "coded r b = (if fr_server r then ws_mask (fr_maskKey r) (fr_maskOffset r) b else b)"

lemma read_mask_frame:
  assumes "length key = 4" and "fr_left r = int (length p)"
  shows "read_mask r ((if \<not> fr_server r then p else key @ ws_mask key 0 p) @ rest) =
    (None, after_header key p r, coded (after_header key p r) p @ rest)"
  using assms read_full_append [OF assms(1), of "ws_mask key 0 p @ rest"]
  by (cases r) (auto simp: read_mask_def after_header_def coded_def)

lemma read_header_frame:
  assumes "length key = 4" and "length p < 2 ^ 63"
  shows "read_header r (ws_Write (\<not> fr_server r) key p @ rest) =
    (None, after_header key p r, coded (after_header key p r) p @ rest)"
proof -
  let ?h1 = "if \<not> fr_server r then 0 else maskBit"
  let ?body = "(if \<not> fr_server r then p else key @ ws_mask key 0 p) @ rest"
  have after: "after_header key p (r\<lparr>fr_left := x\<rparr>) = after_header key p r" for x by (simp add: after_header_def)
  have body: "read_mask (r\<lparr>fr_left := int (length p)\<rparr>) ?body = (None, after_header key p r, coded (after_header key p r) p @ rest)"
    using read_mask_frame [OF assms(1), of "r\<lparr>fr_left := int (length p)\<rparr>" p rest] by (simp add: after)
  have low: "uint ((?h1 OR w) AND 0x7f) = uint w" if "w < 128" for w :: u8
    using low_bits [OF that] by simp
  consider "length p \<le> 125" | "125 < length p" "length p < 65536" | "65536 \<le> length p" by linarith
  then show ?thesis
  proof cases
    case 1
    then have w: "(of_nat (length p) :: u8) < 128" "uint (of_nat (length p) :: u8) = int (length p)"
      by (simp_all add: word_less_nat_alt unat_of_nat uint_nat)
    have f: "ws_Write (\<not> fr_server r) key p @ rest = [opCodeBinary OR finalBit, ?h1 OR of_nat (length p)] @ ?body"
      using 1 by (simp add: ws_Write_def ws_header_def Let_def)
    show ?thesis
      unfolding read_header_def f read_full_append [where n = 2, simplified]
      using 1 low [OF w(1)] w(2) body by (simp add: read_full_def Let_def)
  next
    case 2
    have f: "ws_Write (\<not> fr_server r) key p @ rest = [opCodeBinary OR finalBit, ?h1 OR 126] @ put_be 2 (length p) @ ?body"
      using 2 by (simp add: ws_Write_def ws_header_def Let_def)
    have "get_be (put_be 2 (length p)) = length p" using 2(2) by (simp add: get_put_be)
    then show ?thesis
      unfolding read_header_def f
      using low [of 126] body read_full_append [of "put_be 2 (length p)" 2 ?body] by (simp add: read_full_def [of 2] Let_def)
  next
    case 3
    have f: "ws_Write (\<not> fr_server r) key p @ rest = [opCodeBinary OR finalBit, ?h1 OR 127] @ put_be 8 (length p) @ ?body"
      using 3 by (simp add: ws_Write_def ws_header_def Let_def)
    have "get_be (put_be 8 (length p)) = length p" using assms(2) by (simp add: get_put_be)
    moreover have "wrap64 (int (length p)) = int (length p)" using assms(2) by (intro wrap64_id) (simp add: int64_range_def)
    ultimately show ?thesis
      unfolding read_header_def f
      using low [of 127] body read_full_append [of "put_be 8 (length p)" 8 ?body] by (simp add: read_full_def [of 2] Let_def)
  qed
qed

text \<open>The reader still owes \<open>cur\<close> of the current frame and the frames \<open>ps\<close> after it.\<close>

definition owes :: "bytes \<Rightarrow> frameReader \<Rightarrow> bytes \<Rightarrow> bytes \<Rightarrow> bytes list \<Rightarrow> bool" where
  "owes key r inp cur ps \<longleftrightarrow>
     fr_left r = int (length cur) \<and> inp = coded r cur @ concat (map (ws_Write (\<not> fr_server r) key) ps)"

lemma coded_simps [simp]: "length (coded r b) = length b" "coded r [] = []"
  by (simp_all add: coded_def ws_mask_def)

lemma read_payload_step:
  assumes "owes key r inp cur ps"
  shows "\<exists>r' inp'. read_payload room r inp = (Ok (take room cur, None), r', inp') \<and> owes key r' inp' (drop room cur) ps \<and>
    fr_server r' = fr_server r"
proof -
  define m where "m = min room (length cur)"
  have rl: "nat (min (int room) (fr_left r)) = m" "\<not> min (int room) (fr_left r) < 0"
    using assms by (auto simp: owes_def m_def min_def)
  have cur: "cur = take m cur @ drop m cur" "length (take m cur) = m" by (simp_all add: m_def)
  have tk: "take m cur = take room cur" "drop m cur = drop room cur" by (auto simp: m_def min_def)
  show ?thesis
  proof (cases "fr_server r")
    case False
    then have "read_full m inp = (Inr (take m cur), drop m cur @ concat (map (ws_Write True key) ps))"
      using assms by (simp add: owes_def coded_def read_full_def m_def)
    with False rl assms tk show ?thesis
      by (auto simp: read_payload_def Let_def owes_def coded_def m_def of_nat_diff)
  next
    case True
    let ?k = "fr_maskKey r" and ?o = "fr_maskOffset r"
    have "coded r cur = ws_mask ?k ?o (take m cur) @ ws_mask ?k ((m + ?o) mod 4) (drop m cur)"
      using True mask_append [of ?k ?o "take m cur" "drop m cur"] cur by (simp add: coded_def)
    then have "inp = ws_mask ?k ?o (take m cur) @ ws_mask ?k ((m + ?o) mod 4) (drop m cur) @ concat (map (ws_Write False key) ps)"
      using assms True by (simp add: owes_def)
    moreover have "read_full m \<dots> = (Inr (ws_mask ?k ?o (take m cur)), ws_mask ?k ((m + ?o) mod 4) (drop m cur) @ concat (map (ws_Write False key) ps))"
      by (rule read_full_append) (simp add: m_def)
    ultimately show ?thesis using True rl assms tk
      by (auto simp: read_payload_def Let_def owes_def coded_def m_def of_nat_diff min.commute)
  qed
qed

lemma ws_Read_step:
  assumes "owes key r inp cur ps" and "length key = 4" and "\<forall>p \<in> set ps. length p < 2 ^ 63"
  shows "cur \<noteq> [] \<Longrightarrow> \<exists>r' inp'. ws_Read room r inp = (Ok (take room cur, None), r', inp') \<and> owes key r' inp' (drop room cur) ps"
    and "cur = [] \<Longrightarrow> ps = p # ps' \<Longrightarrow> \<exists>r' inp'. ws_Read room r inp = (Ok (take room p, None), r', inp') \<and> owes key r' inp' (drop room p) ps'"
    and "cur = [] \<Longrightarrow> ps = [] \<Longrightarrow> ws_Read room r inp = (Ok ([], Some ''EOF''), r, [])"
proof -
  show "\<exists>r' inp'. ws_Read room r inp = (Ok (take room cur, None), r', inp') \<and> owes key r' inp' (drop room cur) ps" if "cur \<noteq> []"
    using read_payload_step [OF assms(1), of room] assms(1) that by (auto simp: ws_Read_def owes_def)
  show "ws_Read room r inp = (Ok ([], Some ''EOF''), r, [])" if "cur = []" "ps = []"
    using assms(1) that by (simp add: ws_Read_def owes_def read_header_def read_full_def coded_def ws_mask_def)
  assume c: "cur = []" "ps = p # ps'"
  let ?r = "after_header key p r"
  let ?inp = "coded ?r p @ concat (map (ws_Write (\<not> fr_server r) key) ps')"
  have "inp = ws_Write (\<not> fr_server r) key p @ concat (map (ws_Write (\<not> fr_server r) key) ps')"
    using assms(1) c by (simp add: owes_def coded_def ws_mask_def)
  then have "read_header r inp = (None, ?r, ?inp)" using read_header_frame [OF assms(2)] assms(3) c by simp
  moreover have "owes key ?r ?inp p ps'" by (simp add: owes_def after_header_def)
  moreover have "fr_left r = 0" using assms(1) c by (simp add: owes_def)
  ultimately show "\<exists>r' inp'. ws_Read room r inp = (Ok (take room p, None), r', inp') \<and> owes key r' inp' (drop room p) ps'"
    using read_payload_step [of key ?r ?inp p ps' room] by (auto simp: ws_Read_def)
qed

lemma ws_reads_all:
  assumes "owes key r inp cur ps" and "length key = 4" and "\<forall>p \<in> set ps. length p < 2 ^ 63"
    and "\<forall>n \<in> set rooms. 0 < n" and "length cur + length (concat ps) + length ps \<le> length rooms"
  shows "ws_reads rooms r inp = Ok (cur @ concat ps)"
  using assms
proof (induction rooms arbitrary: r inp cur ps)
  case (Cons n rooms)
  note step = ws_Read_step [OF Cons.prems(1-3), where room = n]
  show ?case
  proof (cases "cur = []")
    case False
    obtain r' inp' where 1: "ws_Read n r inp = (Ok (take n cur, None), r', inp')" "owes key r' inp' (drop n cur) ps"
      using step(1) False by blast
    have "0 < n" "0 < length cur" using Cons.prems(4) False by auto
    then have "length (drop n cur) < length cur" by simp
    then have "length (drop n cur) + length (concat ps) + length ps \<le> length rooms"
      using Cons.prems(5) by (simp only: length_Cons)
    then have "ws_reads rooms r' inp' = Ok (drop n cur @ concat ps)"
      using Cons.IH [OF 1(2) Cons.prems(2,3)] Cons.prems(4,5) by simp
    with 1(1) show ?thesis by simp
  next
    case True
    show ?thesis
    proof (cases ps)
      case Nil
      then show ?thesis using step(3) True by simp
    next
      case p: (Cons p ps')
      obtain r' inp' where 1: "ws_Read n r inp = (Ok (take n p, None), r', inp')" "owes key r' inp' (drop n p) ps'"
        using step(2) True p by blast
      have "ws_reads rooms r' inp' = Ok (drop n p @ concat ps')"
        using Cons.IH [OF 1(2) Cons.prems(2)] Cons.prems(3-5) p True by simp
      with 1(1) True p show ?thesis by simp
    qed
  qed
qed simp

text \<open>
  C15. What is written to a WebSocket is what is read at the other end: for any sequence of writes and
  buffers of any positive sizes, enough reads deliver exactly the bytes written, in order, whether
  the writer masks (client to server) or not.
\<close>

theorem ws_stream_roundtrip:
  assumes "length key = 4" and "\<forall>p \<in> set ps. length p < 2 ^ 63"
    and "\<forall>n \<in> set rooms. 0 < n" and "length (concat ps) + length ps \<le> length rooms"
  shows "ws_reads rooms (FrameReader server) (concat (map (ws_Write (\<not> server) key) ps)) = Ok (concat ps)"
proof -
  have "owes key (FrameReader server) (concat (map (ws_Write (\<not> server) key) ps)) [] ps"
    by (simp add: owes_def) (simp add: FrameReader_def)
  from ws_reads_all [OF this assms(1-3)] assms(4) show ?thesis by simp
qed

theorem ws_stream_roundtrip_witness:
  "ws_reads [2, 1, 7, 7, 7, 7, 7] (FrameReader True) (concat (map (ws_Write False [1, 2, 3, 4]) [[10, 20, 30], [], [40]])) = Ok [10, 20, 30, 40]"
  using ws_stream_roundtrip [of "[1, 2, 3, 4]" "[[10, 20, 30], [], [40]]" "[2, 1, 7, 7, 7, 7, 7]" True] by simp

text \<open>
  C26. A frame that announces a length of at least \<open>2 ^ 63\<close> makes the reader panic: the length becomes
  negative and is used as the end of a slice.
\<close>

theorem ws_negative_length_panics:
  assumes "length key = 4" and "2 ^ 63 \<le> n" and "n < 2 ^ 64"
  shows "fst (ws_Read room (FrameReader True) ([b, maskBit OR 127] @ put_be 8 n @ key @ rest)) = Panic"
proof -
  have h: "(maskBit OR 127) AND 0x7f = (127 :: u8)" by (rule low_bits) simp
  have g: "get_be (put_be 8 n) = n" using assms(3) by (simp add: get_put_be)
  have l: "length (put_be 8 n) = 8" by simp
  have w: "wrap64 (int n) < 0"
  proof -
    have "int n - 2 ^ 64 < 0" "int64_range (int n - 2 ^ 64)" using assms(2,3) by (auto simp: int64_range_def)
    moreover have "int n - 2 ^ 64 + 2 ^ 63 = (int n + 2 ^ 63) - 2 ^ 64" by simp
    then have "wrap64 (int n) = wrap64 (int n - 2 ^ 64)" unfolding wrap64_def by (simp only: minus_mod_self2)
    ultimately show ?thesis by (simp only: wrap64_id)
  qed
  let ?r = "FrameReader True"
  have 1: "read_full 2 ([b, maskBit OR 127] @ put_be 8 n @ key @ rest) = (Inr [b, maskBit OR 127], put_be 8 n @ key @ rest)"
    "read_full 8 (put_be 8 n @ key @ rest) = (Inr (put_be 8 n), key @ rest)" "read_full 4 (key @ rest) = (Inr key, rest)"
    by (rule read_full_append; simp add: assms(1))+
  have "\<exists>r. read_header ?r ([b, maskBit OR 127] @ put_be 8 n @ key @ rest) = (None, r, rest) \<and> fr_left r < 0"
    unfolding read_header_def 1 using h g w by (simp add: Let_def FrameReader_def 1 read_mask_def)
  then show ?thesis
    by (auto simp: ws_Read_def FrameReader_def read_payload_def Let_def)
qed

theorem ws_negative_length_panics_witness:
  "fst (ws_Read 10 (FrameReader True) ([0x82, maskBit OR 127] @ put_be 8 (2 ^ 63) @ [0, 0, 0, 0] @ [])) = Panic"
  by (rule ws_negative_length_panics) simp_all

end
