(* ===== verification/SmuxFrame.thy ===== *)
theory SmuxFrame
  imports Prelude
begin

text \<open>
  Frames of the stream multiplexer (\<open>src/pkg/smux/frame.go\<close>), how \<open>sendLoop\<close> of \<open>src/pkg/smux/session.go\<close> writes
  them, how \<open>recvLoop\<close> reads them, and the order in which the shaper (\<open>src/pkg/smux/shaper.go\<close>) lets them out.
  Numbers on the wire are little-endian.
\<close>

unbundle bit_operations_syntax

section \<open>Little-endian numbers\<close>

definition le16 :: "u16 \<Rightarrow> bytes" where
  "le16 w = rev (be16 w)"

definition le32 :: "u32 \<Rightarrow> bytes" where
  "le32 w = rev (be32 w)"

definition le16_of :: "bytes \<Rightarrow> u16" where
  "le16_of b = be16_of (b ! 1) (b ! 0)"

definition le32_of :: "bytes \<Rightarrow> u32" where
  "le32_of b = be32_of (b ! 3) (b ! 2) (b ! 1) (b ! 0)"

lemma le_lengths [simp]: "length (le16 w) = 2" "length (le32 v) = 4"
  by (simp_all add: le16_def le32_def be16_def be32_def)

lemma le_roundtrip [simp]: "le16_of (le16 w) = w" "le32_of (le32 v) = v"
  by (simp_all add: le16_def le16_of_def be16_def le32_def le32_of_def be32_def numeral_3_eq_3 numeral_2_eq_2)

section \<open>Frames\<close>

definition cmdSYN :: u8 where "cmdSYN = 0"
definition cmdFIN :: u8 where "cmdFIN = 1"
definition cmdPSH :: u8 where "cmdPSH = 2"
definition cmdNOP :: u8 where "cmdNOP = 3"
definition cmdUPD :: u8 where "cmdUPD = 4"

lemmas cmd_defs = cmdSYN_def cmdFIN_def cmdPSH_def cmdNOP_def cmdUPD_def

record Frame =
  fm_ver :: u8
  fm_cmd :: u8
  fm_sid :: u32
  fm_data :: bytes

definition newFrame :: "u8 \<Rightarrow> u8 \<Rightarrow> u32 \<Rightarrow> Frame" where
  "newFrame version cmd sid = \<lparr>fm_ver = version, fm_cmd = cmd, fm_sid = sid, fm_data = []\<rparr>"

definition headerSize :: nat where "headerSize = 8"

text \<open>The accessors of \<open>rawHeader\<close> and \<open>updHeader\<close>.\<close>

definition hdr_Length :: "bytes \<Rightarrow> u16" where "hdr_Length h = le16_of (take 2 (drop 2 h))"
definition hdr_StreamID :: "bytes \<Rightarrow> u32" where "hdr_StreamID h = le32_of (take 4 (drop 4 h))"
definition upd_Consumed :: "bytes \<Rightarrow> u32" where "upd_Consumed h = le32_of (take 4 h)"
definition upd_Window :: "bytes \<Rightarrow> u32" where "upd_Window h = le32_of (take 4 (drop 4 h))"

text \<open>What \<open>sendLoop\<close> puts on the connection for a request.\<close>

definition send_bytes :: "Frame \<Rightarrow> bytes" where
  "send_bytes f = [fm_ver f, fm_cmd f] @ le16 (of_nat (length (fm_data f))) @ le32 (fm_sid f) @ fm_data f"

text \<open>
  What \<open>recvLoop\<close> takes from it: a frame, or the error that ends the loop. Only data and window updates
  have a body, and the length field is used for data alone.
\<close>

datatype incoming = Got Frame | ReadError | ProtoError

definition recv_next :: "u8 \<Rightarrow> bytes \<Rightarrow> incoming \<times> bytes" where
  "recv_next version inp =
     (if length inp < headerSize then (ReadError, [])
      else
        let h = take headerSize inp; rest = drop headerSize inp; cmd = h ! 1;
            f = newFrame (h ! 0) cmd (hdr_StreamID h)
        in if h ! 0 \<noteq> version then (ProtoError, rest)
           else if cmd = cmdNOP \<or> cmd = cmdSYN \<or> cmd = cmdFIN then (Got f, rest)
           else if cmd = cmdPSH then
             (let n = unat (hdr_Length h) in
              if length rest < n then (ReadError, []) else (Got (f\<lparr>fm_data := take n rest\<rparr>), drop n rest))
           else if cmd = cmdUPD then
             (if length rest < 8 then (ReadError, []) else (Got (f\<lparr>fm_data := take 8 rest\<rparr>), drop 8 rest))
           else (ProtoError, rest))"

text \<open>The frames the session makes.\<close>

definition frame_ok :: "u8 \<Rightarrow> Frame \<Rightarrow> bool" where
  "frame_ok version f \<longleftrightarrow> fm_ver f = version \<and>
     (fm_cmd f \<in> {cmdNOP, cmdSYN, cmdFIN} \<and> fm_data f = [] \<or> fm_cmd f = cmdPSH \<and> length (fm_data f) < 65536 \<or>
      fm_cmd f = cmdUPD \<and> length (fm_data f) = 8)"

definition recv_frame_of :: "u8 \<Rightarrow> bytes \<Rightarrow> (Frame \<times> bytes) option" where
  "recv_frame_of version inp = (case recv_next version inp of (Got f, rest) \<Rightarrow> Some (f, rest) | _ \<Rightarrow> None)"

lemma recv_send:
  assumes "frame_ok version f"
  shows "recv_next version (send_bytes f @ rest) = (Got f, rest)"
proof -
  let ?h = "[fm_ver f, fm_cmd f] @ le16 (of_nat (length (fm_data f))) @ le32 (fm_sid f)"
  have h: "length ?h = headerSize" by (simp add: headerSize_def)
  have i: "send_bytes f @ rest = ?h @ fm_data f @ rest" by (simp add: send_bytes_def)
  have th: "take headerSize (?h @ x) = ?h" "drop headerSize (?h @ x) = x" for x
    using h by (metis append_eq_conv_conj)+
  have "hdr_StreamID ?h = fm_sid f" "hdr_Length ?h = of_nat (length (fm_data f))"
    by (simp_all add: hdr_StreamID_def hdr_Length_def)
  moreover have "unat (of_nat (length (fm_data f)) :: u16) = length (fm_data f)" if "length (fm_data f) < 65536"
    using that by (intro unat_of_nat_small) simp
  ultimately show ?thesis
    using assms unfolding recv_next_def i th Let_def
    by (cases f) (auto simp: frame_ok_def newFrame_def cmd_defs headerSize_def)
qed

interpretation smux: framing send_bytes "recv_frame_of version" "frame_ok version"
proof
  show "recv_frame_of version (send_bytes f @ r) = Some (f, r)" if "frame_ok version f" for f r
    by (simp add: recv_frame_of_def recv_send [OF that])
qed (simp add: send_bytes_def)

section \<open>The shaper\<close>

record writeRequest =
  wr_class :: nat
  wr_frame :: Frame
  wr_seq :: u32

definition CLSCTRL :: nat where "CLSCTRL = 0"
definition CLSDATA :: nat where "CLSDATA = 1"

text \<open>The conversion \<open>int32(w)\<close>.\<close>

definition int32 :: "u32 \<Rightarrow> int" where
  "int32 w = (if unat w < 2 ^ 31 then int (unat w) else int (unat w) - 2 ^ 32)"

definition itimediff :: "u32 \<Rightarrow> u32 \<Rightarrow> int" where
  "itimediff later earlier = int32 (later - earlier)"

definition Less :: "writeRequest \<Rightarrow> writeRequest \<Rightarrow> bool" where
  "Less x y \<longleftrightarrow> (if wr_class x \<noteq> wr_class y then wr_class x < wr_class y else 0 < itimediff (wr_seq y) (wr_seq x))"

text \<open>
  \<open>heap.Push\<close> and \<open>heap.Pop\<close>: the requests, of which the next one out is one that no other is less
  than. \<open>pick\<close> finds it.
\<close>

fun pick :: "writeRequest \<Rightarrow> writeRequest list \<Rightarrow> writeRequest" where
  "pick x [] = x"
| "pick x (y # ys) = pick (if Less y x then y else x) ys"

definition heap_Pop :: "writeRequest list \<Rightarrow> (writeRequest \<times> writeRequest list) option" where
  "heap_Pop reqs = (case reqs of [] \<Rightarrow> None | x # xs \<Rightarrow> let m = pick x xs in Some (m, remove1 m reqs))"

text \<open>
  One turn of \<open>shaperLoop\<close>: a request arrives, which is possible while fewer than \<open>maxShaperSize\<close> others
  wait besides the next one, or the next one is taken by \<open>sendLoop\<close>. \<open>None\<close>: this cannot happen now.
\<close>

definition maxShaperSize :: nat where "maxShaperSize = 1024"

datatype shaper_event = Submit writeRequest | Taken

definition shaperLoop :: "shaper_event \<Rightarrow> writeRequest list \<Rightarrow> (writeRequest option \<times> writeRequest list) option" where
  "shaperLoop ev reqs =
     (case heap_Pop reqs of
        None \<Rightarrow> (case ev of Submit r \<Rightarrow> Some (None, [r]) | Taken \<Rightarrow> None)
      | Some (next, rest) \<Rightarrow>
         (case ev of
            Submit r \<Rightarrow> if maxShaperSize \<le> length rest then None else Some (None, r # next # rest)
          | Taken \<Rightarrow> Some (Some next, rest)))"

lemma pick_in: "pick x xs \<in> set (x # xs)"
proof (induction xs arbitrary: x)
  case (Cons y ys)
  from Cons [of x] Cons [of y] show ?case by (cases "Less y x") auto
qed simp

text \<open>
  Sequence numbers are compared modulo \<open>2 ^ 32\<close>. As long as the requests waiting are numbered within
  \<open>2 ^ 31\<close> of each other, from \<open>base\<close> on, the comparison is that of their ages.
\<close>

definition age :: "u32 \<Rightarrow> writeRequest \<Rightarrow> nat" where
  "age base r = unat (wr_seq r - base)"

lemma itimediff_age:
  assumes "age base x < 2 ^ 31" and "age base y < 2 ^ 31"
  shows "0 < itimediff (wr_seq y) (wr_seq x) \<longleftrightarrow> age base x < age base y"
proof -
  let ?a = "wr_seq x - base" and ?b = "wr_seq y - base"
  have d: "wr_seq y - wr_seq x = ?b - ?a" by simp
  have "unat (?b - ?a) = (if unat ?a \<le> unat ?b then unat ?b - unat ?a else unat ?b + 2 ^ 32 - unat ?a)"
    using unat_sub_if' [of ?b ?a] by simp
  then show ?thesis using assms unfolding itimediff_def d int32_def age_def by (auto split: if_splits)
qed

definition ahead :: "u32 \<Rightarrow> writeRequest \<Rightarrow> writeRequest \<Rightarrow> bool" where
  "ahead base x y \<longleftrightarrow> wr_class x < wr_class y \<or> wr_class x = wr_class y \<and> age base x \<le> age base y"

lemma Less_ahead:
  assumes "age base x < 2 ^ 31" and "age base y < 2 ^ 31"
  shows "\<not> Less y x \<longleftrightarrow> ahead base x y"
  using itimediff_age [OF assms(2,1)] by (auto simp: Less_def ahead_def)

lemma pick_ahead:
  assumes "\<forall>r \<in> set (x # xs). age base r < 2 ^ 31"
  shows "\<forall>r \<in> set (x # xs). ahead base (pick x xs) r"
  using assms
proof (induction xs arbitrary: x)
  case (Cons y ys)
  let ?z = "if Less y x then y else x"
  have "ahead base ?z x" "ahead base ?z y"
    using Less_ahead [of base x y] Less_ahead [of base y x] Cons.prems by (auto simp: ahead_def)
  moreover have "\<forall>r \<in> set (?z # ys). ahead base (pick ?z ys) r" by (rule Cons.IH) (use Cons.prems in auto)
  moreover have "ahead base a c" if "ahead base a b" "ahead base b c" for a b c using that by (auto simp: ahead_def)
  ultimately show ?case by (metis list.set_intros(1) pick.simps(2) set_ConsD list.set_intros(2))
qed (simp add: ahead_def)

text \<open>
  The shaper is fair. Of the requests waiting, numbered within half the range of the counter, the
  next one sent is a control request if there is one, and among those of its class the one
  submitted first, also when the 32-bit counter has wrapped in between.
\<close>

theorem shaper_order:
  assumes "\<forall>r \<in> set reqs. age base r < 2 ^ 31" and "shaperLoop Taken reqs = Some (Some m, rest)"
  shows "m \<in> set reqs \<and> (\<forall>r \<in> set reqs. wr_class m < wr_class r \<or> wr_class m = wr_class r \<and> age base m \<le> age base r)"
proof -
  obtain x xs where r: "reqs = x # xs" using assms(2) by (cases reqs) (simp_all add: shaperLoop_def heap_Pop_def)
  then have "m = pick x xs" using assms(2) by (simp add: shaperLoop_def heap_Pop_def Let_def)
  with pick_in [of x xs] pick_ahead [of x xs base] assms(1) r show ?thesis by (simp add: ahead_def)
qed

definition sample_reqs :: "writeRequest list" where
  "sample_reqs = [\<lparr>wr_class = CLSDATA, wr_frame = newFrame 1 cmdPSH 3, wr_seq = 0\<rparr>,
     \<lparr>wr_class = CLSDATA, wr_frame = newFrame 1 cmdPSH 5, wr_seq = 0xFFFFFFFF\<rparr>]"

theorem shaper_order_witness:
  "\<exists>m rest. shaperLoop Taken sample_reqs = Some (Some m, rest) \<and> (\<forall>r \<in> set sample_reqs. age 0xFFFFFFFF m \<le> age 0xFFFFFFFF r)"
proof -
  obtain m rest where p: "shaperLoop Taken sample_reqs = Some (Some m, rest)" by (auto simp: shaperLoop_def heap_Pop_def sample_reqs_def Let_def)
  have "\<forall>r \<in> set sample_reqs. age 0xFFFFFFFF r < 2 ^ 31" by (simp add: sample_reqs_def age_def)
  from shaper_order [OF this p] have "\<forall>r \<in> set sample_reqs. age 0xFFFFFFFF m \<le> age 0xFFFFFFFF r"
    by (auto simp: sample_reqs_def)
  with p show ?thesis by blast
qed

end
