(* ===== verification/SmuxStream.thy ===== *)
theory SmuxStream
  imports SmuxFrame
begin

text \<open>
  Streams of the multiplexer (\<open>src/pkg/smux/stream.go\<close>) and its configuration (\<open>src/pkg/smux/mux.go\<close>).

  A channel that is only ever closed is a flag; the capacity-one channels that carry a notification are
  flags too. The counters of a stream are Go's \<open>uint32\<close> and wrap. The buffers of a stream are what is left of
  them; the slices kept beside them to be recycled are left out, and so are deadlines.

  The second half is the flow control of protocol version 2: a writer and a reader of one stream, the data
  frames and the window updates between them.
\<close>

section \<open>Configuration\<close>

record SmuxConfig =
  sc_Version :: int
  sc_KeepAliveDisabled :: bool
  sc_KeepAliveInterval :: int
  sc_KeepAliveTimeout :: int
  sc_MaxFrameSize :: int
  sc_MaxReceiveBuffer :: int
  sc_MaxStreamBuffer :: int

definition DefaultConfig :: SmuxConfig where
  "DefaultConfig = \<lparr>sc_Version = 1, sc_KeepAliveDisabled = False, sc_KeepAliveInterval = 10000000000, sc_KeepAliveTimeout = 30000000000,
     sc_MaxFrameSize = 32768, sc_MaxReceiveBuffer = 4194304, sc_MaxStreamBuffer = 65536\<rparr>"

definition VerifyConfig :: "SmuxConfig \<Rightarrow> string option" where
  "VerifyConfig config =
     (if \<not> (sc_Version config = 1 \<or> sc_Version config = 2) then Some ''unsupported protocol version''
      else if \<not> sc_KeepAliveDisabled config \<and> sc_KeepAliveInterval config = 0 then Some ''keep-alive interval must be positive''
      else if \<not> sc_KeepAliveDisabled config \<and> sc_KeepAliveTimeout config < sc_KeepAliveInterval config
        then Some ''keep-alive timeout must be larger than keep-alive interval''
      else if sc_MaxFrameSize config \<le> 0 then Some ''max frame size must be positive''
      else if 65535 < sc_MaxFrameSize config then Some ''max frame size must not be larger than 65535''
      else if sc_MaxReceiveBuffer config \<le> 0 then Some ''max receive buffer must be positive''
      else if sc_MaxStreamBuffer config \<le> 0 then Some ''max stream buffer must be positive''
      else if sc_MaxReceiveBuffer config < sc_MaxStreamBuffer config
        then Some ''max stream buffer must not be larger than max receive buffer''
      else if 2 ^ 31 - 1 < sc_MaxStreamBuffer config then Some ''max stream buffer cannot be larger than 2147483647''
      else None)"

definition wrap32 :: "int \<Rightarrow> int" where
  "wrap32 x = (x + 2 ^ 31) mod 2 ^ 32 - 2 ^ 31"

section \<open>Streams\<close>

record stream =
  st_id :: u32
  st_buffers :: "bytes list"
  st_frameSize :: int
  st_readEvent :: bool
  st_die :: bool
  st_fin :: bool
  st_numRead :: u32
  st_numWritten :: u32
  st_incr :: u32
  st_peerConsumed :: u32
  st_peerWindow :: u32
  st_update :: bool

definition initialPeerWindow :: u32 where "initialPeerWindow = 262144"

definition newStream :: "u32 \<Rightarrow> int \<Rightarrow> stream" where
  "newStream sid frameSize =
     \<lparr>st_id = sid, st_buffers = [], st_frameSize = frameSize, st_readEvent = False, st_die = False, st_fin = False, st_numRead = 0,
      st_numWritten = 0, st_incr = 0, st_peerConsumed = 0, st_peerWindow = initialPeerWindow, st_update = False\<rparr>"

definition pushBytes :: "bytes \<Rightarrow> stream \<Rightarrow> stream" where
  "pushBytes buf st = st\<lparr>st_buffers := st_buffers st @ [buf]\<rparr>"

definition recycleTokens :: "stream \<Rightarrow> nat \<times> stream" where
  "recycleTokens st = (sum_list (map length (st_buffers st)), st\<lparr>st_buffers := []\<rparr>)"

definition notifyReadEvent :: "stream \<Rightarrow> stream" where
  "notifyReadEvent st = st\<lparr>st_readEvent := True\<rparr>"

definition stream_update :: "u32 \<Rightarrow> u32 \<Rightarrow> stream \<Rightarrow> stream" where
  "stream_update consumed window st = st\<lparr>st_peerConsumed := consumed, st_peerWindow := window, st_update := True\<rparr>"

definition stream_fin :: "stream \<Rightarrow> stream" where
  "stream_fin st = st\<lparr>st_fin := True\<rparr>"

definition sessionClose :: "stream \<Rightarrow> stream" where
  "sessionClose st = st\<lparr>st_die := True\<rparr>"

text \<open>The part of \<open>tryRead\<close> and \<open>tryReadv2\<close> under the buffer lock: the bytes copied out.\<close>

definition copy_out :: "nat \<Rightarrow> stream \<Rightarrow> bytes \<times> stream" where
  "copy_out room st =
     (case st_buffers st of
        [] \<Rightarrow> ([], st)
      | b # bs \<Rightarrow>
          let rest = drop room b in
          (take room b, st\<lparr>st_buffers := (if rest = [] then bs else rest # bs)\<rparr>))"

datatype rd = Data bytes | WouldBlock | EOF

definition read_outcome :: "bytes \<Rightarrow> stream \<Rightarrow> rd" where
  "read_outcome b st = (if b \<noteq> [] then Data b else if st_die st then EOF else WouldBlock)"

text \<open>
  A read also says which count of consumed bytes is to be sent to the peer, 0 for none. The counting of
  version 2 is the same in \<open>tryReadv2\<close> and \<open>writeTov2\<close>.
\<close>

definition count_read :: "SmuxConfig \<Rightarrow> bytes \<Rightarrow> stream \<Rightarrow> u32 \<times> stream" where
  "count_read config b st =
     (let n = of_nat (length b);
          st1 = st\<lparr>st_numRead := st_numRead st + n, st_incr := st_incr st + n\<rparr>
      in if of_int (sc_MaxStreamBuffer config div 2) \<le> st_incr st1 \<or> st_numRead st1 = n
         then (st_numRead st1, st1\<lparr>st_incr := 0\<rparr>) else (0, st1))"

definition tryReadv2 :: "SmuxConfig \<Rightarrow> nat \<Rightarrow> stream \<Rightarrow> rd \<times> u32 \<times> stream" where
  "tryReadv2 config room st =
     (if room = 0 then (Data [], 0, st)
      else
        let (b, st1) = copy_out room st; (consumed, st2) = count_read config b st1
        in (read_outcome b st2, if b \<noteq> [] then consumed else 0, st2))"

definition tryRead :: "SmuxConfig \<Rightarrow> nat \<Rightarrow> stream \<Rightarrow> rd \<times> u32 \<times> stream" where
  "tryRead config room st =
     (if sc_Version config = 2 then tryReadv2 config room st
      else if room = 0 then (Data [], 0, st)
      else let (b, st1) = copy_out room st in (read_outcome b st1, 0, st1))"

text \<open>One turn of \<open>WriteTo\<close> that finds a buffer: it is handed to the writer as a whole.\<close>

definition WriteTo_turn :: "SmuxConfig \<Rightarrow> stream \<Rightarrow> (bytes \<times> u32 \<times> stream) option" where
  "WriteTo_turn config st =
     (case st_buffers st of
        [] \<Rightarrow> None
      | b # bs \<Rightarrow>
          let st1 = st\<lparr>st_buffers := bs\<rparr> in
          if sc_Version config = 2 then (let (consumed, st2) = count_read config b st1 in Some (b, consumed, st2))
          else Some (b, 0, st1))"

definition sendWindowUpdate :: "SmuxConfig \<Rightarrow> u32 \<Rightarrow> u32 \<Rightarrow> Frame" where
  "sendWindowUpdate config sid consumed =
     (newFrame (of_int (sc_Version config)) cmdUPD sid)\<lparr>fm_data := le32 consumed @ le32 (of_int (sc_MaxStreamBuffer config))\<rparr>"

text \<open>The frames \<open>Write\<close> cuts its argument into.\<close>

function split_frames :: "nat \<Rightarrow> bytes \<Rightarrow> bytes list" where
  "split_frames sz bts = (if bts = [] \<or> sz = 0 then [] else take sz bts # split_frames sz (drop sz bts))"
  by pat_completeness auto
termination
  by (relation "measure (\<lambda>(sz, bts). length bts)") auto

declare split_frames.simps [simp del]

definition data_frames :: "SmuxConfig \<Rightarrow> u32 \<Rightarrow> nat \<Rightarrow> bytes \<Rightarrow> Frame list" where
  "data_frames config sid sz b =
     map (\<lambda>d. (newFrame (of_int (sc_Version config)) cmdPSH sid)\<lparr>fm_data := d\<rparr>) (split_frames sz b)"

text \<open>
  \<open>writeFrameInternal\<close> for a list of frames, one after the other until one fails: the number of bytes it
  reports, the frames handed on, and the error. What happens to the \<open>i\<close>-th call is an argument.
\<close>

type_synonym submit_env = "nat \<Rightarrow> nat \<times> string option"

fun send_frames :: "submit_env \<Rightarrow> nat \<Rightarrow> Frame list \<Rightarrow> nat \<times> Frame list \<times> string option" where
  "send_frames env i [] = (0, [], None)"
| "send_frames env i (f # fs) =
     (case env i of
        (n, Some e) \<Rightarrow> (n, [f], Some e)
      | (n, None) \<Rightarrow> (case send_frames env (Suc i) fs of (m, gs, e) \<Rightarrow> (n + m, f # gs, e)))"

text \<open>
  \<open>Write\<close> on a stream of version 1: the bytes it reports, the frames handed on, the error. When both channels
  are closed Go may take either of the two errors; the model takes the first. Version 1 counts frames.
\<close>

definition Write :: "submit_env \<Rightarrow> SmuxConfig \<Rightarrow> bytes \<Rightarrow> stream \<Rightarrow> (nat \<times> Frame list \<times> string option) \<times> stream" where
  "Write env config b st =
     (if st_fin st then ((0, [], Some ''EOF''), st)
      else if st_die st then ((0, [], Some ''io: read/write on closed pipe''), st)
      else
        let r = send_frames env 0 (data_frames config (st_id st) (nat (st_frameSize st)) b)
        in (r, st\<lparr>st_numWritten := st_numWritten st + of_nat (length (fst (snd r)))\<rparr>))"

text \<open>
  One turn of the loop of \<open>writeV2\<close>: the bytes reported, the frames handed on, the error, and the data left over.
  The counter of written bytes grows with every frame, also with one that failed.
\<close>

datatype turn = ErrConsumed | Turn nat "Frame list" "string option" bytes

definition inflight :: "stream \<Rightarrow> int" where
  "inflight st = int32 (st_numWritten st - st_peerConsumed st)"

definition window :: "stream \<Rightarrow> int" where
  "window st = wrap32 (int32 (st_peerWindow st) - inflight st)"

definition cut_window :: "int \<Rightarrow> bytes \<Rightarrow> bytes \<times> bytes" where
  "cut_window win b =
     (if 0 < win then (if wrap32 (int (length b)) < win then (b, []) else (take (nat win) b, drop (nat win) b))
      else ([], b))"

definition writeV2_turn :: "submit_env \<Rightarrow> SmuxConfig \<Rightarrow> bytes \<Rightarrow> stream \<Rightarrow> turn \<times> stream" where
  "writeV2_turn env config b st =
     (if inflight st < 0 then (ErrConsumed, st)
      else
        let (bts, b') = cut_window (window st) b;
            (n, gs, e) = send_frames env 0 (data_frames config (st_id st) (nat (st_frameSize st)) bts)
        in (Turn n gs e b',
            st\<lparr>st_numWritten := st_numWritten st + of_nat (sum_list (map (length \<circ> fm_data) gs))\<rparr>))"

text \<open>
  The loop: what ends each wait is an argument. A list of wake-ups that runs out stands for a call that is
  still waiting.
\<close>

datatype wake = Fin | Die | Timeout | SocketError string | Update u32 u32

datatype wrote = Wrote nat | Failed nat string | Waiting

fun writeV2_loop ::
  "(nat \<Rightarrow> submit_env) \<Rightarrow> SmuxConfig \<Rightarrow> wake list \<Rightarrow> nat \<Rightarrow> bytes \<Rightarrow> stream \<Rightarrow> wrote \<times> Frame list \<times> stream"
where
  "writeV2_loop env config evs sent b st =
     (case writeV2_turn (env (length evs)) config b st of
        (ErrConsumed, st1) \<Rightarrow> (Failed 0 ''peer consumed more than sent'', [], st1)
      | (Turn n gs (Some e) b', st1) \<Rightarrow> (Failed (sent + n) e, gs, st1)
      | (Turn n gs None b', st1) \<Rightarrow>
          if b' = [] then (Wrote (sent + n), gs, st1)
          else
            (case evs of
               [] \<Rightarrow> (Waiting, gs, st1)
             | Fin # _ \<Rightarrow> (Failed 0 ''EOF'', gs, st1)
             | Die # _ \<Rightarrow> (Failed (sent + n) ''io: read/write on closed pipe'', gs, st1)
             | Timeout # _ \<Rightarrow> (Failed (sent + n) ''timeout'', gs, st1)
             | SocketError e # _ \<Rightarrow> (Failed (sent + n) e, gs, st1)
             | Update c w # evs' \<Rightarrow>
                 (case writeV2_loop env config evs' (sent + n) b' ((stream_update c w st1)\<lparr>st_update := False\<rparr>) of
                    (r, gs', st2) \<Rightarrow> (r, gs @ gs', st2))))"

declare writeV2_loop.simps [simp del]

definition writeV2 ::
  "(nat \<Rightarrow> submit_env) \<Rightarrow> SmuxConfig \<Rightarrow> wake list \<Rightarrow> bytes \<Rightarrow> stream \<Rightarrow> wrote \<times> Frame list \<times> stream"
where
  "writeV2 env config evs b st =
     (if b = [] then (Wrote 0, [], st)
      else if st_fin st then (Failed 0 ''EOF'', [], st)
      else if st_die st then (Failed 0 ''io: read/write on closed pipe'', [], st)
      else writeV2_loop env config evs 0 b st)"

section \<open>What reading and writing do to the bytes\<close>

lemma wrap32_id [simp]: "- (2 ^ 31) \<le> x \<Longrightarrow> x < 2 ^ 31 \<Longrightarrow> wrap32 x = x"
  unfolding wrap32_def by simp

lemma concat_split_frames: "0 < sz \<Longrightarrow> concat (split_frames sz b) = b"
proof (induction sz b rule: split_frames.induct)
  case (1 sz bts)
  then show ?case by (subst split_frames.simps) (simp add: split_frames.simps [of 0])
qed

lemma split_frames_sizes: "d \<in> set (split_frames sz b) \<Longrightarrow> d \<noteq> [] \<and> length d \<le> sz"
proof (induction sz b rule: split_frames.induct)
  case (1 sz bts)
  then show ?case by (subst (asm) split_frames.simps) (auto split: if_splits)
qed

lemma data_frames_data: "map fm_data (data_frames config sid sz b) = split_frames sz b"
  by (simp add: data_frames_def comp_def newFrame_def)

lemma data_frames_ok:
  assumes "f \<in> set (data_frames config sid sz b)" and "sz < 65536"
  shows "frame_ok (of_int (sc_Version config)) f \<and> fm_cmd f = cmdPSH \<and> fm_sid f = sid \<and> fm_data f \<noteq> []"
proof -
  obtain d where "d \<in> set (split_frames sz b)"
    and "f = (newFrame (of_int (sc_Version config)) cmdPSH sid)\<lparr>fm_data := d\<rparr>"
    using assms(1) by (auto simp: data_frames_def)
  with split_frames_sizes [of d sz b] assms(2) show ?thesis by (simp add: frame_ok_def newFrame_def)
qed

lemma send_frames_prefix: "send_frames env i fs = (n, gs, e) \<Longrightarrow> \<exists>r. fs = gs @ r \<and> (e = None \<longrightarrow> r = [])"
proof (induction fs arbitrary: i n gs e)
  case (Cons f fs)
  obtain m hs e' where r: "send_frames env (Suc i) fs = (m, hs, e')" by (cases "send_frames env (Suc i) fs") auto
  from Cons.IH [OF r] Cons.prems r show ?case by (auto split: prod.splits option.splits)
qed simp

definition st_bytes :: "stream \<Rightarrow> bytes" where
  "st_bytes st = concat (st_buffers st)"

lemma copy_out_bytes:
  assumes "copy_out room st = (b, st')" and "0 < room"
  shows "st_bytes st = b @ st_bytes st'" and "st' = st\<lparr>st_buffers := st_buffers st'\<rparr>" and "length b \<le> room"
    and "[] \<notin> set (st_buffers st) \<Longrightarrow> b = [] \<longleftrightarrow> st_buffers st = []"
    and "[] \<notin> set (st_buffers st) \<Longrightarrow> [] \<notin> set (st_buffers st')"
  using assms
  by (auto simp: copy_out_def st_bytes_def Let_def split: list.splits if_splits)

lemma count_read_bytes: "count_read config b st = (u, st') \<Longrightarrow> st_buffers st' = st_buffers st"
  by (auto simp: count_read_def Let_def split: if_splits)

text \<open>A read takes bytes off the front of what the stream holds and changes nothing else of it.\<close>

lemma tryRead_bytes:
  assumes "tryRead config room st = (out, u, st')" and "0 < room"
  shows "\<exists>b. st_bytes st = b @ st_bytes st' \<and> out = read_outcome b st \<and> length b \<le> room"
proof -
  obtain b st1 where c: "copy_out room st = (b, st1)" by (cases "copy_out room st") auto
  note b = copy_out_bytes(1-3) [OF c assms(2)]
  have d: "read_outcome b st2 = read_outcome b st" if "st_die st2 = st_die st" for st2
    using that by (simp add: read_outcome_def)
  obtain v st2 where k: "count_read config b st1 = (v, st2)" by fastforce
  have "st_die st2 = st_die st1" using k by (auto simp: count_read_def Let_def split: if_splits)
  moreover have "st_die st1 = st_die st" by (subst b(2)) simp
  ultimately have "out = read_outcome b st \<and> st_buffers st' = st_buffers st1"
    using assms(1) assms(2) c k d [of st1] d [of st2] count_read_bytes [OF k]
    by (simp add: tryRead_def tryReadv2_def split: if_splits)
  with b(1,3) show ?thesis by (auto simp: st_bytes_def)
qed

section \<open>Flow control of version 2\<close>

text \<open>
  One direction of a stream: the writer's end, the data frames under way, the reader's end and the window
  updates under way. \<open>fl_written\<close> and \<open>fl_read\<close> count the bytes without wrapping. There is one writer and one reader at
  a time; each turn of the writer is one step, as only the writer reads its counter.
\<close>

record flow =
  fl_snd :: stream
  fl_data :: "bytes list"
  fl_rcv :: stream
  fl_upd :: "Frame list"
  fl_written :: nat
  fl_read :: nat

definition announce :: "SmuxConfig \<Rightarrow> u32 \<Rightarrow> u32 \<Rightarrow> Frame list" where
  "announce config sid consumed = (if consumed = 0 then [] else [sendWindowUpdate config sid consumed])"

inductive flow_step :: "SmuxConfig \<Rightarrow> flow \<Rightarrow> flow \<Rightarrow> bool" for config :: SmuxConfig where
  flow_write: "length b < 2 ^ 31 \<Longrightarrow> writeV2_turn env config b (fl_snd w) = (Turn n gs None b', snd') \<Longrightarrow>
     flow_step config w (w\<lparr>fl_snd := snd', fl_data := fl_data w @ map fm_data gs,
       fl_written := fl_written w + length (concat (map fm_data gs))\<rparr>)"
| flow_arrive: "fl_data w = d # ds \<Longrightarrow>
     flow_step config w (w\<lparr>fl_data := ds, fl_rcv := notifyReadEvent (pushBytes d (fl_rcv w))\<rparr>)"
| flow_read: "0 < room \<Longrightarrow> tryRead config room (fl_rcv w) = (out, u, rcv') \<Longrightarrow>
     flow_step config w (w\<lparr>fl_rcv := rcv', fl_upd := fl_upd w @ announce config (st_id (fl_rcv w)) u,
       fl_read := fl_read w + length (st_bytes (fl_rcv w)) - length (st_bytes rcv')\<rparr>)"
| flow_update: "fl_upd w = f # fs \<Longrightarrow>
     flow_step config w (w\<lparr>fl_upd := fs, fl_snd := stream_update (upd_Consumed (fm_data f)) (upd_Window (fm_data f)) (fl_snd w)\<rparr>)"

definition flow_start :: "SmuxConfig \<Rightarrow> flow \<Rightarrow> bool" where
  "flow_start config w \<longleftrightarrow> (\<exists>sid.
     w = \<lparr>fl_snd = newStream sid (sc_MaxFrameSize config), fl_data = [], fl_rcv = newStream sid (sc_MaxFrameSize config),
          fl_upd = [], fl_written = 0, fl_read = 0\<rparr>)"

text \<open>
  The counts the reader has announced, from the one the writer knows on. The last announcement is never
  more than half a buffer behind, as long as the 32-bit count of the bytes read is not 0 again.
\<close>

definition flow_limit :: "SmuxConfig \<Rightarrow> nat" where
  "flow_limit config = max 262144 (nat (sc_MaxStreamBuffer config))"

definition flow_counts :: "SmuxConfig \<Rightarrow> nat \<Rightarrow> nat list \<Rightarrow> flow \<Rightarrow> bool" where
  "flow_counts config c us w \<longleftrightarrow>
     st_numWritten (fl_snd w) = of_nat (fl_written w) \<and> st_numRead (fl_rcv w) = of_nat (fl_read w) \<and>
     st_peerConsumed (fl_snd w) = of_nat c \<and> sorted (c # us @ [fl_read w]) \<and>
     map (upd_Consumed \<circ> fm_data) (fl_upd w) = map of_nat us \<and>
     (\<forall>f \<in> set (fl_upd w). upd_Window (fm_data f) = of_int (sc_MaxStreamBuffer config)) \<and>
     fl_written w = fl_read w + length (st_bytes (fl_rcv w)) + length (concat (fl_data w)) \<and>
     fl_written w \<le> c + flow_limit config \<and>
     st_peerWindow (fl_snd w) \<in> {262144, of_int (sc_MaxStreamBuffer config)} \<and>
     0 < st_frameSize (fl_snd w)"

definition flow_fresh :: "SmuxConfig \<Rightarrow> nat \<Rightarrow> nat list \<Rightarrow> flow \<Rightarrow> bool" where
  "flow_fresh config c us w \<longleftrightarrow>
     st_incr (fl_rcv w) = of_nat (fl_read w - last (c # us)) \<and>
     fl_read w - last (c # us) < max 1 (nat (sc_MaxStreamBuffer config div 2)) \<and>
     (0 < fl_read w \<longrightarrow> 0 < last (c # us)) \<and>
     (0 < c \<longrightarrow> st_peerWindow (fl_snd w) = of_int (sc_MaxStreamBuffer config))"

definition flow_inv :: "SmuxConfig \<Rightarrow> flow \<Rightarrow> bool" where
  "flow_inv config w \<longleftrightarrow> (\<exists>c us. flow_counts config c us w \<and> (fl_read w < 2 ^ 32 \<longrightarrow> flow_fresh config c us w))"

definition flow_config :: "SmuxConfig \<Rightarrow> bool" where
  "flow_config config \<longleftrightarrow> VerifyConfig config = None \<and> sc_Version config = 2"

lemma flow_config_bounds:
  assumes "flow_config config"
  shows "0 < sc_MaxFrameSize config" "sc_MaxFrameSize config < 65536" "0 < sc_MaxStreamBuffer config"
    "sc_MaxStreamBuffer config < 2 ^ 31" "sc_Version config = 2" "flow_limit config < 2 ^ 31"
  using assms by (auto simp: flow_config_def VerifyConfig_def flow_limit_def split: if_splits)

lemma int32_of_nat: "n < 2 ^ 31 \<Longrightarrow> int32 (of_nat n) = int n"
  by (simp add: int32_def)

lemma int32_less: "int32 x < 2 ^ 31"
proof -
  have "unat x < 2 ^ 32" using unsigned_less [of x, where 'a = nat] by simp
  moreover have "(if n < 2 ^ 31 then int n else int n - 2 ^ 32) < 2 ^ 31" if "n < 2 ^ 32" for n :: nat using that by auto
  ultimately show ?thesis unfolding int32_def by blast
qed

lemma of_nat_diff_word: "m \<le> n \<Longrightarrow> (of_nat n :: u32) - of_nat m = of_nat (n - m)"
  by (simp add: of_nat_diff)

lemma of_nat_u32_eq: "m < 2 ^ 32 \<Longrightarrow> n < 2 ^ 32 \<Longrightarrow> (of_nat m :: u32) = of_nat n \<longleftrightarrow> m = n"
  using unat_of_nat_small [where 'a = 32, of m] unat_of_nat_small [where 'a = 32, of n] by (auto dest: arg_cong [of _ _ unat])

lemma of_nat_u32_le: "m < 2 ^ 31 \<Longrightarrow> n < 2 ^ 31 \<Longrightarrow> (of_nat m :: u32) \<le> of_nat n \<longleftrightarrow> m \<le> n"
  by (simp add: word_le_nat_alt)

lemma inflight_counts:
  assumes "flow_counts config c us w" and "flow_config config"
  shows "inflight (fl_snd w) = int (fl_written w - c)" and "c \<le> fl_read w" and "fl_written w - c \<le> flow_limit config"
proof -
  from assms(1) have c: "c \<le> fl_read w" "fl_read w \<le> fl_written w" "fl_written w - c \<le> flow_limit config"
    by (auto simp: flow_counts_def)
  then show "c \<le> fl_read w" "fl_written w - c \<le> flow_limit config" by simp_all
  have "fl_written w - c < 2 ^ 31" using c(3) flow_config_bounds(6) [OF assms(2)] by linarith
  moreover have "st_numWritten (fl_snd w) - st_peerConsumed (fl_snd w) = of_nat (fl_written w - c)"
    using assms(1) of_nat_diff_word [of c "fl_written w"] c(1,2) unfolding flow_counts_def by simp
  ultimately show "inflight (fl_snd w) = int (fl_written w - c)" by (simp only: inflight_def int32_of_nat)
qed

lemma int32_max:
  assumes "flow_config config"
  shows "int32 (of_int (sc_MaxStreamBuffer config)) = sc_MaxStreamBuffer config"
proof -
  note b = flow_config_bounds(3,4) [OF assms]
  then obtain m where m: "sc_MaxStreamBuffer config = int m" by (metis nonneg_int_cases order_less_imp_le)
  with b show ?thesis using int32_of_nat [of m] by simp
qed

lemma peer_window:
  assumes "flow_counts config c us w" and "flow_config config"
  shows "int32 (st_peerWindow (fl_snd w)) \<in> {262144, sc_MaxStreamBuffer config}"
proof -
  have "int32 262144 = 262144" by (simp add: int32_def)
  then show ?thesis using assms(1) int32_max [OF assms(2)] by (auto simp: flow_counts_def)
qed

lemma window_counts:
  assumes "flow_counts config c us w" and "flow_config config"
  shows "window (fl_snd w) = int32 (st_peerWindow (fl_snd w)) - int (fl_written w - c)"
    and "int32 (st_peerWindow (fl_snd w)) \<le> int (flow_limit config)"
proof -
  note p = peer_window [OF assms] and b = flow_config_bounds [OF assms(2)]
  then show l: "int32 (st_peerWindow (fl_snd w)) \<le> int (flow_limit config)" by (auto simp: flow_limit_def)
  have "0 < int32 (st_peerWindow (fl_snd w))" using p b by auto
  with l inflight_counts [OF assms] b(6) show "window (fl_snd w) = int32 (st_peerWindow (fl_snd w)) - int (fl_written w - c)"
    unfolding window_def by (subst wrap32_id) auto
qed

text \<open>One preservation lemma per step.\<close>

lemma length_concat_map: "length (concat (map fm_data gs)) = sum_list (map (length \<circ> fm_data) gs)"
  by (simp add: length_concat comp_def)

lemma writeV2_turn_ok:
  assumes "writeV2_turn env config b st = (Turn n gs None b', st')" and "0 < st_frameSize st"
  shows "concat (map fm_data gs) = fst (cut_window (window st) b)" and "b' = snd (cut_window (window st) b)"
    and "st' = st\<lparr>st_numWritten := st_numWritten st + of_nat (length (concat (map fm_data gs)))\<rparr>"
proof -
  let ?c = "cut_window (window st) b"
  let ?fs = "data_frames config (st_id st) (nat (st_frameSize st)) (fst ?c)"
  obtain m hs e where s: "send_frames env 0 ?fs = (m, hs, e)" by (cases "send_frames env 0 ?fs") auto
  have r: "hs = gs" "e = None" "b' = snd ?c"
    and st: "st' = st\<lparr>st_numWritten := st_numWritten st + of_nat (sum_list (map (length \<circ> fm_data) gs))\<rparr>"
    using assms(1) s by (auto simp: writeV2_turn_def case_prod_beta Let_def split: if_splits)
  from send_frames_prefix [OF s] r have "gs = ?fs" by simp
  then show "concat (map fm_data gs) = fst ?c" using assms(2) by (simp add: data_frames_data concat_split_frames)
  from r st show "b' = snd ?c" "st' = st\<lparr>st_numWritten := st_numWritten st + of_nat (length (concat (map fm_data gs)))\<rparr>"
    by (simp_all only: length_concat_map)
qed

lemma cut_window_room:
  assumes "length b < 2 ^ 31" and "win < 2 ^ 31"
  shows "int (length (fst (cut_window win b))) \<le> max 0 win"
  using assms by (simp add: cut_window_def min_def) linarith

lemma flow_counts_write:
  assumes inv: "flow_counts config c us w" and cfg: "flow_config config" and b: "length b < 2 ^ 31"
    and t: "writeV2_turn env config b (fl_snd w) = (Turn n gs None b', snd')"
  shows "flow_counts config c us (w\<lparr>fl_snd := snd', fl_data := fl_data w @ map fm_data gs,
       fl_written := fl_written w + length (concat (map fm_data gs))\<rparr>)"
proof -
  have fs: "0 < st_frameSize (fl_snd w)" using inv by (simp add: flow_counts_def)
  note t' = writeV2_turn_ok [OF t fs]
  have w: "window (fl_snd w) \<le> int (flow_limit config) - int (fl_written w - c)"
    using window_counts [OF inv cfg] by linarith
  then have "window (fl_snd w) < 2 ^ 31" using flow_config_bounds(6) [OF cfg] by simp
  from cut_window_room [OF b this]
  have "int (length (concat (map fm_data gs))) \<le> max 0 (window (fl_snd w))" by (simp only: t'(1))
  with w inflight_counts(2,3) [OF inv cfg] have "fl_written w + length (concat (map fm_data gs)) \<le> c + flow_limit config"
    by linarith
  with inv show ?thesis unfolding flow_counts_def t'(3) by simp
qed

lemma upd_of_announce:
  "upd_Consumed (fm_data (sendWindowUpdate config sid u)) = u"
  "upd_Window (fm_data (sendWindowUpdate config sid u)) = of_int (sc_MaxStreamBuffer config)"
  by (simp_all add: sendWindowUpdate_def newFrame_def upd_Consumed_def upd_Window_def)

lemma tryRead_count:
  assumes "tryRead config room st = (out, u, st')" and "0 < room" and "sc_Version config = 2"
  shows "\<exists>b. st_bytes st = b @ st_bytes st' \<and> st_numRead st' = st_numRead st + of_nat (length b) \<and>
     (let due = (of_int (sc_MaxStreamBuffer config div 2) \<le> st_incr st + of_nat (length b) \<or> st_numRead st' = of_nat (length b))
      in u = (if due \<and> b \<noteq> [] then st_numRead st' else 0) \<and> st_incr st' = (if due then 0 else st_incr st + of_nat (length b)))"
proof -
  obtain b st1 where c: "copy_out room st = (b, st1)" by fastforce
  note b = copy_out_bytes(1-3) [OF c assms(2)]
  have eq: "st_numRead st1 = st_numRead st" "st_incr st1 = st_incr st" by (subst b(2), simp)+
  have "st_bytes st1 = st_bytes st'"
    using assms c by (auto simp: tryRead_def tryReadv2_def count_read_def st_bytes_def Let_def split: if_splits)
  with b(1) have "st_bytes st = b @ st_bytes st'" by simp
  moreover have n: "st_numRead st' = st_numRead st + of_nat (length b)"
    using assms c eq by (auto simp: tryRead_def tryReadv2_def count_read_def Let_def split: if_splits)
  moreover have "let due = (of_int (sc_MaxStreamBuffer config div 2) \<le> st_incr st + of_nat (length b) \<or> st_numRead st' = of_nat (length b))
      in u = (if due \<and> b \<noteq> [] then st_numRead st' else 0) \<and> st_incr st' = (if due then 0 else st_incr st + of_nat (length b))"
    using assms c eq unfolding n by (auto simp: tryRead_def tryReadv2_def count_read_def Let_def split: if_splits)
  ultimately show ?thesis by blast
qed

lemma announced_counts:
  assumes "sorted (c # us @ [r])" and "r \<le> r'" and "u = 0 \<or> u = of_nat r'" and "us' = (if u = 0 then us else us @ [r'])"
  shows "sorted (c # us' @ [r'])"
    and "map (upd_Consumed \<circ> fm_data) fs = map of_nat us \<Longrightarrow>
      map (upd_Consumed \<circ> fm_data) (fs @ announce config sid u) = map of_nat us'"
    and "\<forall>f \<in> set fs. upd_Window (fm_data f) = of_int (sc_MaxStreamBuffer config) \<Longrightarrow>
      \<forall>f \<in> set (fs @ announce config sid u). upd_Window (fm_data f) = of_int (sc_MaxStreamBuffer config)"
proof -
  show "sorted (c # us' @ [r'])" using assms by (fastforce simp: sorted_append)
  show "map (upd_Consumed \<circ> fm_data) (fs @ announce config sid u) = map of_nat us'"
    if "map (upd_Consumed \<circ> fm_data) fs = map of_nat us"
    using that assms(3,4) by (auto simp: announce_def upd_of_announce)
  show "\<forall>f \<in> set (fs @ announce config sid u). upd_Window (fm_data f) = of_int (sc_MaxStreamBuffer config)"
    if "\<forall>f \<in> set fs. upd_Window (fm_data f) = of_int (sc_MaxStreamBuffer config)"
    using that by (auto simp: announce_def upd_of_announce)
qed

lemma flow_counts_read:
  assumes inv: "flow_counts config c us w" and b: "st_bytes (fl_rcv w) = b @ st_bytes rcv'"
    and n: "st_numRead rcv' = st_numRead (fl_rcv w) + of_nat (length b)" and u: "u = 0 \<or> u = st_numRead rcv'"
  shows "flow_counts config c (if u = 0 then us else us @ [fl_read w + length b])
    (w\<lparr>fl_rcv := rcv', fl_upd := fl_upd w @ announce config sid u, fl_read := fl_read w + length b\<rparr>)"
proof -
  let ?us = "if u = 0 then us else us @ [fl_read w + length b]"
  have r: "st_numRead rcv' = of_nat (fl_read w + length b)" using inv n by (simp add: flow_counts_def)
  have s: "sorted (c # us @ [fl_read w])" and m: "map (upd_Consumed \<circ> fm_data) (fl_upd w) = map of_nat us"
    and v: "\<forall>f \<in> set (fl_upd w). upd_Window (fm_data f) = of_int (sc_MaxStreamBuffer config)"
    using inv unfolding flow_counts_def by blast+
  note a = announced_counts [OF s le_add1 u [unfolded r] refl]
  have "length (st_bytes (fl_rcv w)) = length b + length (st_bytes rcv')" using b by simp
  then show ?thesis
    unfolding flow_counts_def
  proof (intro conjI)
    show "fl_written (w\<lparr>fl_rcv := rcv', fl_upd := fl_upd w @ announce config sid u, fl_read := fl_read w + length b\<rparr>)
      = fl_read (w\<lparr>fl_rcv := rcv', fl_upd := fl_upd w @ announce config sid u, fl_read := fl_read w + length b\<rparr>)
        + length (st_bytes (fl_rcv (w\<lparr>fl_rcv := rcv', fl_upd := fl_upd w @ announce config sid u, fl_read := fl_read w + length b\<rparr>)))
        + length (concat (fl_data (w\<lparr>fl_rcv := rcv', fl_upd := fl_upd w @ announce config sid u, fl_read := fl_read w + length b\<rparr>)))"
      using inv b by (simp add: flow_counts_def)
  qed (use inv r a(1) a(2) [OF m, of config sid] a(3) [OF v, of sid] in \<open>simp_all add: flow_counts_def\<close>)
qed

lemma flow_fresh_read:
  assumes inv: "flow_counts config c us w" and cfg: "flow_config config" and fr: "flow_fresh config c us w"
    and small: "fl_read w + length b < 2 ^ 32"
    and b: "st_bytes (fl_rcv w) = b @ st_bytes rcv'" and n: "st_numRead rcv' = st_numRead (fl_rcv w) + of_nat (length b)"
    and d: "due \<longleftrightarrow> of_int (sc_MaxStreamBuffer config div 2) \<le> st_incr (fl_rcv w) + of_nat (length b) \<or> st_numRead rcv' = of_nat (length b)"
    and u: "u = (if due \<and> b \<noteq> [] then st_numRead rcv' else 0)"
    and i: "st_incr rcv' = (if due then 0 else st_incr (fl_rcv w) + of_nat (length b))"
  shows "flow_fresh config c (if u = 0 then us else us @ [fl_read w + length b])
    (w\<lparr>fl_rcv := rcv', fl_upd := fl_upd w @ announce config sid u, fl_read := fl_read w + length b\<rparr>)"
proof -
  let ?k = "fl_read w - last (c # us)" and ?h = "nat (sc_MaxStreamBuffer config div 2)"
  note bd = flow_config_bounds [OF cfg]
  have r: "st_numRead rcv' = of_nat (fl_read w + length b)" using inv n by (simp add: flow_counts_def)
  have r0: "st_numRead rcv' = 0 \<longleftrightarrow> fl_read w + length b = 0" 
    using of_nat_u32_eq [of "fl_read w + length b" 0] small unfolding r by simp
  have rn: "st_numRead rcv' = of_nat (length b) \<longleftrightarrow> fl_read w = 0" 
    using of_nat_u32_eq [of "fl_read w + length b" "length b"] small unfolding r by simp
  have l: "c \<le> last (c # us)" "last (c # us) \<le> fl_read w"
    using inv by (auto simp: flow_counts_def sorted_append)
  have w: "fl_read w + length b \<le> fl_written w" using inv b by (simp add: flow_counts_def)
  have k: "?k + length b < 2 ^ 31" using w l inflight_counts(3) [OF inv cfg] bd(6) by linarith
  have inc: "st_incr (fl_rcv w) + of_nat (length b) = of_nat (?k + length b)" using fr by (simp add: flow_fresh_def)
  have h: "of_int (sc_MaxStreamBuffer config div 2) = (of_nat ?h :: u32)" using bd(3) by simp
  have h2: "?h < 2 ^ 31" using bd(3,4) by (simp add: nat_less_iff)
  have "(of_nat ?h :: u32) \<le> of_nat (?k + length b) \<longleftrightarrow> ?h \<le> ?k + length b"
    by (rule of_nat_u32_le [OF h2 k])
  with d have due: "due \<longleftrightarrow> ?h \<le> ?k + length b \<or> fl_read w = 0" by (simp only: inc h rn)
  show ?thesis
  proof (cases "u = 0")
    case True
    with u r0 have "\<not> due \<or> b = []" by (cases b) auto
    then have "st_incr rcv' = of_nat (?k + length b) \<and> ?k + length b < max 1 ?h \<and> (0 < fl_read w + length b \<longrightarrow> 0 < last (c # us))"
    proof
      assume "\<not> due"
      with due i inc fr show ?thesis by (simp add: flow_fresh_def)
    next
      assume "b = []"
      moreover from this due fr have "due \<longrightarrow> ?k = 0" by (auto simp: flow_fresh_def max_def split: if_splits)
      ultimately show ?thesis using i fr by (simp add: flow_fresh_def)
    qed
    moreover have "fl_read w + length b - last (c # us) = ?k + length b" using l(2) by simp
    ultimately show ?thesis using True fr unfolding flow_fresh_def by (simp del: last.simps)
  next
    case False
    with u i have "due" "b \<noteq> []" "st_incr rcv' = 0" by (auto split: if_splits)
    with False fr show ?thesis by (simp add: flow_fresh_def)
  qed
qed

lemma flow_invI: "flow_counts config c us w \<Longrightarrow> (fl_read w < 2 ^ 32 \<Longrightarrow> flow_fresh config c us w) \<Longrightarrow> flow_inv config w"
  by (auto simp: flow_inv_def)

lemma flow_inv_read:
  assumes inv: "flow_inv config w" and cfg: "flow_config config" and room: "0 < room"
    and t: "tryRead config room (fl_rcv w) = (out, u, rcv')"
  shows "flow_inv config (w\<lparr>fl_rcv := rcv', fl_upd := fl_upd w @ announce config (st_id (fl_rcv w)) u,
       fl_read := fl_read w + length (st_bytes (fl_rcv w)) - length (st_bytes rcv')\<rparr>)"
proof -
  obtain c us where w: "flow_counts config c us w" and fr: "fl_read w < 2 ^ 32 \<Longrightarrow> flow_fresh config c us w"
    using inv by (auto simp: flow_inv_def)
  obtain b due where b: "st_bytes (fl_rcv w) = b @ st_bytes rcv'" and n: "st_numRead rcv' = st_numRead (fl_rcv w) + of_nat (length b)"
    and d: "due \<longleftrightarrow> of_int (sc_MaxStreamBuffer config div 2) \<le> st_incr (fl_rcv w) + of_nat (length b) \<or> st_numRead rcv' = of_nat (length b)"
    and u: "u = (if due \<and> b \<noteq> [] then st_numRead rcv' else 0)"
    and i: "st_incr rcv' = (if due then 0 else st_incr (fl_rcv w) + of_nat (length b))"
    using tryRead_count [OF t room flow_config_bounds(5) [OF cfg]] unfolding Let_def by blast
  have r: "fl_read w + length (st_bytes (fl_rcv w)) - length (st_bytes rcv') = fl_read w + length b" using b by simp
  have "u = 0 \<or> u = st_numRead rcv'" using u by simp
  note k = flow_counts_read [OF w b n this, of "st_id (fl_rcv w)"]
  have "fl_read w + length b < 2 ^ 32 \<Longrightarrow> flow_fresh config c (if u = 0 then us else us @ [fl_read w + length b])
    (w\<lparr>fl_rcv := rcv', fl_upd := fl_upd w @ announce config (st_id (fl_rcv w)) u, fl_read := fl_read w + length b\<rparr>)"
    by (rule flow_fresh_read [OF w cfg _ _ b n d u i]) (use fr in simp_all)
  then show ?thesis unfolding r by (intro flow_invI [OF k]) simp
qed

lemma flow_inv_update:
  assumes "flow_inv config w" and f: "fl_upd w = f # fs"
  shows "flow_inv config (w\<lparr>fl_upd := fs, fl_snd := stream_update (upd_Consumed (fm_data f)) (upd_Window (fm_data f)) (fl_snd w)\<rparr>)"
proof -
  obtain c us where w: "flow_counts config c us w" and fr: "fl_read w < 2 ^ 32 \<longrightarrow> flow_fresh config c us w"
    using assms by (auto simp: flow_inv_def)
  obtain u us' where us: "us = u # us'" using w f by (cases us) (auto simp: flow_counts_def)
  let ?w = "w\<lparr>fl_upd := fs, fl_snd := stream_update (upd_Consumed (fm_data f)) (upd_Window (fm_data f)) (fl_snd w)\<rparr>"
  have "c \<le> u" using w us by (simp add: flow_counts_def)
  then have "flow_counts config u us' ?w" using w us f by (auto simp: flow_counts_def stream_update_def)
  moreover have "flow_fresh config u us' ?w" if "flow_fresh config c us w"
    using that w us f by (auto simp: flow_fresh_def flow_counts_def stream_update_def)
  ultimately show ?thesis using fr by (auto simp: flow_inv_def)
qed

lemma flow_inv_step:
  assumes "flow_inv config w" and "flow_config config" and "flow_step config w w'"
  shows "flow_inv config w'"
  using assms(3)
proof cases
  case (flow_write b env n gs b' snd')
  obtain c us where w: "flow_counts config c us w" and fr: "fl_read w < 2 ^ 32 \<longrightarrow> flow_fresh config c us w"
    using assms(1) by (auto simp: flow_inv_def)
  have "0 < st_frameSize (fl_snd w)" using w by (simp add: flow_counts_def)
  from writeV2_turn_ok(3) [OF flow_write(3) this] have "st_peerWindow snd' = st_peerWindow (fl_snd w)" by simp
  then have "fl_read w' < 2 ^ 32 \<Longrightarrow> flow_fresh config c us w'" using fr by (simp add: flow_write(1) flow_fresh_def)
  moreover have "flow_counts config c us w'"
    unfolding flow_write(1) by (rule flow_counts_write [OF w assms(2) flow_write(2,3)])
  ultimately show ?thesis using flow_invI by blast
next
  case (flow_arrive d ds)
  obtain c us where w: "flow_counts config c us w" and fr: "fl_read w < 2 ^ 32 \<longrightarrow> flow_fresh config c us w"
    using assms(1) by (auto simp: flow_inv_def)
  have "flow_counts config c us w'"
    using w flow_arrive by (simp add: flow_counts_def notifyReadEvent_def pushBytes_def st_bytes_def)
  moreover have "flow_fresh config c us w'" if "flow_fresh config c us w"
    using that flow_arrive by (simp add: flow_fresh_def notifyReadEvent_def pushBytes_def)
  moreover have "fl_read w' = fl_read w" using flow_arrive by simp
  ultimately show ?thesis using fr flow_invI by metis
next
  case (flow_read room out u rcv')
  then show ?thesis using flow_inv_read [OF assms(1,2) flow_read(2,3)] by simp
next
  case (flow_update f fs)
  then show ?thesis using flow_inv_update [OF assms(1) flow_update(2)] by simp
qed

lemma flow_inv_start:
  assumes "flow_start config w" and "flow_config config"
  shows "flow_inv config w"
proof -
  have "flow_counts config 0 [] w \<and> flow_fresh config 0 [] w"
    using assms flow_config_bounds(1) [OF assms(2)]
    by (auto simp: flow_start_def flow_counts_def flow_fresh_def newStream_def initialPeerWindow_def st_bytes_def)
  then show ?thesis by (auto simp: flow_inv_def)
qed

text \<open>The invariant is stated of the configurations that pass \<open>VerifyConfig\<close>.\<close>

interpretation flows: inductive_invariant "flow_start config" "flow_step config"
  "\<lambda>w. flow_config config \<longrightarrow> flow_inv config w"
  by unfold_locales (auto intro: flow_inv_start flow_inv_step)

text \<open>
  C18. With protocol version 2 and a configuration that passes \<open>VerifyConfig\<close>, whatever the interleaving of
  writes, deliveries, reads and window updates, the bytes of a stream that are under way or buffered at
  the reader never exceed the larger of the initial window and \<open>MaxStreamBuffer\<close>, and a write never fails
  with \<open>ErrConsumed\<close>.
\<close>

theorem flow_control_bound:
  assumes "VerifyConfig config = None" and "sc_Version config = 2" and "reach (flow_start config) (flow_step config) w"
  shows "length (st_bytes (fl_rcv w)) + length (concat (fl_data w)) \<le> max 262144 (nat (sc_MaxStreamBuffer config)) \<and>
    fst (writeV2_turn env config b (fl_snd w)) \<noteq> ErrConsumed"
proof -
  have cfg: "flow_config config" using assms by (simp add: flow_config_def)
  with flows.reach_inv [OF assms(3)] obtain c us where w: "flow_counts config c us w" by (auto simp: flow_inv_def)
  note i = inflight_counts [OF w cfg]
  have "\<not> inflight (fl_snd w) < 0" using i(1) by simp
  then have "fst (writeV2_turn env config b (fl_snd w)) \<noteq> ErrConsumed"
    by (simp add: writeV2_turn_def case_prod_beta Let_def)
  moreover have "fl_written w = fl_read w + length (st_bytes (fl_rcv w)) + length (concat (fl_data w))"
    using w unfolding flow_counts_def by blast
  ultimately show ?thesis using i(2,3) unfolding flow_limit_def by linarith
qed

definition v2_config :: SmuxConfig where
  "v2_config = DefaultConfig\<lparr>sc_Version := 2\<rparr>"

definition fresh_flow :: "SmuxConfig \<Rightarrow> flow" where
  "fresh_flow config =
     \<lparr>fl_snd = newStream 3 (sc_MaxFrameSize config), fl_data = [], fl_rcv = newStream 3 (sc_MaxFrameSize config),
      fl_upd = [], fl_written = 0, fl_read = 0\<rparr>"

lemma fresh_flow_reach: "reach (flow_start config) (flow_step config) (fresh_flow config)"
  by (rule reach_start) (auto simp: flow_start_def fresh_flow_def)

lemma v2_config_ok: "VerifyConfig v2_config = None" "sc_Version v2_config = 2"
  by (simp_all add: v2_config_def DefaultConfig_def VerifyConfig_def)

theorem flow_control_bound_witness:
  "fst (writeV2_turn (\<lambda>_. (0, None)) v2_config [1, 2] (fl_snd (fresh_flow v2_config))) \<noteq> ErrConsumed"
  using flow_control_bound [OF v2_config_ok fresh_flow_reach, of "\<lambda>_. (0, None)" "[1, 2]"] by simp

text \<open>
  C19. A stream does not stall: as long as fewer than \<open>2 ^ 32\<close> bytes have been read from it, the writer has
  room again as soon as everything sent has been read and every window update has arrived.
\<close>

theorem flow_never_stalls:
  assumes "VerifyConfig config = None" and "sc_Version config = 2" and "reach (flow_start config) (flow_step config) w"
    and "fl_read w < 2 ^ 32" and "fl_data w = []" and "fl_upd w = []" and "st_bytes (fl_rcv w) = []"
  shows "0 < window (fl_snd w)"
proof -
  have cfg: "flow_config config" using assms by (simp add: flow_config_def)
  with flows.reach_inv [OF assms(3)] obtain c us where w: "flow_counts config c us w" and f: "flow_fresh config c us w"
    using assms(4) by (auto simp: flow_inv_def)
  have us: "us = []" and r: "fl_written w = fl_read w" using w assms(5-7) by (simp_all add: flow_counts_def)
  note bd = flow_config_bounds(3) [OF cfg] and win = window_counts(1) [OF w cfg] and p = peer_window [OF w cfg]
  show ?thesis
  proof (cases "0 < fl_read w")
    case True
    with f us have c: "0 < c" "fl_read w - c < max 1 (nat (sc_MaxStreamBuffer config div 2))"
      and pw: "st_peerWindow (fl_snd w) = of_int (sc_MaxStreamBuffer config)" by (auto simp: flow_fresh_def)
    have "int32 (st_peerWindow (fl_snd w)) = sc_MaxStreamBuffer config"
      using window_counts(1) [OF w cfg] int32_max [OF cfg] unfolding pw by simp
    with c(2) win r bd show ?thesis by (auto simp: max_def split: if_splits)
  next
    case False
    with r win p bd show ?thesis by auto
  qed
qed

theorem flow_never_stalls_witness: "0 < window (fl_snd (fresh_flow v2_config))"
  using flow_never_stalls [OF v2_config_ok fresh_flow_reach] by (simp add: fresh_flow_def newStream_def st_bytes_def)

section \<open>The stall after four gigabytes\<close>

text \<open>
  \<open>tryReadv2\<close> uses the count 0 for ``nothing to announce''. When the 32-bit count of the bytes read is 0 again at
  the moment an announcement is due, none is sent and the count since the last one starts over. With a
  window no larger than a frame the writer has then used all of its window, and nothing will ever
  open it again.
\<close>

definition stall_config :: SmuxConfig where
  "stall_config = DefaultConfig\<lparr>sc_Version := 2, sc_MaxStreamBuffer := 32768\<rparr>"

lemma stall_config_fields [simp]:
  "sc_Version stall_config = 2" "sc_MaxStreamBuffer stall_config = 32768" "sc_MaxFrameSize stall_config = 32768"
  by (simp_all add: stall_config_def DefaultConfig_def)

definition idle :: "nat \<Rightarrow> flow \<Rightarrow> bool" where
  "idle n w \<longleftrightarrow>
     st_numWritten (fl_snd w) = of_nat n \<and> st_peerConsumed (fl_snd w) = of_nat n \<and> st_frameSize (fl_snd w) = 32768 \<and>
     32768 \<le> int32 (st_peerWindow (fl_snd w)) \<and> st_numRead (fl_rcv w) = of_nat n \<and> st_incr (fl_rcv w) = 0 \<and>
     st_buffers (fl_rcv w) = [] \<and> fl_data w = [] \<and> fl_upd w = [] \<and> fl_written w = n \<and> fl_read w = n"

text \<open>A full window is written, arrives and is read in one piece.\<close>

definition used :: "nat \<Rightarrow> flow \<Rightarrow> bool" where
  "used n w \<longleftrightarrow>
     st_numWritten (fl_snd w) = of_nat (n + 32768) \<and> st_peerConsumed (fl_snd w) = of_nat n \<and> st_frameSize (fl_snd w) = 32768 \<and>
     st_numRead (fl_rcv w) = of_nat (n + 32768) \<and> st_incr (fl_rcv w) = 0 \<and>
     st_buffers (fl_rcv w) = [] \<and> fl_data w = [] \<and> fl_upd w = announce stall_config (st_id (fl_rcv w)) (of_nat (n + 32768)) \<and>
     fl_written w = n + 32768 \<and> fl_read w = n + 32768"

definition full :: bytes where "full = replicate 32768 0"

lemma length_full [simp]: "length full = 32768" and full_nonempty [simp]: "full \<noteq> []"
  by (simp_all add: full_def)

lemma split_full: "split_frames 32768 full = [full]"
  by (subst split_frames.simps, subst split_frames.simps) simp

lemma write_full:
  assumes "idle n w"
  shows "writeV2_turn (\<lambda>_. (32768, None)) stall_config full (fl_snd w) =
    (Turn 32768 [(newFrame 2 cmdPSH (st_id (fl_snd w)))\<lparr>fm_data := full\<rparr>] None [],
     (fl_snd w)\<lparr>st_numWritten := of_nat (n + 32768)\<rparr>)"
proof -
  have i: "inflight (fl_snd w) = 0" using assms by (simp add: inflight_def idle_def int32_def)
  have "int32 (st_peerWindow (fl_snd w)) < 2 ^ 31" by (rule int32_less)
  then have "window (fl_snd w) = int32 (st_peerWindow (fl_snd w))"
    using i assms by (simp add: window_def idle_def)
  then have "cut_window (window (fl_snd w)) full = (full, [])" using assms by (simp add: cut_window_def idle_def le_nat_iff)
  with i assms show ?thesis by (simp add: writeV2_turn_def data_frames_def split_full idle_def)
qed

lemma read_full:
  assumes "st_buffers st = [full]" and "st_incr st = 0" and "st_numRead st = of_nat n"
  shows "\<exists>out st'. tryRead stall_config 32768 st = (out, of_nat (n + 32768), st') \<and> st_buffers st' = [] \<and>
    st_incr st' = 0 \<and> st_numRead st' = of_nat (n + 32768) \<and> st_id st' = st_id st"
  using assms by (simp add: tryRead_def tryReadv2_def copy_out_def count_read_def Let_def)

lemma use_window:
  assumes "reach start (flow_step stall_config) w" and "idle n w"
  shows "\<exists>w'. reach start (flow_step stall_config) w' \<and> used n w' \<and> st_peerWindow (fl_snd w') = st_peerWindow (fl_snd w)"
proof -
  let ?f = "(newFrame 2 cmdPSH (st_id (fl_snd w)))\<lparr>fm_data := full\<rparr>"
  let ?w1 = "w\<lparr>fl_snd := (fl_snd w)\<lparr>st_numWritten := of_nat (n + 32768)\<rparr>, fl_data := fl_data w @ map fm_data [?f],
       fl_written := fl_written w + length (concat (map fm_data [?f]))\<rparr>"
  have "flow_step stall_config w ?w1" by (rule flow_write [OF _ write_full [OF assms(2)]]) simp
  with assms(1) have r1: "reach start (flow_step stall_config) ?w1" by (rule reach_step)
  let ?w2 = "?w1\<lparr>fl_data := [], fl_rcv := notifyReadEvent (pushBytes full (fl_rcv ?w1))\<rparr>"
  have "flow_step stall_config ?w1 ?w2" by (rule flow_arrive) (use assms(2) in \<open>simp add: idle_def\<close>)
  with r1 have r2: "reach start (flow_step stall_config) ?w2" by (rule reach_step)
  have "st_buffers (fl_rcv ?w2) = [full]" "st_incr (fl_rcv ?w2) = 0" "st_numRead (fl_rcv ?w2) = of_nat n"
    using assms(2) by (simp_all add: idle_def notifyReadEvent_def pushBytes_def)
  from read_full [OF this] obtain out st' where t: "tryRead stall_config 32768 (fl_rcv ?w2) = (out, of_nat (n + 32768), st')"
    and st: "st_buffers st' = []" "st_incr st' = 0" "st_numRead st' = of_nat (n + 32768)" "st_id st' = st_id (fl_rcv ?w2)" by blast
  let ?w3 = "?w2\<lparr>fl_rcv := st', fl_upd := fl_upd ?w2 @ announce stall_config (st_id (fl_rcv ?w2)) (of_nat (n + 32768)),
       fl_read := fl_read ?w2 + length (st_bytes (fl_rcv ?w2)) - length (st_bytes st')\<rparr>"
  have "flow_step stall_config ?w2 ?w3" by (rule flow_read [OF _ t]) simp
  with r2 have "reach start (flow_step stall_config) ?w3" by (rule reach_step)
  moreover have "used n ?w3"
    using assms(2) st by (simp add: used_def idle_def notifyReadEvent_def pushBytes_def st_bytes_def newFrame_def)
  ultimately show ?thesis by (intro exI [of _ ?w3]) simp
qed

lemma next_window:
  assumes "reach start (flow_step stall_config) w" and "used n w" and "(of_nat (n + 32768) :: u32) \<noteq> 0"
  shows "\<exists>w'. reach start (flow_step stall_config) w' \<and> idle (n + 32768) w' \<and> st_peerWindow (fl_snd w') = 32768"
proof -
  let ?f = "sendWindowUpdate stall_config (st_id (fl_rcv w)) (of_nat (n + 32768))"
  let ?w = "w\<lparr>fl_upd := [], fl_snd := stream_update (upd_Consumed (fm_data ?f)) (upd_Window (fm_data ?f)) (fl_snd w)\<rparr>"
  have "flow_step stall_config w ?w" by (rule flow_update) (use assms(2,3) in \<open>simp add: used_def announce_def\<close>)
  with assms(1) have "reach start (flow_step stall_config) ?w" by (rule reach_step)
  moreover have "idle (n + 32768) ?w" "st_peerWindow (fl_snd ?w) = 32768"
    using assms(2) by (simp_all add: used_def idle_def stream_update_def upd_of_announce int32_def)
  ultimately show ?thesis by blast
qed

lemma windows:
  assumes "Suc k * 32768 < 2 ^ 32"
  shows "\<exists>w. reach (flow_start stall_config) (flow_step stall_config) w \<and> idle (Suc k * 32768) w \<and> st_peerWindow (fl_snd w) = 32768"
  using assms
proof (induction k)
  case 0
  have "idle 0 (fresh_flow stall_config)"
    by (simp add: idle_def fresh_flow_def newStream_def initialPeerWindow_def int32_def)
  from use_window [OF fresh_flow_reach this] obtain w
    where "reach (flow_start stall_config) (flow_step stall_config) w" "used 0 w" by blast
  from next_window [OF this] show ?case by simp
next
  case (Suc k)
  then obtain w where w: "reach (flow_start stall_config) (flow_step stall_config) w" "idle (Suc k * 32768) w" by auto
  from use_window [OF this] obtain w' where w': "reach (flow_start stall_config) (flow_step stall_config) w'" "used (Suc k * 32768) w'"
    by blast
  have e: "Suc k * 32768 + 32768 = Suc (Suc k) * 32768" by simp
  have "(of_nat (Suc (Suc k) * 32768) :: u32) \<noteq> 0"
    using of_nat_u32_eq [of "Suc (Suc k) * 32768" 0] Suc.prems by simp
  from next_window [OF w' this [folded e]] show ?case unfolding e .
qed

definition stuck :: "flow \<Rightarrow> bool" where
  "stuck w \<longleftrightarrow> window (fl_snd w) = 0 \<and> 0 < st_frameSize (fl_snd w) \<and> st_buffers (fl_rcv w) = [] \<and> fl_data w = [] \<and> fl_upd w = []"

lemma stuck_step:
  assumes "stuck w" and "flow_step config w w'"
  shows "stuck w' \<and> fl_written w' = fl_written w"
  using assms(2)
proof cases
  case (flow_write b env n gs b' snd')
  have fs: "0 < st_frameSize (fl_snd w)" using assms(1) by (simp add: stuck_def)
  note t = writeV2_turn_ok [OF flow_write(3) fs]
  have "concat (map fm_data gs) = []" using t(1) assms(1) by (simp add: cut_window_def stuck_def)
  moreover have "gs = []"
    using flow_write(3) assms(1)
    by (auto simp: writeV2_turn_def cut_window_def stuck_def data_frames_def split_frames.simps split: if_splits prod.splits)
  ultimately show ?thesis using t(3) assms(1) flow_write(1) by (simp add: stuck_def)
next
  case (flow_read room out u rcv')
  then have "st_buffers rcv' = [] \<and> u = 0"
    using assms(1)
    by (auto simp: stuck_def tryRead_def tryReadv2_def copy_out_def count_read_def Let_def split: if_splits)
  then show ?thesis using flow_read(1) assms(1) by (simp add: stuck_def announce_def)
qed (use assms(1) in \<open>simp_all add: stuck_def\<close>)

lemma stuck_steps: "(flow_step config)\<^sup>*\<^sup>* w w' \<Longrightarrow> stuck w \<Longrightarrow> stuck w' \<and> fl_written w' = fl_written w"
  by (induction rule: rtranclp_induct) (use stuck_step in fastforce)+

text \<open>
  C32. With \<open>MaxStreamBuffer\<close> equal to \<open>MaxFrameSize\<close>, which \<open>VerifyConfig\<close> accepts, a stream can be driven to a
  state after exactly \<open>2 ^ 32\<close> bytes in which everything written has been read and yet the writer
  never gets another byte through, whatever happens next on the stream.
\<close>

theorem four_gigabytes_stall:
  "VerifyConfig stall_config = None \<and>
   (\<exists>w. reach (flow_start stall_config) (flow_step stall_config) w \<and> fl_read w = 2 ^ 32 \<and>
      (\<forall>w'. (flow_step stall_config)\<^sup>*\<^sup>* w w' \<longrightarrow> fl_written w' = 2 ^ 32))"
proof
  show "VerifyConfig stall_config = None" by (simp add: VerifyConfig_def stall_config_def DefaultConfig_def)
  let ?n = "131071 * 32768 :: nat"
  obtain w where w: "reach (flow_start stall_config) (flow_step stall_config) w" "idle ?n w" "st_peerWindow (fl_snd w) = 32768"
    using windows [of 131070] by auto
  from use_window [OF w(1,2)] w(3) obtain v where v: "reach (flow_start stall_config) (flow_step stall_config) v"
    and u: "used ?n v" and p: "st_peerWindow (fl_snd v) = 32768" by auto
  have z: "(of_nat (?n + 32768) :: u32) = 0" by simp
  have "stuck v"
    using u p z unfolding used_def stuck_def window_def inflight_def by (simp add: announce_def int32_def)
  then have "\<forall>w'. (flow_step stall_config)\<^sup>*\<^sup>* v w' \<longrightarrow> fl_written w' = fl_written v" using stuck_steps by blast
  moreover have "fl_read v = 2 ^ 32" "fl_written v = 2 ^ 32" using u by (simp_all add: used_def)
  ultimately show "\<exists>w. reach (flow_start stall_config) (flow_step stall_config) w \<and> fl_read w = 2 ^ 32 \<and>
      (\<forall>w'. (flow_step stall_config)\<^sup>*\<^sup>* w w' \<longrightarrow> fl_written w' = 2 ^ 32)" using v by metis
qed

theorem four_gigabytes_stall_witness:
  "\<exists>w. reach (flow_start stall_config) (flow_step stall_config) w \<and> fl_read w = 4294967296 \<and> fl_written w = 4294967296"
proof -
  obtain w where w: "reach (flow_start stall_config) (flow_step stall_config) w" "fl_read w = 2 ^ 32"
    "\<forall>w'. (flow_step stall_config)\<^sup>*\<^sup>* w w' \<longrightarrow> fl_written w' = 2 ^ 32" using four_gigabytes_stall by blast
  then have "fl_written w = 2 ^ 32" by blast
  with w(1,2) show ?thesis by auto
qed

end
