(* ===== verification/SmuxSession.thy ===== *)
theory SmuxSession
  imports SmuxStream
begin

text \<open>
  Sessions of the multiplexer (\<open>src/pkg/smux/session.go\<close>).

  The streams of a session are objects: they live in a store and are named by their index in it, and the
  table of the session maps stream identifiers to these references. A stream that has left the table lives on for
  whoever holds a reference. The token bucket is a Go \<open>int32\<close>. Each function below is one atomic step, the code
  between two points at which other goroutines can interfere; the relation \<open>smux_step\<close> interleaves them.
  Deadlines are left out.
\<close>

section \<open>Sessions\<close>

type_synonym sref = nat

record Session =
  ss_config :: SmuxConfig
  ss_nextStreamID :: u32
  ss_bucket :: int
  ss_bucketNotify :: bool
  ss_streams :: "u32 \<Rightarrow> sref option"
  ss_store :: "stream list"
  ss_die :: bool
  ss_readError :: bool
  ss_protoError :: bool
  ss_writeError :: "string option"
  ss_accepts :: "sref list"
  ss_dataReady :: bool
  ss_goAway :: bool
  ss_requestID :: u32

definition defaultAcceptBacklog :: nat where "defaultAcceptBacklog = 1024"

definition newSession :: "SmuxConfig \<Rightarrow> bool \<Rightarrow> Session" where
  "newSession config client =
     \<lparr>ss_config = config, ss_nextStreamID = (if client then 1 else 0), ss_bucket = wrap32 (sc_MaxReceiveBuffer config),
      ss_bucketNotify = False, ss_streams = (\<lambda>_. None), ss_store = [], ss_die = False, ss_readError = False,
      ss_protoError = False, ss_writeError = None, ss_accepts = [], ss_dataReady = False, ss_goAway = False, ss_requestID = 0\<rparr>"

text \<open>\<open>Server\<close> and \<open>Client\<close>.\<close>

definition open_session :: "bool \<Rightarrow> SmuxConfig option \<Rightarrow> string + Session" where
  "open_session client config =
     (let c = (case config of None \<Rightarrow> DefaultConfig | Some c \<Rightarrow> c)
      in case VerifyConfig c of Some e \<Rightarrow> Inl e | None \<Rightarrow> Inr (newSession c client))"

definition set_stream :: "sref \<Rightarrow> stream \<Rightarrow> Session \<Rightarrow> Session" where
  "set_stream r st s = s\<lparr>ss_store := (ss_store s)[r := st]\<rparr>"

definition alloc :: "stream \<Rightarrow> Session \<Rightarrow> sref \<times> Session" where
  "alloc st s = (length (ss_store s), s\<lparr>ss_store := ss_store s @ [st]\<rparr>)"

text \<open>The request \<open>writeFrameInternal\<close> hands to the shaper.\<close>

definition write_request :: "Frame \<Rightarrow> nat \<Rightarrow> Session \<Rightarrow> writeRequest \<times> Session" where
  "write_request f cls s =
     (let q = ss_requestID s + 1
      in (\<lparr>wr_class = cls, wr_frame = f, wr_seq = q\<rparr>, s\<lparr>ss_requestID := q\<rparr>))"

text \<open>The identifier \<open>OpenStream\<close> draws; \<open>None\<close> is \<open>ErrGoAway\<close>.\<close>

definition next_id :: "Session \<Rightarrow> u32 option \<times> Session" where
  "next_id s =
     (if ss_goAway s then (None, s)
      else
        let sid = ss_nextStreamID s + 2; s' = s\<lparr>ss_nextStreamID := sid\<rparr> in
        if sid = sid mod 2 then (None, s'\<lparr>ss_goAway := True\<rparr>) else (Some sid, s'))"

text \<open>
  \<open>OpenStream\<close> up to the point where it waits for its control frame to be sent: the stream exists, the peer
  will hear of it, but the table does not have it yet.
\<close>

definition OpenStream_syn :: "Session \<Rightarrow> (string + sref \<times> writeRequest) \<times> Session" where
  "OpenStream_syn s =
     (if ss_die s then (Inl ''io: read/write on closed pipe'', s)
      else
        case next_id s of
          (None, s1) \<Rightarrow> (Inl ''stream id overflows, should start a new connection'', s1)
        | (Some sid, s1) \<Rightarrow>
            let (r, s2) = alloc (newStream sid (sc_MaxFrameSize (ss_config s1))) s1;
                (q, s3) = write_request (newFrame (of_int (sc_Version (ss_config s2))) cmdSYN sid) CLSCTRL s2
            in (Inr (r, q), s3))"

text \<open>The rest of it, with the error of the control frame if there was one.\<close>

definition OpenStream_add :: "string option \<Rightarrow> sref \<Rightarrow> Session \<Rightarrow> (string + sref) \<times> Session" where
  "OpenStream_add werr r s =
     (case werr of
        Some e \<Rightarrow> (Inl e, s)
      | None \<Rightarrow>
          if ss_readError s then (Inl ''socket read error'', s)
          else case ss_writeError s of
            Some e \<Rightarrow> (Inl e, s)
          | None \<Rightarrow>
              if ss_die s then (Inl ''io: read/write on closed pipe'', s)
              else (Inr r, s\<lparr>ss_streams := (ss_streams s)(st_id (ss_store s ! r) \<mapsto> r)\<rparr>))"

definition AcceptStream :: "Session \<Rightarrow> (sref \<times> Session) option" where
  "AcceptStream s = (case ss_accepts s of [] \<Rightarrow> None | r # rs \<Rightarrow> Some (r, s\<lparr>ss_accepts := rs\<rparr>))"

definition notifyBucket :: "Session \<Rightarrow> Session" where
  "notifyBucket s = s\<lparr>ss_bucketNotify := True\<rparr>"

definition returnTokens :: "nat \<Rightarrow> Session \<Rightarrow> Session" where
  "returnTokens n s =
     (let b = wrap32 (ss_bucket s + int n); s' = s\<lparr>ss_bucket := b\<rparr>
      in if 0 < b then notifyBucket s' else s')"

definition streamClosed :: "u32 \<Rightarrow> Session \<Rightarrow> Session" where
  "streamClosed sid s =
     (case ss_streams s sid of
        None \<Rightarrow> s
      | Some r \<Rightarrow>
          let (n, st) = recycleTokens (ss_store s ! r);
              s1 = set_stream r st s;
              s2 = (if 0 < n then returnTokens n s1 else s1)
          in s2\<lparr>ss_streams := (ss_streams s2)(sid := None)\<rparr>)"

definition Session_Close :: "Session \<Rightarrow> string option \<times> Session" where
  "Session_Close s =
     (if ss_die s then (Some ''io: read/write on closed pipe'', s)
      else
        (None, s\<lparr>ss_die := True,
          ss_store := map (\<lambda>r. let st = ss_store s ! r in if ss_streams s (st_id st) = Some r then sessionClose st else st)
            [0..<length (ss_store s)]\<rparr>))"

text \<open>
  \<open>Close\<close> of a stream up to the point where it waits for its FIN to be sent; afterwards it calls \<open>streamClosed\<close>
  with the identifier of the stream.
\<close>

definition Stream_Close :: "sref \<Rightarrow> Session \<Rightarrow> (string + u32 \<times> writeRequest) \<times> Session" where
  "Stream_Close r s =
     (let st = ss_store s ! r in
      if st_die st then (Inl ''io: read/write on closed pipe'', s)
      else
        let s1 = set_stream r (sessionClose st) s;
            (q, s2) = write_request (newFrame (of_int (sc_Version (ss_config s1))) cmdFIN (st_id st)) CLSDATA s1
        in (Inr (st_id st, q), s2))"

text \<open>A read through a reference: the outcome, the count to announce to the peer, and the tokens to return.\<close>

definition Stream_read :: "nat \<Rightarrow> sref \<Rightarrow> Session \<Rightarrow> rd \<times> u32 \<times> Session" where
  "Stream_read room r s =
     (case tryRead (ss_config s) room (ss_store s ! r) of (out, u, st) \<Rightarrow> (out, u, set_stream r st s))"

text \<open>One turn of the loop of \<open>keepalive\<close>, at a ping and at a timeout.\<close>

definition keepalive_ping :: "Session \<Rightarrow> writeRequest \<times> Session" where
  "keepalive_ping s =
     (case write_request (newFrame (of_int (sc_Version (ss_config s))) cmdNOP 0) CLSCTRL s of (q, s1) \<Rightarrow> (q, notifyBucket s1))"

definition keepalive_timeout :: "Session \<Rightarrow> Session" where
  "keepalive_timeout s =
     (if ss_dataReady s then s\<lparr>ss_dataReady := False\<rparr>
      else if 0 < ss_bucket s then snd (Session_Close s) else s)"

text \<open>What \<open>recvLoop\<close> does with a frame it has read; \<open>None\<close> while it blocks on a full accept queue.\<close>

definition recv_frame :: "Frame \<Rightarrow> Session \<Rightarrow> Session option" where
  "recv_frame f s0 =
     (let s = s0\<lparr>ss_dataReady := True\<rparr>; sid = fm_sid f in
      if fm_cmd f = cmdSYN then
        (case ss_streams s sid of
           Some _ \<Rightarrow> Some s
         | None \<Rightarrow>
             let (r, s1) = alloc (newStream sid (sc_MaxFrameSize (ss_config s))) s;
                 s2 = s1\<lparr>ss_streams := (ss_streams s1)(sid \<mapsto> r)\<rparr>
             in if length (ss_accepts s) < defaultAcceptBacklog then Some (s2\<lparr>ss_accepts := ss_accepts s @ [r]\<rparr>)
                else if ss_die s then Some s2 else None)
      else case ss_streams s sid of
        None \<Rightarrow> Some s
      | Some r \<Rightarrow>
          let st = ss_store s ! r in
          if fm_cmd f = cmdFIN then Some (set_stream r (notifyReadEvent (stream_fin st)) s)
          else if fm_cmd f = cmdPSH \<and> fm_data f \<noteq> [] then
            Some ((set_stream r (notifyReadEvent (pushBytes (fm_data f) st)) s)
                    \<lparr>ss_bucket := wrap32 (ss_bucket s - int (length (fm_data f)))\<rparr>)
          else if fm_cmd f = cmdUPD then
            Some (set_stream r (stream_update (upd_Consumed (fm_data f)) (upd_Window (fm_data f)) st) s)
          else Some s)"

text \<open>The loop waits while the bucket is empty and ends with the first error.\<close>

definition may_receive :: "Session \<Rightarrow> bool" where
  "may_receive s \<longleftrightarrow> (0 < ss_bucket s \<or> ss_die s) \<and> \<not> ss_readError s \<and> \<not> ss_protoError s"

definition smux_version :: "Session \<Rightarrow> u8" where
  "smux_version s = of_int (sc_Version (ss_config s))"

text \<open>
  \<open>recvLoop\<close> on everything the connection delivers until it is closed: what is left unread when the loop
  has to wait or has ended, and the session then.
\<close>

function recvLoop :: "bytes \<Rightarrow> Session \<Rightarrow> bytes \<times> Session" where
  "recvLoop inp s =
     (if \<not> may_receive s then (inp, s)
      else case recv_next (smux_version s) inp of
        (ReadError, rest) \<Rightarrow> (rest, s\<lparr>ss_readError := True\<rparr>)
      | (ProtoError, rest) \<Rightarrow> (rest, s\<lparr>ss_dataReady := True, ss_protoError := True\<rparr>)
      | (Got f, rest) \<Rightarrow> (case recv_frame f s of None \<Rightarrow> (inp, s) | Some s' \<Rightarrow> recvLoop rest s'))"
  by pat_completeness auto
termination
  by (relation "measure (\<lambda>(inp, s). length inp)")
    (auto simp: recv_next_def Let_def headerSize_def split: if_splits)

declare recvLoop.simps [simp del]

section \<open>Interleavings\<close>

text \<open>
  The goroutines that work on a session: besides the session itself, the streams whose \<open>OpenStream\<close> has sent
  its SYN and not yet entered them in the table, the identifiers whose \<open>Close\<close> has yet to call \<open>streamClosed\<close>, and
  the tokens that readers hold between taking bytes from a buffer and returning the tokens for them. What
  the peer sends is arbitrary within the predicate on frames that is the argument.
\<close>

record World =
  wd_sess :: Session
  wd_opening :: "sref list"
  wd_closing :: "u32 list"
  wd_owed :: "nat list"

definition tokens_of :: "rd \<Rightarrow> nat list" where
  "tokens_of out = (case out of Data d \<Rightarrow> [length d] | _ \<Rightarrow> [])"

inductive smux_step :: "(Frame \<Rightarrow> bool) \<Rightarrow> World \<Rightarrow> World \<Rightarrow> bool" for peer :: "Frame \<Rightarrow> bool" where
  recv: "may_receive (wd_sess w) \<Longrightarrow> peer f \<Longrightarrow> recv_next (smux_version (wd_sess w)) inp = (Got f, rest) \<Longrightarrow>
     recv_frame f (wd_sess w) = Some s' \<Longrightarrow> smux_step peer w (w\<lparr>wd_sess := s'\<rparr>)"
| recv_fail: "may_receive (wd_sess w) \<Longrightarrow> smux_step peer w (w\<lparr>wd_sess := (wd_sess w)\<lparr>ss_readError := True\<rparr>\<rparr>)"
| recv_bad: "may_receive (wd_sess w) \<Longrightarrow>
     smux_step peer w (w\<lparr>wd_sess := (wd_sess w)\<lparr>ss_dataReady := True, ss_protoError := True\<rparr>\<rparr>)"
| open_syn: "OpenStream_syn (wd_sess w) = (Inr (r, q), s') \<Longrightarrow>
     smux_step peer w (w\<lparr>wd_sess := s', wd_opening := r # wd_opening w\<rparr>)"
| open_fail: "OpenStream_syn (wd_sess w) = (Inl e, s') \<Longrightarrow> smux_step peer w (w\<lparr>wd_sess := s'\<rparr>)"
| open_add: "r \<in> set (wd_opening w) \<Longrightarrow> OpenStream_add werr r (wd_sess w) = (x, s') \<Longrightarrow>
     smux_step peer w (w\<lparr>wd_sess := s', wd_opening := remove1 r (wd_opening w)\<rparr>)"
| accept: "AcceptStream (wd_sess w) = Some (r, s') \<Longrightarrow> smux_step peer w (w\<lparr>wd_sess := s'\<rparr>)"
| read: "r < length (ss_store (wd_sess w)) \<Longrightarrow> 0 < room \<Longrightarrow> Stream_read room r (wd_sess w) = (out, u, s') \<Longrightarrow>
     smux_step peer w (w\<lparr>wd_sess := s', wd_owed := tokens_of out @ wd_owed w\<rparr>)"
| write_to: "r < length (ss_store (wd_sess w)) \<Longrightarrow>
     WriteTo_turn (ss_config (wd_sess w)) (ss_store (wd_sess w) ! r) = Some (b, u, st) \<Longrightarrow>
     smux_step peer w (w\<lparr>wd_sess := set_stream r st (wd_sess w), wd_owed := length b # wd_owed w\<rparr>)"
| give_back: "n \<in> set (wd_owed w) \<Longrightarrow>
     smux_step peer w (w\<lparr>wd_sess := returnTokens n (wd_sess w), wd_owed := remove1 n (wd_owed w)\<rparr>)"
| write1: "r < length (ss_store (wd_sess w)) \<Longrightarrow> Write env (ss_config (wd_sess w)) b (ss_store (wd_sess w) ! r) = (x, st) \<Longrightarrow>
     smux_step peer w (w\<lparr>wd_sess := set_stream r st (wd_sess w)\<rparr>)"
| write2: "r < length (ss_store (wd_sess w)) \<Longrightarrow> writeV2_turn env (ss_config (wd_sess w)) b (ss_store (wd_sess w) ! r) = (t, st) \<Longrightarrow>
     smux_step peer w (w\<lparr>wd_sess := set_stream r st (wd_sess w)\<rparr>)"
| seen_event: "r < length (ss_store (wd_sess w)) \<Longrightarrow>
     smux_step peer w (w\<lparr>wd_sess := set_stream r ((ss_store (wd_sess w) ! r)\<lparr>st_readEvent := False\<rparr>) (wd_sess w)\<rparr>)"
| seen_bucket: "smux_step peer w (w\<lparr>wd_sess := (wd_sess w)\<lparr>ss_bucketNotify := False\<rparr>\<rparr>)"
| close: "r < length (ss_store (wd_sess w)) \<Longrightarrow> Stream_Close r (wd_sess w) = (Inr (sid, q), s') \<Longrightarrow>
     smux_step peer w (w\<lparr>wd_sess := s', wd_closing := sid # wd_closing w\<rparr>)"
| closed: "sid \<in> set (wd_closing w) \<Longrightarrow>
     smux_step peer w (w\<lparr>wd_sess := streamClosed sid (wd_sess w), wd_closing := remove1 sid (wd_closing w)\<rparr>)"
| die: "smux_step peer w (w\<lparr>wd_sess := snd (Session_Close (wd_sess w))\<rparr>)"
| ping: "smux_step peer w (w\<lparr>wd_sess := snd (keepalive_ping (wd_sess w))\<rparr>)"
| timeout: "smux_step peer w (w\<lparr>wd_sess := keepalive_timeout (wd_sess w)\<rparr>)"
| send_fail: "smux_step peer w (w\<lparr>wd_sess := (wd_sess w)\<lparr>ss_writeError := Some e\<rparr>\<rparr>)"

definition smux_start :: "SmuxConfig \<Rightarrow> World \<Rightarrow> bool" where
  "smux_start config w \<longleftrightarrow>
     (\<exists>client. w = \<lparr>wd_sess = newSession config client, wd_opening = [], wd_closing = [], wd_owed = []\<rparr>)"

section \<open>The token bucket\<close>

definition buffered :: "Session \<Rightarrow> nat" where
  "buffered s = sum_list (map (length \<circ> st_bytes) (ss_store s))"

definition refs_ok :: "Session \<Rightarrow> bool" where
  "refs_ok s \<longleftrightarrow> (\<forall>sid r. ss_streams s sid = Some r \<longrightarrow> r < length (ss_store s) \<and> st_id (ss_store s ! r) = sid)"

definition tokens_ok :: "int \<Rightarrow> nat \<Rightarrow> Session \<Rightarrow> bool" where
  "tokens_ok m owed s \<longleftrightarrow>
     ss_bucket s = wrap32 (m - int (buffered s + owed)) \<and> (\<not> ss_die s \<longrightarrow> int (buffered s + owed) \<le> m + 65534)"

definition sess_ok :: "SmuxConfig \<Rightarrow> nat \<Rightarrow> Session \<Rightarrow> bool" where
  "sess_ok config owed s \<longleftrightarrow> ss_config s = config \<and> refs_ok s \<and> tokens_ok (sc_MaxReceiveBuffer config) owed s"

definition world_inv :: "SmuxConfig \<Rightarrow> World \<Rightarrow> bool" where
  "world_inv config w \<longleftrightarrow>
     sess_ok config (sum_list (wd_owed w)) (wd_sess w) \<and> (\<forall>r \<in> set (wd_opening w). r < length (ss_store (wd_sess w)))"

lemma wrap32_add: "wrap32 (wrap32 x + y) = wrap32 (x + y)"
proof -
  have "((x + 2 ^ 31) mod 2 ^ 32 + y) mod 2 ^ 32 = (x + 2 ^ 31 + y) mod (2 ^ 32 :: int)" by (rule mod_add_left_eq)
  then show ?thesis by (simp add: wrap32_def algebra_simps)
qed

lemma buffered_set:
  assumes "r < length (ss_store s)"
  shows "buffered (set_stream r st s) + length (st_bytes (ss_store s ! r)) = buffered s + length (st_bytes st)"
proof -
  obtain a x b where s: "ss_store s = a @ x # b" "length a = r" using id_take_nth_drop [OF assms] assms by (metis length_take min.absorb4)
  then show ?thesis by (auto simp: buffered_def set_stream_def nth_append list_update_append)
qed

text \<open>Two ways to change a session that keep its tokens: touch other fields, or add an empty stream.\<close>

lemma sess_ok_frame:
  assumes "sess_ok config owed s" and "ss_config s' = ss_config s" and "ss_bucket s' = ss_bucket s"
    and "ss_streams s' = ss_streams s" and "map st_bytes (ss_store s') = map st_bytes (ss_store s)"
    and "map st_id (ss_store s') = map st_id (ss_store s)" and "ss_die s \<Longrightarrow> ss_die s'"
  shows "sess_ok config owed s'"
proof -
  have b: "buffered s' = buffered s" unfolding buffered_def using assms(5) by (metis list.map_comp)
  have l: "length (ss_store s') = length (ss_store s)" using assms(5) map_eq_imp_length_eq by blast
  have i: "r < length (ss_store s) \<Longrightarrow> st_id (ss_store s' ! r) = st_id (ss_store s ! r)" for r
    using assms(6) l by (metis nth_map)
  have "refs_ok s'" using assms(1) i unfolding refs_ok_def sess_ok_def assms(4) l by metis
  moreover have "tokens_ok (sc_MaxReceiveBuffer config) owed s'"
    using assms(1,3,7) b by (auto simp: sess_ok_def tokens_ok_def)
  ultimately show ?thesis using assms(1,2) by (simp add: sess_ok_def)
qed

lemma sess_ok_set:
  assumes "sess_ok config owed s" and "st_bytes st = st_bytes (ss_store s ! r)" and "st_id st = st_id (ss_store s ! r)"
  shows "sess_ok config owed (set_stream r st s)"
proof (rule sess_ok_frame [OF assms(1)])
  show "map st_bytes (ss_store (set_stream r st s)) = map st_bytes (ss_store s)"
    using assms(2) by (cases "r < length (ss_store s)") (simp_all add: set_stream_def map_update list_update_same_conv list_update_beyond)
  show "map st_id (ss_store (set_stream r st s)) = map st_id (ss_store s)"
    using assms(3) by (cases "r < length (ss_store s)") (simp_all add: set_stream_def map_update list_update_same_conv list_update_beyond)
qed (simp_all add: set_stream_def)

lemma sess_ok_alloc:
  assumes "sess_ok config owed s" and "st_bytes st = []" and "alloc st s = (r, s')"
  shows "sess_ok config owed s'" and "sess_ok config owed (s'\<lparr>ss_streams := (ss_streams s')(st_id st \<mapsto> r)\<rparr>)"
    and "r < length (ss_store s')" and "length (ss_store s) \<le> length (ss_store s')"
  using assms by (auto simp: sess_ok_def refs_ok_def tokens_ok_def buffered_def alloc_def nth_append less_SucI)

lemma sess_ok_tokens:
  assumes "sess_ok config owed s" and "refs_ok s'"
    and e: "int (buffered s' + owed') = int (buffered s + owed) - d"
    and "ss_bucket s' = wrap32 (ss_bucket s + d)" and "ss_die s' = ss_die s" and "ss_config s' = ss_config s"
    and "\<not> ss_die s \<Longrightarrow> int (buffered s + owed) - d \<le> sc_MaxReceiveBuffer config + 65534"
  shows "sess_ok config owed' s'"
proof -
  have e': "sc_MaxReceiveBuffer config - int (buffered s + owed) + d = sc_MaxReceiveBuffer config - int (buffered s' + owed')"
    using e by simp
  have "ss_bucket s = wrap32 (sc_MaxReceiveBuffer config - int (buffered s + owed))"
    using assms(1) by (simp only: sess_ok_def tokens_ok_def)
  then have "ss_bucket s' = wrap32 (sc_MaxReceiveBuffer config - int (buffered s' + owed'))"
    unfolding assms(4) by (simp only: wrap32_add e')
  moreover have "int (buffered s' + owed') \<le> sc_MaxReceiveBuffer config + 65534" if "\<not> ss_die s'"
    unfolding e using assms(7) that assms(5) by blast
  ultimately show ?thesis using assms(1,2,6) by (simp add: sess_ok_def tokens_ok_def)
qed

lemma refs_ok_set:
  assumes "refs_ok s" and "st_id st = st_id (ss_store s ! r)" and "ss_streams s' = ss_streams s"
    and "ss_store s' = ss_store (set_stream r st s)"
  shows "refs_ok s'"
proof -
  have "k < length (ss_store s) \<Longrightarrow> st_id ((ss_store s)[r := st] ! k) = st_id (ss_store s ! k)" for k
    using assms(2) by (cases "k = r") auto
  then show ?thesis using assms(1) unfolding refs_ok_def assms(3,4) by (auto simp: set_stream_def)
qed

lemma sess_ok_bound:
  "sess_ok config owed s \<Longrightarrow> \<not> ss_die s \<Longrightarrow> int (buffered s + owed) \<le> sc_MaxReceiveBuffer config + 65534"
  by (simp only: sess_ok_def tokens_ok_def) simp

lemma sess_ok_wrap: "sess_ok config owed s \<Longrightarrow> wrap32 (ss_bucket s + 0) = ss_bucket s"
  using wrap32_add [of "sc_MaxReceiveBuffer config - int (buffered s + owed)" 0] by (simp add: sess_ok_def tokens_ok_def)

lemma bucket_exact:
  assumes "sess_ok config owed s" and "\<not> ss_die s" and "0 \<le> sc_MaxReceiveBuffer config" and "sc_MaxReceiveBuffer config < 2 ^ 31"
  shows "ss_bucket s = sc_MaxReceiveBuffer config - int (buffered s + owed)"
    and "int (buffered s + owed) \<le> sc_MaxReceiveBuffer config + 65534"
proof -
  have t: "ss_bucket s = wrap32 (sc_MaxReceiveBuffer config - int (buffered s + owed))"
    and b: "int (buffered s + owed) \<le> sc_MaxReceiveBuffer config + 65534"
    using assms(1,2) by (simp_all only: sess_ok_def tokens_ok_def) simp
  then show "int (buffered s + owed) \<le> sc_MaxReceiveBuffer config + 65534" by simp
  show "ss_bucket s = sc_MaxReceiveBuffer config - int (buffered s + owed)"
    unfolding t by (rule wrap32_id) (use b assms(3,4) in simp_all)
qed

definition recv_config :: "SmuxConfig \<Rightarrow> bool" where
  "recv_config config \<longleftrightarrow> VerifyConfig config = None \<and> sc_MaxReceiveBuffer config < 2 ^ 31"

lemma recv_config_bounds:
  "recv_config config \<Longrightarrow> 0 \<le> sc_MaxReceiveBuffer config \<and> sc_MaxReceiveBuffer config < 2 ^ 31"
  by (auto simp: recv_config_def VerifyConfig_def split: if_splits)

lemma recv_next_length: "recv_next v inp = (Got f, rest) \<Longrightarrow> length (fm_data f) \<le> 65535"
proof -
  have "unat (x :: u16) \<le> 65535" for x using unsigned_less [of x, where 'a = nat] by simp
  then show "recv_next v inp = (Got f, rest) \<Longrightarrow> ?thesis"
    by (auto simp: recv_next_def newFrame_def Let_def min_def split: if_splits)
qed

lemma st_bytes_simps [simp]:
  "st_bytes (newStream sid n) = []" "st_bytes (notifyReadEvent st) = st_bytes st" "st_bytes (stream_fin st) = st_bytes st"
  "st_bytes (stream_update c v st) = st_bytes st" "st_bytes (pushBytes d st) = st_bytes st @ d" "st_bytes (sessionClose st) = st_bytes st"
  "st_id (newStream sid n) = sid" "st_id (notifyReadEvent st) = st_id st" "st_id (stream_fin st) = st_id st"
  "st_id (stream_update c v st) = st_id st" "st_id (pushBytes d st) = st_id st" "st_id (sessionClose st) = st_id st"
  by (simp_all add: st_bytes_def newStream_def notifyReadEvent_def stream_fin_def stream_update_def pushBytes_def sessionClose_def)

lemma sess_ok_push:
  assumes ok: "sess_ok config owed s" and cfg: "recv_config config" and m: "may_receive s"
    and r: "ss_streams s sid = Some r" and d: "length d \<le> 65535"
  shows "sess_ok config owed ((set_stream r (notifyReadEvent (pushBytes d (ss_store s ! r))) s)
    \<lparr>ss_bucket := wrap32 (ss_bucket s - int (length d))\<rparr>)"
proof -
  have l: "r < length (ss_store s)" using ok r by (auto simp: sess_ok_def refs_ok_def)
  have b: "int (buffered s + owed) + int (length d) \<le> sc_MaxReceiveBuffer config + 65534" if "\<not> ss_die s"
    using bucket_exact(1) [OF ok that] recv_config_bounds [OF cfg] m that d by (auto simp: may_receive_def)
  show ?thesis
  proof (rule sess_ok_tokens [OF ok, where d = "- int (length d)"])
    show "refs_ok ((set_stream r (notifyReadEvent (pushBytes d (ss_store s ! r))) s)\<lparr>ss_bucket := wrap32 (ss_bucket s - int (length d))\<rparr>)"
      by (rule refs_ok_set [of s "notifyReadEvent (pushBytes d (ss_store s ! r))" r]) (use ok in \<open>simp_all add: sess_ok_def set_stream_def\<close>)
  qed (use b buffered_set [OF l, of "notifyReadEvent (pushBytes d (ss_store s ! r))"] in \<open>auto simp: set_stream_def buffered_def\<close>)
qed

lemma sess_ok_recv:
  assumes ok: "sess_ok config owed s" and cfg: "recv_config config" and m: "may_receive s"
    and d: "length (fm_data f) \<le> 65535" and f: "recv_frame f s = Some s'"
  shows "sess_ok config owed s' \<and> length (ss_store s) \<le> length (ss_store s')"
proof -
  let ?s = "s\<lparr>ss_dataReady := True\<rparr>"
  have ok': "sess_ok config owed ?s" by (rule sess_ok_frame [OF ok]) simp_all
  have m': "may_receive ?s" using m by (simp add: may_receive_def)
  show ?thesis
  proof (cases "ss_streams s (fm_sid f)")
    case None
    let ?st = "newStream (fm_sid f) (sc_MaxFrameSize (ss_config s))"
    obtain r s1 where a: "alloc ?st ?s = (r, s1)" by fastforce
    note k = sess_ok_alloc [OF ok' _ a]
    have "sess_ok config owed (s2\<lparr>ss_accepts := x\<rparr>)" if "sess_ok config owed s2" for s2 x
      by (rule sess_ok_frame [OF that]) simp_all
    with k None f a ok' show ?thesis by (auto simp: recv_frame_def Let_def split: if_splits)
  next
    case (Some r)
    have k: "sess_ok config owed (set_stream r st ?s)"
      if "st_bytes st = st_bytes (ss_store s ! r)" "st_id st = st_id (ss_store s ! r)" for st
      by (rule sess_ok_set [OF ok']) (use that in simp_all)
    show ?thesis
      using f Some ok' k sess_ok_push [OF ok' cfg m' _ d, of "fm_sid f" r]
      by (auto simp: recv_frame_def Let_def set_stream_def split: if_splits)
  qed
qed

text \<open>Reading takes bytes out of a buffer and owes the tokens for them.\<close>

lemma sess_ok_take:
  assumes ok: "sess_ok config owed s" and r: "r < length (ss_store s)" and i: "st_id st = st_id (ss_store s ! r)"
    and b: "st_bytes (ss_store s ! r) = b @ st_bytes st"
  shows "sess_ok config (length b + owed) (set_stream r st s)"
proof (rule sess_ok_tokens [OF ok, where d = 0])
  show "refs_ok (set_stream r st s)" by (rule refs_ok_set [of s st r]) (use ok i in \<open>simp_all add: sess_ok_def set_stream_def\<close>)
  show "int (buffered (set_stream r st s) + (length b + owed)) = int (buffered s + owed) - 0" using buffered_set [OF r, of st] b by simp
  show "int (buffered s + owed) - 0 \<le> sc_MaxReceiveBuffer config + 65534" if "\<not> ss_die s" using sess_ok_bound [OF ok that] by simp
qed (use sess_ok_wrap [OF ok] in \<open>simp_all add: set_stream_def\<close>)

lemma tryRead_id: "tryRead config room st = (out, u, st') \<Longrightarrow> st_id st' = st_id st"
  by (auto simp: tryRead_def tryReadv2_def copy_out_def count_read_def Let_def split: if_splits list.splits)

lemma sess_ok_read:
  assumes ok: "sess_ok config owed s" and r: "r < length (ss_store s)" and "0 < room"
    and t: "Stream_read room r s = (out, u, s')"
  shows "sess_ok config (sum_list (tokens_of out) + owed) s' \<and> length (ss_store s') = length (ss_store s)"
proof -
  obtain st where st: "tryRead (ss_config s) room (ss_store s ! r) = (out, u, st)" and s': "s' = set_stream r st s"
    using t by (auto simp: Stream_read_def split: prod.splits)
  from tryRead_bytes [OF st assms(3)] obtain b where b: "st_bytes (ss_store s ! r) = b @ st_bytes st"
    and o: "out = read_outcome b (ss_store s ! r)" by blast
  have "sum_list (tokens_of out) = length b" unfolding o by (simp add: tokens_of_def read_outcome_def)
  with sess_ok_take [OF ok r tryRead_id [OF st] b] show ?thesis by (simp add: s' set_stream_def)
qed

lemma sess_ok_write_to:
  assumes ok: "sess_ok config owed s" and r: "r < length (ss_store s)"
    and t: "WriteTo_turn c (ss_store s ! r) = Some (b, u, st)"
  shows "sess_ok config (length b + owed) (set_stream r st s)"
proof (rule sess_ok_take [OF ok r])
  show "st_id st = st_id (ss_store s ! r)"
    using t by (auto simp: WriteTo_turn_def count_read_def Let_def split: list.splits if_splits)
  show "st_bytes (ss_store s ! r) = b @ st_bytes st"
    using t by (auto simp: WriteTo_turn_def count_read_def Let_def st_bytes_def split: list.splits if_splits)
qed

lemma returnTokens_fields [simp]:
  "ss_config (returnTokens n s) = ss_config s" "ss_streams (returnTokens n s) = ss_streams s" "ss_store (returnTokens n s) = ss_store s"
  "ss_die (returnTokens n s) = ss_die s" "ss_bucket (returnTokens n s) = wrap32 (ss_bucket s + int n)"
  "buffered (returnTokens n s) = buffered s" "refs_ok (returnTokens n s) = refs_ok s"
  "ss_nextStreamID (returnTokens n s) = ss_nextStreamID s" "ss_goAway (returnTokens n s) = ss_goAway s"
  by (simp_all add: returnTokens_def notifyBucket_def Let_def buffered_def refs_ok_def)

lemma sess_ok_return:
  assumes ok: "sess_ok config owed s" and n: "n \<le> owed"
  shows "sess_ok config (owed - n) (returnTokens n s)"
  by (rule sess_ok_tokens [OF ok, where d = "int n"])
    (use ok n sess_ok_bound [OF ok] in \<open>simp_all add: sess_ok_def\<close>)

lemma sess_ok_closed:
  assumes ok: "sess_ok config owed s"
  shows "sess_ok config owed (streamClosed sid s) \<and> length (ss_store (streamClosed sid s)) = length (ss_store s)"
proof (cases "ss_streams s sid")
  case None
  then show ?thesis using ok by (simp add: streamClosed_def)
next
  case (Some r)
  then have r: "r < length (ss_store s)" using ok by (auto simp: sess_ok_def refs_ok_def)
  let ?st = "(ss_store s ! r)\<lparr>st_buffers := []\<rparr>" and ?n = "length (st_bytes (ss_store s ! r))"
  let ?s = "set_stream r ?st s"
  have n: "recycleTokens (ss_store s ! r) = (?n, ?st)" by (simp add: recycleTokens_def st_bytes_def length_concat)
  have e: "streamClosed sid s = (if 0 < ?n then returnTokens ?n ?s else ?s)\<lparr>ss_streams := (ss_streams s)(sid := None)\<rparr>"
    using Some n by (simp add: streamClosed_def set_stream_def)
  have ro: "refs_ok ?s" by (rule refs_ok_set [of s ?st r]) (use ok in \<open>simp_all add: sess_ok_def set_stream_def\<close>)
  have b: "buffered ?s + ?n = buffered s" using buffered_set [OF r, of ?st] by (simp add: st_bytes_def)
  have k: "sess_ok config owed (streamClosed sid s)"
  proof (rule sess_ok_tokens [OF ok, where d = "int ?n"])
    show "refs_ok (streamClosed sid s)" using ro unfolding e refs_ok_def by (auto simp: set_stream_def)
    show "int (buffered (streamClosed sid s) + owed) = int (buffered s + owed) - int ?n"
      using b unfolding e by (auto simp: buffered_def)
    show "ss_bucket (streamClosed sid s) = wrap32 (ss_bucket s + int ?n)"
      unfolding e using sess_ok_wrap [OF ok] by (auto simp: set_stream_def)
  qed (use sess_ok_bound [OF ok] in \<open>simp_all add: e set_stream_def\<close>)
  then show ?thesis by (simp add: e set_stream_def)
qed

lemma sess_ok_next_id: "sess_ok config owed s \<Longrightarrow> next_id s = (x, s') \<Longrightarrow> sess_ok config owed s' \<and> ss_store s' = ss_store s"
  by (auto simp: next_id_def Let_def split: if_splits intro: sess_ok_frame)

lemma sess_ok_request:
  "sess_ok config owed s \<Longrightarrow> write_request f c s = (q, s') \<Longrightarrow> sess_ok config owed s' \<and> ss_store s' = ss_store s"
  by (auto simp: write_request_def Let_def intro: sess_ok_frame)

lemma sess_ok_open_syn:
  assumes ok: "sess_ok config owed s" and t: "OpenStream_syn s = (x, s')"
  shows "sess_ok config owed s' \<and> length (ss_store s) \<le> length (ss_store s') \<and> (\<forall>r q. x = Inr (r, q) \<longrightarrow> r < length (ss_store s'))"
proof (cases "ss_die s")
  case True
  then show ?thesis using ok t by (auto simp: OpenStream_syn_def)
next
  case False
  obtain y s1 where n: "next_id s = (y, s1)" by fastforce
  note k1 = sess_ok_next_id [OF ok n]
  show ?thesis
  proof (cases y)
    case None
    then show ?thesis using t n k1 False by (auto simp: OpenStream_syn_def)
  next
    case (Some sid)
    obtain r s2 where a: "alloc (newStream sid (sc_MaxFrameSize (ss_config s1))) s1 = (r, s2)" by fastforce
    obtain q s3 where w: "write_request (newFrame (of_int (sc_Version (ss_config s2))) cmdSYN sid) CLSCTRL s2 = (q, s3)" by fastforce
    have e: "x = Inr (r, q)" "s' = s3" using t False n Some a w by (simp_all add: OpenStream_syn_def)
    note k2 = sess_ok_alloc [OF _ _ a, of config owed]
    have "sess_ok config owed s2" "r < length (ss_store s2)" "length (ss_store s1) \<le> length (ss_store s2)" using k1 k2 by simp_all
    with sess_ok_request [OF _ w] k1 e show ?thesis by auto
  qed
qed

lemma sess_ok_open_add:
  assumes ok: "sess_ok config owed s" and r: "r < length (ss_store s)" and t: "OpenStream_add werr r s = (x, s')"
  shows "sess_ok config owed s' \<and> ss_store s' = ss_store s"
proof -
  have "sess_ok config owed (s\<lparr>ss_streams := (ss_streams s)(st_id (ss_store s ! r) \<mapsto> r)\<rparr>)"
    using ok r by (auto simp: sess_ok_def refs_ok_def tokens_ok_def buffered_def)
  with ok t show ?thesis by (auto simp: OpenStream_add_def split: option.splits if_splits)
qed

lemma sess_ok_Close: "sess_ok config owed s \<Longrightarrow> sess_ok config owed (snd (Session_Close s)) \<and> length (ss_store (snd (Session_Close s))) = length (ss_store s)"
proof -
  assume ok: "sess_ok config owed s"
  let ?f = "\<lambda>r. let st = ss_store s ! r in if ss_streams s (st_id st) = Some r then sessionClose st else st"
  have "map g (map ?f [0..<length (ss_store s)]) = map g (ss_store s)"
    if "\<And>st. g (sessionClose st) = g st" for g :: "stream \<Rightarrow> 'a"
    by (rule nth_equalityI) (simp_all add: that Let_def)
  from this [of st_bytes] this [of st_id] show ?thesis
    by (cases "ss_die s") (auto simp: Session_Close_def ok intro: sess_ok_frame [OF ok])
qed

lemma sess_ok_Stream_Close:
  assumes ok: "sess_ok config owed s" and t: "Stream_Close r s = (x, s')"
  shows "sess_ok config owed s' \<and> length (ss_store s') = length (ss_store s)"
proof -
  have k: "sess_ok config owed (set_stream r (sessionClose (ss_store s ! r)) s)" by (rule sess_ok_set [OF ok]) simp_all
  obtain q s2 where w: "write_request (newFrame (of_int (sc_Version (ss_config (set_stream r (sessionClose (ss_store s ! r)) s))))
    cmdFIN (st_id (ss_store s ! r))) CLSDATA (set_stream r (sessionClose (ss_store s ! r)) s) = (q, s2)" by fastforce
  from sess_ok_request [OF k w] t w ok show ?thesis by (auto simp: Stream_Close_def Let_def set_stream_def split: if_splits)
qed

lemma sess_ok_keepalive:
  assumes ok: "sess_ok config owed s"
  shows "sess_ok config owed (snd (keepalive_ping s)) \<and> ss_store (snd (keepalive_ping s)) = ss_store s"
    and "sess_ok config owed (keepalive_timeout s) \<and> length (ss_store (keepalive_timeout s)) = length (ss_store s)"
proof -
  show "sess_ok config owed (snd (keepalive_ping s)) \<and> ss_store (snd (keepalive_ping s)) = ss_store s"
    by (auto simp: keepalive_ping_def write_request_def Let_def notifyBucket_def intro: sess_ok_frame [OF ok])
  have "sess_ok config owed (s\<lparr>ss_dataReady := False\<rparr>)" by (rule sess_ok_frame [OF ok]) simp_all
  with ok sess_ok_Close [OF ok]
  show "sess_ok config owed (keepalive_timeout s) \<and> length (ss_store (keepalive_timeout s)) = length (ss_store s)"
    by (simp add: keepalive_timeout_def)
qed

lemma write_keeps:
  "Write env config b st = (x, st') \<Longrightarrow> st_bytes st' = st_bytes st \<and> st_id st' = st_id st"
  "writeV2_turn env config b st = (t, st') \<Longrightarrow> st_bytes st' = st_bytes st \<and> st_id st' = st_id st"
  by (auto simp: Write_def writeV2_turn_def Let_def st_bytes_def split: if_splits prod.splits)

lemma sum_list_remove1: "n \<in> set xs \<Longrightarrow> sum_list (remove1 n xs) = sum_list xs - (n :: nat) \<and> n \<le> sum_list xs"
  by (induction xs) auto

lemma world_inv_step:
  assumes inv: "world_inv config w" and cfg: "recv_config config" and step: "smux_step peer w w'"
  shows "world_inv config w'"
proof -
  have ok: "sess_ok config (sum_list (wd_owed w)) (wd_sess w)" and op: "\<forall>r \<in> set (wd_opening w). r < length (ss_store (wd_sess w))"
    using inv by (simp_all add: world_inv_def)
  have fin: "world_inv config w''" if "sess_ok config (sum_list (wd_owed w'')) (wd_sess w'')"
    and "length (ss_store (wd_sess w)) \<le> length (ss_store (wd_sess w''))" and "set (wd_opening w'') \<subseteq> set (wd_opening w)" for w''
    using that op by (fastforce simp: world_inv_def)
  have frame: "sess_ok config (sum_list (wd_owed w)) s" if "ss_config s = ss_config (wd_sess w)" "ss_bucket s = ss_bucket (wd_sess w)"
    "ss_streams s = ss_streams (wd_sess w)" "ss_store s = ss_store (wd_sess w)" "ss_die s = ss_die (wd_sess w)" for s
    by (rule sess_ok_frame [OF ok]) (use that in simp_all)
  from step show ?thesis
  proof cases
    case (recv inp f rest s')
    show ?thesis using sess_ok_recv [OF ok cfg recv(2) recv_next_length [OF recv(4)] recv(5)] by (intro fin) (simp_all add: recv(1))
  next
    case (open_syn r q s')
    have "sess_ok config (sum_list (wd_owed w)) s'" "length (ss_store (wd_sess w)) \<le> length (ss_store s')" "r < length (ss_store s')"
      using sess_ok_open_syn [OF ok open_syn(2)] by blast+
    with op show ?thesis by (auto simp: world_inv_def open_syn(1))
  next
    case (open_fail e s')
    show ?thesis using sess_ok_open_syn [OF ok open_fail(2)] by (intro fin) (simp_all add: open_fail(1))
  next
    case (open_add r werr x s')
    then have "r < length (ss_store (wd_sess w))" using op by blast
    from sess_ok_open_add [OF ok this open_add(3)] show ?thesis
      by (intro fin) (simp_all add: open_add(1) set_remove1_subset)
  next
    case (accept r s')
    then show ?thesis by (intro fin) (auto simp: AcceptStream_def split: list.splits intro: frame)
  next
    case (read r room out u s')
    from sess_ok_read [OF ok read(2,3,4)] show ?thesis by (intro fin) (simp_all add: read(1))
  next
    case (write_to r b u st)
    from sess_ok_write_to [OF ok write_to(2,3)] show ?thesis by (intro fin) (simp_all add: write_to(1) set_stream_def)
  next
    case (give_back n)
    note n = sum_list_remove1 [OF give_back(2)]
    from sess_ok_return [OF ok] n show ?thesis by (intro fin) (simp_all add: give_back(1))
  next
    case (write1 r env b x st)
    from write_keeps(1) [OF write1(3)] sess_ok_set [OF ok] show ?thesis by (intro fin) (simp_all add: write1(1) set_stream_def)
  next
    case (write2 r env b t st)
    from write_keeps(2) [OF write2(3)] sess_ok_set [OF ok] show ?thesis by (intro fin) (simp_all add: write2(1) set_stream_def)
  next
    case (seen_event r)
    have "sess_ok config (sum_list (wd_owed w)) (set_stream r ((ss_store (wd_sess w) ! r)\<lparr>st_readEvent := False\<rparr>) (wd_sess w))"
      by (rule sess_ok_set [OF ok]) (simp_all add: st_bytes_def)
    then show ?thesis by (intro fin) (simp_all add: seen_event(1) set_stream_def)
  next
    case (close r sid q s')
    from sess_ok_Stream_Close [OF ok close(3)] show ?thesis by (intro fin) (simp_all add: close(1))
  next
    case (closed sid)
    from sess_ok_closed [OF ok, of sid] show ?thesis by (intro fin) (simp_all add: closed(1))
  next
    case die
    from sess_ok_Close [OF ok] show ?thesis by (intro fin) (simp_all add: die)
  next
    case ping
    from sess_ok_keepalive(1) [OF ok] show ?thesis by (intro fin) (simp_all add: ping)
  next
    case timeout
    from sess_ok_keepalive(2) [OF ok] show ?thesis by (intro fin) (simp_all add: timeout)
  qed (intro fin; simp add: frame)+
qed

lemma world_inv_start: "recv_config config \<Longrightarrow> smux_start config w \<Longrightarrow> world_inv config w"
  using recv_config_bounds [of config]
  by (auto simp: smux_start_def newSession_def world_inv_def sess_ok_def refs_ok_def tokens_ok_def buffered_def)

interpretation tokens: inductive_invariant "smux_start config" "smux_step peer" "\<lambda>w. recv_config config \<longrightarrow> world_inv config w"
  by unfold_locales (auto intro: world_inv_start world_inv_step)

text \<open>
  C16. The memory a session spends on data from its peer is bounded. Whatever the peer sends and
  however the goroutines interleave, while the session is open the tokens in the bucket, the bytes buffered in
  all streams ever made and the bytes whose tokens are on their way back add up to \<open>MaxReceiveBuffer\<close>, and the
  buffered bytes never exceed it by more than one frame less a byte.
\<close>

theorem session_memory_bound:
  assumes "VerifyConfig config = None" and "sc_MaxReceiveBuffer config < 2 ^ 31"
    and "reach (smux_start config) (smux_step peer) w" and "\<not> ss_die (wd_sess w)"
  shows "ss_bucket (wd_sess w) + int (buffered (wd_sess w)) + int (sum_list (wd_owed w)) = sc_MaxReceiveBuffer config \<and>
    int (buffered (wd_sess w)) \<le> sc_MaxReceiveBuffer config + 65534"
proof -
  have cfg: "recv_config config" using assms by (simp add: recv_config_def)
  have ok: "sess_ok config (sum_list (wd_owed w)) (wd_sess w)"
    using tokens.reach_inv [OF assms(3)] cfg by (simp add: world_inv_def)
  from bucket_exact [OF ok assms(4)] recv_config_bounds [OF cfg] show ?thesis by simp
qed

definition start_world :: "SmuxConfig \<Rightarrow> World" where
  "start_world config = \<lparr>wd_sess = newSession config True, wd_opening = [], wd_closing = [], wd_owed = []\<rparr>"

lemma start_world_reach: "reach (smux_start config) (smux_step peer) (start_world config)"
  by (rule reach_start) (auto simp: smux_start_def start_world_def)

lemma default_config_ok: "VerifyConfig DefaultConfig = None" "sc_MaxReceiveBuffer DefaultConfig < 2 ^ 31"
  by (simp_all add: DefaultConfig_def VerifyConfig_def)

theorem session_memory_bound_witness:
  "ss_bucket (wd_sess (start_world DefaultConfig)) + int (buffered (wd_sess (start_world DefaultConfig))) = 4194304"
  using session_memory_bound [OF default_config_ok start_world_reach]
  by (simp add: start_world_def newSession_def DefaultConfig_def)

text \<open>
  C106. \<open>VerifyConfig\<close> does not bound \<open>MaxReceiveBuffer\<close> by the width of the bucket: with a value from \<open>2 ^ 31\<close> up to
  \<open>2 ^ 32\<close> the new session starts with an empty bucket and never reads a byte from its connection.
\<close>

theorem oversized_buffer_stalls:
  assumes "2 ^ 31 \<le> m" and "m \<le> 2 ^ 32"
  shows "VerifyConfig (DefaultConfig\<lparr>sc_MaxReceiveBuffer := m\<rparr>) = None \<and>
    recvLoop inp (newSession (DefaultConfig\<lparr>sc_MaxReceiveBuffer := m\<rparr>) client) =
      (inp, newSession (DefaultConfig\<lparr>sc_MaxReceiveBuffer := m\<rparr>) client)"
proof
  show "VerifyConfig (DefaultConfig\<lparr>sc_MaxReceiveBuffer := m\<rparr>) = None"
    using assms by (simp add: VerifyConfig_def DefaultConfig_def)
  have "wrap32 m \<le> 0"
  proof -
    have "(m + 2 ^ 31) mod 2 ^ 32 = (m - 2 ^ 31 + 2 ^ 32) mod 2 ^ 32" by (simp add: add.commute)
    also have "\<dots> = (m - 2 ^ 31) mod 2 ^ 32" by (rule mod_add_self2)
    also have "\<dots> = m - 2 ^ 31" by (rule mod_pos_pos_trivial) (use assms in simp_all)
    finally show ?thesis using assms by (simp add: wrap32_def)
  qed
  then show "recvLoop inp (newSession (DefaultConfig\<lparr>sc_MaxReceiveBuffer := m\<rparr>) client) =
      (inp, newSession (DefaultConfig\<lparr>sc_MaxReceiveBuffer := m\<rparr>) client)"
    by (simp add: recvLoop.simps may_receive_def newSession_def)
qed

theorem oversized_buffer_stalls_witness:
  "recvLoop [1, 3, 0, 0, 0, 0, 0, 0] (newSession (DefaultConfig\<lparr>sc_MaxReceiveBuffer := 3000000000\<rparr>) True) =
    ([1, 3, 0, 0, 0, 0, 0, 0], newSession (DefaultConfig\<lparr>sc_MaxReceiveBuffer := 3000000000\<rparr>) True)"
  using oversized_buffer_stalls [of 3000000000] by simp

section \<open>No stream keeps tokens for itself\<close>

text \<open>
  A peer that opens only streams of its own parity. Then the identifiers this end draws are not in the
  table, no stream is ever pushed out of it, and every stream that holds bytes is found there.
\<close>

definition fair_peer :: "bool \<Rightarrow> Frame \<Rightarrow> bool" where
  "fair_peer client f \<longleftrightarrow> (fm_cmd f = cmdSYN \<longrightarrow> even (fm_sid f) = client)"

definition fair_start :: "SmuxConfig \<Rightarrow> bool \<Rightarrow> World \<Rightarrow> bool" where
  "fair_start config client w \<longleftrightarrow>
     w = \<lparr>wd_sess = newSession config client, wd_opening = [], wd_closing = [], wd_owed = []\<rparr>"

definition drawn :: "bool \<Rightarrow> Session \<Rightarrow> u32 \<Rightarrow> bool" where
  "drawn client s sid \<longleftrightarrow> even sid = (\<not> client) \<and> (ss_goAway s \<or> sid \<le> ss_nextStreamID s)"

definition table_inv :: "bool \<Rightarrow> World \<Rightarrow> bool" where
  "table_inv client w \<longleftrightarrow>
     (let s = wd_sess w; ids = map (\<lambda>r. st_id (ss_store s ! r)) (wd_opening w) in
      refs_ok s \<and> even (ss_nextStreamID s) = (\<not> client) \<and> distinct ids \<and>
      (\<forall>r < length (ss_store s). st_bytes (ss_store s ! r) \<noteq> [] \<longrightarrow> ss_streams s (st_id (ss_store s ! r)) = Some r) \<and>
      (\<forall>r \<in> set (wd_opening w). r < length (ss_store s)) \<and>
      (\<forall>sid \<in> set ids. drawn client s sid \<and> ss_streams s sid = None) \<and>
      (\<forall>sid. ss_streams s sid \<noteq> None \<longrightarrow> even sid = client \<or> drawn client s sid))"

lemma next_id_fresh:
  assumes "next_id s = (Some sid, s')" and "even (ss_nextStreamID s) = (\<not> client)"
  shows "even sid = (\<not> client)" and "\<not> ss_goAway s" and "ss_nextStreamID s' = sid" and "unat sid = unat (ss_nextStreamID s) + 2"
    and "\<not> drawn client s sid" and "drawn client s i \<Longrightarrow> drawn client s' i" and "drawn client s' sid"
    and "s' = s\<lparr>ss_nextStreamID := sid\<rparr>"
proof -
  have sid: "sid = ss_nextStreamID s + 2" "sid \<noteq> sid mod 2" "\<not> ss_goAway s" "s' = s\<lparr>ss_nextStreamID := sid\<rparr>"
    using assms(1) by (auto simp: next_id_def Let_def split: if_splits)
  then show "\<not> ss_goAway s" "ss_nextStreamID s' = sid" "s' = s\<lparr>ss_nextStreamID := sid\<rparr>" by simp_all
  show e: "even sid = (\<not> client)" using assms(2) by (simp add: sid(1))
  have b: "unat (ss_nextStreamID s) < 2 ^ 32" using unsigned_less [of "ss_nextStreamID s", where 'a = nat] by simp
  have u: "unat sid = (unat (ss_nextStreamID s) + 2) mod 2 ^ 32" by (simp add: sid(1) unat_word_ariths)
  have "\<not> 2 ^ 32 \<le> unat (ss_nextStreamID s) + 2"
  proof
    assume "2 ^ 32 \<le> unat (ss_nextStreamID s) + 2"
    then have "unat sid = unat (ss_nextStreamID s) + 2 - 2 ^ 32" using u b by (simp add: mod_if)
    then have "unat sid < 2" using b by linarith
    then have "unat (sid mod 2) = unat sid" by (simp add: unat_mod_distrib)
    then show False using sid(2) by (simp add: word_unat_eq_iff)
  qed
  then show n: "unat sid = unat (ss_nextStreamID s) + 2" using u by simp
  then have lt: "ss_nextStreamID s < sid" by (simp add: word_less_nat_alt)
  then show "\<not> drawn client s sid" using sid(3) by (auto simp: drawn_def)
  show "drawn client s' sid" using e sid(4) by (simp add: drawn_def)
  show "drawn client s' i" if "drawn client s i" using that lt sid(3,4) by (auto simp: drawn_def)
qed

lemma table_inv_frame:
  assumes inv: "table_inv client w" and "ss_streams (wd_sess w') = ss_streams (wd_sess w)"
    and ids: "map st_id (ss_store (wd_sess w')) = map st_id (ss_store (wd_sess w))"
    and bytes: "\<And>r. r < length (ss_store (wd_sess w)) \<Longrightarrow> st_bytes (ss_store (wd_sess w') ! r) \<noteq> [] \<Longrightarrow>
      st_bytes (ss_store (wd_sess w) ! r) \<noteq> [] \<or> ss_streams (wd_sess w) (st_id (ss_store (wd_sess w) ! r)) = Some r"
    and "ss_nextStreamID (wd_sess w') = ss_nextStreamID (wd_sess w)" and "ss_goAway (wd_sess w') = ss_goAway (wd_sess w)"
    and "wd_opening w' = wd_opening w"
  shows "table_inv client w'"
proof -
  let ?s = "wd_sess w" and ?t = "wd_sess w'"
  have l: "length (ss_store ?t) = length (ss_store ?s)" using ids map_eq_imp_length_eq by blast
  have i: "st_id (ss_store ?t ! r) = st_id (ss_store ?s ! r)" if "r < length (ss_store ?s)" for r
    using ids l that by (metis nth_map)
  have op: "\<forall>r \<in> set (wd_opening w). r < length (ss_store ?s)" using inv by (simp add: table_inv_def Let_def)
  have m: "map (\<lambda>r. st_id (ss_store ?t ! r)) (wd_opening w) = map (\<lambda>r. st_id (ss_store ?s ! r)) (wd_opening w)"
    using op i by simp
  have d: "drawn client ?t = drawn client ?s" by (rule ext) (simp add: drawn_def assms(5,6))
  have "refs_ok ?t" using inv i unfolding table_inv_def Let_def refs_ok_def assms(2) l by metis
  moreover have "\<forall>r < length (ss_store ?t). st_bytes (ss_store ?t ! r) \<noteq> [] \<longrightarrow> ss_streams ?t (st_id (ss_store ?t ! r)) = Some r"
    using inv bytes i unfolding table_inv_def Let_def assms(2) l by metis
  ultimately show ?thesis
    using inv unfolding table_inv_def Let_def d m l assms(2,5,7) by blast
qed

lemma table_inv_set:
  assumes inv: "table_inv client w" and "st_id st = st_id (ss_store (wd_sess w) ! r)"
    and "st_bytes st \<noteq> [] \<Longrightarrow> st_bytes (ss_store (wd_sess w) ! r) \<noteq> [] \<or> ss_streams (wd_sess w) (st_id st) = Some r"
    and "ss_streams (wd_sess w') = ss_streams (wd_sess w)" and st: "ss_store (wd_sess w') = (ss_store (wd_sess w))[r := st]"
    and "ss_nextStreamID (wd_sess w') = ss_nextStreamID (wd_sess w)" and "ss_goAway (wd_sess w') = ss_goAway (wd_sess w)"
    and "wd_opening w' = wd_opening w"
  shows "table_inv client w'"
proof (rule table_inv_frame [OF inv assms(4) _ _ assms(6,7,8)])
  show "map st_id (ss_store (wd_sess w')) = map st_id (ss_store (wd_sess w))"
    using assms(2) unfolding st
    by (cases "r < length (ss_store (wd_sess w))") (simp_all add: map_update list_update_same_conv list_update_beyond)
  show "st_bytes (ss_store (wd_sess w) ! k) \<noteq> [] \<or> ss_streams (wd_sess w) (st_id (ss_store (wd_sess w) ! k)) = Some k"
    if "k < length (ss_store (wd_sess w))" "st_bytes (ss_store (wd_sess w') ! k) \<noteq> []" for k
    using that assms(2,3) unfolding st by (cases "k = r") simp_all
qed

lemma table_inv_accepted:
  assumes inv: "table_inv client w" and "even sid = client" and "ss_streams (wd_sess w) sid = None"
    and "ss_streams (wd_sess w') = (ss_streams (wd_sess w))(sid \<mapsto> length (ss_store (wd_sess w)))"
    and "ss_store (wd_sess w') = ss_store (wd_sess w) @ [newStream sid n]"
    and "ss_nextStreamID (wd_sess w') = ss_nextStreamID (wd_sess w)" and "ss_goAway (wd_sess w') = ss_goAway (wd_sess w)"
    and "wd_opening w' = wd_opening w"
  shows "table_inv client w'"
proof -
  let ?s = "wd_sess w" and ?t = "wd_sess w'"
  have op: "\<forall>r \<in> set (wd_opening w). r < length (ss_store ?s)" and ro: "refs_ok ?s" using inv by (simp_all add: table_inv_def Let_def)
  have i: "ss_store ?t ! r = ss_store ?s ! r" if "r < length (ss_store ?s)" for r using that by (simp add: assms(5) nth_append)
  have m: "map (\<lambda>r. st_id (ss_store ?t ! r)) (wd_opening w) = map (\<lambda>r. st_id (ss_store ?s ! r)) (wd_opening w)"
    using op i by simp
  have d: "drawn client ?t = drawn client ?s" by (rule ext) (simp add: drawn_def assms(6,7))
  have ne: "i \<noteq> sid" if "drawn client ?s i" for i using that assms(2) by (auto simp: drawn_def)
  have "refs_ok ?t" using ro unfolding refs_ok_def assms(4,5) by (auto simp: nth_append less_SucI)
  moreover have "\<forall>r < length (ss_store ?t). st_bytes (ss_store ?t ! r) \<noteq> [] \<longrightarrow> ss_streams ?t (st_id (ss_store ?t ! r)) = Some r"
    using inv assms(3) unfolding table_inv_def Let_def assms(4,5) by (auto simp: nth_append less_Suc_eq)
  moreover have "\<forall>r \<in> set (wd_opening w). r < length (ss_store ?t)" using op by (auto simp: assms(5) less_SucI)
  ultimately show ?thesis
    using inv ne assms(2) unfolding table_inv_def Let_def d m assms(6,8) by (simp add: assms(4))
qed

lemma table_inv_syn:
  assumes inv: "table_inv client w" and t: "OpenStream_syn (wd_sess w) = (Inr (r, q), s')"
  shows "table_inv client (w\<lparr>wd_sess := s', wd_opening := r # wd_opening w\<rparr>)"
proof -
  let ?s = "wd_sess w"
  obtain sid s1 where n: "next_id ?s = (Some sid, s1)" using t by (auto simp: OpenStream_syn_def split: prod.splits option.splits if_splits)
  have e: "even (ss_nextStreamID ?s) = (\<not> client)" using inv by (simp add: table_inv_def Let_def)
  note f = next_id_fresh [OF n e]
  have s': "r = length (ss_store ?s)" "ss_store s' = ss_store ?s @ [newStream sid (sc_MaxFrameSize (ss_config ?s))]"
    "ss_streams s' = ss_streams ?s" "ss_nextStreamID s' = sid" "ss_goAway s' = ss_goAway ?s"
    using t n f(8) by (auto simp: OpenStream_syn_def alloc_def write_request_def Let_def split: if_splits)
  have op: "\<forall>r \<in> set (wd_opening w). r < length (ss_store ?s)" and ro: "refs_ok ?s" using inv by (simp_all add: table_inv_def Let_def)
  have m: "map (\<lambda>r. st_id (ss_store s' ! r)) (wd_opening w) = map (\<lambda>r. st_id (ss_store ?s ! r)) (wd_opening w)"
    using op by (simp add: s'(2) nth_append)
  have d: "drawn client s' i" if "drawn client ?s i" for i using f(6) [OF that] f(3,8) by (simp add: drawn_def s'(4,5))
  have ds: "drawn client s' sid" using f(1) by (simp add: drawn_def s'(4))
  have nn: "ss_streams ?s sid = None"
    using inv f(1,5) by (auto simp: table_inv_def Let_def)
  have ni: "sid \<notin> set (map (\<lambda>r. st_id (ss_store ?s ! r)) (wd_opening w))" using inv f(5) unfolding table_inv_def Let_def by blast
  have "refs_ok s'" using ro unfolding refs_ok_def s'(2,3) by (auto simp: nth_append less_SucI)
  moreover have "\<forall>r < length (ss_store s'). st_bytes (ss_store s' ! r) \<noteq> [] \<longrightarrow> ss_streams s' (st_id (ss_store s' ! r)) = Some r"
    using inv unfolding table_inv_def Let_def s'(2,3) by (auto simp: nth_append less_Suc_eq)
  moreover have "\<forall>k \<in> set (r # wd_opening w). k < length (ss_store s')" using op by (auto simp: s'(1,2) less_SucI)
  moreover have "map (\<lambda>r. st_id (ss_store s' ! r)) (r # wd_opening w) = sid # map (\<lambda>r. st_id (ss_store ?s ! r)) (wd_opening w)"
    using m by (simp add: s'(1,2) nth_append)
  moreover have "distinct (map (\<lambda>r. st_id (ss_store s' ! r)) (wd_opening w))"
    unfolding m using inv by (simp add: table_inv_def Let_def)
  moreover have "\<forall>i. ss_streams ?s i \<noteq> None \<longrightarrow> even i = client \<or> drawn client s' i"
    using inv d unfolding table_inv_def Let_def by blast
  ultimately show ?thesis
    using inv ni ds nn d f(1) unfolding table_inv_def Let_def by (simp add: s'(3,4))
qed

lemma table_inv_add:
  assumes inv: "table_inv client w" and r: "r \<in> set (wd_opening w)" and t: "OpenStream_add werr r (wd_sess w) = (x, s')"
  shows "table_inv client (w\<lparr>wd_sess := s', wd_opening := remove1 r (wd_opening w)\<rparr>)"
proof -
  let ?s = "wd_sess w" and ?g = "\<lambda>r. st_id (ss_store (wd_sess w) ! r)"
  have dis: "distinct (map ?g (wd_opening w))" and ro: "refs_ok ?s" and rl: "r < length (ss_store ?s)"
    and dr: "\<forall>i \<in> set (map ?g (wd_opening w)). drawn client ?s i \<and> ss_streams ?s i = None"
    and hb: "\<forall>r < length (ss_store ?s). st_bytes (ss_store ?s ! r) \<noteq> [] \<longrightarrow> ss_streams ?s (?g r) = Some r"
    using inv r by (simp_all add: table_inv_def Let_def)
  have rest: "distinct (map ?g (remove1 r (wd_opening w)))" "?g r \<notin> set (map ?g (remove1 r (wd_opening w)))"
    "set (remove1 r (wd_opening w)) \<subseteq> set (wd_opening w)"
  proof -
    have d: "distinct (wd_opening w)" using dis by (simp add: distinct_map)
    show "set (remove1 r (wd_opening w)) \<subseteq> set (wd_opening w)" by (rule set_remove1_subset)
    show "distinct (map ?g (remove1 r (wd_opening w)))" using dis d by (auto simp: distinct_map set_remove1_eq intro: inj_on_diff)
    show "?g r \<notin> set (map ?g (remove1 r (wd_opening w)))"
      using dis d r by (auto simp: distinct_map set_remove1_eq dest: inj_onD)
  qed
  have rne: "\<forall>x \<in> set (remove1 r (wd_opening w)). ?g x \<noteq> ?g r" using rest(2) by (metis image_eqI list.set_map)
  have keep: "table_inv client (w\<lparr>wd_sess := ?s, wd_opening := remove1 r (wd_opening w)\<rparr>)"
    using inv rest(1,3) unfolding table_inv_def Let_def by auto
  let ?t = "?s\<lparr>ss_streams := (ss_streams ?s)(?g r \<mapsto> r)\<rparr>"
  have gr: "drawn client ?s (?g r)" "ss_streams ?s (?g r) = None" using dr r by auto
  have d: "drawn client ?t = drawn client ?s" by (rule ext) (simp add: drawn_def)
  have "refs_ok ?t" using ro rl by (auto simp: refs_ok_def)
  moreover have "\<forall>k < length (ss_store ?t). st_bytes (ss_store ?t ! k) \<noteq> [] \<longrightarrow> ss_streams ?t (?g k) = Some k"
    using hb gr(2) by auto
  ultimately have add: "table_inv client (w\<lparr>wd_sess := ?t, wd_opening := remove1 r (wd_opening w)\<rparr>)"
    using keep gr(1) rne unfolding table_inv_def Let_def by (simp add: d)
  have "s' = ?s \<or> s' = ?t" using t by (auto simp: OpenStream_add_def split: option.splits if_splits)
  with keep add show ?thesis by blast
qed

lemma table_inv_closed:
  assumes inv: "table_inv client w"
  shows "table_inv client (w\<lparr>wd_sess := streamClosed sid (wd_sess w), wd_closing := c\<rparr>)"
proof (cases "ss_streams (wd_sess w) sid")
  case None
  then have "streamClosed sid (wd_sess w) = wd_sess w" by (simp add: streamClosed_def)
  then show ?thesis using inv by (simp add: table_inv_def)
next
  case (Some r)
  let ?s = "wd_sess w" and ?st = "(ss_store (wd_sess w) ! r)\<lparr>st_buffers := []\<rparr>"
  have r: "r < length (ss_store ?s)" "st_id (ss_store ?s ! r) = sid"
    using inv Some by (auto simp: table_inv_def Let_def refs_ok_def)
  let ?v = "w\<lparr>wd_sess := set_stream r ?st ?s\<rparr>"
  have v: "table_inv client ?v"
    by (rule table_inv_set [OF inv, of ?st r]) (simp_all add: set_stream_def st_bytes_def)
  let ?t = "streamClosed sid ?s"
  have t: "ss_store ?t = ss_store (wd_sess ?v)" "ss_streams ?t = (ss_streams (wd_sess ?v))(sid := None)"
    "ss_nextStreamID ?t = ss_nextStreamID (wd_sess ?v)" "ss_goAway ?t = ss_goAway (wd_sess ?v)"
    using Some by (auto simp: streamClosed_def recycleTokens_def set_stream_def Let_def)
  have d: "drawn client ?t = drawn client (wd_sess ?v)" by (rule ext) (simp add: drawn_def t)
  have e: "st_bytes (ss_store ?t ! r) = []" using r by (simp add: t(1) set_stream_def st_bytes_def)
  have "\<forall>k < length (ss_store ?t). st_bytes (ss_store ?t ! k) \<noteq> [] \<longrightarrow> ss_streams ?t (st_id (ss_store ?t ! k)) = Some k"
  proof (intro allI impI)
    fix k assume k: "k < length (ss_store ?t)" "st_bytes (ss_store ?t ! k) \<noteq> []"
    then have "ss_streams (wd_sess ?v) (st_id (ss_store ?t ! k)) = Some k" using v unfolding table_inv_def Let_def t(1) by blast
    moreover have "ss_streams (wd_sess ?v) sid = Some r" using Some by (simp add: set_stream_def)
    moreover have "k \<noteq> r" using k(2) e by blast
    ultimately show "ss_streams ?t (st_id (ss_store ?t ! k)) = Some k" unfolding t(2) by auto
  qed
  moreover have "refs_ok ?t" using v unfolding table_inv_def Let_def refs_ok_def t(1,2) by auto
  ultimately show ?thesis using v unfolding table_inv_def Let_def by (simp add: d t(1,2,3))
qed

lemma table_inv_same:
  assumes "table_inv client w" and "ss_streams (wd_sess w') = ss_streams (wd_sess w)" and "ss_store (wd_sess w') = ss_store (wd_sess w)"
    and "ss_nextStreamID (wd_sess w') = ss_nextStreamID (wd_sess w)" and "ss_goAway (wd_sess w') = ss_goAway (wd_sess w)"
    and "wd_opening w' = wd_opening w"
  shows "table_inv client w'"
  by (rule table_inv_frame [OF assms(1)]) (use assms(2-) in simp_all)

lemma table_inv_Close:
  assumes "table_inv client w"
  shows "table_inv client (w\<lparr>wd_sess := snd (Session_Close (wd_sess w))\<rparr>)"
  by (rule table_inv_frame [OF assms]) (auto simp: Session_Close_def Let_def intro!: nth_equalityI split: if_splits)

lemma table_inv_recv:
  assumes inv: "table_inv client w" and p: "fair_peer client f" and f: "recv_frame f (wd_sess w) = Some s'"
  shows "table_inv client (w\<lparr>wd_sess := s'\<rparr>)"
proof (cases "ss_streams (wd_sess w) (fm_sid f)")
  case None
  have syn: "table_inv client (w\<lparr>wd_sess := s'\<rparr>)" if "fm_cmd f = cmdSYN"
    by (rule table_inv_accepted [OF inv _ None, where n = "sc_MaxFrameSize (ss_config (wd_sess w))"])
      (use p that f None in \<open>auto simp: fair_peer_def recv_frame_def alloc_def Let_def split: if_splits\<close>)
  have "table_inv client (w\<lparr>wd_sess := s'\<rparr>)" if "fm_cmd f \<noteq> cmdSYN"
    by (rule table_inv_same [OF inv]) (use that f None in \<open>auto simp: recv_frame_def Let_def\<close>)
  with syn show ?thesis by blast
next
  case (Some r)
  have r: "st_id (ss_store (wd_sess w) ! r) = fm_sid f" using inv Some by (auto simp: table_inv_def Let_def refs_ok_def)
  have set: "table_inv client (w\<lparr>wd_sess := t\<rparr>)" if "ss_store t = (ss_store (wd_sess w))[r := st]" "st_id st = fm_sid f"
    "ss_streams t = ss_streams (wd_sess w)" "ss_nextStreamID t = ss_nextStreamID (wd_sess w)" "ss_goAway t = ss_goAway (wd_sess w)" for t st
    by (rule table_inv_set [OF inv, of st r]) (use that r Some in simp_all)
  have same: "table_inv client (w\<lparr>wd_sess := (wd_sess w)\<lparr>ss_dataReady := True\<rparr>\<rparr>)" by (rule table_inv_same [OF inv]) simp_all
  from f Some r consider "s' = (wd_sess w)\<lparr>ss_dataReady := True\<rparr>"
    | st where "ss_store s' = (ss_store (wd_sess w))[r := st]" "st_id st = fm_sid f"
      "ss_streams s' = ss_streams (wd_sess w)" "ss_nextStreamID s' = ss_nextStreamID (wd_sess w)" "ss_goAway s' = ss_goAway (wd_sess w)"
    by (auto simp: recv_frame_def Let_def set_stream_def split: if_splits)
  then show ?thesis
  proof cases
    case 1
    then show ?thesis using same by simp
  next
    case (2 st)
    then show ?thesis by (rule set)
  qed
qed

lemma table_inv_take:
  assumes inv: "table_inv client w" and "st_id st = st_id (ss_store (wd_sess w) ! r)"
    and "st_bytes (ss_store (wd_sess w) ! r) = b @ st_bytes st"
  shows "table_inv client (w\<lparr>wd_sess := set_stream r st (wd_sess w), wd_owed := x\<rparr>)"
  by (rule table_inv_set [OF inv, of st r]) (use assms(2,3) in \<open>auto simp: set_stream_def\<close>)

lemma table_inv_step:
  assumes inv: "table_inv client w" and step: "smux_step (fair_peer client) w w'"
  shows "table_inv client w'"
  using step
proof cases
  case (recv f inp rest s')
  then show ?thesis using table_inv_recv [OF inv recv(3,5)] by simp
next
  case (open_syn r q s')
  then show ?thesis using table_inv_syn [OF inv open_syn(2)] by simp
next
  case (open_fail e s')
  then have "s' = wd_sess w \<or> ss_goAway s' \<and> ss_store s' = ss_store (wd_sess w) \<and> ss_streams s' = ss_streams (wd_sess w) \<and>
    even (ss_nextStreamID s') = even (ss_nextStreamID (wd_sess w))"
    by (auto simp: OpenStream_syn_def next_id_def Let_def split: if_splits prod.splits)
  then show ?thesis using inv unfolding open_fail(1) table_inv_def Let_def by (auto simp: drawn_def refs_ok_def)
next
  case (open_add r werr x s')
  then show ?thesis using table_inv_add [OF inv open_add(2,3)] by simp
next
  case (read r room out u s')
  obtain st where st: "tryRead (ss_config (wd_sess w)) room (ss_store (wd_sess w) ! r) = (out, u, st)" "s' = set_stream r st (wd_sess w)"
    using read(4) by (auto simp: Stream_read_def split: prod.splits)
  obtain b where "st_bytes (ss_store (wd_sess w) ! r) = b @ st_bytes st" using tryRead_bytes [OF st(1) read(3)] by blast
  from table_inv_take [OF inv tryRead_id [OF st(1)] this] show ?thesis unfolding read(1) st(2) .
next
  case (write_to r b u st)
  then have "st_id st = st_id (ss_store (wd_sess w) ! r)" "st_bytes (ss_store (wd_sess w) ! r) = b @ st_bytes st"
    by (auto simp: WriteTo_turn_def count_read_def Let_def st_bytes_def split: list.splits if_splits)
  from table_inv_take [OF inv this] show ?thesis unfolding write_to(1) .
next
  case (write1 r env b x st)
  show ?thesis unfolding write1(1)
    by (rule table_inv_set [OF inv, of st r]) (use write_keeps(1) [OF write1(3)] in \<open>simp_all add: set_stream_def\<close>)
next
  case (write2 r env b t st)
  show ?thesis unfolding write2(1)
    by (rule table_inv_set [OF inv, of st r]) (use write_keeps(2) [OF write2(3)] in \<open>simp_all add: set_stream_def\<close>)
next
  case (seen_event r)
  show ?thesis unfolding seen_event(1)
    by (rule table_inv_set [OF inv, of "(ss_store (wd_sess w) ! r)\<lparr>st_readEvent := False\<rparr>" r]) (simp_all add: set_stream_def st_bytes_def)
next
  case (close r sid q s')
  show ?thesis unfolding close(1)
    by (rule table_inv_set [OF inv, of "sessionClose (ss_store (wd_sess w) ! r)" r])
      (use close(3) in \<open>auto simp: Stream_Close_def write_request_def set_stream_def Let_def split: if_splits\<close>)
next
  case (closed sid)
  show ?thesis unfolding closed(1) by (rule table_inv_closed [OF inv])
next
  case die
  show ?thesis unfolding die by (rule table_inv_Close [OF inv])
next
  case timeout
  have "table_inv client (w\<lparr>wd_sess := (wd_sess w)\<lparr>ss_dataReady := False\<rparr>\<rparr>)" by (rule table_inv_same [OF inv]) simp_all
  with inv table_inv_Close [OF inv] show ?thesis unfolding timeout by (simp add: keepalive_timeout_def)
qed (rule table_inv_same [OF inv]; auto simp: AcceptStream_def keepalive_ping_def write_request_def notifyBucket_def Let_def split: list.splits)+

lemma fair_start_inv: "fair_start config client w \<Longrightarrow> table_inv client w"
  by (simp add: fair_start_def newSession_def table_inv_def refs_ok_def)

interpretation table: inductive_invariant "fair_start config client" "smux_step (fair_peer client)"
  "\<lambda>w. table_inv client w \<and> (recv_config config \<longrightarrow> world_inv config w)"
proof
  show "table_inv client w \<and> (recv_config config \<longrightarrow> world_inv config w)" if "fair_start config client w" for w
    using fair_start_inv [OF that] world_inv_start [of config w] that by (auto simp: fair_start_def smux_start_def)
qed (blast intro: table_inv_step world_inv_step)

text \<open>
  No tokens are lost. If the peer opens only streams with identifiers of its own parity, then whenever the
  table of streams is empty and no reader is about to return tokens, the bucket of an open session is full again.
\<close>

theorem tokens_recovered:
  assumes "VerifyConfig config = None" and "sc_MaxReceiveBuffer config < 2 ^ 31"
    and r: "reach (fair_start config client) (smux_step (fair_peer client)) w" and "\<not> ss_die (wd_sess w)"
    and "\<forall>sid. ss_streams (wd_sess w) sid = None" and "wd_owed w = []"
  shows "ss_bucket (wd_sess w) = sc_MaxReceiveBuffer config"
proof -
  have cfg: "recv_config config" using assms by (simp add: recv_config_def)
  with table.reach_inv [OF r] have t: "table_inv client w" and ok: "sess_ok config 0 (wd_sess w)"
    using assms(6) by (simp_all add: world_inv_def)
  have "st_bytes st = []" if "st \<in> set (ss_store (wd_sess w))" for st
    using that t assms(5) unfolding table_inv_def Let_def by (metis in_set_conv_nth option.distinct(1))
  then have "buffered (wd_sess w) = 0" by (simp add: buffered_def)
  with bucket_exact(1) [OF ok assms(4)] recv_config_bounds [OF cfg] show ?thesis by simp
qed

theorem tokens_recovered_witness: "ss_bucket (wd_sess (start_world DefaultConfig)) = 4194304"
proof -
  have "reach (fair_start DefaultConfig True) (smux_step (fair_peer True)) (start_world DefaultConfig)"
    by (rule reach_start) (simp add: fair_start_def start_world_def)
  from tokens_recovered [OF default_config_ok this] show ?thesis
    by (simp add: start_world_def newSession_def DefaultConfig_def)
qed

section \<open>A reply that comes too early\<close>

text \<open>
  \<open>OpenStream\<close> enters the stream in the table only after its SYN has been sent. A peer that answers at once can
  be faster than that.
\<close>

definition reply :: "SmuxConfig \<Rightarrow> u32 \<Rightarrow> bytes \<Rightarrow> Frame" where
  "reply config sid d = (newFrame (of_int (sc_Version config)) cmdPSH sid)\<lparr>fm_data := d\<rparr>"

lemma open_first:
  "\<exists>q s. OpenStream_syn (newSession config True) = (Inr (0, q), s) \<and> fm_sid (wr_frame q) = 3 \<and> fm_cmd (wr_frame q) = cmdSYN \<and>
     ss_streams s = (\<lambda>_. None) \<and> map st_id (ss_store s) = [3] \<and> ss_config s = config \<and>
     (0 < sc_MaxReceiveBuffer config \<longrightarrow> sc_MaxReceiveBuffer config < 2 ^ 31 \<longrightarrow> may_receive s)"
  by (simp add: OpenStream_syn_def newSession_def next_id_def alloc_def write_request_def Let_def newFrame_def may_receive_def)

text \<open>
  Data that the peer sends on a new stream can be lost. Under every valid configuration there is an
  interleaving in which a stream has been announced to the peer, the peer's first data for it is read from the
  connection while the stream is being opened, and the data is discarded: the streams of the session are
  unchanged.
\<close>

theorem early_reply_lost:
  assumes "VerifyConfig config = None" and "sc_MaxReceiveBuffer config < 2 ^ 31" and "d \<noteq> []" and "length d < 65536"
  shows "\<exists>w w' r. reach (fair_start config True) (smux_step (fair_peer True)) w \<and> r \<in> set (wd_opening w) \<and>
    smux_step (fair_peer True) w w' \<and>
    recv_next (smux_version (wd_sess w)) (send_bytes (reply config (st_id (ss_store (wd_sess w) ! r)) d)) =
      (Got (reply config (st_id (ss_store (wd_sess w) ! r)) d), []) \<and>
    recv_frame (reply config (st_id (ss_store (wd_sess w) ! r)) d) (wd_sess w) = Some (wd_sess w') \<and>
    ss_store (wd_sess w') = ss_store (wd_sess w) \<and> ss_streams (wd_sess w') = ss_streams (wd_sess w)"
proof -
  obtain q s where o: "OpenStream_syn (newSession config True) = (Inr (0, q), s)" and st: "ss_streams s = (\<lambda>_. None)"
    and ids: "map st_id (ss_store s) = [3]" and c: "ss_config s = config" and m: "may_receive s"
    using open_first [of config] recv_config_bounds [of config] assms(1,2)
    by (auto simp: recv_config_def VerifyConfig_def split: if_splits)
  let ?w = "(start_world config)\<lparr>wd_sess := s, wd_opening := [0]\<rparr>"
  have "reach (fair_start config True) (smux_step (fair_peer True)) (start_world config)"
    by (rule reach_start) (simp add: fair_start_def start_world_def)
  moreover have "smux_step (fair_peer True) (start_world config) ?w"
    using smux_step.open_syn [of "start_world config" 0 q s "fair_peer True"] o by (simp add: start_world_def)
  ultimately have r: "reach (fair_start config True) (smux_step (fair_peer True)) ?w" by (rule reach_step)
  have i: "st_id (ss_store s ! 0) = 3" using ids by (cases "ss_store s") auto
  let ?f = "reply config 3 d"
  have ok: "frame_ok (smux_version s) ?f" using assms(4) by (simp add: frame_ok_def reply_def newFrame_def smux_version_def c)
  from recv_send [OF ok, of "[]"] have n: "recv_next (smux_version s) (send_bytes ?f) = (Got ?f, [])" by simp
  have f: "recv_frame ?f s = Some (s\<lparr>ss_dataReady := True\<rparr>)"
    by (simp add: recv_frame_def reply_def newFrame_def cmd_defs st Let_def)
  have "smux_step (fair_peer True) ?w (?w\<lparr>wd_sess := s\<lparr>ss_dataReady := True\<rparr>\<rparr>)"
    by (rule smux_step.recv [where f = ?f and inp = "send_bytes ?f" and rest = "[]"])
      (use m n f in \<open>simp_all add: fair_peer_def reply_def newFrame_def cmd_defs\<close>)
  then show ?thesis using r n f i
    by (intro exI [of _ ?w] exI [of _ "?w\<lparr>wd_sess := s\<lparr>ss_dataReady := True\<rparr>\<rparr>"] exI [of _ 0]) simp
qed

theorem early_reply_lost_witness:
  "\<exists>(w :: World) (w' :: World) r. r \<in> set (wd_opening w) \<and> recv_frame (reply DefaultConfig (st_id (ss_store (wd_sess w) ! r)) [72, 105]) (wd_sess w) = Some (wd_sess w') \<and>
    ss_store (wd_sess w') = ss_store (wd_sess w)"
proof -
  have "[72, 105] \<noteq> ([] :: bytes)" "length ([72, 105] :: bytes) < 65536" by simp_all
  from early_reply_lost [OF default_config_ok this] show ?thesis by blast
qed

end
