(* ===== verification/SmuxDelivery.thy ===== *)
theory SmuxDelivery
  imports SmuxSession
begin

text \<open>
  End to end through the multiplexer: what \<open>Write\<close> of \<open>src/pkg/smux/stream.go\<close> cuts into frames at one end,
  \<open>sendLoop\<close> puts on the connection among the frames of other streams and \<open>recvLoop\<close> of \<open>src/pkg/smux/session.go\<close>
  sorts into streams at the other.
\<close>

section \<open>One frame\<close>

definition data_for :: "u32 \<Rightarrow> Frame list \<Rightarrow> Frame list" where
  "data_for sid fs = filter (\<lambda>f. fm_cmd f = cmdPSH \<and> fm_sid f = sid) fs"

definition frame_tokens :: "Frame \<Rightarrow> nat" where
  "frame_tokens f = (if fm_cmd f = cmdPSH then length (fm_data f) else 0)"

definition frame_accepts :: "Frame \<Rightarrow> nat" where
  "frame_accepts f = (if fm_cmd f = cmdSYN then 1 else 0)"

text \<open>What one frame does to a stream of the table, to the bucket and to the accept queue.\<close>

lemma recv_frame_effect:
  assumes "refs_ok s" and "ss_streams s sid = Some r" and "length (ss_accepts s) + frame_accepts f \<le> defaultAcceptBacklog"
    and "int (frame_tokens f) < ss_bucket s" and "ss_bucket s < 2 ^ 31"
  shows "\<exists>s'. recv_frame f s = Some s' \<and> refs_ok s' \<and> ss_streams s' sid = Some r \<and>
    st_bytes (ss_store s' ! r) = st_bytes (ss_store s ! r) @ concat (map fm_data (data_for sid [f])) \<and>
    length (ss_accepts s') \<le> length (ss_accepts s) + frame_accepts f \<and>
    ss_bucket s - int (frame_tokens f) \<le> ss_bucket s' \<and> ss_bucket s' < 2 ^ 31 \<and> ss_config s' = ss_config s \<and> ss_die s' = ss_die s \<and>
    ss_readError s' = ss_readError s \<and> ss_protoError s' = ss_protoError s"
proof (cases "ss_streams s (fm_sid f)")
  case None
  have r: "r < length (ss_store s)" and ne: "fm_sid f \<noteq> sid" using assms(1,2) None by (auto simp: refs_ok_def)
  then show ?thesis
    using assms None
    by (auto simp: recv_frame_def Let_def alloc_def data_for_def frame_tokens_def frame_accepts_def cmd_defs refs_ok_def nth_append less_SucI
        split: if_splits)
next
  case (Some k)
  have k: "k < length (ss_store s)" "st_id (ss_store s ! k) = fm_sid f" and r: "r < length (ss_store s)" "st_id (ss_store s ! r) = sid"
    using assms(1,2) Some by (auto simp: refs_ok_def)
  have kr: "k = r \<longleftrightarrow> fm_sid f = sid" using assms(2) Some k(2) r(2) by auto
  have w: "wrap32 (ss_bucket s - int (length (fm_data f))) = ss_bucket s - int (length (fm_data f))" if "fm_cmd f = cmdPSH"
    by (rule wrap32_id) (use assms(4,5) that in \<open>simp_all add: frame_tokens_def\<close>)
  have ro: "refs_ok t" if "ss_streams t = ss_streams s" "ss_store t = (ss_store s)[k := st]" "st_id st = fm_sid f" for t st
    by (rule refs_ok_set [OF assms(1), of st k]) (use that k in \<open>simp_all add: set_stream_def\<close>)
  let ?s = "s\<lparr>ss_dataReady := True\<rparr>"
  consider (same) "recv_frame f s = Some ?s" "fm_cmd f = cmdPSH \<longrightarrow> fm_data f = []"
    | (set) st where "recv_frame f s = Some (set_stream k st ?s)" "st_bytes st = st_bytes (ss_store s ! k)"
        "st_id st = fm_sid f" "fm_cmd f \<noteq> cmdPSH"
    | (push) st where "recv_frame f s = Some ((set_stream k st ?s)\<lparr>ss_bucket := wrap32 (ss_bucket s - int (length (fm_data f)))\<rparr>)"
        "st_bytes st = st_bytes (ss_store s ! k) @ fm_data f" "st_id st = fm_sid f" "fm_cmd f = cmdPSH"
    using Some k(2) by (fastforce simp: recv_frame_def Let_def cmd_defs split: if_splits)
  then show ?thesis
  proof cases
    case same
    then show ?thesis using assms by (simp add: data_for_def frame_tokens_def refs_ok_def)
  next
    case set
    have "st_bytes ((ss_store s)[k := st] ! r) = st_bytes (ss_store s ! r)" using k(1) set(2) by (cases "k = r") simp_all
    then show ?thesis using set assms(2-5) ro [of "set_stream k st ?s" st]
      by (simp add: data_for_def frame_tokens_def set_stream_def)
  next
    case push
    have "st_bytes ((ss_store s)[k := st] ! r) = st_bytes (ss_store s ! r) @ concat (map fm_data (data_for sid [f]))"
      using k(1) r(1) push(2,4) kr by (cases "k = r") (simp_all add: data_for_def)
    then show ?thesis using push assms(2-5) ro [of "(set_stream k st ?s)\<lparr>ss_bucket := ss_bucket s - int (length (fm_data f))\<rparr>" st]
      by (simp add: frame_tokens_def set_stream_def w)
  qed
qed

section \<open>A whole connection\<close>

lemma recvLoop_delivers:
  assumes "\<forall>f \<in> set fs. frame_ok (smux_version s) f" and "refs_ok s" and "ss_streams s sid = Some r"
    and "\<not> ss_readError s" and "\<not> ss_protoError s"
    and "length (ss_accepts s) + sum_list (map frame_accepts fs) \<le> defaultAcceptBacklog"
    and "int (sum_list (map frame_tokens fs)) < ss_bucket s" and "ss_bucket s < 2 ^ 31"
  shows "\<exists>s'. recvLoop (concat (map send_bytes fs)) s = ([], s') \<and> ss_streams s' sid = Some r \<and>
    st_bytes (ss_store s' ! r) = st_bytes (ss_store s ! r) @ concat (map fm_data (data_for sid fs))"
  using assms
proof (induction fs arbitrary: s)
  case Nil
  then have "may_receive s" by (auto simp: may_receive_def)
  then show ?case using Nil by (simp add: recvLoop.simps recv_next_def headerSize_def data_for_def)
next
  case (Cons f fs)
  then have m: "may_receive s" by (auto simp: may_receive_def)
  have n: "recv_next (smux_version s) (send_bytes f @ concat (map send_bytes fs)) = (Got f, concat (map send_bytes fs))"
    using recv_send [of "smux_version s" f] Cons.prems(1) by simp
  obtain s1 where f: "recv_frame f s = Some s1" "refs_ok s1" "ss_streams s1 sid = Some r"
    "st_bytes (ss_store s1 ! r) = st_bytes (ss_store s ! r) @ concat (map fm_data (data_for sid [f]))"
    "length (ss_accepts s1) \<le> length (ss_accepts s) + frame_accepts f"
    "ss_bucket s - int (frame_tokens f) \<le> ss_bucket s1" "ss_bucket s1 < 2 ^ 31" "ss_config s1 = ss_config s"
    "ss_readError s1 = ss_readError s" "ss_protoError s1 = ss_protoError s"
    using recv_frame_effect [of s sid r f] Cons.prems by auto
  have v: "smux_version s1 = smux_version s" by (simp add: smux_version_def f(8))
  have "\<exists>s'. recvLoop (concat (map send_bytes fs)) s1 = ([], s') \<and> ss_streams s' sid = Some r \<and>
    st_bytes (ss_store s' ! r) = st_bytes (ss_store s1 ! r) @ concat (map fm_data (data_for sid fs))"
    by (rule Cons.IH) (use Cons.prems f v in simp_all)
  moreover have "recvLoop (concat (map send_bytes (f # fs))) s = recvLoop (concat (map send_bytes fs)) s1"
    using m n f(1) by (subst recvLoop.simps) simp
  moreover have "concat (map fm_data (data_for sid (f # fs))) =
    concat (map fm_data (data_for sid [f])) @ concat (map fm_data (data_for sid fs))" by (simp add: data_for_def)
  ultimately show ?case using f(4) by simp
qed


definition sample_stream :: stream where
  "sample_stream = newStream 3 2"

definition sample_session :: Session where
  "sample_session = (newSession DefaultConfig False)\<lparr>ss_store := [newStream 3 32768], ss_streams := [3 \<mapsto> 0]\<rparr>"

definition sample_frames :: "Frame list" where
  "sample_frames = [reply DefaultConfig 3 [7, 8], newFrame 1 cmdSYN 5, reply DefaultConfig 5 [1], reply DefaultConfig 3 [9]]"


end
