(* ===== verification/AnyTlsStream.thy ===== *)
theory AnyTlsStream
  imports Prelude
begin

text \<open>
  Streams of the AnyTLS client (\<open>src/proxy/anytls/session/stream.go\<close>).

  A stream has a bounded queue that the session's receive loop fills, a goroutine \<open>writeLoop\<close> that carries
  the data to a pipe, and a reader at the other end of the pipe. It can be closed in four ways, by several
  goroutines at once. Closing a closed channel and sending on one panic. The relation \<open>stream_step\<close>
  interleaves all of them; \<open>dieOnce\<close> and the mutex around the queue make a closing and an enqueueing one step each.
\<close>

section \<open>State\<close>

text \<open>Where \<open>writeLoop\<close> is: waiting, with data it has taken, handing data to the reader, or gone.\<close>

datatype loop = Idle | Holding bytes | Handing bytes | Gone

record Stream =
  as_id :: u32
  as_dataCh :: "bytes list"
  as_chClosed :: bool
  as_done :: bool
  as_synDone :: "string option option"
  as_closed :: bool
  as_queuedBytes :: int
  as_dieOnce :: bool
  as_loop :: loop
  as_pw :: "string option"
  as_pr :: bool

definition dataQueueCap :: nat where "dataQueueCap = 64"
definition dataQueueMaxBytes :: int where "dataQueueMaxBytes = 4 * 2 ^ 20"

definition at_newStream :: "u32 \<Rightarrow> Stream" where
  "at_newStream sid =
     \<lparr>as_id = sid, as_dataCh = [], as_chClosed = False, as_done = False, as_synDone = None, as_closed = False,
      as_queuedBytes = 0, as_dieOnce = False, as_loop = Idle, as_pw = None, as_pr = False\<rparr>"

section \<open>The pipe\<close>

text \<open>
  \<open>io.Pipe\<close>: either end can be closed, the first error of the write end is kept. A read or write on a pipe with a
  closed end fails.
\<close>

definition pw_CloseWithError :: "string \<Rightarrow> Stream \<Rightarrow> Stream" where
  "pw_CloseWithError e st = (case as_pw st of None \<Rightarrow> st\<lparr>as_pw := Some e\<rparr> | Some _ \<Rightarrow> st)"

definition pw_Close :: "Stream \<Rightarrow> Stream" where
  "pw_Close st = pw_CloseWithError ''EOF'' st"

definition pr_Close :: "Stream \<Rightarrow> Stream" where
  "pr_Close st = st\<lparr>as_pr := True\<rparr>"

definition pipe_done :: "Stream \<Rightarrow> bool" where
  "pipe_done st \<longleftrightarrow> as_pr st \<or> as_pw st \<noteq> None"

text \<open>\<open>Read\<close>: an error, data, or \<open>None\<close> while it blocks.\<close>

definition at_Read :: "nat \<Rightarrow> Stream \<Rightarrow> ((string + bytes) \<times> Stream) option" where
  "at_Read room st =
     (if as_pr st then Some (Inl ''io: read/write on closed pipe'', st)
      else case as_pw st of
        Some e \<Rightarrow> Some (Inl e, st)
      | None \<Rightarrow>
          (case as_loop st of
             Handing d \<Rightarrow>
               let rest = drop room d in
               Some (Inr (take room d), st\<lparr>as_loop := (if rest = [] then Idle else Handing rest)\<rparr>)
           | _ \<Rightarrow> None))"

section \<open>Operations\<close>

definition close_ch :: "Stream \<Rightarrow> Stream res" where
  "close_ch st = (if as_chClosed st then Panic else Ok (st\<lparr>as_chClosed := True\<rparr>))"

definition close_done :: "Stream \<Rightarrow> Stream res" where
  "close_done st = (if as_done st then Panic else Ok (st\<lparr>as_done := True\<rparr>))"

definition closeDataCh :: "Stream \<Rightarrow> Stream res" where
  "closeDataCh st = close_ch (st\<lparr>as_closed := True\<rparr>)"

definition die_once :: "(Stream \<Rightarrow> Stream res) \<Rightarrow> Stream \<Rightarrow> (bool \<times> Stream) res" where
  "die_once f st =
     (if as_dieOnce st then Ok (False, st) else bind_res (f (st\<lparr>as_dieOnce := True\<rparr>)) (\<lambda>st'. Ok (True, st')))"

definition force :: "Stream \<Rightarrow> Stream res" where
  "force st = bind_res (close_done st) closeDataCh"

definition closeLocally :: "Stream \<Rightarrow> Stream res" where
  "closeLocally st = bind_res (die_once closeDataCh st) (\<lambda>(_, st'). Ok st')"

definition overflowClose :: "Stream \<Rightarrow> Stream res" where
  "overflowClose st = bind_res (die_once force st) (\<lambda>(_, st'). Ok (pw_Close st'))"

definition forceClose :: "Stream \<Rightarrow> Stream res" where
  "forceClose st = bind_res (die_once force st) (\<lambda>(_, st'). Ok (pr_Close st'))"

definition closePipe :: "Stream \<Rightarrow> Stream res" where
  "closePipe st = bind_res (die_once force st) (\<lambda>(_, st'). Ok st')"

text \<open>\<open>CloseRemote\<close> up to the call of \<open>streamClosed\<close>, which it makes if it was the one to close the stream.\<close>

definition CloseRemote :: "Stream \<Rightarrow> (bool \<times> Stream) res" where
  "CloseRemote st = bind_res (die_once closeDataCh st) (\<lambda>(once, st'). Ok (once, pw_Close st'))"

definition enqueue :: "bytes \<Rightarrow> Stream \<Rightarrow> (bool \<times> Stream) res" where
  "enqueue data st =
     (if dataQueueMaxBytes < as_queuedBytes st + int (length data) then Ok (False, st)
      else if as_closed st then Ok (False, st)
      else if as_chClosed st then Panic
      else if length (as_dataCh st) < dataQueueCap then
        Ok (True, st\<lparr>as_dataCh := as_dataCh st @ [data], as_queuedBytes := as_queuedBytes st + int (length data)\<rparr>)
      else Ok (False, st))"

text \<open>The steps of \<open>writeLoop\<close>.\<close>

inductive writeLoop :: "Stream \<Rightarrow> Stream \<Rightarrow> bool" where
  loop_take: "as_loop st = Idle \<Longrightarrow> as_dataCh st = d # ds \<Longrightarrow> writeLoop st (st\<lparr>as_dataCh := ds, as_loop := Holding d\<rparr>)"
| loop_closed: "as_loop st = Idle \<Longrightarrow> as_dataCh st = [] \<Longrightarrow> as_chClosed st \<Longrightarrow> writeLoop st (pw_Close (st\<lparr>as_loop := Gone\<rparr>))"
| loop_done: "as_loop st = Idle \<Longrightarrow> as_done st \<Longrightarrow> writeLoop st (pw_Close (st\<lparr>as_loop := Gone\<rparr>))"
| loop_count: "as_loop st = Holding d \<Longrightarrow>
     writeLoop st (st\<lparr>as_queuedBytes := as_queuedBytes st - int (length d), as_loop := Handing d\<rparr>)"
| loop_fail: "as_loop st = Handing d \<Longrightarrow> pipe_done st \<Longrightarrow> writeLoop st (pw_Close (st\<lparr>as_loop := Gone\<rparr>))"

inductive_cases writeLoopE: "writeLoop st st'"

section \<open>Interleavings\<close>

text \<open>
  Besides the stream, the data the queue has accepted and the data the reader has got. A step that
  panics sets a flag. The argument says whether the abrupt ways to close may occur; without them only the peer's FIN
  closes the stream.
\<close>

record life =
  lf_st :: Stream
  lf_in :: bytes
  lf_out :: bytes
  lf_eof :: bool
  lf_panic :: bool

definition became :: "life \<Rightarrow> Stream res \<Rightarrow> life" where
  "became w r = (case r of Ok st \<Rightarrow> w\<lparr>lf_st := st\<rparr> | _ \<Rightarrow> w\<lparr>lf_panic := True\<rparr>)"

inductive stream_step :: "bool \<Rightarrow> life \<Rightarrow> life \<Rightarrow> bool" for abrupt :: bool where
  arrive: "d \<noteq> [] \<Longrightarrow> length d < 65536 \<Longrightarrow> enqueue d (lf_st w) = Ok (True, st) \<Longrightarrow>
     stream_step abrupt w (w\<lparr>lf_st := st, lf_in := lf_in w @ d\<rparr>)"
| arrive_panic: "enqueue d (lf_st w) = Panic \<Longrightarrow> stream_step abrupt w (w\<lparr>lf_panic := True\<rparr>)"
| loop: "writeLoop (lf_st w) st \<Longrightarrow> stream_step abrupt w (w\<lparr>lf_st := st\<rparr>)"
| read: "0 < room \<Longrightarrow> at_Read room (lf_st w) = Some (Inr d, st) \<Longrightarrow>
     stream_step abrupt w (w\<lparr>lf_st := st, lf_out := lf_out w @ d\<rparr>)"
| read_end: "at_Read room (lf_st w) = Some (Inl e, st) \<Longrightarrow> stream_step abrupt w (w\<lparr>lf_st := st, lf_eof := (lf_eof w \<or> e = ''EOF'')\<rparr>)"
| fin: "stream_step abrupt w (became w (closeLocally (lf_st w)))"
| overflow: "abrupt \<Longrightarrow> stream_step abrupt w (became w (overflowClose (lf_st w)))"
| session_end: "abrupt \<Longrightarrow> stream_step abrupt w (became w (forceClose (lf_st w)))"
| unregistered: "abrupt \<Longrightarrow> stream_step abrupt w (became w (closePipe (lf_st w)))"
| close_remote: "abrupt \<Longrightarrow> stream_step abrupt w (became w (bind_res (CloseRemote (lf_st w)) (\<lambda>(_, st). Ok st)))"
| deadline: "abrupt \<Longrightarrow> stream_step abrupt w (w\<lparr>lf_st := pw_CloseWithError ''i/o timeout'' (lf_st w)\<rparr>)"
| refused: "abrupt \<Longrightarrow>
     stream_step abrupt w (w\<lparr>lf_st := pw_CloseWithError (''remote: '' @ e) ((lf_st w)\<lparr>as_closed := True\<rparr>)\<rparr>)"

definition stream_start :: "life \<Rightarrow> bool" where
  "stream_start w \<longleftrightarrow> (\<exists>sid. w = \<lparr>lf_st = at_newStream sid, lf_in = [], lf_out = [], lf_eof = False, lf_panic = False\<rparr>)"

section \<open>Invariants\<close>

definition in_loop :: "loop \<Rightarrow> bytes" where
  "in_loop l = (case l of Holding d \<Rightarrow> d | Handing d \<Rightarrow> d | _ \<Rightarrow> [])"

definition closing_ok :: "Stream \<Rightarrow> bool" where
  "closing_ok st \<longleftrightarrow> (as_chClosed st \<longleftrightarrow> as_dieOnce st) \<and> (as_chClosed st \<longrightarrow> as_closed st) \<and> (as_done st \<longrightarrow> as_dieOnce st)"

definition queue_ok :: "Stream \<Rightarrow> bool" where
  "queue_ok st \<longleftrightarrow> length (as_dataCh st) \<le> dataQueueCap \<and> [] \<notin> set (as_dataCh st) \<and>
     as_queuedBytes st = int (length (concat (as_dataCh st))) + (case as_loop st of Holding d \<Rightarrow> int (length d) | _ \<Rightarrow> 0) \<and>
     as_queuedBytes st \<le> dataQueueMaxBytes \<and> (as_loop st \<noteq> Holding []) \<and> (as_loop st \<noteq> Handing [])"

definition data_ok :: "life \<Rightarrow> bool" where
  "data_ok w \<longleftrightarrow> (\<exists>r. lf_in w = lf_out w @ r \<and>
     (as_loop (lf_st w) \<noteq> Gone \<longrightarrow> r = in_loop (as_loop (lf_st w)) @ concat (as_dataCh (lf_st w))))"

text \<open>Without abrupt closing, the pipe is closed only by \<open>writeLoop\<close> and only when everything has been handed on.\<close>

definition graceful :: "life \<Rightarrow> bool" where
  "graceful w \<longleftrightarrow> \<not> as_done (lf_st w) \<and> \<not> as_pr (lf_st w) \<and> (as_closed (lf_st w) \<longrightarrow> as_chClosed (lf_st w)) \<and>
     (as_pw (lf_st w) = None \<or> as_pw (lf_st w) = Some ''EOF'') \<and> (as_pw (lf_st w) \<noteq> None \<longleftrightarrow> as_loop (lf_st w) = Gone) \<and>
     (as_loop (lf_st w) = Gone \<longrightarrow> as_chClosed (lf_st w) \<and> as_dataCh (lf_st w) = [] \<and> lf_in w = lf_out w) \<and>
     (lf_eof w \<longrightarrow> as_pw (lf_st w) \<noteq> None)"

definition life_inv :: "bool \<Rightarrow> life \<Rightarrow> bool" where
  "life_inv abrupt w \<longleftrightarrow> \<not> lf_panic w \<and> closing_ok (lf_st w) \<and> queue_ok (lf_st w) \<and> data_ok w \<and> (abrupt \<or> graceful w)"

lemmas pipe_defs = pw_Close_def pw_CloseWithError_def pr_Close_def
lemmas closer_defs = closeLocally_def overflowClose_def forceClose_def closePipe_def CloseRemote_def die_once_def force_def
  closeDataCh_def close_ch_def close_done_def

text \<open>Every way to close leaves the queue, the loop and the invariant of the flags alone, and none panics.\<close>

definition closes_to :: "Stream \<Rightarrow> Stream \<Rightarrow> bool" where
  "closes_to st st' \<longleftrightarrow> closing_ok st' \<and> as_dataCh st' = as_dataCh st \<and> as_queuedBytes st' = as_queuedBytes st \<and> as_loop st' = as_loop st"

lemma closers_ok:
  assumes "closing_ok st"
  shows "\<exists>st'. closeLocally st = Ok st' \<and> closes_to st st' \<and> as_pw st' = as_pw st \<and> as_pr st' = as_pr st \<and> as_done st' = as_done st \<and> as_chClosed st'"
    and "\<exists>st'. overflowClose st = Ok st' \<and> closes_to st st'" and "\<exists>st'. forceClose st = Ok st' \<and> closes_to st st'"
    and "\<exists>st'. closePipe st = Ok st' \<and> closes_to st st'"
    and "\<exists>st'. bind_res (CloseRemote st) (\<lambda>(_, st). Ok st) = Ok st' \<and> closes_to st st'"
  using assms by (auto simp: closer_defs pipe_defs closes_to_def closing_ok_def split: option.splits)

lemma became_inv:
  assumes "life_inv abrupt w" and "r = Ok st'" and "closes_to (lf_st w) st'" and "abrupt"
  shows "life_inv abrupt (became w r)"
  using assms by (auto simp: life_inv_def became_def closes_to_def queue_ok_def data_ok_def)

lemma enqueue_ok: "closing_ok st \<Longrightarrow> enqueue d st \<noteq> Panic"
  by (auto simp: enqueue_def closing_ok_def)

lemma arrive_inv:
  assumes inv: "life_inv abrupt w" and d: "d \<noteq> []" and e: "enqueue d (lf_st w) = Ok (True, st)"
  shows "life_inv abrupt (w\<lparr>lf_st := st, lf_in := lf_in w @ d\<rparr>)"
proof -
  have st: "st = (lf_st w)\<lparr>as_dataCh := as_dataCh (lf_st w) @ [d], as_queuedBytes := as_queuedBytes (lf_st w) + int (length d)\<rparr>"
    and g: "as_queuedBytes (lf_st w) + int (length d) \<le> dataQueueMaxBytes" "\<not> as_closed (lf_st w)" "length (as_dataCh (lf_st w)) < dataQueueCap"
    using e by (auto simp: enqueue_def split: if_splits)
  have "closing_ok st" using inv by (simp add: st life_inv_def closing_ok_def)
  moreover have "queue_ok st" using inv g d by (auto simp: st life_inv_def queue_ok_def)
  moreover have "data_ok (w\<lparr>lf_st := st, lf_in := lf_in w @ d\<rparr>)" using inv by (auto simp: st life_inv_def data_ok_def)
  moreover have "graceful (w\<lparr>lf_st := st, lf_in := lf_in w @ d\<rparr>)" if "graceful w"
    using that g(2) inv by (auto simp: st graceful_def life_inv_def closing_ok_def)
  ultimately show ?thesis using inv by (auto simp: life_inv_def)
qed

lemma loop_inv:
  assumes inv: "life_inv abrupt w" and l: "writeLoop (lf_st w) st"
  shows "life_inv abrupt (w\<lparr>lf_st := st\<rparr>)"
  using l
proof cases
  case (loop_take d ds)
  then show ?thesis using inv by (auto simp: life_inv_def closing_ok_def queue_ok_def data_ok_def graceful_def in_loop_def)
next
  case loop_closed
  then show ?thesis using inv
    by (auto simp: life_inv_def closing_ok_def queue_ok_def data_ok_def graceful_def in_loop_def pipe_defs split: option.splits)
next
  case loop_done
  then show ?thesis using inv
    by (auto simp: life_inv_def closing_ok_def queue_ok_def data_ok_def graceful_def in_loop_def pipe_defs split: option.splits)
next
  case (loop_count d)
  then show ?thesis using inv by (auto simp: life_inv_def closing_ok_def queue_ok_def data_ok_def graceful_def in_loop_def)
next
  case (loop_fail d)
  then show ?thesis using inv
    by (auto simp: life_inv_def closing_ok_def queue_ok_def data_ok_def graceful_def in_loop_def pipe_defs pipe_done_def split: option.splits)
qed

lemma read_inv:
  assumes inv: "life_inv abrupt w" and "0 < room" and r: "at_Read room (lf_st w) = Some (Inr d, st)"
  shows "life_inv abrupt (w\<lparr>lf_st := st, lf_out := lf_out w @ d\<rparr>)"
proof -
  obtain x where x: "as_loop (lf_st w) = Handing x" "d = take room x" "as_pw (lf_st w) = None"
    "st = (lf_st w)\<lparr>as_loop := (if drop room x = [] then Idle else Handing (drop room x))\<rparr>"
    using r by (auto simp: at_Read_def Let_def split: if_splits option.splits loop.splits)
  have b: "x = d @ drop room x" by (simp add: x(2))
  have "in_loop (as_loop st) = drop room x" by (simp add: x(4) in_loop_def)
  then have "data_ok (w\<lparr>lf_st := st, lf_out := lf_out w @ d\<rparr>)"
    using inv x(1) b by (auto simp: life_inv_def data_ok_def in_loop_def x(4))
  moreover have "queue_ok st" "closing_ok st" using inv x(1) by (auto simp: x(4) life_inv_def queue_ok_def closing_ok_def)
  moreover have "graceful (w\<lparr>lf_st := st, lf_out := lf_out w @ d\<rparr>)" if "graceful w"
    using that x(1,3) by (auto simp: graceful_def x(4))
  ultimately show ?thesis using inv by (auto simp: life_inv_def)
qed

lemma life_inv_step:
  assumes inv: "life_inv abrupt w" and "stream_step abrupt w w'"
  shows "life_inv abrupt w'"
proof -
  have c: "closing_ok (lf_st w)" using inv by (simp add: life_inv_def)
  note k = closers_ok [OF c]
  from assms(2) show ?thesis
  proof cases
    case (arrive d st)
    then show ?thesis using arrive_inv [OF inv] by simp
  next
    case (arrive_panic d)
    then show ?thesis using enqueue_ok [OF c] by blast
  next
    case (loop st)
    then show ?thesis using loop_inv [OF inv] by simp
  next
    case (read room d st)
    then show ?thesis using read_inv [OF inv] by simp
  next
    case (read_end room e st)
    then show ?thesis using inv
      by (auto simp: at_Read_def life_inv_def data_ok_def graceful_def Let_def split: if_splits option.splits loop.splits)
  next
    case fin
    obtain st' where st: "closeLocally (lf_st w) = Ok st'" "closes_to (lf_st w) st'" "as_pw st' = as_pw (lf_st w)"
      "as_pr st' = as_pr (lf_st w)" "as_done st' = as_done (lf_st w)" "as_chClosed st'" using k(1) by blast
    then show ?thesis using inv unfolding fin
      by (auto simp: life_inv_def became_def closes_to_def queue_ok_def data_ok_def graceful_def)
  next
    case overflow
    then show ?thesis using k(2) became_inv [OF inv] by blast
  next
    case session_end
    then show ?thesis using k(3) became_inv [OF inv] by blast
  next
    case unregistered
    then show ?thesis using k(4) became_inv [OF inv] by blast
  next
    case close_remote
    then show ?thesis using k(5) became_inv [OF inv] by blast
  next
    case deadline
    then show ?thesis using inv by (auto simp: life_inv_def closing_ok_def queue_ok_def data_ok_def pipe_defs split: option.splits)
  next
    case (refused e)
    then show ?thesis using inv by (auto simp: life_inv_def closing_ok_def queue_ok_def data_ok_def pipe_defs split: option.splits)
  qed
qed

interpretation stream_life: inductive_invariant stream_start "stream_step abrupt" "life_inv abrupt"
proof
  show "life_inv abrupt w" if "stream_start w" for w
    using that by (auto simp: stream_start_def at_newStream_def life_inv_def closing_ok_def queue_ok_def data_ok_def graceful_def
        in_loop_def dataQueueMaxBytes_def)
qed (rule life_inv_step)

text \<open>
  C20. A stream is safe under every interleaving of arriving data, \<open>writeLoop\<close>, reads, the four ways to close, read
  deadlines and refusals: nothing panics, the queue keeps to its limits in frames and bytes, and what
  the reader has got is an initial part of what the queue accepted, in order.
\<close>

theorem anytls_stream_safe:
  assumes "reach stream_start (stream_step abrupt) w"
  shows "\<not> lf_panic w \<and> length (as_dataCh (lf_st w)) \<le> 64 \<and> length (concat (as_dataCh (lf_st w))) \<le> 4194304 \<and>
    (\<exists>r. lf_in w = lf_out w @ r)"
proof -
  have inv: "life_inv abrupt w" by (rule stream_life.reach_inv [OF assms])
  have "int (length (concat (as_dataCh (lf_st w)))) \<le> as_queuedBytes (lf_st w)"
    using inv by (auto simp: life_inv_def queue_ok_def split: loop.splits)
  with inv show ?thesis by (auto simp: life_inv_def queue_ok_def data_ok_def dataQueueCap_def dataQueueMaxBytes_def)
qed

definition new_life :: life where
  "new_life = \<lparr>lf_st = at_newStream 1, lf_in = [], lf_out = [], lf_eof = False, lf_panic = False\<rparr>"

definition fed_life :: life where
  "fed_life = new_life\<lparr>lf_st := (at_newStream 1)\<lparr>as_dataCh := [[1, 2, 3]], as_queuedBytes := 3\<rparr>, lf_in := [1, 2, 3]\<rparr>"

lemma new_life_reach: "reach stream_start (stream_step abrupt) new_life"
  by (rule reach_start) (auto simp: stream_start_def new_life_def)

lemma fed_life_reach: "reach stream_start (stream_step abrupt) fed_life"
proof (rule reach_step [OF new_life_reach])
  have "enqueue [1, 2, 3] (lf_st new_life) = Ok (True, lf_st fed_life)"
    by (simp add: enqueue_def new_life_def fed_life_def at_newStream_def dataQueueMaxBytes_def dataQueueCap_def)
  from arrive [OF _ _ this] show "stream_step abrupt new_life fed_life" by (simp add: fed_life_def new_life_def)
qed

theorem anytls_stream_safe_witness:
  "\<not> lf_panic fed_life \<and> length (as_dataCh (lf_st fed_life)) \<le> 64 \<and> (\<exists>r. lf_in fed_life = lf_out fed_life @ r)"
  using anytls_stream_safe [OF fed_life_reach] by simp

text \<open>After a FIN the reader can drain the stream.\<close>

lemma hand_over:
  assumes "as_loop (lf_st w) = Handing d" and "d \<noteq> []" and "\<not> as_pr (lf_st w)" and "as_pw (lf_st w) = None"
  shows "stream_step abrupt w (w\<lparr>lf_st := (lf_st w)\<lparr>as_loop := Idle\<rparr>, lf_out := lf_out w @ d\<rparr>)"
  by (rule read [where room = "length d"]) (use assms in \<open>simp_all add: at_Read_def\<close>)

lemma carry:
  assumes "as_loop (lf_st w) = Holding d" and "d \<noteq> []" and "\<not> as_pr (lf_st w)" and "as_pw (lf_st w) = None"
  shows "(stream_step abrupt)\<^sup>*\<^sup>* w (w\<lparr>lf_st := (lf_st w)\<lparr>as_queuedBytes := as_queuedBytes (lf_st w) - int (length d), as_loop := Idle\<rparr>,
    lf_out := lf_out w @ d\<rparr>)"
proof -
  let ?w = "w\<lparr>lf_st := (lf_st w)\<lparr>as_queuedBytes := as_queuedBytes (lf_st w) - int (length d), as_loop := Handing d\<rparr>\<rparr>"
  have "stream_step abrupt w ?w" by (rule loop [OF loop_count [OF assms(1)]])
  moreover have "stream_step abrupt ?w (?w\<lparr>lf_st := (lf_st ?w)\<lparr>as_loop := Idle\<rparr>, lf_out := lf_out ?w @ d\<rparr>)"
    by (rule hand_over) (use assms in simp_all)
  ultimately show ?thesis by (simp add: rtranclp.rtrancl_into_rtrancl r_into_rtranclp)
qed

lemma drain_idle:
  assumes "as_loop (lf_st w) = Idle" and "as_chClosed (lf_st w)" and "\<not> as_pr (lf_st w)" and "as_pw (lf_st w) = None"
    and "[] \<notin> set (as_dataCh (lf_st w))"
  shows "\<exists>w'. (stream_step abrupt)\<^sup>*\<^sup>* w w' \<and> lf_eof w' \<and> lf_out w' = lf_out w @ concat (as_dataCh (lf_st w))"
  using assms
proof (induction "as_dataCh (lf_st w)" arbitrary: w)
  case Nil
  let ?w = "w\<lparr>lf_st := pw_Close ((lf_st w)\<lparr>as_loop := Gone\<rparr>)\<rparr>"
  have "stream_step abrupt w ?w" by (rule loop [OF loop_closed]) (use Nil in simp_all)
  moreover have "stream_step abrupt ?w (?w\<lparr>lf_st := lf_st ?w, lf_eof := (lf_eof ?w \<or> ''EOF'' = ''EOF'')\<rparr>)"
    by (rule read_end [where room = 1]) (use Nil in \<open>simp add: at_Read_def pipe_defs\<close>)
  ultimately show ?case using Nil by (intro exI [of _ "?w\<lparr>lf_st := lf_st ?w, lf_eof := (lf_eof ?w \<or> ''EOF'' = ''EOF'')\<rparr>"])
    (auto intro: rtranclp.rtrancl_into_rtrancl)
next
  case (Cons d ds)
  let ?w = "w\<lparr>lf_st := (lf_st w)\<lparr>as_dataCh := ds, as_loop := Holding d\<rparr>\<rparr>"
  let ?v = "?w\<lparr>lf_st := (lf_st ?w)\<lparr>as_queuedBytes := as_queuedBytes (lf_st ?w) - int (length d), as_loop := Idle\<rparr>, lf_out := lf_out ?w @ d\<rparr>"
  have d: "d \<noteq> []" "[] \<notin> set ds" using Cons.prems(5) by (auto simp flip: Cons.hyps(2))
  have "stream_step abrupt w ?w" by (rule loop [OF loop_take]) (use Cons in simp_all)
  moreover have "(stream_step abrupt)\<^sup>*\<^sup>* ?w ?v" by (rule carry) (use Cons.prems d(1) in simp_all)
  moreover have "\<exists>w'. (stream_step abrupt)\<^sup>*\<^sup>* ?v w' \<and> lf_eof w' \<and> lf_out w' = lf_out ?v @ concat (as_dataCh (lf_st ?v))"
    by (rule Cons.hyps(1)) (use Cons.prems d(2) in simp_all)
  moreover have "concat (as_dataCh (lf_st w)) = d @ concat ds" by (simp flip: Cons.hyps(2))
  ultimately show ?case by (auto dest: converse_rtranclp_into_rtranclp intro: rtranclp_trans)
qed

lemma drain:
  assumes inv: "life_inv False w" and c: "as_chClosed (lf_st w)"
  shows "\<exists>w'. (stream_step False)\<^sup>*\<^sup>* w w' \<and> lf_eof w' \<and> lf_out w' = lf_in w"
proof (cases "as_loop (lf_st w) = Gone")
  case True
  then have g: "as_pw (lf_st w) = Some ''EOF''" "\<not> as_pr (lf_st w)" "lf_in w = lf_out w"
    using inv by (auto simp: life_inv_def graceful_def)
  then have "stream_step False w (w\<lparr>lf_st := lf_st w, lf_eof := (lf_eof w \<or> ''EOF'' = ''EOF'')\<rparr>)"
    by (intro read_end [where room = 1]) (simp add: at_Read_def)
  then show ?thesis using g(3) by (intro exI [of _ "w\<lparr>lf_st := lf_st w, lf_eof := (lf_eof w \<or> ''EOF'' = ''EOF'')\<rparr>"]) auto
next
  case False
  have p: "\<not> as_pr (lf_st w)" "as_pw (lf_st w) = None" "[] \<notin> set (as_dataCh (lf_st w))"
    "as_loop (lf_st w) \<noteq> Holding []" "as_loop (lf_st w) \<noteq> Handing []"
    and i: "lf_in w = lf_out w @ in_loop (as_loop (lf_st w)) @ concat (as_dataCh (lf_st w))"
    using inv False by (auto simp: life_inv_def graceful_def queue_ok_def data_ok_def)
  have carried: "\<exists>v. (stream_step False)\<^sup>*\<^sup>* w v \<and> as_loop (lf_st v) = Idle \<and> as_chClosed (lf_st v) \<and> \<not> as_pr (lf_st v) \<and>
    as_pw (lf_st v) = None \<and> as_dataCh (lf_st v) = as_dataCh (lf_st w) \<and> lf_out v = lf_out w @ in_loop (as_loop (lf_st w))"
    if "(stream_step False)\<^sup>*\<^sup>* w u" "as_loop (lf_st u) = Idle" "as_chClosed (lf_st u)" "\<not> as_pr (lf_st u)" "as_pw (lf_st u) = None"
      "as_dataCh (lf_st u) = as_dataCh (lf_st w)" "lf_out u = lf_out w @ in_loop (as_loop (lf_st w))" for u
    using that by blast
  have "\<exists>v. (stream_step False)\<^sup>*\<^sup>* w v \<and> as_loop (lf_st v) = Idle \<and> as_chClosed (lf_st v) \<and> \<not> as_pr (lf_st v) \<and>
    as_pw (lf_st v) = None \<and> as_dataCh (lf_st v) = as_dataCh (lf_st w) \<and> lf_out v = lf_out w @ in_loop (as_loop (lf_st w))"
  proof (cases "as_loop (lf_st w)")
    case Idle
    then show ?thesis using p c by (intro exI [of _ w]) (simp add: in_loop_def)
  next
    case (Holding d)
    with p have "d \<noteq> []" by auto
    from carry [OF Holding this p(1,2), of False] show ?thesis by (rule carried) (use p c in \<open>simp_all add: in_loop_def Holding\<close>)
  next
    case (Handing d)
    with p have "d \<noteq> []" by auto
    from r_into_rtranclp [of "stream_step False", OF hand_over [OF Handing this p(1,2), of False]] show ?thesis
      by (rule carried) (use p c in \<open>simp_all add: in_loop_def Handing\<close>)
  qed (use False in simp)
  then obtain v where v: "(stream_step False)\<^sup>*\<^sup>* w v" "as_loop (lf_st v) = Idle" "as_chClosed (lf_st v)" "\<not> as_pr (lf_st v)"
    "as_pw (lf_st v) = None" "as_dataCh (lf_st v) = as_dataCh (lf_st w)" "lf_out v = lf_out w @ in_loop (as_loop (lf_st w))" by blast
  have "[] \<notin> set (as_dataCh (lf_st v))" using p(3) v(6) by simp
  from drain_idle [OF v(2-5) this, of False] obtain w' where "(stream_step False)\<^sup>*\<^sup>* v w'" "lf_eof w'"
    "lf_out w' = lf_out v @ concat (as_dataCh (lf_st v))" by blast
  then have "(stream_step False)\<^sup>*\<^sup>* w w' \<and> lf_eof w' \<and> lf_out w' = lf_in w"
    using rtranclp_trans [OF v(1)] v(6,7) i by simp
  then show ?thesis by blast
qed

text \<open>
  A FIN loses nothing. In a life of a stream without abrupt closing, the reader sees the end of the stream
  only after it has got everything the queue accepted; and once the FIN has arrived, a reader that keeps
  reading gets all of it and then the end.
\<close>

theorem fin_drains:
  assumes "reach stream_start (stream_step False) w"
  shows "(lf_eof w \<longrightarrow> lf_out w = lf_in w) \<and>
    (as_chClosed (lf_st w) \<longrightarrow> (\<exists>w'. (stream_step False)\<^sup>*\<^sup>* w w' \<and> lf_eof w' \<and> lf_out w' = lf_in w))"
  using stream_life.reach_inv [OF assms] drain [of w] by (auto simp: life_inv_def graceful_def)

definition finished_life :: life where
  "finished_life = fed_life\<lparr>lf_st := (lf_st fed_life)\<lparr>as_closed := True, as_chClosed := True, as_dieOnce := True\<rparr>\<rparr>"

theorem fin_drains_witness:
  "\<exists>w'. (stream_step False)\<^sup>*\<^sup>* finished_life w' \<and> lf_eof w' \<and> lf_out w' = [1, 2, 3]"
proof -
  have "became fed_life (closeLocally (lf_st fed_life)) = finished_life"
    by (simp add: closer_defs became_def finished_life_def fed_life_def new_life_def at_newStream_def)
  then have "reach stream_start (stream_step False) finished_life"
    using reach_step [OF fed_life_reach, of False] fin [of False fed_life] by simp
  from fin_drains [OF this] show ?thesis by (simp add: finished_life_def fed_life_def)
qed

end
