(* ===== verification/AnyTlsSession.thy ===== *)
theory AnyTlsSession
  imports AnyTlsStream SocksAddr
begin

text \<open>
  Sessions of the AnyTLS client (\<open>src/proxy/anytls/session/frame.go\<close>, \<open>src/proxy/anytls/session/session.go\<close>): the frames, the
  receive loop, opening and closing of streams, and the buffering of the first frames.

  As in the other multiplexer the streams are objects in a store and the table of the session holds references to
  them. \<open>at_wire\<close> is what has been written to the connection; whether a write fails is an argument.
\<close>

section \<open>Frames\<close>

definition atWaste :: u8 where "atWaste = 0"
definition atSYN :: u8 where "atSYN = 1"
definition atPSH :: u8 where "atPSH = 2"
definition atFIN :: u8 where "atFIN = 3"
definition atSettings :: u8 where "atSettings = 4"
definition atAlert :: u8 where "atAlert = 5"
definition atUpdatePaddingScheme :: u8 where "atUpdatePaddingScheme = 6"
definition atSYNACK :: u8 where "atSYNACK = 7"
definition atHeartRequest :: u8 where "atHeartRequest = 8"
definition atHeartResponse :: u8 where "atHeartResponse = 9"
definition atServerSettings :: u8 where "atServerSettings = 10"

lemmas at_defs = atWaste_def atSYN_def atPSH_def atFIN_def atSettings_def atAlert_def atUpdatePaddingScheme_def atSYNACK_def
  atHeartRequest_def atHeartResponse_def atServerSettings_def

record at_frame =
  af_cmd :: u8
  af_sid :: u32
  af_data :: bytes

definition at_newFrame :: "u8 \<Rightarrow> u32 \<Rightarrow> at_frame" where
  "at_newFrame cmd sid = \<lparr>af_cmd = cmd, af_sid = sid, af_data = []\<rparr>"

definition at_headerSize :: nat where "at_headerSize = 7"

definition at_StreamID :: "bytes \<Rightarrow> u32" where
  "at_StreamID h = be32_of (h ! 1) (h ! 2) (h ! 3) (h ! 4)"

definition at_Length :: "bytes \<Rightarrow> u16" where
  "at_Length h = be16_of (h ! 5) (h ! 6)"

text \<open>The bytes \<open>writeDataFrame\<close> and \<open>writeControlFrame\<close> make of a frame.\<close>

definition at_encode :: "at_frame \<Rightarrow> bytes" where
  "at_encode f = af_cmd f # be32 (af_sid f) @ be16 (of_nat (length (af_data f))) @ af_data f"

text \<open>
  What the receive loop reads for the next frame, or \<open>None\<close> when the connection ends before that. The body of a FIN and
  of a heartbeat stays on the connection.
\<close>

definition reads_body :: "u8 \<Rightarrow> bool" where
  "reads_body cmd \<longleftrightarrow> cmd \<noteq> atFIN \<and> cmd \<noteq> atHeartRequest \<and> cmd \<noteq> atHeartResponse"

definition at_next :: "bytes \<Rightarrow> (at_frame \<times> bytes) option" where
  "at_next inp =
     (if length inp < at_headerSize then None
      else
        let h = take at_headerSize inp; rest = drop at_headerSize inp; n = unat (at_Length h); f = at_newFrame (h ! 0) (at_StreamID h)
        in if \<not> reads_body (h ! 0) then Some (f, rest)
           else if length rest < n then None else Some (f\<lparr>af_data := take n rest\<rparr>, drop n rest))"

definition at_ok :: "at_frame \<Rightarrow> bool" where
  "at_ok f \<longleftrightarrow> length (af_data f) < 65536 \<and> (reads_body (af_cmd f) \<or> af_data f = [])"

text \<open>Whatever the length of the data, the reader takes as many bytes as the 16-bit length says.\<close>

lemma at_next_encode:
  assumes "reads_body (af_cmd f)"
  shows "at_next (at_encode f @ rest) =
    Some (f\<lparr>af_data := take (length (af_data f) mod 65536) (af_data f)\<rparr>, drop (length (af_data f) mod 65536) (af_data f) @ rest)"
proof -
  let ?h = "af_cmd f # be32 (af_sid f) @ be16 (of_nat (length (af_data f)))"
  have i: "at_encode f @ rest = ?h @ af_data f @ rest" by (simp add: at_encode_def)
  have h: "length ?h = at_headerSize" by (simp add: at_headerSize_def)
  then have th: "take at_headerSize (?h @ x) = ?h" "drop at_headerSize (?h @ x) = x" for x by (metis append_eq_conv_conj)+
  have s: "at_StreamID ?h = af_sid f" by (simp add: at_StreamID_def be32_def be16_def)
  have "at_Length ?h = of_nat (length (af_data f))" by (simp add: at_Length_def be32_def be16_def)
  then have l: "unat (at_Length ?h) = length (af_data f) mod 65536" by (simp add: unat_of_nat)
  have "length (af_data f) mod 65536 \<le> length (af_data f)" by simp
  then show ?thesis
    using assms h unfolding at_next_def i th Let_def s l by (cases f) (simp add: at_newFrame_def at_headerSize_def)
qed

lemma at_next_bodyless:
  assumes "\<not> reads_body (af_cmd f)"
  shows "at_next (at_encode f @ rest) = Some (at_newFrame (af_cmd f) (af_sid f), af_data f @ rest)"
proof -
  let ?h = "af_cmd f # be32 (af_sid f) @ be16 (of_nat (length (af_data f)))"
  have i: "at_encode f @ rest = ?h @ af_data f @ rest" by (simp add: at_encode_def)
  have h: "length ?h = at_headerSize" by (simp add: at_headerSize_def)
  then have th: "take at_headerSize (?h @ x) = ?h" "drop at_headerSize (?h @ x) = x" for x by (metis append_eq_conv_conj)+
  have s: "at_StreamID ?h = af_sid f" by (simp add: at_StreamID_def be32_def be16_def)
  show ?thesis using assms h unfolding at_next_def i th Let_def s by (simp add: at_headerSize_def)
qed

interpretation anytls: framing at_encode at_next at_ok
proof
  show "at_next (at_encode f @ r) = Some (f, r)" if "at_ok f" for f r
    using that at_next_encode [of f r] at_next_bodyless [of f r]
    by (cases "reads_body (af_cmd f)") (cases f; simp add: at_ok_def at_newFrame_def)+
qed (simp add: at_encode_def)

text \<open>
  Framing of the receive loop, for every frame on the wire. A frame whose data fits the length field is read back
  exactly, if it is of a kind whose body the loop reads; of longer data the loop takes what the truncated
  length says and reads the rest as further frames; and the body of a FIN or a heartbeat is read as
  further frames as a whole.
\<close>

theorem anytls_framing:
  "at_next (at_encode f @ rest) =
     (if reads_body (af_cmd f)
      then Some (f\<lparr>af_data := take (length (af_data f) mod 65536) (af_data f)\<rparr>, drop (length (af_data f) mod 65536) (af_data f) @ rest)
      else Some (f\<lparr>af_data := []\<rparr>, af_data f @ rest))"
  using at_next_encode [of f rest] at_next_bodyless [of f rest] by (cases f) (simp add: at_newFrame_def)

section \<open>Sessions\<close>

record at_session =
  at_streams :: "u32 \<Rightarrow> nat option"
  at_store :: "Stream list"
  at_streamID :: u32
  at_die :: bool
  at_peerVersion :: u32
  at_buffering :: bool
  at_buffer :: bytes
  at_wire :: bytes

definition NewClientSession :: at_session where
  "NewClientSession =
     \<lparr>at_streams = (\<lambda>_. None), at_store = [], at_streamID = 0, at_die = False, at_peerVersion = 0, at_buffering = True,
      at_buffer = [], at_wire = []\<rparr>"

definition set_at :: "nat \<Rightarrow> Stream \<Rightarrow> at_session \<Rightarrow> at_session" where
  "set_at r st s = s\<lparr>at_store := (at_store s)[r := st]\<rparr>"

definition drop_at :: "u32 \<Rightarrow> at_session \<Rightarrow> at_session" where
  "drop_at sid s = s\<lparr>at_streams := (at_streams s)(sid := None)\<rparr>"

definition writeConn :: "bool \<Rightarrow> bytes \<Rightarrow> at_session \<Rightarrow> bool \<times> at_session" where
  "writeConn fail b s =
     (if at_buffering s then (True, s\<lparr>at_buffer := at_buffer s @ b\<rparr>)
      else if fail then (False, s\<lparr>at_buffer := []\<rparr>)
      else (True, s\<lparr>at_wire := at_wire s @ at_buffer s @ b, at_buffer := []\<rparr>))"

definition flushBuffering :: "at_session \<Rightarrow> at_session" where
  "flushBuffering s = s\<lparr>at_buffering := False\<rparr>"

fun on_refs :: "(Stream \<Rightarrow> Stream res) \<Rightarrow> nat list \<Rightarrow> at_session \<Rightarrow> at_session res" where
  "on_refs f [] s = Ok s"
| "on_refs f (r # rs) s = bind_res (f (at_store s ! r)) (\<lambda>st. on_refs f rs (set_at r st s))"

text \<open>The streams the table refers to, each found under its own identifier.\<close>

definition table_refs :: "at_session \<Rightarrow> nat list" where
  "table_refs s = filter (\<lambda>r. at_streams s (as_id (at_store s ! r)) = Some r) [0..<length (at_store s)]"

definition at_Close :: "at_session \<Rightarrow> at_session res" where
  "at_Close s =
     (if at_die s then Ok s
      else bind_res (on_refs forceClose (table_refs s) (s\<lparr>at_die := True\<rparr>)) (\<lambda>s'. Ok (s'\<lparr>at_streams := (\<lambda>_. None)\<rparr>)))"

definition at_writeControlFrame :: "bool \<Rightarrow> at_frame \<Rightarrow> at_session \<Rightarrow> (bool \<times> at_session) res" where
  "at_writeControlFrame fail f s =
     (case writeConn fail (at_encode f) s of
        (True, s') \<Rightarrow> Ok (True, s')
      | (False, s') \<Rightarrow> bind_res (at_Close s') (\<lambda>s''. Ok (False, s'')))"

text \<open>\<open>Write\<close> of a stream: the bytes written or an error.\<close>

definition at_Write :: "bool \<Rightarrow> nat \<Rightarrow> bytes \<Rightarrow> at_session \<Rightarrow> nat option \<times> at_session" where
  "at_Write fail r b s =
     (let st = at_store s ! r in
      if as_closed st then (None, s)
      else case writeConn fail (at_encode ((at_newFrame atPSH (as_id st))\<lparr>af_data := b\<rparr>)) s of
        (ok, s') \<Rightarrow> (if ok then Some (length b) else None, s'))"

definition at_settings :: string where
  "at_settings = ''v=2'' @ [char_of (10 :: nat)] @ ''client=anytls/0.0.11'' @ [char_of (10 :: nat)]"

definition Run :: "bool \<Rightarrow> at_session \<Rightarrow> at_session res" where
  "Run fail s =
     bind_res (at_writeControlFrame fail ((at_newFrame atSettings 0)\<lparr>af_data := map char_byte at_settings\<rparr>) s) (\<lambda>(_, s'). Ok s')"

text \<open>\<open>OpenStream\<close> up to the point where it registers the stream, and its registration.\<close>

definition OpenStream_send :: "bool \<Rightarrow> at_session \<Rightarrow> (nat option \<times> at_session) res" where
  "OpenStream_send fail s =
     (if at_die s then Ok (None, s)
      else
        let sid = at_streamID s + 1; r = length (at_store s);
            s1 = s\<lparr>at_streamID := sid, at_store := at_store s @ [at_newStream sid]\<rparr>
        in bind_res (at_writeControlFrame fail (at_newFrame atSYN sid) s1)
             (\<lambda>(ok, s2). if ok then Ok (Some r, flushBuffering s2)
                         else bind_res (closePipe (at_store s2 ! r)) (\<lambda>st. Ok (None, set_at r st s2))))"

definition OpenStream_register :: "nat \<Rightarrow> at_session \<Rightarrow> (nat option \<times> at_session) res" where
  "OpenStream_register r s =
     (if at_die s then bind_res (closePipe (at_store s ! r)) (\<lambda>st. Ok (None, set_at r st s))
      else Ok (Some r, s\<lparr>at_streams := (at_streams s)(as_id (at_store s ! r) \<mapsto> r)\<rparr>))"

text \<open>
  Whether \<open>OpenStream\<close> then waits, and how the wait ends: with what is in the channel of the stream, after three seconds, or
  with the session. \<open>None\<close>: this cannot end it now.
\<close>

definition awaits_synack :: "u32 \<Rightarrow> at_session \<Rightarrow> bool" where
  "awaits_synack sid s \<longleftrightarrow> 2 \<le> sid \<and> 2 \<le> at_peerVersion s"

datatype wait_end = Answered | Elapsed | SessionDied

definition OpenStream_wait :: "wait_end \<Rightarrow> nat \<Rightarrow> at_session \<Rightarrow> ((string option \<times> at_session) res) option" where
  "OpenStream_wait ev r s =
     (let st = at_store s ! r;
          give_up = (\<lambda>e s. bind_res (forceClose (at_store s ! r)) (\<lambda>st'. Ok (Some e, set_at r st' (drop_at (as_id st) s))))
      in case ev of
           Answered \<Rightarrow>
             (case as_synDone st of
                None \<Rightarrow> None
              | Some None \<Rightarrow> Some (Ok (None, set_at r (st\<lparr>as_synDone := None\<rparr>) s))
              | Some (Some e) \<Rightarrow> Some (give_up e (set_at r (st\<lparr>as_synDone := None\<rparr>) s)))
         | Elapsed \<Rightarrow> Some (give_up ''[anytls] stream open timeout: no SYNACK received'' s)
         | SessionDied \<Rightarrow> if at_die s then Some (Ok (Some ''io: read/write on closed pipe'', s)) else None)"

definition at_streamClosed :: "bool \<Rightarrow> u32 \<Rightarrow> at_session \<Rightarrow> at_session res" where
  "at_streamClosed fail sid s =
     (if at_die s then Ok s
      else bind_res (at_writeControlFrame fail (at_newFrame atFIN sid) s) (\<lambda>(_, s'). Ok (drop_at sid s')))"

section \<open>The receive loop\<close>

definition is_space :: "char \<Rightarrow> bool" where
  "is_space c \<longleftrightarrow> (of_char c :: nat) \<in> {9, 10, 11, 12, 13, 32}"

definition TrimSpace :: "string \<Rightarrow> string" where
  "TrimSpace s = rev (dropWhile is_space (rev (dropWhile is_space s)))"

definition parseStringMap :: "string \<Rightarrow> (string \<rightharpoonup> string)" where
  "parseStringMap s =
     fold (\<lambda>line m. let i = IndexByte line (CHR ''='') in
                    if i < 0 then m else m(TrimSpace (take (nat i) line) \<mapsto> TrimSpace (drop (nat i + 1) line)))
       (split_on (char_of (10 :: nat)) s) Map.empty"

definition with_stream :: "u32 \<Rightarrow> at_session \<Rightarrow> (nat \<Rightarrow> Stream \<Rightarrow> (bool \<times> at_session) res) \<Rightarrow> (bool \<times> at_session) res" where
  "with_stream sid s k = (case at_streams s sid of None \<Rightarrow> Ok (True, s) | Some r \<Rightarrow> k r (at_store s ! r))"

text \<open>The effect of one frame; the flag says whether the loop goes on.\<close>

definition at_recv :: "bool \<Rightarrow> at_frame \<Rightarrow> at_session \<Rightarrow> (bool \<times> at_session) res" where
  "at_recv fail f s =
     (let sid = af_sid f; cmd = af_cmd f; data = af_data f in
      if cmd = atPSH \<and> data \<noteq> [] then
        with_stream sid s (\<lambda>r st.
          bind_res (enqueue data st) (\<lambda>(ok, st').
            if ok then Ok (True, set_at r st' s)
            else bind_res (overflowClose st') (\<lambda>st''.
                   bind_res (at_writeControlFrame fail (at_newFrame atFIN sid) (drop_at sid (set_at r st'' s))) (\<lambda>(_, s'). Ok (True, s')))))
      else if cmd = atFIN then
        with_stream sid s (\<lambda>r st. bind_res (closeLocally st) (\<lambda>st'. Ok (True, drop_at sid (set_at r st' s))))
      else if cmd = atSYNACK then
        with_stream sid s (\<lambda>r st.
          if data \<noteq> [] then
            let e = ''remote: '' @ map byte_char data in
            (case as_synDone st of
               None \<Rightarrow> Ok (True, set_at r (st\<lparr>as_synDone := Some (Some e)\<rparr>) s)
             | Some _ \<Rightarrow> Ok (True, set_at r (pw_CloseWithError e (st\<lparr>as_closed := True\<rparr>)) s))
          else
            (case as_synDone st of
               None \<Rightarrow> Ok (True, set_at r (st\<lparr>as_synDone := Some None\<rparr>) s)
             | Some _ \<Rightarrow> Ok (True, s)))
      else if cmd = atAlert \<and> data \<noteq> [] then Ok (False, s)
      else if cmd = atServerSettings \<and> data \<noteq> [] then
        (case parseStringMap (map byte_char data) ''v'' of
           None \<Rightarrow> Ok (True, s)
         | Some v \<Rightarrow> (case Atoi v of None \<Rightarrow> Ok (True, s) | Some n \<Rightarrow> Ok (True, s\<lparr>at_peerVersion := of_int n\<rparr>)))
      else if cmd = atHeartRequest then
        bind_res (at_writeControlFrame fail (at_newFrame atHeartResponse sid) s) (\<lambda>(_, s'). Ok (True, s'))
      else Ok (True, s))"

text \<open>\<open>recvLoop\<close> on everything the connection delivers; \<open>fails\<close> says which of its own writes fail.\<close>

lemma at_next_shorter: "at_next inp = Some (f, rest) \<Longrightarrow> length rest < length inp"
  by (auto simp: at_next_def at_headerSize_def Let_def split: if_splits)

function at_recvLoop :: "(nat \<Rightarrow> bool) \<Rightarrow> bytes \<Rightarrow> at_session \<Rightarrow> at_session res" where
  "at_recvLoop fails inp s =
     (if at_die s then Ok s
      else case at_next inp of
        None \<Rightarrow> at_Close s
      | Some (f, rest) \<Rightarrow>
          (case at_recv (fails (length inp)) f s of
             Ok (True, s') \<Rightarrow> at_recvLoop fails rest s'
           | Ok (False, s') \<Rightarrow> at_Close s'
           | Err e \<Rightarrow> Err e | Panic \<Rightarrow> Panic | Diverge \<Rightarrow> Diverge))"
  by pat_completeness auto
termination
  by (relation "measure (\<lambda>(fails, inp, s). length inp)") (auto dest: at_next_shorter)

declare at_recvLoop.simps [simp del]

section \<open>What the session keeps\<close>

text \<open>Nothing written is lost or reordered by the buffering of the first frames.\<close>

lemma writeConn_order:
  "writeConn False b s = (ok, s') \<Longrightarrow> ok \<and> at_wire s' @ at_buffer s' = at_wire s @ at_buffer s @ b"
  by (auto simp: writeConn_def split: if_splits)

text \<open>Every stream keeps its flags consistent, so that no operation of the session panics.\<close>

definition session_ok :: "at_session \<Rightarrow> bool" where
  "session_ok s \<longleftrightarrow> (\<forall>st \<in> set (at_store s). closing_ok st) \<and> (\<forall>sid r. at_streams s sid = Some r \<longrightarrow> r < length (at_store s))"

lemma session_ok_set: "session_ok s \<Longrightarrow> closing_ok st \<Longrightarrow> session_ok (set_at r st s)"
  using set_update_subset_insert [of "at_store s" r st] unfolding session_ok_def set_at_def by auto

lemma session_ok_drop: "session_ok s \<Longrightarrow> session_ok (drop_at sid s)"
  by (auto simp: session_ok_def drop_at_def)

lemma session_ok_nth: "session_ok s \<Longrightarrow> r < length (at_store s) \<Longrightarrow> closing_ok (at_store s ! r)"
  by (simp add: session_ok_def)

lemma on_refs_ok:
  assumes "session_ok s" and "\<forall>r \<in> set rs. r < length (at_store s)"
    and "\<And>st. closing_ok st \<Longrightarrow> \<exists>st'. f st = Ok st' \<and> closing_ok st'"
  shows "\<exists>s'. on_refs f rs s = Ok s' \<and> session_ok s' \<and> length (at_store s') = length (at_store s)"
  using assms(1,2)
proof (induction rs arbitrary: s)
  case (Cons r rs)
  have "closing_ok (at_store s ! r)" by (rule session_ok_nth [OF Cons.prems(1)]) (use Cons.prems(2) in simp)
  from assms(3) [OF this] obtain st where st: "f (at_store s ! r) = Ok st" "closing_ok st" by blast
  have "\<exists>s'. on_refs f rs (set_at r st s) = Ok s' \<and> session_ok s' \<and> length (at_store s') = length (at_store (set_at r st s))"
    by (rule Cons.IH) (use Cons.prems session_ok_set [OF Cons.prems(1) st(2)] in \<open>simp_all add: set_at_def\<close>)
  then show ?case by (simp add: st(1) set_at_def)
qed simp

lemma at_Close_ok:
  assumes "session_ok s"
  shows "\<exists>s'. at_Close s = Ok s' \<and> session_ok s' \<and> length (at_store s') = length (at_store s)"
proof (cases "at_die s")
  case False
  have "session_ok (s\<lparr>at_die := True\<rparr>)" using assms by (simp add: session_ok_def)
  moreover have "\<forall>r \<in> set (table_refs s). r < length (at_store (s\<lparr>at_die := True\<rparr>))" by (auto simp: table_refs_def)
  ultimately have "\<exists>s'. on_refs forceClose (table_refs s) (s\<lparr>at_die := True\<rparr>) = Ok s' \<and> session_ok s' \<and>
    length (at_store s') = length (at_store (s\<lparr>at_die := True\<rparr>))"
    by (rule on_refs_ok) (use closers_ok(3) in \<open>auto simp: closes_to_def\<close>)
  then show ?thesis using False by (auto simp: at_Close_def session_ok_def)
qed (use assms in \<open>simp add: at_Close_def\<close>)

lemma at_writeControlFrame_ok:
  assumes "session_ok s"
  shows "\<exists>ok s'. at_writeControlFrame fail f s = Ok (ok, s') \<and> session_ok s' \<and> length (at_store s') = length (at_store s)"
proof -
  obtain ok s1 where w: "writeConn fail (at_encode f) s = (ok, s1)" by fastforce
  have s1: "session_ok s1" "length (at_store s1) = length (at_store s)"
    using assms w by (auto simp: writeConn_def session_ok_def split: if_splits)
  from at_Close_ok [OF s1(1)] w s1 show ?thesis by (cases ok) (auto simp: at_writeControlFrame_def)
qed

lemma enqueue_closing: "closing_ok st \<Longrightarrow> \<exists>ok st'. enqueue d st = Ok (ok, st') \<and> closing_ok st'"
  by (auto simp: enqueue_def closing_ok_def)

definition runs :: "(bool \<times> at_session) res \<Rightarrow> bool" where
  "runs x \<longleftrightarrow> (\<exists>go s'. x = Ok (go, s') \<and> session_ok s')"

lemma runs_if: "runs a \<Longrightarrow> runs b \<Longrightarrow> runs (if c then a else b)"
  by simp

lemma runs_Ok: "session_ok s \<Longrightarrow> runs (Ok (go, s))"
  by (simp add: runs_def)

lemma runs_control: "session_ok s \<Longrightarrow> runs (bind_res (at_writeControlFrame fail f s) (\<lambda>(_, s'). Ok (True, s')))"
  using at_writeControlFrame_ok [of s fail f] by (auto simp: runs_def)

lemma runs_with_stream:
  assumes "session_ok s" and "\<And>r st. r < length (at_store s) \<Longrightarrow> closing_ok st \<Longrightarrow> runs (k r st)"
  shows "runs (with_stream sid s k)"
  using assms by (auto simp: with_stream_def runs_def session_ok_def split: option.split)

lemma at_recv_runs:
  assumes ok: "session_ok s"
  shows "runs (at_recv fail f s)"
proof -
  have psh: "runs (bind_res (enqueue d st) (\<lambda>(b, st'). if b then Ok (True, set_at r st' s)
      else bind_res (overflowClose st') (\<lambda>st''.
        bind_res (at_writeControlFrame fail g (drop_at sid (set_at r st'' s))) (\<lambda>(_, s'). Ok (True, s')))))"
    if c: "closing_ok st" for r st d g sid
  proof -
    obtain b st1 where e: "enqueue d st = Ok (b, st1)" "closing_ok st1" using enqueue_closing [OF c] by blast
    obtain st2 where o: "overflowClose st1 = Ok st2" "closing_ok st2" using closers_ok(2) [OF e(2)] by (auto simp: closes_to_def)
    note runs_control [OF session_ok_drop [OF session_ok_set [OF ok o(2)]]]
    with e o runs_Ok [OF session_ok_set [OF ok e(2)]] show ?thesis by simp
  qed
  have fin: "runs (bind_res (closeLocally st) (\<lambda>st'. Ok (True, drop_at sid (set_at r st' s))))" if c: "closing_ok st" for r st sid
  proof -
    obtain st1 where l: "closeLocally st = Ok st1" "closing_ok st1" using closers_ok(1) [OF c] by (auto simp: closes_to_def)
    from runs_Ok [OF session_ok_drop [OF session_ok_set [OF ok l(2)]]] l show ?thesis by simp
  qed
  have set: "runs (Ok (True, set_at r st' s))" if "closing_ok st" "as_chClosed st' = as_chClosed st" "as_dieOnce st' = as_dieOnce st"
    "as_done st' = as_done st" "as_closed st \<longrightarrow> as_closed st'" for r st st'
    by (rule runs_Ok [OF session_ok_set [OF ok]]) (use that in \<open>auto simp: closing_ok_def\<close>)
  have pwc: "as_chClosed (pw_CloseWithError e st) = as_chClosed st" "as_dieOnce (pw_CloseWithError e st) = as_dieOnce st"
    "as_done (pw_CloseWithError e st) = as_done st" "as_closed (pw_CloseWithError e st) = as_closed st" for e st
    by (simp_all add: pw_CloseWithError_def split: option.split)
  have ver: "runs (case x of None \<Rightarrow> Ok (True, s) | Some v \<Rightarrow> (case Atoi v of None \<Rightarrow> Ok (True, s) | Some n \<Rightarrow> Ok (True, s\<lparr>at_peerVersion := of_int n\<rparr>)))" for x
    using ok by (auto simp: runs_def session_ok_def split: option.split)
  show ?thesis
    unfolding at_recv_def Let_def
    by (intro runs_if runs_with_stream [OF ok] psh fin runs_Ok [OF ok] ver runs_control [OF ok])
      (auto simp: pwc split: option.split intro: set runs_Ok [OF ok])
qed

lemma at_recv_ok:
  assumes ok: "session_ok s"
  shows "\<exists>go s'. at_recv fail f s = Ok (go, s') \<and> session_ok s'"
  using at_recv_runs [OF ok, of fail f] by (simp add: runs_def)

lemma on_refs_die: "on_refs f rs s = Ok s' \<Longrightarrow> at_die s' = at_die s"
proof (induction rs arbitrary: s)
  case (Cons r rs)
  then show ?case by (cases "f (at_store s ! r)") (auto simp: set_at_def)
qed simp

lemma at_Close_dies: "session_ok s \<Longrightarrow> \<exists>s'. at_Close s = Ok s' \<and> session_ok s' \<and> at_die s'"
  using at_Close_ok [of s] by (cases "on_refs forceClose (table_refs s) (s\<lparr>at_die := True\<rparr>)")
    (auto simp: at_Close_def dest: on_refs_die split: if_splits)

text \<open>Opening streams keeps the session well formed, so every session that is used is.\<close>

lemma session_ok_new: "session_ok NewClientSession"
  by (simp add: session_ok_def NewClientSession_def)

lemma session_ok_open:
  assumes ok: "session_ok s" and t: "OpenStream_send fail s = x"
  shows "\<exists>r s'. x = Ok (r, s') \<and> session_ok s' \<and> (\<forall>k. r = Some k \<longrightarrow> k < length (at_store s'))"
proof (cases "at_die s")
  case True
  then show ?thesis using ok t by (auto simp: OpenStream_send_def)
next
  case False
  let ?sid = "at_streamID s + 1"
  let ?s = "s\<lparr>at_streamID := ?sid, at_store := at_store s @ [at_newStream ?sid]\<rparr>"
  have "session_ok ?s" using ok by (auto simp: session_ok_def at_newStream_def closing_ok_def less_SucI)
  from at_writeControlFrame_ok [OF this, of fail "at_newFrame atSYN ?sid"] obtain ok' s2
    where w: "at_writeControlFrame fail (at_newFrame atSYN ?sid) ?s = Ok (ok', s2)" "session_ok s2"
      "length (at_store s2) = Suc (length (at_store s))" by auto
  have c: "closing_ok (at_store s2 ! length (at_store s))" by (rule session_ok_nth [OF w(2)]) (simp add: w(3))
  obtain st where p: "closePipe (at_store s2 ! length (at_store s)) = Ok st" "closing_ok st"
    using closers_ok(4) [OF c] by (auto simp: closes_to_def)
  have f: "session_ok (flushBuffering s2)" using w(2) by (simp add: session_ok_def flushBuffering_def)
  show ?thesis
    using t False w p f session_ok_set [OF w(2) p(2)]
    by (cases ok') (auto simp: OpenStream_send_def Let_def flushBuffering_def set_at_def)
qed

lemma session_ok_register:
  assumes ok: "session_ok s" and r: "r < length (at_store s)"
  shows "\<exists>k s'. OpenStream_register r s = Ok (k, s') \<and> session_ok s'"
proof -
  obtain st where p: "closePipe (at_store s ! r) = Ok st" "closing_ok st"
    using closers_ok(4) [OF session_ok_nth [OF ok r]] by (auto simp: closes_to_def)
  have "session_ok (s\<lparr>at_streams := (at_streams s)(as_id (at_store s ! r) \<mapsto> r)\<rparr>)" using ok r by (auto simp: session_ok_def)
  with p session_ok_set [OF ok p(2)] show ?thesis by (simp add: OpenStream_register_def)
qed

text \<open>
  C23. The receive loop survives every input. Whatever bytes the server sends and whichever of the
  loop's own writes fail, the loop ends, does not panic and leaves the session closed.
\<close>

theorem anytls_recv_total:
  assumes "session_ok s"
  shows "\<exists>s'. at_recvLoop fails inp s = Ok s' \<and> at_die s' \<and> session_ok s'"
  using assms
proof (induction fails inp s rule: at_recvLoop.induct)
  case (1 fails inp s)
  show ?case
  proof (cases "at_die s")
    case True
    then show ?thesis using 1(2) by (simp add: at_recvLoop.simps)
  next
    case False
    show ?thesis
    proof (cases "at_next inp")
      case None
      then show ?thesis using False at_Close_dies [OF 1(2)] by (auto simp: at_recvLoop.simps)
    next
      case (Some p)
      obtain f rest where p: "p = (f, rest)" by (cases p)
      obtain go s1 where g: "at_recv (fails (length inp)) f s = Ok (go, s1)" "session_ok s1" using at_recv_ok [OF 1(2)] by blast
      have e: "at_recvLoop fails inp s = (if go then at_recvLoop fails rest s1 else at_Close s1)"
        using False Some p g(1) by (subst at_recvLoop.simps) (simp split: bool.split)
      show ?thesis
      proof (cases go)
        case True
        have "\<exists>s'. at_recvLoop fails rest s1 = Ok s' \<and> at_die s' \<and> session_ok s'"
          by (rule 1(1) [OF False Some p [symmetric] g(1) refl _ g(2)]) (simp add: True)
        then show ?thesis by (simp add: e True)
      next
        case False
        then show ?thesis using at_Close_dies [OF g(2)] by (auto simp: e)
      qed
    qed
  qed
qed

definition open_session1 :: at_session where
  "open_session1 = NewClientSession\<lparr>at_streams := [1 \<mapsto> 0], at_store := [at_newStream 1], at_streamID := 1, at_buffering := False\<rparr>"

lemma open_session1_ok: "session_ok open_session1"
  by (simp add: session_ok_def open_session1_def NewClientSession_def at_newStream_def closing_ok_def)

theorem anytls_recv_total_witness:
  "\<exists>s'. at_recvLoop (\<lambda>_. False) [2, 0, 0, 0, 1, 0, 1, 65, 3, 0, 0, 0, 1, 0, 0, 99] open_session1 = Ok s' \<and> at_die s'"
  using anytls_recv_total [OF open_session1_ok] by blast

text \<open>
  C40. A refusal of the first stream goes unnoticed. \<open>OpenStream\<close> does not wait for the answer to the first stream, but
  the channel for the answer has room for one: a SYNACK with an error message is put there, nobody
  reads it, and the stream stays open for reading and writing.
\<close>

theorem anytls_refusal_ignored:
  assumes "at_streams s 1 = Some r" and "r < length (at_store s)" and "at_store s ! r = at_newStream 1" and "msg \<noteq> []"
  shows "\<not> awaits_synack 1 s \<and>
    at_recv fail \<lparr>af_cmd = atSYNACK, af_sid = 1, af_data = msg\<rparr> s =
      Ok (True, set_at r ((at_newStream 1)\<lparr>as_synDone := Some (Some (''remote: '' @ map byte_char msg))\<rparr>) s) \<and>
    fst (at_Write False r b (set_at r ((at_newStream 1)\<lparr>as_synDone := Some (Some (''remote: '' @ map byte_char msg))\<rparr>) s)) = Some (length b)"
proof -
  have "\<not> awaits_synack 1 s" by (simp add: awaits_synack_def word_le_nat_alt)
  then show ?thesis using assms
    by (simp add: at_recv_def with_stream_def Let_def at_defs at_newStream_def at_Write_def set_at_def writeConn_def)
qed

theorem anytls_refusal_ignored_witness:
  "fst (at_Write False 0 [71, 69, 84]
     (set_at 0 ((at_newStream 1)\<lparr>as_synDone := Some (Some (''remote: '' @ map byte_char [110, 111]))\<rparr>) open_session1)) = Some 3"
  using anytls_refusal_ignored [of open_session1 0 "[110, 111]" False "[71, 69, 84]"] by (simp add: open_session1_def)

text \<open>A success that arrives while the stream is not registered yet is dropped; the wait can then only time out.\<close>

lemma early_synack_lost:
  assumes "OpenStream_send False s = Ok (Some r, s1)" and "r = length (at_store s)" and "at_streams s (at_streamID s + 1) = None"
    and "at_recv fail (at_newFrame atSYNACK (at_streamID s + 1)) s1 = Ok (go, s2)"
    and "OpenStream_register r s2 = Ok (Some r, s3)"
  shows "OpenStream_wait Answered r s3 = None"
proof -
  have s1: "at_streams s1 = at_streams s" "at_store s1 = at_store s @ [at_newStream (at_streamID s + 1)]"
    using assms(1) by (auto simp: OpenStream_send_def at_writeControlFrame_def writeConn_def flushBuffering_def Let_def split: if_splits)
  have "s2 = s1" using assms(3,4) by (simp add: s1 at_recv_def with_stream_def at_newFrame_def at_defs Let_def)
  then have "at_store s3 = at_store s1"
    using assms(5) by (cases "at_die s2") (auto simp: OpenStream_register_def bind_res.simps elim!: bind_res.elims)
  then show ?thesis using assms(2) by (simp add: OpenStream_wait_def Let_def s1 at_newStream_def)
qed

end
