(* ===== verification/AnyTlsPool.thy ===== *)
theory AnyTlsPool
  imports AnyTlsSession
begin

text \<open>
  The session pool of the AnyTLS client (\<open>src/proxy/anytls/session/client.go\<close>) and the dialer on top of it
  (\<open>src/proxy/anytls/anytls.go\<close>).

  Sessions are numbered in the order of their creation, which is their \<open>Seq\<close>. The pool knows of each whether it
  is dead, whether its flag \<open>InIdle\<close> is set, and since when it has been idle. A session on its way back to the pool, or
  one that is dying, is in the hands of a goroutine that takes several steps; \<open>pool_step\<close> interleaves them.
\<close>

section \<open>The pool\<close>

record pool =
  pl_idle :: "nat list"
  pl_sessions :: "nat \<Rightarrow> bool"
  pl_counter :: nat
  pl_inIdle :: "nat \<Rightarrow> bool"
  pl_dead :: "nat \<Rightarrow> bool"
  pl_idleSince :: "nat \<Rightarrow> int"
  pl_cancelled :: bool
  pl_idleTimeout :: int

definition clamp_interval :: "int \<Rightarrow> int" where
  "clamp_interval d = (if d < 5 * 10 ^ 9 then 30 * 10 ^ 9 else d)"

definition at_NewClient :: "int \<Rightarrow> pool" where
  "at_NewClient idleTimeout =
     \<lparr>pl_idle = [], pl_sessions = (\<lambda>_. False), pl_counter = 0, pl_inIdle = (\<lambda>_. False), pl_dead = (\<lambda>_. False),
      pl_idleSince = (\<lambda>_. 0), pl_cancelled = False, pl_idleTimeout = clamp_interval idleTimeout\<rparr>"

function getIdleSession :: "pool \<Rightarrow> nat option \<times> pool" where
  "getIdleSession p =
     (if pl_idle p = [] then (None, p)
      else
        let sess = last (pl_idle p);
            p1 = p\<lparr>pl_idle := butlast (pl_idle p), pl_inIdle := (pl_inIdle p)(sess := False)\<rparr>
        in if pl_dead p sess then getIdleSession p1 else (Some sess, p1))"
  by pat_completeness auto
termination
  by (relation "measure (length \<circ> pl_idle)") auto

declare getIdleSession.simps [simp del]

text \<open>\<open>returnToIdle\<close>: the compare-and-swap, then the append under the lock.\<close>

definition returnToIdle_cas :: "nat \<Rightarrow> pool \<Rightarrow> bool \<times> pool" where
  "returnToIdle_cas sess p =
     (if pl_inIdle p sess then (False, p) else (True, p\<lparr>pl_inIdle := (pl_inIdle p)(sess := True)\<rparr>))"

definition returnToIdle_append :: "int \<Rightarrow> nat \<Rightarrow> pool \<Rightarrow> pool" where
  "returnToIdle_append now sess p =
     p\<lparr>pl_idleSince := (pl_idleSince p)(sess := now), pl_idle := pl_idle p @ [sess]\<rparr>"

definition createSession :: "string option \<Rightarrow> pool \<Rightarrow> (string + nat) \<times> pool" where
  "createSession dial_err p =
     (case dial_err of
        Some e \<Rightarrow> (Inl e, p)
      | None \<Rightarrow>
          let seq = pl_counter p + 1
          in (Inr seq, p\<lparr>pl_counter := seq, pl_sessions := (pl_sessions p)(seq := True)\<rparr>))"

text \<open>The hook a dying session runs, in its two critical sections.\<close>

definition DieHook_idle :: "nat \<Rightarrow> pool \<Rightarrow> pool" where
  "DieHook_idle sess p = p\<lparr>pl_inIdle := (pl_inIdle p)(sess := False), pl_idle := remove1 sess (pl_idle p)\<rparr>"

definition DieHook_sessions :: "nat \<Rightarrow> pool \<Rightarrow> pool" where
  "DieHook_sessions sess p = p\<lparr>pl_sessions := (pl_sessions p)(sess := False)\<rparr>"

text \<open>\<open>idleCleanup\<close>: the sessions it will close, and the pool.\<close>

fun cleanup_loop :: "int \<Rightarrow> nat list \<Rightarrow> pool \<Rightarrow> nat list \<times> nat list \<times> pool" where
  "cleanup_loop expTime [] p = ([], [], p)"
| "cleanup_loop expTime (sess # rest) p =
     (if pl_dead p sess then cleanup_loop expTime rest (p\<lparr>pl_inIdle := (pl_inIdle p)(sess := False)\<rparr>)
      else if pl_idleSince p sess < expTime then
        (case cleanup_loop expTime rest (p\<lparr>pl_inIdle := (pl_inIdle p)(sess := False)\<rparr>) of
           (c, r, p') \<Rightarrow> (sess # c, r, p'))
      else (case cleanup_loop expTime rest p of (c, r, p') \<Rightarrow> (c, sess # r, p')))"

definition idleCleanup :: "int \<Rightarrow> pool \<Rightarrow> nat list \<times> pool" where
  "idleCleanup now p =
     (case cleanup_loop (now - pl_idleTimeout p) (pl_idle p) p of (c, r, p') \<Rightarrow> (c, p'\<lparr>pl_idle := r\<rparr>))"

definition at_Client_Close :: "pool \<Rightarrow> nat list \<times> pool" where
  "at_Client_Close p =
     (filter (pl_sessions p) [1..<Suc (pl_counter p)], p\<lparr>pl_cancelled := True, pl_sessions := (\<lambda>_. False)\<rparr>)"

text \<open>The first half of \<open>CreateStream\<close>: the session to open a stream on.\<close>

definition CreateStream_session :: "string option \<Rightarrow> pool \<Rightarrow> (string + nat) \<times> pool" where
  "CreateStream_session dial_err p =
     (if pl_cancelled p then (Inl ''io: read/write on closed pipe'', p)
      else
        case getIdleSession p of
          (Some sess, p1) \<Rightarrow> (Inr sess, p1)
        | (None, p1) \<Rightarrow> createSession dial_err p1)"

text \<open>What \<open>CloseFunc\<close> does with the session after the stream has been closed.\<close>

datatype close_next = Forget | CloseSession | ReturnSession

definition CloseFunc :: "nat \<Rightarrow> pool \<Rightarrow> close_next" where
  "CloseFunc sess p = (if pl_dead p sess then Forget else if pl_cancelled p then CloseSession else ReturnSession)"

section \<open>Dialing\<close>

text \<open>
  \<open>Dial\<close> on a stream of a session: the target is written as a SOCKS address; a target that cannot be parsed, or a write
  that fails, closes the stream.
\<close>

definition AnyTLS_Dial :: "bool \<Rightarrow> string \<Rightarrow> nat \<Rightarrow> at_session \<Rightarrow> (string + nat) \<times> at_session" where
  "AnyTLS_Dial fail addr r s =
     (case Socks_ParseAddr addr of
        None \<Rightarrow> (Inl (''[anytls] failed to parse target address: '' @ addr), s)
      | Some target \<Rightarrow>
          (case at_Write fail r target s of
             (None, s') \<Rightarrow> (Inl ''[anytls] failed to write target address'', s')
           | (Some _, s') \<Rightarrow> (Inr r, s')))"

text \<open>The bytes sent for authentication: the hash of the password and an empty padding.\<close>

definition auth_bytes :: "bytes \<Rightarrow> bytes" where
  "auth_bytes password = take 32 (password @ replicate 32 0) @ be16 0"

section \<open>Interleavings of the pool\<close>

text \<open>
  Besides the pool: the sessions that carry a stream, those whose \<open>CloseFunc\<close> has decided to return them, those whose
  flag has been won and that are about to be appended, and those that have died and have yet to run their hook.
\<close>

record pool_world =
  pw_pool :: pool
  pw_held :: "nat list"
  pw_leaving :: "nat list"
  pw_entering :: "nat list"
  pw_dying :: "nat list"

definition mark_dead :: "nat \<Rightarrow> pool \<Rightarrow> pool" where
  "mark_dead sess p = p\<lparr>pl_dead := (pl_dead p)(sess := True)\<rparr>"

inductive pool_step :: "pool_world \<Rightarrow> pool_world \<Rightarrow> bool" where
  create_stream: "CreateStream_session dial_err (pw_pool w) = (Inr sess, p) \<Longrightarrow>
     pool_step w (w\<lparr>pw_pool := p, pw_held := sess # pw_held w\<rparr>)"
| create_fails: "CreateStream_session dial_err (pw_pool w) = (Inl e, p) \<Longrightarrow> pool_step w (w\<lparr>pw_pool := p\<rparr>)"
| open_fails: "sess \<in> set (pw_held w) \<Longrightarrow>
     pool_step w (w\<lparr>pw_pool := mark_dead sess (pw_pool w), pw_held := remove1 sess (pw_held w), pw_dying := sess # pw_dying w\<rparr>)"
| close_forget: "sess \<in> set (pw_held w) \<Longrightarrow> CloseFunc sess (pw_pool w) = Forget \<Longrightarrow>
     pool_step w (w\<lparr>pw_held := remove1 sess (pw_held w)\<rparr>)"
| close_session: "sess \<in> set (pw_held w) \<Longrightarrow> CloseFunc sess (pw_pool w) = CloseSession \<Longrightarrow>
     pool_step w (w\<lparr>pw_pool := mark_dead sess (pw_pool w), pw_held := remove1 sess (pw_held w), pw_dying := sess # pw_dying w\<rparr>)"
| close_return: "sess \<in> set (pw_held w) \<Longrightarrow> CloseFunc sess (pw_pool w) = ReturnSession \<Longrightarrow>
     pool_step w (w\<lparr>pw_held := remove1 sess (pw_held w), pw_leaving := sess # pw_leaving w\<rparr>)"
| cas_won: "sess \<in> set (pw_leaving w) \<Longrightarrow> returnToIdle_cas sess (pw_pool w) = (True, p) \<Longrightarrow>
     pool_step w (w\<lparr>pw_pool := p, pw_leaving := remove1 sess (pw_leaving w), pw_entering := sess # pw_entering w\<rparr>)"
| cas_lost: "sess \<in> set (pw_leaving w) \<Longrightarrow> returnToIdle_cas sess (pw_pool w) = (False, p) \<Longrightarrow>
     pool_step w (w\<lparr>pw_pool := p, pw_leaving := remove1 sess (pw_leaving w)\<rparr>)"
| append: "sess \<in> set (pw_entering w) \<Longrightarrow>
     pool_step w (w\<lparr>pw_pool := returnToIdle_append now sess (pw_pool w), pw_entering := remove1 sess (pw_entering w)\<rparr>)"
| session_dies: "sess \<le> pl_counter (pw_pool w) \<Longrightarrow> \<not> pl_dead (pw_pool w) sess \<Longrightarrow>
     pool_step w (w\<lparr>pw_pool := mark_dead sess (pw_pool w), pw_dying := sess # pw_dying w\<rparr>)"
| hook_idle: "sess \<in> set (pw_dying w) \<Longrightarrow> pool_step w (w\<lparr>pw_pool := DieHook_idle sess (pw_pool w)\<rparr>)"
| hook_sessions: "sess \<in> set (pw_dying w) \<Longrightarrow>
     pool_step w (w\<lparr>pw_pool := DieHook_sessions sess (pw_pool w), pw_dying := remove1 sess (pw_dying w)\<rparr>)"
| cleanup: "idleCleanup now (pw_pool w) = (c, p) \<Longrightarrow>
     pool_step w (w\<lparr>pw_pool := foldr mark_dead c p, pw_dying := c @ pw_dying w\<rparr>)"
| client_close: "at_Client_Close (pw_pool w) = (c, p) \<Longrightarrow>
     pool_step w (w\<lparr>pw_pool := foldr mark_dead c p, pw_dying := c @ pw_dying w\<rparr>)"

definition pool_start :: "pool_world \<Rightarrow> bool" where
  "pool_start w \<longleftrightarrow>
     (\<exists>t. w = \<lparr>pw_pool = at_NewClient t, pw_held = [], pw_leaving = [], pw_entering = [], pw_dying = []\<rparr>)"

text \<open>A session is in at most one place, and it has been created.\<close>

definition places :: "pool_world \<Rightarrow> nat list" where
  "places w = pl_idle (pw_pool w) @ pw_held w @ pw_leaving w @ pw_entering w"

definition pool_inv :: "pool_world \<Rightarrow> bool" where
  "pool_inv w \<longleftrightarrow> distinct (places w) \<and> (\<forall>sess \<in> set (places w). sess \<le> pl_counter (pw_pool w))"

lemma getIdleSession_spec:
  "getIdleSession p = (r, p') \<Longrightarrow> pl_counter p' = pl_counter p \<and> pl_dead p' = pl_dead p \<and> pl_cancelled p' = pl_cancelled p \<and>
     (case r of
        None \<Rightarrow> pl_idle p' = [] \<and> (\<forall>s \<in> set (pl_idle p). pl_dead p s)
      | Some sess \<Rightarrow> \<exists>ys. pl_idle p = pl_idle p' @ sess # ys \<and> \<not> pl_dead p sess \<and> (\<forall>s \<in> set ys. pl_dead p s))"
proof (induction p rule: getIdleSession.induct)
  case (1 p)
  show ?case
  proof (cases "pl_idle p = []")
    case True
    then show ?thesis using 1(2) by (auto simp: getIdleSession.simps)
  next
    case False
    let ?s = "last (pl_idle p)"
    let ?p = "p\<lparr>pl_idle := butlast (pl_idle p), pl_inIdle := (pl_inIdle p)(?s := False)\<rparr>"
    have i: "pl_idle p = butlast (pl_idle p) @ [?s]" using False by simp
    show ?thesis
    proof (cases "pl_dead p ?s")
      case True
      have g: "getIdleSession ?p = (r, p')" using 1(2) False True by (simp add: getIdleSession.simps [of p] Let_def)
      note ih = 1(1) [OF False refl refl True g]
      show ?thesis
      proof (cases r)
        case None
        then have "\<forall>s \<in> set (butlast (pl_idle p)). pl_dead p s" using ih by simp
        then have "\<forall>s \<in> set (butlast (pl_idle p) @ [?s]). pl_dead p s" using True by auto
        then show ?thesis using None ih unfolding i [symmetric] by simp
      next
        case (Some sess)
        then obtain ys where ys: "butlast (pl_idle p) = pl_idle p' @ sess # ys" "\<not> pl_dead p sess" "\<forall>s \<in> set ys. pl_dead p s"
          using ih by auto
        have "pl_idle p = pl_idle p' @ sess # (ys @ [?s])" by (subst i) (simp add: ys(1))
        then show ?thesis using Some ih ys(2,3) True by (auto intro!: exI [of _ "ys @ [?s]"])
      qed
    next
      case alive: False
      have "r = Some ?s" "p' = ?p" using 1(2) False alive by (auto simp: getIdleSession.simps [of p] Let_def)
      then show ?thesis using i alive by (auto intro!: exI [of _ "[]"])
    qed
  qed
qed

lemma cleanup_loop_spec:
  "cleanup_loop expTime xs p = (c, r, p') \<Longrightarrow> pl_counter p' = pl_counter p \<and> pl_dead p' = pl_dead p \<and> pl_idleSince p' = pl_idleSince p \<and>
     c = filter (\<lambda>s. \<not> pl_dead p s \<and> pl_idleSince p s < expTime) xs \<and> r = filter (\<lambda>s. \<not> pl_dead p s \<and> \<not> pl_idleSince p s < expTime) xs"
proof (induction xs arbitrary: p c r p')
  case (Cons x xs)
  let ?p = "p\<lparr>pl_inIdle := (pl_inIdle p)(x := False)\<rparr>"
  obtain c1 r1 p1 where l1: "cleanup_loop expTime xs ?p = (c1, r1, p1)" by (metis prod_cases3)
  obtain c2 r2 p2 where l2: "cleanup_loop expTime xs p = (c2, r2, p2)" by (metis prod_cases3)
  from Cons.IH [OF l1] Cons.IH [OF l2] Cons.prems show ?case by (auto simp: l1 l2 split: if_splits)
qed simp

lemma idleCleanup_spec:
  assumes "idleCleanup now p = (c, p')"
  shows "pl_counter p' = pl_counter p" and "pl_dead p' = pl_dead p"
    and "c = filter (\<lambda>s. \<not> pl_dead p s \<and> pl_idleSince p s < now - pl_idleTimeout p) (pl_idle p)"
    and "pl_idle p' = filter (\<lambda>s. \<not> pl_dead p s \<and> \<not> pl_idleSince p s < now - pl_idleTimeout p) (pl_idle p)"
proof -
  obtain c1 r1 p1 where l: "cleanup_loop (now - pl_idleTimeout p) (pl_idle p) p = (c1, r1, p1)" by (metis prod_cases3)
  from cleanup_loop_spec [OF l] assms show "pl_counter p' = pl_counter p" "pl_dead p' = pl_dead p"
    "c = filter (\<lambda>s. \<not> pl_dead p s \<and> pl_idleSince p s < now - pl_idleTimeout p) (pl_idle p)"
    "pl_idle p' = filter (\<lambda>s. \<not> pl_dead p s \<and> \<not> pl_idleSince p s < now - pl_idleTimeout p) (pl_idle p)"
    by (auto simp: idleCleanup_def l)
qed

lemma mark_dead_fields [simp]:
  "pl_idle (mark_dead s p) = pl_idle p" "pl_counter (mark_dead s p) = pl_counter p"
  "pl_idle (foldr mark_dead c p) = pl_idle p" "pl_counter (foldr mark_dead c p) = pl_counter p"
  by (simp_all add: mark_dead_def) (induction c; simp add: mark_dead_def)+

text \<open>Moving a session between places, or dropping it, keeps the invariant.\<close>

lemma pool_inv_subseq:
  assumes "pool_inv w" and "mset (places w') \<subseteq># mset (places w)" and "pl_counter (pw_pool w') = pl_counter (pw_pool w)"
  shows "pool_inv w'"
proof -
  have "distinct (places w')" using assms(1,2) by (metis distinct_append mset_append mset_eq_imp_distinct_iff pool_inv_def ex_mset mset_subset_eq_exists_conv)
  moreover have "set (places w') \<subseteq> set (places w)" using assms(2) by (metis set_mset_mono set_mset_mset)
  ultimately show ?thesis using assms(1,3) by (auto simp: pool_inv_def)
qed

lemma mset_filter_subset: "mset (filter P xs) \<subseteq># mset xs"
  by (simp add: mset_filter)

lemma remove1_subset: "mset (remove1 x xs) \<subseteq># mset xs"
  by simp

lemma remove1_add: "x \<in> set xs \<Longrightarrow> add_mset x (mset (remove1 x xs)) = mset xs"
  by simp

lemma pool_inv_create:
  assumes inv: "pool_inv w" and c: "CreateStream_session dial_err (pw_pool w) = (Inr sess, p)"
  shows "pool_inv (w\<lparr>pw_pool := p, pw_held := sess # pw_held w\<rparr>)"
proof -
  obtain r p1 where g: "getIdleSession (pw_pool w) = (r, p1)" by fastforce
  note k = getIdleSession_spec [OF g]
  show ?thesis
  proof (cases r)
    case None
    have e: "sess = pl_counter (pw_pool w) + 1" "pl_idle p = []" "pl_counter p = pl_counter (pw_pool w) + 1"
      using c g None k by (auto simp: CreateStream_session_def createSession_def Let_def split: if_splits option.splits)
    have "\<forall>k \<in> set (pw_held w @ pw_leaving w @ pw_entering w). k \<le> pl_counter (pw_pool w)" using inv by (simp add: pool_inv_def places_def)
    then have "sess \<notin> set (pw_held w @ pw_leaving w @ pw_entering w)" and "\<forall>k \<in> set (pw_held w @ pw_leaving w @ pw_entering w). k \<le> pl_counter p"
      unfolding e by fastforce+
    then show ?thesis using inv by (auto simp: pool_inv_def places_def e)
  next
    case (Some s)
    have e: "sess = s" "p = p1" using c g Some by (auto simp: CreateStream_session_def split: if_splits)
    obtain ys where ys: "pl_idle (pw_pool w) = pl_idle p @ sess # ys" using k Some e by auto
    show ?thesis by (rule pool_inv_subseq [OF inv]) (use k ys e in \<open>simp_all add: places_def\<close>)
  qed
qed

lemma CreateStream_fails:
  assumes "CreateStream_session dial_err p = (Inl e, p')"
  shows "pl_counter p' = pl_counter p" and "mset (pl_idle p') \<subseteq># mset (pl_idle p)"
proof -
  obtain r p1 where g: "getIdleSession p = (r, p1)" by fastforce
  note k = getIdleSession_spec [OF g]
  show "pl_counter p' = pl_counter p" "mset (pl_idle p') \<subseteq># mset (pl_idle p)"
    using assms g k by (auto simp: CreateStream_session_def createSession_def Let_def split: if_splits option.splits)
qed

lemma pool_inv_step:
  assumes inv: "pool_inv w" and step: "pool_step w w'"
  shows "pool_inv w'"
  using step
proof cases
  case (create_stream dial_err sess p)
  then show ?thesis using pool_inv_create [OF inv] by simp
next
  case (create_fails dial_err e p)
  show ?thesis by (rule pool_inv_subseq [OF inv]) (use CreateStream_fails [OF create_fails(2)] create_fails(1) in \<open>simp_all add: places_def\<close>)
next
  case (cas_won sess p)
  show ?thesis
    by (rule pool_inv_subseq [OF inv]) (use cas_won in \<open>auto simp: places_def returnToIdle_cas_def split: if_splits\<close>)
next
  case (cas_lost sess p)
  show ?thesis
    by (rule pool_inv_subseq [OF inv]) (use cas_lost in \<open>auto simp: places_def returnToIdle_cas_def split: if_splits\<close>)
next
  case (cleanup now c p)
  show ?thesis
    by (rule pool_inv_subseq [OF inv]) (use idleCleanup_spec [OF cleanup(2)] cleanup(1) in \<open>simp_all add: places_def mset_filter_subset\<close>)
next
  case (client_close c p)
  show ?thesis
    by (rule pool_inv_subseq [OF inv]) (use client_close in \<open>auto simp: places_def at_Client_Close_def\<close>)
qed (rule pool_inv_subseq [OF inv]; simp add: places_def returnToIdle_append_def DieHook_idle_def DieHook_sessions_def)+

interpretation pools: inductive_invariant pool_start pool_step pool_inv
proof
  show "pool_inv w" if "pool_start w" for w
    using that by (auto simp: pool_start_def pool_inv_def places_def at_NewClient_def)
qed (rule pool_inv_step)

text \<open>
  C21. A session carries one stream at a time. However streams, returns, deaths, cleanups and the closing of the client
  interleave, the session \<open>CreateStream\<close> gets is used by no other stream and is in no other goroutine's
  hands; a session from the pool is alive, and a new one is made only if no idle session is.
\<close>

theorem pool_exclusive:
  assumes "reach pool_start pool_step w" and c: "CreateStream_session dial_err (pw_pool w) = (Inr sess, p)"
  shows "sess \<notin> set (pw_held w) \<and> sess \<notin> set (pw_leaving w) \<and> sess \<notin> set (pw_entering w) \<and> sess \<notin> set (pl_idle p) \<and>
    (if sess \<le> pl_counter (pw_pool w) then \<not> pl_dead (pw_pool w) sess else \<forall>s \<in> set (pl_idle (pw_pool w)). pl_dead (pw_pool w) s)"
proof -
  have inv: "pool_inv w" by (rule pools.reach_inv [OF assms(1)])
  from pool_inv_create [OF inv c] have d: "sess \<notin> set (pw_held w) \<and> sess \<notin> set (pw_leaving w) \<and> sess \<notin> set (pw_entering w) \<and> sess \<notin> set (pl_idle p)"
    by (auto simp: pool_inv_def places_def)
  obtain r p1 where g: "getIdleSession (pw_pool w) = (r, p1)" by fastforce
  note k = getIdleSession_spec [OF g]
  have "if sess \<le> pl_counter (pw_pool w) then \<not> pl_dead (pw_pool w) sess else \<forall>s \<in> set (pl_idle (pw_pool w)). pl_dead (pw_pool w) s"
  proof (cases r)
    case None
    then have "sess = pl_counter (pw_pool w) + 1"
      using c g k by (auto simp: CreateStream_session_def createSession_def Let_def split: if_splits option.splits)
    then show ?thesis using None k by simp
  next
    case (Some s)
    then have e: "sess = s" using c g by (auto simp: CreateStream_session_def split: if_splits)
    then have "\<not> pl_dead (pw_pool w) sess" "sess \<in> set (pl_idle (pw_pool w))" using Some k by auto
    moreover have "sess \<le> pl_counter (pw_pool w)" using calculation(2) inv by (auto simp: pool_inv_def places_def)
    ultimately show ?thesis by simp
  qed
  with d show ?thesis by blast
qed

definition new_pool :: pool_world where
  "new_pool = \<lparr>pw_pool = at_NewClient 0, pw_held = [], pw_leaving = [], pw_entering = [], pw_dying = []\<rparr>"

definition one_held :: pool_world where
  "one_held = new_pool\<lparr>pw_pool := snd (createSession None (at_NewClient 0)), pw_held := [1]\<rparr>"

theorem pool_exclusive_witness:
  "\<exists>p. CreateStream_session None (pw_pool one_held) = (Inr 2, p) \<and> 2 \<notin> set (pw_held one_held)"
proof -
  have "pool_step new_pool one_held"
    using create_stream [of None new_pool 1 "snd (createSession None (at_NewClient 0))"]
    by (simp add: new_pool_def one_held_def CreateStream_session_def getIdleSession.simps at_NewClient_def createSession_def)
  moreover have "reach pool_start pool_step new_pool" by (rule reach_start) (auto simp: pool_start_def new_pool_def)
  ultimately have r: "reach pool_start pool_step one_held" by (rule reach_step [rotated])
  obtain p where c: "CreateStream_session None (pw_pool one_held) = (Inr 2, p)"
    by (simp add: one_held_def new_pool_def CreateStream_session_def getIdleSession.simps at_NewClient_def createSession_def)
  from pool_exclusive [OF r c] c show ?thesis by blast
qed

section \<open>The first connection\<close>

text \<open>What the server finds on a new connection after the authentication.\<close>

definition settings_frame :: at_frame where
  "settings_frame = (at_newFrame atSettings 0)\<lparr>af_data := map char_byte at_settings\<rparr>"

lemma Run_new: "Run fail NewClientSession = Ok (NewClientSession\<lparr>at_buffer := at_encode settings_frame\<rparr>)"
  by (simp add: Run_def NewClientSession_def at_writeControlFrame_def writeConn_def settings_frame_def)

lemma open_new:
  "OpenStream_send fail (NewClientSession\<lparr>at_buffer := b\<rparr>) =
     Ok (Some 0, NewClientSession\<lparr>at_streamID := 1, at_store := [at_newStream 1], at_buffering := False,
           at_buffer := b @ at_encode (at_newFrame atSYN 1)\<rparr>)"
  by (simp add: OpenStream_send_def NewClientSession_def at_writeControlFrame_def writeConn_def flushBuffering_def)

text \<open>
  C22. The first connection through a new session. For a target given by name and port, starting the session, opening its
  first stream and dialing the target puts on the connection, in one piece, three frames that the server reads back
  as the settings, the opening of stream 1, and the target as its first data.
\<close>

theorem anytls_first_dial:
  assumes "plain_host h" and "p < 65536"
    and "Run False NewClientSession = Ok s1" and "OpenStream_send False s1 = Ok (Some r, s2)"
    and "OpenStream_register r s2 = Ok (Some r, s3)" and "AnyTLS_Dial False (JoinHostPort h (dec p)) r s3 = (Inr r, s4)"
  shows "at_wire s3 = [] \<and> (\<exists>target. Addr_String target = Some (JoinHostPort h (dec p)) \<and>
    decode_all at_next 3 (at_wire s4) = Some [settings_frame, at_newFrame atSYN 1, (at_newFrame atPSH 1)\<lparr>af_data := target\<rparr>])"
proof -
  obtain target where t: "Socks_ParseAddr (JoinHostPort h (dec p)) = Some target" "Addr_String target = Some (JoinHostPort h (dec p))"
    using Socks_ParseAddr_string [OF assms(1,2)] by blast
  have l: "length target < 65536" using wf_addr_length [OF Socks_ParseAddr_wf [OF t(1)]] by simp
  let ?fs = "[settings_frame, at_newFrame atSYN 1, (at_newFrame atPSH 1)\<lparr>af_data := target\<rparr>]"
  have s1: "s1 = NewClientSession\<lparr>at_buffer := at_encode settings_frame\<rparr>" using assms(3) by (simp add: Run_new)
  have s2: "r = 0" "s2 = NewClientSession\<lparr>at_streamID := 1, at_store := [at_newStream 1], at_buffering := False,
      at_buffer := at_encode settings_frame @ at_encode (at_newFrame atSYN 1)\<rparr>"
    using assms(4) by (simp_all add: s1 open_new)
  have s3: "s3 = s2\<lparr>at_streams := (at_streams s2)(1 \<mapsto> 0)\<rparr>"
    using assms(5) by (simp add: s2 OpenStream_register_def NewClientSession_def at_newStream_def)
  have w: "at_wire s3 = []" by (simp add: s3 s2 NewClientSession_def)
  have "at_wire s4 = concat (map at_encode ?fs)"
    using assms(6) t(1) unfolding s3 s2
    by (auto simp: AnyTLS_Dial_def at_Write_def writeConn_def NewClientSession_def at_newStream_def Let_def)
  moreover have "decode_all at_next 3 (concat (map at_encode ?fs)) = Some ?fs"
    by (rule anytls.decode_all_enc)
      (use l in \<open>auto simp: at_ok_def settings_frame_def at_newFrame_def reads_body_def at_defs at_settings_def\<close>)
  ultimately show ?thesis using w t(2) by metis
qed

theorem anytls_first_dial_witness:
  "\<exists>(s :: at_session) target. Addr_String target = Some ''a.com:53'' \<and>
     decode_all at_next 3 (at_wire s) = Some [settings_frame, at_newFrame atSYN 1, (at_newFrame atPSH 1)\<lparr>af_data := target\<rparr>]"
proof -
  have j: "JoinHostPort ''a.com'' (dec 53) = ''a.com:53''" by (simp add: JoinHostPort_def dec.simps char_of_def bit_iff_odd)
  let ?s1 = "NewClientSession\<lparr>at_buffer := at_encode settings_frame\<rparr>"
  let ?s2 = "NewClientSession\<lparr>at_streamID := 1, at_store := [at_newStream 1], at_buffering := False,
      at_buffer := at_encode settings_frame @ at_encode (at_newFrame atSYN 1)\<rparr>"
  let ?s3 = "?s2\<lparr>at_streams := (at_streams ?s2)(1 \<mapsto> 0)\<rparr>"
  have o: "OpenStream_send False ?s1 = Ok (Some 0, ?s2)" by (simp add: open_new)
  have g: "OpenStream_register 0 ?s2 = Ok (Some 0, ?s3)" by (simp add: OpenStream_register_def NewClientSession_def at_newStream_def)
  obtain a where a: "Socks_ParseAddr (JoinHostPort ''a.com'' (dec 53)) = Some a" using Socks_ParseAddr_string [OF sample_plain, of 53] by auto
  obtain s4 where d: "AnyTLS_Dial False (JoinHostPort ''a.com'' (dec 53)) 0 ?s3 = (Inr 0, s4)"
    by (simp add: AnyTLS_Dial_def a at_Write_def writeConn_def NewClientSession_def at_newStream_def)
  from anytls_first_dial [OF sample_plain _ Run_new o g d] show ?thesis unfolding j by auto
qed

end
