(* ===== verification/BufPool.thy ===== *)
theory BufPool
  imports Prelude
begin

text \<open>
  The buffer pool (\<open>src/pkg/pool/buffer.go\<close>). Seventeen pools hold bare pointers to memory of
  1 to 65536 bytes; \<open>GetBuffer\<close> makes a slice of a pointer with \<open>unsafe.Slice\<close>, trusting that the
  memory behind it has the size of the pool, and \<open>PutBuffer\<close> trusts the capacity of the slice it is given. The memory is a
  set of numbered arrays; a pointer is an array and an offset. What \<open>sync.Pool\<close> hands out is decided by the
  environment: one of the pointers it holds, or a new array.

  \<open>buffers_disjoint\<close> shows that the trust is justified: whatever the order of the calls, and also when a user gives back only a
  part of its buffer, buffers stay inside their arrays and no two of them overlap.
\<close>

section \<open>Slices and pools\<close>

record slice =
  sl_array :: nat
  sl_off :: nat
  sl_len :: nat
  sl_cap :: nat

record buf_pool =
  bp_pools :: "nat \<Rightarrow> (nat \<times> nat) list"
  bp_arrays :: "nat list"

definition num :: nat where "num = 17"
definition maxsize :: nat where "maxsize = 2 ^ (num - 1)"

definition pool_init :: buf_pool where
  "pool_init = \<lparr>bp_pools = \<lambda>_. [], bp_arrays = []\<rparr>"

text \<open>\<open>bits.Len32\<close>: the number of bits of a number.\<close>

fun Len32 :: "nat \<Rightarrow> nat" where
  "Len32 n = (if n = 0 then 0 else Suc (Len32 (n div 2)))"

declare Len32.simps [simp del]

definition make_slice :: "nat \<Rightarrow> nat \<Rightarrow> buf_pool \<Rightarrow> slice \<times> buf_pool" where
  "make_slice cap sz p =
     (\<lparr>sl_array = length (bp_arrays p), sl_off = 0, sl_len = sz, sl_cap = cap\<rparr>, p\<lparr>bp_arrays := bp_arrays p @ [cap]\<rparr>)"

definition GetBuffer :: "nat option \<Rightarrow> nat \<Rightarrow> buf_pool \<Rightarrow> slice \<times> buf_pool" where
  "GetBuffer pick sz p =
     (if 1 \<le> sz \<and> sz \<le> maxsize then
        let i = Len32 (sz - 1); ps = bp_pools p i
        in case pick of
             Some j \<Rightarrow>
               if j < length ps then
                 (\<lparr>sl_array = fst (ps ! j), sl_off = snd (ps ! j), sl_len = sz, sl_cap = 2 ^ i\<rparr>,
                  p\<lparr>bp_pools := (bp_pools p)(i := take j ps @ drop (Suc j) ps)\<rparr>)
               else make_slice (2 ^ i) sz p
           | None \<Rightarrow> make_slice (2 ^ i) sz p
      else make_slice sz sz p)"

definition PutBuffer :: "slice \<Rightarrow> buf_pool \<Rightarrow> buf_pool" where
  "PutBuffer buf p =
     (let sz = sl_cap buf; i = Len32 (sz - 1)
      in if 1 \<le> sz \<and> sz \<le> maxsize \<and> 2 ^ i = sz
         then p\<lparr>bp_pools := (bp_pools p)(i := (sl_array buf, sl_off buf) # bp_pools p i)\<rparr> else p)"

section \<open>Sizes\<close>

lemma Len32_bounds: "n < 2 ^ Len32 n \<and> (0 < n \<longrightarrow> 2 ^ (Len32 n - 1) \<le> n)"
proof (induction n rule: Len32.induct)
  case (1 n)
  show ?case
  proof (cases "n = 0")
    case True
    then show ?thesis by (simp add: Len32.simps)
  next
    case False
    with 1 have IH: "n div 2 < 2 ^ Len32 (n div 2)" "0 < n div 2 \<longrightarrow> 2 ^ (Len32 (n div 2) - 1) \<le> n div 2" by auto
    have l: "Len32 n = Suc (Len32 (n div 2))" using False by (simp add: Len32.simps [of n])
    have "n < 2 * 2 ^ Len32 (n div 2)" using IH(1) by linarith
    moreover have "2 ^ Len32 (n div 2) \<le> n"
    proof (cases "n div 2 = 0")
      case True
      with False show ?thesis by (simp add: Len32.simps [of 0])
    next
      case nz: False
      then obtain m where m: "Len32 (n div 2) = Suc m" by (simp add: Len32.simps [of "n div 2"])
      with nz IH(2) have "2 ^ m \<le> n div 2" by simp
      with m show ?thesis by simp
    qed
    ultimately show ?thesis using l by simp
  qed
qed

lemma Len32_unique: "2 ^ k \<le> n \<Longrightarrow> n < 2 ^ Suc k \<Longrightarrow> Len32 n = Suc k"
proof -
  assume n: "2 ^ k \<le> n" "n < (2::nat) ^ Suc k"
  then have "0 < n" by (metis gr0I not_less one_le_power zero_less_one one_le_numeral le_zero_eq zero_neq_one)
  with Len32_bounds [of n] have b: "n < 2 ^ Len32 n" "2 ^ (Len32 n - 1) \<le> n" by auto
  from n(1) b(1) have "(2::nat) ^ k < 2 ^ Len32 n" by (rule le_less_trans)
  then have "k < Len32 n" by (rule power_less_imp_less_exp [rotated]) simp
  from b(2) n(2) have "(2::nat) ^ (Len32 n - 1) < 2 ^ Suc k" by (rule le_less_trans)
  then have "Len32 n - 1 < Suc k" by (rule power_less_imp_less_exp [rotated]) simp
  with \<open>k < Len32 n\<close> show ?thesis by linarith
qed

text \<open>The class of a size: the next power of two.\<close>

lemma Len32_class:
  assumes "1 \<le> sz"
  shows "sz \<le> 2 ^ Len32 (sz - 1)" and "2 ^ Len32 (sz - 1) < 2 * sz"
proof -
  show "sz \<le> 2 ^ Len32 (sz - 1)" using Len32_bounds [of "sz - 1"] assms by linarith
  show "2 ^ Len32 (sz - 1) < 2 * sz"
  proof (cases "Len32 (sz - 1)")
    case 0
    with assms show ?thesis by simp
  next
    case (Suc m)
    then have "0 < sz - 1" by (metis Len32.simps gr0I nat.simps(3))
    with Len32_bounds [of "sz - 1"] Suc have "2 ^ m \<le> sz - 1" by auto
    with Suc assms show ?thesis by simp
  qed
qed

lemma Len32_num: "1 \<le> sz \<Longrightarrow> sz \<le> maxsize \<Longrightarrow> Len32 (sz - 1) < num"
proof -
  assume s: "1 \<le> sz" "sz \<le> maxsize"
  then have "(2::nat) ^ Len32 (sz - 1) < 2 * 2 ^ (num - 1)" using Len32_class(2) [of sz] by (simp add: maxsize_def)
  then have "(2::nat) ^ Len32 (sz - 1) < 2 ^ num" by (simp add: num_def)
  then show ?thesis by (rule power_less_imp_less_exp [rotated]) simp
qed

definition pool_cap :: "nat \<Rightarrow> nat" where
  "pool_cap sz = (if 1 \<le> sz \<and> sz \<le> maxsize then 2 ^ Len32 (sz - 1) else sz)"

lemma GetBuffer_slice:
  "sl_len (fst (GetBuffer pick sz p)) = sz" "sl_cap (fst (GetBuffer pick sz p)) = pool_cap sz"
  by (simp_all add: GetBuffer_def make_slice_def pool_cap_def Let_def split: option.splits)

section \<open>Users of the pool\<close>

text \<open>The buffers in use beside the pool. A user may give back any part of a buffer it holds, and then holds it no more.\<close>

record users =
  us_pool :: buf_pool
  us_held :: "slice list"

definition part_of :: "slice \<Rightarrow> slice \<Rightarrow> bool" where
  "part_of b a \<longleftrightarrow> sl_array b = sl_array a \<and> sl_off a \<le> sl_off b \<and> sl_off b + sl_cap b \<le> sl_off a + sl_cap a"

inductive users_step :: "users \<Rightarrow> users \<Rightarrow> bool" where
  get: "GetBuffer pick sz (us_pool u) = (b, p) \<Longrightarrow> users_step u (u\<lparr>us_pool := p, us_held := b # us_held u\<rparr>)"
| put: "us_held u = xs @ a # ys \<Longrightarrow> part_of b a \<Longrightarrow>
    users_step u (u\<lparr>us_pool := PutBuffer b (us_pool u), us_held := xs @ ys\<rparr>)"

inductive_cases users_stepE: "users_step u v"

definition users_start :: "users \<Rightarrow> bool" where
  "users_start u \<longleftrightarrow> u = \<lparr>us_pool = pool_init, us_held = []\<rparr>"

text \<open>How many buffers cover a byte of an array: those in use and those in the pools.\<close>

definition covers :: "nat \<Rightarrow> nat \<Rightarrow> nat \<Rightarrow> nat \<Rightarrow> nat \<Rightarrow> nat" where
  "covers a k a' off cap = (if a = a' \<and> off \<le> k \<and> k < off + cap then 1 else 0)"

definition held_cover :: "nat \<Rightarrow> nat \<Rightarrow> slice list \<Rightarrow> nat" where
  "held_cover a k bs = sum_list (map (\<lambda>b. covers a k (sl_array b) (sl_off b) (sl_cap b)) bs)"

definition class_cover :: "nat \<Rightarrow> nat \<Rightarrow> nat \<Rightarrow> (nat \<times> nat) list \<Rightarrow> nat" where
  "class_cover a k i ps = sum_list (map (\<lambda>(a', off). covers a k a' off (2 ^ i)) ps)"

definition pool_cover :: "nat \<Rightarrow> nat \<Rightarrow> (nat \<Rightarrow> (nat \<times> nat) list) \<Rightarrow> nat" where
  "pool_cover a k pools = (\<Sum>i < num. class_cover a k i (pools i))"

definition in_array :: "nat list \<Rightarrow> nat \<Rightarrow> nat \<Rightarrow> nat \<Rightarrow> bool" where
  "in_array arrays a off cap \<longleftrightarrow> a < length arrays \<and> off + cap \<le> arrays ! a"

definition users_inv :: "users \<Rightarrow> bool" where
  "users_inv u \<longleftrightarrow>
     (\<forall>a k. held_cover a k (us_held u) + pool_cover a k (bp_pools (us_pool u)) \<le> 1) \<and>
     (\<forall>b \<in> set (us_held u). sl_len b \<le> sl_cap b \<and> in_array (bp_arrays (us_pool u)) (sl_array b) (sl_off b) (sl_cap b)) \<and>
     (\<forall>i < num. \<forall>(a, off) \<in> set (bp_pools (us_pool u) i). in_array (bp_arrays (us_pool u)) a off (2 ^ i))"

lemma pool_cover_upd:
  assumes "i < num"
  shows "pool_cover a k (ps(i := qs)) + class_cover a k i (ps i) = pool_cover a k ps + class_cover a k i qs"
proof -
  have "(\<Sum>j \<in> {..<num} - {i}. class_cover a k j ((ps(i := qs)) j)) = (\<Sum>j \<in> {..<num} - {i}. class_cover a k j (ps j))"
    by (rule sum.cong) auto
  with assms show ?thesis
    by (simp add: pool_cover_def sum.remove [of "{..<num}" i])
qed

lemma no_cover_held: "(\<forall>b \<in> set bs. a \<noteq> sl_array b) \<Longrightarrow> held_cover a k bs = 0"
  by (induction bs) (auto simp: held_cover_def covers_def)

lemma no_cover_class: "(\<forall>(a', off) \<in> set ps. a \<noteq> a') \<Longrightarrow> class_cover a k i ps = 0"
  by (induction ps) (auto simp: class_cover_def covers_def)

lemma held_cover_mid:
  "held_cover a k (xs @ b # ys) = held_cover a k (xs @ ys) + covers a k (sl_array b) (sl_off b) (sl_cap b)"
  by (simp add: held_cover_def)

lemma held_cover_Cons [simp]:
  "held_cover a k (b # bs) = covers a k (sl_array b) (sl_off b) (sl_cap b) + held_cover a k bs"
  by (simp add: held_cover_def)

lemma class_cover_take:
  "j < length ps \<Longrightarrow> class_cover a k i ps =
     class_cover a k i (take j ps @ drop (Suc j) ps) + covers a k (fst (ps ! j)) (snd (ps ! j)) (2 ^ i)"
  by (subst id_take_nth_drop [of j ps]) (simp_all add: class_cover_def case_prod_beta)

lemma covers_part: "part_of b a' \<Longrightarrow> covers a k (sl_array b) (sl_off b) (sl_cap b) \<le> covers a k (sl_array a') (sl_off a') (sl_cap a')"
  by (auto simp: covers_def part_of_def)

text \<open>A new array is covered by its own buffer only.\<close>

lemma make_inv:
  assumes "users_inv u" and "make_slice cap sz (us_pool u) = (b, p)" and "sz \<le> cap"
  shows "users_inv (u\<lparr>us_pool := p, us_held := b # us_held u\<rparr>)"
proof -
  let ?n = "length (bp_arrays (us_pool u))"
  have b: "b = \<lparr>sl_array = ?n, sl_off = 0, sl_len = sz, sl_cap = cap\<rparr>"
    and p: "p = (us_pool u)\<lparr>bp_arrays := bp_arrays (us_pool u) @ [cap]\<rparr>"
    using assms(2) by (auto simp: make_slice_def)
  have held: "held_cover ?n k (us_held u) = 0" for k
    using assms(1) by (intro no_cover_held) (auto simp: users_inv_def in_array_def)
  have pooled: "pool_cover ?n k (bp_pools (us_pool u)) = 0" for k
    unfolding pool_cover_def
    by (intro sum.neutral ballI no_cover_class) (use assms(1) in \<open>auto simp: users_inv_def in_array_def\<close>)
  have "held_cover a k (b # us_held u) + pool_cover a k (bp_pools p) \<le> 1" for a k
  proof (cases "a = ?n")
    case True
    then show ?thesis using held pooled by (simp add: b p covers_def)
  next
    case False
    then show ?thesis using assms(1) by (simp add: b p covers_def users_inv_def)
  qed
  moreover have "in_array (bp_arrays p) a off c" if "in_array (bp_arrays (us_pool u)) a off c" for a off c
    using that by (auto simp: in_array_def p nth_append)
  moreover have "in_array (bp_arrays p) (sl_array b) (sl_off b) (sl_cap b)" by (simp add: in_array_def b p)
  ultimately show ?thesis
    using assms(1,3) by (fastforce simp: users_inv_def b p)
qed

lemma get_inv:
  assumes "users_inv u" and "GetBuffer pick sz (us_pool u) = (b, p)"
  shows "users_inv (u\<lparr>us_pool := p, us_held := b # us_held u\<rparr>)"
proof (cases "1 \<le> sz \<and> sz \<le> maxsize \<and> (\<exists>j. pick = Some j \<and> j < length (bp_pools (us_pool u) (Len32 (sz - 1))))")
  case False
  then have "\<exists>cap \<ge> sz. make_slice cap sz (us_pool u) = (b, p)"
    using assms(2) Len32_class(1) [of sz] by (auto simp: GetBuffer_def Let_def split: if_splits option.splits)
  then show ?thesis using make_inv [OF assms(1)] by blast
next
  case True
  then obtain j where j: "1 \<le> sz" "sz \<le> maxsize" "pick = Some j" "j < length (bp_pools (us_pool u) (Len32 (sz - 1)))" by blast
  let ?i = "Len32 (sz - 1)" and ?ps = "bp_pools (us_pool u) (Len32 (sz - 1))"
  have i: "?i < num" using Len32_num j by blast
  have b: "b = \<lparr>sl_array = fst (?ps ! j), sl_off = snd (?ps ! j), sl_len = sz, sl_cap = 2 ^ ?i\<rparr>"
    and p: "p = (us_pool u)\<lparr>bp_pools := (bp_pools (us_pool u))(?i := take j ?ps @ drop (Suc j) ?ps)\<rparr>"
    using assms(2) j by (auto simp: GetBuffer_def Let_def)
  have c: "held_cover a k (b # us_held u) + pool_cover a k (bp_pools p) \<le> 1" for a k
  proof -
    have "pool_cover a k (bp_pools p) + covers a k (fst (?ps ! j)) (snd (?ps ! j)) (2 ^ ?i) = pool_cover a k (bp_pools (us_pool u))"
      using pool_cover_upd [OF i, of a k "bp_pools (us_pool u)" "take j ?ps @ drop (Suc j) ?ps"] class_cover_take [OF j(4), of a k ?i]
      by (simp add: p)
    moreover have "held_cover a k (us_held u) + pool_cover a k (bp_pools (us_pool u)) \<le> 1"
      using assms(1) by (simp add: users_inv_def)
    ultimately show ?thesis by (simp add: b)
  qed
  have mem: "in_array (bp_arrays (us_pool u)) (fst (?ps ! j)) (snd (?ps ! j)) (2 ^ ?i)"
    using assms(1) i nth_mem [OF j(4)] by (auto simp: users_inv_def case_prod_beta)
  have sub: "set (bp_pools p i) \<subseteq> set (bp_pools (us_pool u) i)" for i
    by (auto simp: p dest: in_set_takeD in_set_dropD)
  then have "\<forall>i < num. \<forall>(a, off) \<in> set (bp_pools p i). in_array (bp_arrays p) a off (2 ^ i)"
    using assms(1) by (fastforce simp: users_inv_def p)
  moreover have "sl_len b \<le> sl_cap b" "in_array (bp_arrays p) (sl_array b) (sl_off b) (sl_cap b)"
    using Len32_class(1) [OF j(1)] mem by (simp_all add: b p)
  moreover have "bp_arrays p = bp_arrays (us_pool u)" by (simp add: p)
  ultimately show ?thesis using assms(1) c by (simp add: users_inv_def)
qed

lemma put_inv:
  assumes "users_inv u" and "us_held u = xs @ a # ys" and "part_of b a"
  shows "users_inv (u\<lparr>us_pool := PutBuffer b (us_pool u), us_held := xs @ ys\<rparr>)"
proof -
  have old: "held_cover a' k (xs @ ys) + covers a' k (sl_array a) (sl_off a) (sl_cap a) + pool_cover a' k (bp_pools (us_pool u)) \<le> 1" for a' k
  proof -
    have "held_cover a' k (xs @ a # ys) + pool_cover a' k (bp_pools (us_pool u)) \<le> 1"
      using assms(1,2) unfolding users_inv_def by metis
    then show ?thesis by (simp only: held_cover_mid)
  qed
  have inb: "in_array (bp_arrays (us_pool u)) (sl_array b) (sl_off b) (sl_cap b)"
    using assms by (auto simp: users_inv_def in_array_def part_of_def)
  have held: "\<forall>c \<in> set (xs @ ys). sl_len c \<le> sl_cap c \<and> in_array (bp_arrays (us_pool u)) (sl_array c) (sl_off c) (sl_cap c)"
    using assms(1,2) by (simp add: users_inv_def)
  have pooled: "\<forall>i < num. \<forall>(a, off) \<in> set (bp_pools (us_pool u) i). in_array (bp_arrays (us_pool u)) a off (2 ^ i)"
    using assms(1) by (simp add: users_inv_def)
  let ?i = "Len32 (sl_cap b - 1)"
  show ?thesis
  proof (cases "1 \<le> sl_cap b \<and> sl_cap b \<le> maxsize \<and> 2 ^ ?i = sl_cap b")
    case False
    then have "PutBuffer b (us_pool u) = us_pool u" by (auto simp: PutBuffer_def Let_def)
    moreover have "held_cover a' k (xs @ ys) + pool_cover a' k (bp_pools (us_pool u)) \<le> 1" for a' k
      using old [of a' k] by linarith
    ultimately show ?thesis using held pooled by (simp add: users_inv_def)
  next
    case True
    have i: "?i < num" using True Len32_num by blast
    let ?ps = "(bp_pools (us_pool u))(?i := (sl_array b, sl_off b) # bp_pools (us_pool u) ?i)"
    have q: "PutBuffer b (us_pool u) = (us_pool u)\<lparr>bp_pools := ?ps\<rparr>" using True by (simp add: PutBuffer_def Let_def)
    have pc: "pool_cover a' k ?ps = pool_cover a' k (bp_pools (us_pool u)) + covers a' k (sl_array b) (sl_off b) (sl_cap b)" for a' k
      using pool_cover_upd [OF i, of a' k "bp_pools (us_pool u)" "(sl_array b, sl_off b) # bp_pools (us_pool u) ?i"] True
      by (simp add: class_cover_def)
    have "held_cover a' k (xs @ ys) + pool_cover a' k ?ps \<le> 1" for a' k
      unfolding pc using old [of a' k] covers_part [OF assms(3), of a' k] by linarith
    moreover have "\<forall>i < num. \<forall>(a, off) \<in> set (?ps i). in_array (bp_arrays (us_pool u)) a off (2 ^ i)"
    proof (intro allI impI)
      fix j assume "j < num"
      with pooled have "\<forall>(a, off) \<in> set (bp_pools (us_pool u) j). in_array (bp_arrays (us_pool u)) a off (2 ^ j)" by blast
      with inb True show "\<forall>(a, off) \<in> set (?ps j). in_array (bp_arrays (us_pool u)) a off (2 ^ j)"
        by (cases "j = ?i") simp_all
    qed
    ultimately show ?thesis using held q by (simp add: users_inv_def)
  qed
qed

interpretation buffers: inductive_invariant users_start users_step users_inv
proof unfold_locales
  show "users_inv u" if "users_start u" for u
    using that by (simp add: users_start_def users_inv_def pool_init_def held_cover_def pool_cover_def class_cover_def)
  show "users_inv v" if "users_inv u" "users_step u v" for u v
    using that(2)
  proof (rule users_stepE)
    fix pick sz b p
    assume "v = u\<lparr>us_pool := p, us_held := b # us_held u\<rparr>" "GetBuffer pick sz (us_pool u) = (b, p)"
    then show ?thesis using get_inv [OF that(1)] by simp
  next
    fix xs a ys b
    assume "v = u\<lparr>us_pool := PutBuffer b (us_pool u), us_held := xs @ ys\<rparr>" "us_held u = xs @ a # ys" "part_of b a"
    then show ?thesis using put_inv [OF that(1)] by simp
  qed
qed

section \<open>Exclusive buffers\<close>

definition overlap :: "slice \<Rightarrow> slice \<Rightarrow> bool" where
  "overlap a b \<longleftrightarrow> sl_array a = sl_array b \<and> (\<exists>k. sl_off a \<le> k \<and> k < sl_off a + sl_cap a \<and> sl_off b \<le> k \<and> k < sl_off b + sl_cap b)"

lemma held_cover_two:
  assumes "i < j" and "j < length bs" and "overlap (bs ! i) (bs ! j)"
  shows "\<exists>a k. 2 \<le> held_cover a k bs"
proof -
  obtain k where k: "covers (sl_array (bs ! i)) k (sl_array (bs ! i)) (sl_off (bs ! i)) (sl_cap (bs ! i)) = 1"
    "covers (sl_array (bs ! i)) k (sl_array (bs ! j)) (sl_off (bs ! j)) (sl_cap (bs ! j)) = 1"
    using assms(3) by (auto simp: overlap_def covers_def)
  have b: "bs = take i bs @ bs ! i # drop (Suc i) bs" using assms(1,2) by (simp add: id_take_nth_drop)
  have "bs ! j \<in> set (drop (Suc i) bs)"
    using assms(1,2) by (auto simp: in_set_conv_nth intro!: exI [of _ "j - Suc i"])
  then obtain ys zs where "drop (Suc i) bs = ys @ bs ! j # zs" by (auto dest: split_list)
  with b have "bs = take i bs @ bs ! i # ys @ bs ! j # zs" by simp
  then have "held_cover (sl_array (bs ! i)) k bs = held_cover (sl_array (bs ! i)) k (take i bs @ bs ! i # ys @ bs ! j # zs)" by simp
  also have "\<dots> \<ge> 2" using k by (simp add: held_cover_def)
  finally show ?thesis by blast
qed

lemma held_disjoint:
  assumes "users_inv u" and "i < j" and "j < length (us_held u)"
  shows "\<not> overlap (us_held u ! i) (us_held u ! j)"
proof
  assume "overlap (us_held u ! i) (us_held u ! j)"
  then obtain a k where "2 \<le> held_cover a k (us_held u)" using held_cover_two assms(2,3) by blast
  moreover have "held_cover a k (us_held u) + pool_cover a k (bp_pools (us_pool u)) \<le> 1"
    using assms(1) by (simp add: users_inv_def)
  ultimately show False by linarith
qed

text \<open>
  C24. Buffers are exclusive. Whatever calls of \<open>GetBuffer\<close> and \<open>PutBuffer\<close> went before, also ones that gave back
  only a part of a buffer, every buffer in use lies inside its array, no two of them share a byte, and the
  next \<open>GetBuffer\<close> returns a buffer of the asked length and of less than twice that capacity that shares no byte with any of them.
\<close>

theorem buffers_disjoint:
  assumes "reach users_start users_step u" and "GetBuffer pick sz (us_pool u) = (b, p)"
  shows "(\<forall>c \<in> set (us_held u). in_array (bp_arrays (us_pool u)) (sl_array c) (sl_off c) (sl_cap c)) \<and>
    (\<forall>i j. i < j \<and> j < length (us_held u) \<longrightarrow> \<not> overlap (us_held u ! i) (us_held u ! j)) \<and>
    sl_len b = sz \<and> sz \<le> sl_cap b \<and> (0 < sz \<longrightarrow> sl_cap b < 2 * sz) \<and> (\<forall>c \<in> set (us_held u). \<not> overlap b c)"
proof -
  have inv: "users_inv u" using buffers.reach_inv [OF assms(1)] .
  let ?v = "u\<lparr>us_pool := p, us_held := b # us_held u\<rparr>"
  have inv': "users_inv ?v" using get_inv [OF inv assms(2)] .
  have "\<not> overlap b (us_held u ! j)" if "j < length (us_held u)" for j
    using held_disjoint [OF inv', of 0 "Suc j"] that by simp
  moreover have "sl_len b = sz" "sl_cap b = pool_cap sz"
    using GetBuffer_slice [of pick sz "us_pool u"] assms(2) by simp_all
  ultimately show ?thesis
    using inv held_disjoint [OF inv] Len32_class [of sz]
    by (auto simp: users_inv_def in_set_conv_nth pool_cap_def)
qed

definition sample_users :: users where
  "sample_users = \<lparr>us_pool = \<lparr>bp_pools = (\<lambda>_. [])(3 := [(0, 8)]), bp_arrays = [16]\<rparr>, us_held = []\<rparr>"

text \<open>Sixteen bytes are taken and their second half is given back: it is good for the pool of eight.\<close>

lemma sample_users_reach: "reach users_start users_step sample_users"
proof -
  let ?u0 = "\<lparr>us_pool = pool_init, us_held = []\<rparr>"
  let ?b = "\<lparr>sl_array = 0, sl_off = 0, sl_len = 9, sl_cap = 16\<rparr>"
  let ?u1 = "?u0\<lparr>us_pool := pool_init\<lparr>bp_arrays := [16]\<rparr>, us_held := [?b]\<rparr>"
  have len: "Len32 8 = 4" "Len32 7 = 3" by (simp_all add: Len32.simps)
  have "GetBuffer None 9 (us_pool ?u0) = (?b, pool_init\<lparr>bp_arrays := [16]\<rparr>)"
    by (simp add: GetBuffer_def make_slice_def pool_init_def maxsize_def num_def len)
  then have s1: "users_step ?u0 ?u1" using users_step.get [of None 9 ?u0] by simp
  have "PutBuffer (?b\<lparr>sl_off := 8, sl_len := 1, sl_cap := 8\<rparr>) (us_pool ?u1) = us_pool sample_users"
    by (simp add: PutBuffer_def pool_init_def sample_users_def maxsize_def num_def len)
  then have s2: "users_step ?u1 sample_users"
    using users_step.put [of ?u1 "[]" ?b "[]" "?b\<lparr>sl_off := 8, sl_len := 1, sl_cap := 8\<rparr>"]
    by (simp add: part_of_def sample_users_def)
  have "reach users_start users_step ?u0" by (rule reach_start) (simp add: users_start_def)
  then show ?thesis using s1 s2 by (blast intro: reach_step)
qed

theorem buffers_disjoint_witness:
  "\<exists>b p. GetBuffer (Some 0) 5 (us_pool sample_users) = (b, p) \<and> sl_array b = 0 \<and> sl_off b = 8 \<and> sl_len b = 5 \<and> sl_cap b < 2 * 5"
proof -
  have "Len32 4 = 3" by (simp add: Len32.simps)
  then have g: "GetBuffer (Some 0) 5 (us_pool sample_users) =
      (\<lparr>sl_array = 0, sl_off = 8, sl_len = 5, sl_cap = 8\<rparr>, (us_pool sample_users)\<lparr>bp_pools := (bp_pools (us_pool sample_users))(3 := [])\<rparr>)"
    by (simp add: GetBuffer_def sample_users_def maxsize_def num_def)
  from buffers_disjoint [OF sample_users_reach g] g show ?thesis by simp
qed

end
