(* ===== verification/ByteStreams.thy ===== *)
theory ByteStreams
  imports Channels
begin

text \<open>
  Connections as the protocol layers see them: a state and a \<open>Read\<close> that is given the length of the caller's
  buffer. \<open>conn_Read\<close> is the socket at the bottom, which delivers the peer's bytes in whatever
  portions the network makes; \<open>ReadFull\<close> is \<open>io.ReadFull\<close> over any \<open>Read\<close>; \<open>run_over\<close> lets a dialogue of \<open>Channels\<close>
  read from any connection.

  The locale \<open>byte_stream\<close> is the contract of a connection that carries data: the state holds the
  bytes to come, a read takes some of them off the front, and after the last one comes the end of the file. A layer is
  correct when it is a \<open>byte_stream\<close> whenever the connection under it is one, so layers stack in any order.
\<close>

section \<open>Reading\<close>

record conn =
  in_bytes :: bytes
  in_segs :: "nat list"

definition conn_Read :: "nat \<Rightarrow> conn \<Rightarrow> bytes res \<times> conn" where
  "conn_Read l c =
     (if l = 0 then (Ok [], c)
      else if in_bytes c = [] then (Err ''EOF'', c)
      else let n = min l (case in_segs c of [] \<Rightarrow> length (in_bytes c) | k # _ \<Rightarrow> Suc k)
           in (Ok (take n (in_bytes c)), c\<lparr>in_bytes := drop n (in_bytes c), in_segs := tl (in_segs c)\<rparr>))"

text \<open>\<open>io.ReadFull\<close>: \<open>got\<close> is what has been read, \<open>n\<close> what is missing. The loop runs as long as the reads return no error.\<close>

fun ReadFull_loop :: "(nat \<Rightarrow> 's \<Rightarrow> bytes res \<times> 's) \<Rightarrow> nat \<Rightarrow> bytes \<Rightarrow> nat \<Rightarrow> 's \<Rightarrow> bytes res \<times> 's" where
  "ReadFull_loop R fuel got 0 s = (Ok got, s)"
| "ReadFull_loop R 0 got (Suc n) s = (Diverge, s)"
| "ReadFull_loop R (Suc fuel) got (Suc n) s =
     (case R (Suc n) s of
        (Ok out, s') \<Rightarrow> ReadFull_loop R fuel (got @ out) (Suc n - length out) s'
      | (Err e, s') \<Rightarrow> (Err (if got \<noteq> [] \<and> e = ''EOF'' then ''unexpected EOF'' else e), s')
      | (Panic, s') \<Rightarrow> (Panic, s')
      | (Diverge, s') \<Rightarrow> (Diverge, s'))"

definition ReadFull :: "(nat \<Rightarrow> 's \<Rightarrow> bytes res \<times> 's) \<Rightarrow> nat \<Rightarrow> nat \<Rightarrow> 's \<Rightarrow> bytes res \<times> 's" where
  "ReadFull R fuel n s = ReadFull_loop R fuel [] n s"

text \<open>Calls one after the other, up to the first that fails.\<close>

fun bind_st :: "'a res \<times> 's \<Rightarrow> ('a \<Rightarrow> 's \<Rightarrow> 'b res \<times> 's) \<Rightarrow> 'b res \<times> 's" where
  "bind_st (Ok x, s) f = f x s"
| "bind_st (Err e, s) f = (Err e, s)"
| "bind_st (Panic, s) f = (Panic, s)"
| "bind_st (Diverge, s) f = (Diverge, s)"

text \<open>What a sequence of reads with the given buffer lengths returns, up to the first error.\<close>

fun run_reads :: "(nat \<Rightarrow> 's \<Rightarrow> bytes res \<times> 's) \<Rightarrow> nat list \<Rightarrow> 's \<Rightarrow> bytes list \<times> string option" where
  "run_reads R [] s = ([], None)"
| "run_reads R (l # ls) s =
     (case R l s of
        (Ok out, s') \<Rightarrow> let (outs, e) = run_reads R ls s' in (out # outs, e)
      | (Err e, s') \<Rightarrow> ([], Some e)
      | (_, s') \<Rightarrow> ([], Some ''panic''))"

primrec run_over :: "(nat \<Rightarrow> 's \<Rightarrow> bytes res \<times> 's) \<Rightarrow> nat \<Rightarrow> 'r proc \<Rightarrow> 's \<Rightarrow> 'r res \<times> 's" where
  "run_over R fuel (Done r) s = (Ok r, s)"
| "run_over R fuel (Recv n k) s =
     (case ReadFull R fuel n s of
        (Ok b, s') \<Rightarrow> run_over R fuel (k (Inr b)) s'
      | (Err e, s') \<Rightarrow> run_over R fuel (k (Inl e)) s'
      | (Panic, s') \<Rightarrow> (Panic, s')
      | (Diverge, s') \<Rightarrow> (Diverge, s'))"
| "run_over R fuel (Send b k) s = run_over R fuel (k None) s"

section \<open>The contract\<close>

locale byte_stream =
  fixes R :: "nat \<Rightarrow> 's \<Rightarrow> bytes res \<times> 's" and holds :: "'s \<Rightarrow> bytes \<Rightarrow> bool"
  assumes read_some: "holds s d \<Longrightarrow> d \<noteq> [] \<Longrightarrow> 0 < l \<Longrightarrow>
      \<exists>out d' s'. R l s = (Ok out, s') \<and> out \<noteq> [] \<and> length out \<le> l \<and> d = out @ d' \<and> holds s' d'"
    and read_end: "holds s [] \<Longrightarrow> 0 < l \<Longrightarrow> \<exists>s'. R l s = (Err ''EOF'', s') \<and> holds s' []"
begin

lemma ReadFull_loop_ok:
  assumes "holds s (b @ r)" and "length b \<le> fuel"
  shows "\<exists>s'. ReadFull_loop R fuel got (length b) s = (Ok (got @ b), s') \<and> holds s' r"
  using assms
proof (induction fuel arbitrary: got b s)
  case 0
  then show ?case by simp
next
  case (Suc fuel)
  show ?case
  proof (cases "b = []")
    case True
    with Suc.prems show ?thesis by simp
  next
    case False
    then obtain m where m: "length b = Suc m" by (cases b) auto
    from False Suc.prems(1) obtain out d' s1 where out: "R (Suc m) s = (Ok out, s1)" "out \<noteq> []" "length out \<le> Suc m"
      "b @ r = out @ d'" "holds s1 d'"
      using read_some [of s "b @ r" "Suc m"] by auto
    then obtain b' where b: "b = out @ b'" "d' = b' @ r"
      using m by (auto simp: append_eq_append_conv2)
    moreover have "length b' \<le> fuel" using Suc.prems(2) b out(2) by (cases out) auto
    ultimately obtain s' where "ReadFull_loop R fuel (got @ out) (length b') s1 = (Ok ((got @ out) @ b'), s')" "holds s' r"
      using Suc.IH out(5) by blast
    moreover have "Suc m - length out = length b'" using m b by simp
    ultimately show ?thesis using m out(1) b by simp
  qed
qed

lemma ReadFull_ok: "holds s (b @ r) \<Longrightarrow> length b \<le> fuel \<Longrightarrow> \<exists>s'. ReadFull R fuel (length b) s = (Ok b, s') \<and> holds s' r"
  using ReadFull_loop_ok [of s b r fuel "[]"] by (simp add: ReadFull_def)

lemma ReadFull_take:
  assumes "holds s d" and "n \<le> length d" and "n \<le> fuel"
  shows "\<exists>s'. ReadFull R fuel n s = (Ok (take n d), s') \<and> holds s' (drop n d)"
  using ReadFull_ok [of s "take n d" "drop n d" fuel] assms by simp

lemma ReadFull_end:
  assumes "holds s []" and "0 < n" and "0 < fuel"
  shows "\<exists>s'. ReadFull R fuel n s = (Err ''EOF'', s') \<and> holds s' []"
proof -
  obtain m f where "n = Suc m" "fuel = Suc f" using assms(2,3) by (metis gr0_conv_Suc)
  with read_end [OF assms(1), of n] show ?thesis by (auto simp: ReadFull_def)
qed

text \<open>Asking for more than there is consumes all of it.\<close>

lemma ReadFull_loop_short:
  assumes "holds s d" and "length d < n" and "length d < fuel"
  shows "\<exists>e s'. ReadFull_loop R fuel got n s = (Err e, s') \<and> holds s' []"
  using assms
proof (induction fuel arbitrary: got d n s)
  case (Suc fuel)
  then obtain m where m: "n = Suc m" by (cases n) auto
  show ?case
  proof (cases "d = []")
    case True
    with read_end [of s n] Suc.prems m show ?thesis by auto
  next
    case False
    then obtain out d' s1 where out: "R n s = (Ok out, s1)" "out \<noteq> []" "d = out @ d'" "holds s1 d'"
      using read_some [of s d n] Suc.prems by auto
    have "length d' < n - length out" "length d' < fuel" using out(2,3) Suc.prems by (cases out; simp)+
    then show ?thesis using Suc.IH [OF out(4), of "n - length out" "got @ out"] out(1) m by simp
  qed
qed simp

lemma ReadFull_short: "holds s d \<Longrightarrow> length d < n \<Longrightarrow> length d < fuel \<Longrightarrow> \<exists>e s'. ReadFull R fuel n s = (Err e, s') \<and> holds s' []"
  unfolding ReadFull_def by (rule ReadFull_loop_short)

text \<open>A dialogue that reads just the first bytes leaves the others in the connection.\<close>

lemma eats_over:
  assumes "eats p a p'" and "holds s (a @ r)" and "length a \<le> fuel"
  shows "\<exists>s'. run_over R fuel p s = run_over R fuel p' s' \<and> holds s' r"
  using assms
proof (induction arbitrary: s rule: eats.induct)
  case (eats_refl p)
  then show ?case by auto
next
  case (eats_recv a n k b p')
  obtain s1 where "ReadFull R fuel n s = (Ok a, s1)" "holds s1 (b @ r)"
    using ReadFull_ok [of s a "b @ r" fuel] eats_recv(1,4,5) by auto
  with eats_recv(3) [of s1] eats_recv(5) show ?case by simp
qed

text \<open>
  However the reads are cut, they return the data in order, and with more reads than there are bytes
  all of it and then the end.
\<close>

lemma reads_deliver:
  assumes "holds s d" and "\<forall>l \<in> set ls. 0 < l" and "run_reads R ls s = (outs, e)"
  shows "\<exists>d'. d = concat outs @ d' \<and> (length d < length ls \<longrightarrow> d' = [] \<and> e = Some ''EOF'')"
  using assms
proof (induction ls arbitrary: s d outs e)
  case Nil
  then show ?case by simp
next
  case (Cons l ls)
  show ?case
  proof (cases "d = []")
    case True
    with read_end [of s l] Cons.prems show ?thesis by auto
  next
    case False
    then obtain out d1 s1 where out: "R l s = (Ok out, s1)" "out \<noteq> []" "d = out @ d1" "holds s1 d1"
      using read_some [of s d l] Cons.prems by auto
    obtain outs1 e1 where r: "run_reads R ls s1 = (outs1, e1)" by fastforce
    have "outs = out # outs1" "e = e1" using Cons.prems(3) out(1) r by auto
    moreover from Cons.IH [OF out(4) _ r] Cons.prems(2) obtain d'
      where "d1 = concat outs1 @ d'" "length d1 < length ls \<longrightarrow> d' = [] \<and> e1 = Some ''EOF''" by auto
    moreover have "length d < length (l # ls) \<longrightarrow> length d1 < length ls" using out(2,3) by (cases out) auto
    ultimately show ?thesis using out(3) by (metis append.assoc concat.simps(2))
  qed
qed

end

section \<open>The socket\<close>

definition conn_holds :: "conn \<Rightarrow> bytes \<Rightarrow> bool" where
  "conn_holds c d \<longleftrightarrow> in_bytes c = d"

interpretation socket: byte_stream conn_Read conn_holds
proof unfold_locales
  fix s d and l :: nat
  assume s: "conn_holds s d" "d \<noteq> []" "0 < l"
  let ?n = "min l (case in_segs s of [] \<Rightarrow> length (in_bytes s) | k # _ \<Rightarrow> Suc k)"
  have "0 < ?n" using s by (auto simp: conn_holds_def split: list.splits)
  then have "take ?n d \<noteq> []" using s by (metis length_greater_0_conv neq0_conv take_eq_Nil)
  moreover have "conn_Read l s = (Ok (take ?n d), s\<lparr>in_bytes := drop ?n d, in_segs := tl (in_segs s)\<rparr>)"
    using s by (simp add: conn_Read_def conn_holds_def Let_def)
  moreover have "d = take ?n d @ drop ?n d" "length (take ?n d) \<le> l" by simp_all
  moreover have "conn_holds (s\<lparr>in_bytes := drop ?n d, in_segs := tl (in_segs s)\<rparr>) (drop ?n d)"
    by (simp add: conn_holds_def)
  ultimately show "\<exists>out d' s'. conn_Read l s = (Ok out, s') \<and> out \<noteq> [] \<and> length out \<le> l \<and> d = out @ d' \<and> conn_holds s' d'"
    by blast
qed (simp add: conn_Read_def conn_holds_def)

end
