(* ===== verification/Aead.thy ===== *)
theory Aead
  imports ByteStreams
begin

text \<open>
  Authenticated encryption as the sources use it: Go's interface \<open>cipher.AEAD\<close>. The algorithms behind it (AES-GCM,
  ChaCha20-Poly1305) are not part of the sources, so an \<open>AEAD\<close> is a parameter of every
  definition, and \<open>aead_ok\<close> is what the interface promises of it: \<open>Open\<close> undoes \<open>Seal\<close>, and \<open>Seal\<close> adds \<open>Overhead\<close> bytes.
  \<open>aead_tidy\<close> is authenticity: \<open>Open\<close> accepts nothing but what \<open>Seal\<close> makes of some plain text.

  Nonces that count: the little-endian counter of Shadowsocks, for which \<open>increment_counts\<close> shows
  that the carry loop is addition.
\<close>

record AEAD =
  ae_Overhead :: nat
  ae_NonceSize :: nat
  ae_Seal :: "bytes \<Rightarrow> bytes \<Rightarrow> bytes \<Rightarrow> bytes"
  ae_Open :: "bytes \<Rightarrow> bytes \<Rightarrow> bytes \<Rightarrow> bytes option"

definition aead_ok :: "AEAD \<Rightarrow> bool" where
  "aead_ok a \<longleftrightarrow> ae_NonceSize a \<le> 32 \<and>
     (\<forall>n p ad. length n = ae_NonceSize a \<longrightarrow>
        ae_Open a n (ae_Seal a n p ad) ad = Some p \<and> length (ae_Seal a n p ad) = length p + ae_Overhead a)"

definition aead_tidy :: "AEAD \<Rightarrow> bool" where
  "aead_tidy a \<longleftrightarrow> (\<forall>n c ad p. ae_Open a n c ad = Some p \<longrightarrow> c = ae_Seal a n p ad)"

lemma aead_open: "aead_ok a \<Longrightarrow> length n = ae_NonceSize a \<Longrightarrow> ae_Open a n (ae_Seal a n p ad) ad = Some p"
  and aead_len: "aead_ok a \<Longrightarrow> length n = ae_NonceSize a \<Longrightarrow> length (ae_Seal a n p ad) = length p + ae_Overhead a"
  and aead_nonce: "aead_ok a \<Longrightarrow> ae_NonceSize a \<le> 32"
  by (simp_all add: aead_ok_def)

text \<open>An instance for the examples: the text in the clear, followed by the nonce padded to sixteen bytes.\<close>

definition sample_aead :: AEAD where
  "sample_aead = \<lparr>ae_Overhead = 16, ae_NonceSize = 12, ae_Seal = (\<lambda>n p ad. p @ take 16 (n @ replicate 16 0)),
     ae_Open = (\<lambda>n c ad. if 16 \<le> length c \<and> drop (length c - 16) c = take 16 (n @ replicate 16 0)
                         then Some (take (length c - 16) c) else None)\<rparr>"

lemma sample_aead_ok: "aead_ok sample_aead" by (auto simp: aead_ok_def sample_aead_def)

lemma sample_aead_tidy: "aead_tidy sample_aead"
  by (auto simp: aead_tidy_def sample_aead_def split: if_splits) (metis append_take_drop_id)

lemma sample_aead_simps [simp]: "ae_Overhead sample_aead = 16" "ae_NonceSize sample_aead = 12"
  by (simp_all add: sample_aead_def)

section \<open>Counting nonces\<close>

fun increment :: "bytes \<Rightarrow> bytes" where
  "increment [] = []"
| "increment (b # bs) = (if b + 1 \<noteq> 0 then (b + 1) # bs else 0 # increment bs)"

fun le_nat :: "bytes \<Rightarrow> nat" where
  "le_nat [] = 0"
| "le_nat (b # bs) = unat b + 256 * le_nat bs"

lemma length_increment [simp]: "length (increment bs) = length bs"
  by (induction bs) auto

lemma le_nat_less: "le_nat bs < 256 ^ length bs"
proof (induction bs)
  case (Cons b bs)
  have "unat b < 256" using unsigned_less [of b] by simp
  with Cons show ?case by simp
qed simp

lemma unat_inc: "b + 1 \<noteq> 0 \<Longrightarrow> unat (b + 1 :: u8) = unat b + 1"
  by (metis Suc_eq_plus1 unatSuc add.commute)

lemma unat_top: "b + 1 = 0 \<Longrightarrow> unat (b :: u8) = 255"
proof -
  assume "b + 1 = 0"
  then have "b = -1" by (simp add: eq_neg_iff_add_eq_0)
  moreover have "(-1 :: u8) = 255" by simp
  ultimately have "b = 255" by (simp only:)
  then show ?thesis by simp
qed

text \<open>The carry loop is addition modulo the size of the counter.\<close>

lemma increment_counts: "le_nat (increment bs) = (le_nat bs + 1) mod 256 ^ length bs"
proof (induction bs)
  case (Cons b bs)
  show ?case
  proof (cases "b + 1 = 0")
    case True
    have "256 * ((le_nat bs + 1) mod 256 ^ length bs) = (256 * (le_nat bs + 1)) mod (256 * 256 ^ length bs)"
      by (simp only: mult_mod_right)
    with True Cons show ?thesis by (simp add: unat_top)
  next
    case False
    have "le_nat ((b + 1) # bs) < 256 ^ Suc (length bs)" using le_nat_less [of "(b + 1) # bs"] by simp
    with False show ?thesis by (simp add: unat_inc)
  qed
qed simp

lemma le_nat_inject: "length bs = length cs \<Longrightarrow> le_nat bs = le_nat cs \<Longrightarrow> bs = cs"
proof (induction bs arbitrary: cs)
  case (Cons b bs)
  then obtain c cs' where cs: "cs = c # cs'" by (cases cs) auto
  have "unat b < 256" "unat c < 256" using unsigned_less [of b] unsigned_less [of c] by simp_all
  moreover have eq: "unat b + 256 * le_nat bs = unat c + 256 * le_nat cs'" using Cons.prems cs by simp
  then have "(unat b + 256 * le_nat bs) mod 256 = (unat c + 256 * le_nat cs') mod 256" by (simp only:)
  ultimately have "unat b = unat c" by simp
  moreover from this eq have "le_nat bs = le_nat cs'" by simp
  ultimately show ?case using Cons cs by (simp add: word_unat_eq_iff)
qed simp

text \<open>The \<open>k\<close>-th value of a counter of \<open>n\<close> bytes that starts at zero.\<close>

definition counter :: "nat \<Rightarrow> nat \<Rightarrow> bytes" where
  "counter n k = (increment ^^ k) (replicate n 0)"

lemma length_counter [simp]: "length (counter n k) = n"
  by (induction k) (simp_all add: counter_def)

lemma counter_Suc: "counter n (Suc k) = increment (counter n k)"
  by (simp add: counter_def)

lemma le_nat_zeros: "le_nat (replicate n 0) = 0"
  by (induction n) simp_all

lemma le_nat_counter: "le_nat (counter n k) = k mod 256 ^ n"
proof (induction k)
  case 0
  then show ?case by (simp add: counter_def le_nat_zeros)
next
  case (Suc k)
  then show ?case by (simp add: counter_Suc increment_counts mod_Suc_eq)
qed

lemma counter_inject: "j < 256 ^ n \<Longrightarrow> k < 256 ^ n \<Longrightarrow> counter n j = counter n k \<longleftrightarrow> j = k"
  by (metis le_nat_counter mod_less)

section \<open>Cutting data into chunks\<close>

function cut_into :: "nat \<Rightarrow> bytes \<Rightarrow> bytes list" where
  "cut_into m p = (if p = [] then [] else if m = 0 then [p] else take m p # cut_into m (drop m p))"
  by pat_completeness auto
termination by (relation "measure (\<lambda>(m, p). length p)") auto

declare cut_into.simps [simp del]

lemma concat_cut [simp]: "concat (cut_into m p) = p"
  by (induction m p rule: cut_into.induct) (subst cut_into.simps, simp)

lemma cut_bounds: "0 < m \<Longrightarrow> c \<in> set (cut_into m p) \<Longrightarrow> c \<noteq> [] \<and> length c \<le> m"
proof (induction m p rule: cut_into.induct)
  case (1 m p)
  then show ?case by (cases "p = []") (auto simp: cut_into.simps [of m p] cut_into.simps [of m "[]"])
qed

lemma concat_cuts: "concat (concat (map (cut_into m) bs)) = concat bs"
  by (induction bs) simp_all

end
