(* ===== verification/ShadowAead.thy ===== *)
theory ShadowAead
  imports Aead BufPool SocksAddr
begin

text \<open>
  The AEAD connections of Shadowsocks (\<open>src/proxy/ss/cipher/shadowaead\<close>): the ciphers, the chunked stream and the packets.

  A stream begins with a random salt, from which the session key is derived; then come chunks, each the sealed
  length followed by the sealed data, under nonces that count up. \<open>aead_Write\<close> is the writer,
  \<open>aead_read\<close> reads one chunk into a buffer and \<open>aead_Read\<close> serves reads of any length from it, over any connection \<open>R\<close>
  underneath. \<open>shadow_stream\<close> shows that the layer is a \<open>byte_stream\<close> when the connection under it is one,
  \<open>sc_Write_wire\<close> gives the bytes of the writer in closed form. The buffer of the
  caller has \<open>x\<close> bytes of capacity beyond its length; a slice expression beyond the capacity is a panic.
\<close>

section \<open>Ciphers\<close>

record metaCipher =
  mc_psk :: bytes
  mc_hkdf :: "bytes \<Rightarrow> bytes \<Rightarrow> string \<Rightarrow> nat \<Rightarrow> bytes"
  mc_makeAEAD :: "bytes \<Rightarrow> AEAD option"

definition KeySize :: "metaCipher \<Rightarrow> nat" where
  "KeySize a = length (mc_psk a)"

definition SaltSize :: "metaCipher \<Rightarrow> nat" where
  "SaltSize a = (let ks = KeySize a in if 16 < ks then ks else 16)"

definition Encrypter :: "metaCipher \<Rightarrow> bytes \<Rightarrow> AEAD option" where
  "Encrypter a salt = mc_makeAEAD a (mc_hkdf a (mc_psk a) salt ''ss-subkey'' (KeySize a))"

definition Decrypter :: "metaCipher \<Rightarrow> bytes \<Rightarrow> AEAD option" where
  "Decrypter a salt = mc_makeAEAD a (mc_hkdf a (mc_psk a) salt ''ss-subkey'' (KeySize a))"

definition AESGCM :: "(bytes \<Rightarrow> bytes \<Rightarrow> string \<Rightarrow> nat \<Rightarrow> bytes) \<Rightarrow> (bytes \<Rightarrow> AEAD option) \<Rightarrow> bytes \<Rightarrow> metaCipher res" where
  "AESGCM hkdf aesGCM psk =
     (if length psk \<in> {16, 24, 32} then Ok \<lparr>mc_psk = psk, mc_hkdf = hkdf, mc_makeAEAD = aesGCM\<rparr>
      else Err ''crypto/aes: invalid key size'')"

definition Chacha20Poly1305 :: "(bytes \<Rightarrow> bytes \<Rightarrow> string \<Rightarrow> nat \<Rightarrow> bytes) \<Rightarrow> (bytes \<Rightarrow> AEAD option) \<Rightarrow> bytes \<Rightarrow> metaCipher res" where
  "Chacha20Poly1305 hkdf new psk =
     (if length psk \<noteq> 32 then Err ''key size error'' else Ok \<lparr>mc_psk = psk, mc_hkdf = hkdf, mc_makeAEAD = new\<rparr>)"

definition cipher_ok :: "metaCipher \<Rightarrow> bool" where
  "cipher_ok ci \<longleftrightarrow> (\<forall>key a. mc_makeAEAD ci key = Some a \<longrightarrow> aead_ok a \<and> ae_Overhead a = 16)"

section \<open>The writer\<close>

definition lenSize :: nat where "lenSize = 2"
definition maxPayload :: nat where "maxPayload = 0x3FFF"
definition bufSize :: nat where "bufSize = 17 * 1024"

record writer =
  w_aead :: AEAD
  w_nonce :: bytes

definition newWriter :: "AEAD \<Rightarrow> writer" where
  "newWriter a = \<lparr>w_aead = a, w_nonce = replicate 32 0\<rparr>"

text \<open>\<open>increment(nonce)\<close> for \<open>nonce = w.nonce[:w.NonceSize()]\<close>, in place.\<close>

definition bump :: "nat \<Rightarrow> bytes \<Rightarrow> bytes" where
  "bump ns nonce = increment (take ns nonce) @ drop ns nonce"

definition seal_chunk :: "AEAD \<Rightarrow> bytes \<Rightarrow> bytes \<Rightarrow> bytes" where
  "seal_chunk a nonce p =
     ae_Seal a (take (ae_NonceSize a) nonce) (be16 (of_nat (length p))) [] @
     ae_Seal a (take (ae_NonceSize a) (bump (ae_NonceSize a) nonce)) p []"

text \<open>The \<open>i\<close>-th write of the connection fails with \<open>f i\<close>. Returned: what was written, \<open>n\<close>, the error and the writer.\<close>

function aead_Write :: "(nat \<Rightarrow> string option) \<Rightarrow> bytes \<Rightarrow> writer \<Rightarrow> bytes \<times> nat \<times> string option \<times> writer" where
  "aead_Write f p w =
     (if p = [] then ([], 0, None, w)
      else
        let nw = (if length p < maxPayload then length p else maxPayload);
            out = seal_chunk (w_aead w) (w_nonce w) (take nw p); ns = ae_NonceSize (w_aead w);
            w' = w\<lparr>w_nonce := bump ns (bump ns (w_nonce w))\<rparr>
        in case f 0 of
             Some e \<Rightarrow> ([], 0, Some e, w')
           | None \<Rightarrow> let (outs, n, e, w'') = aead_Write (\<lambda>i. f (Suc i)) (drop nw p) w' in (out @ outs, nw + n, e, w''))"
  by pat_completeness auto
termination by (relation "measure (\<lambda>(f, p, w). length p)") (auto simp: maxPayload_def)

declare aead_Write.simps [simp del]

section \<open>The reader\<close>

record reader =
  r_aead :: AEAD
  r_nonce :: bytes
  r_buf :: "bytes option"
  r_offset :: nat

definition newReader :: "AEAD \<Rightarrow> reader" where
  "newReader a = \<lparr>r_aead = a, r_nonce = replicate 32 0, r_buf = None, r_offset = 0\<rparr>"

text \<open>Read \<open>n\<close> bytes into \<open>p\<close> of the given capacity and open them in place; the nonce moves on also when that fails.\<close>

definition read_sealed ::
  "(nat \<Rightarrow> 'c \<Rightarrow> bytes res \<times> 'c) \<Rightarrow> nat \<Rightarrow> nat \<Rightarrow> nat \<Rightarrow> reader \<times> 'c \<Rightarrow> bytes res \<times> reader \<times> 'c" where
  "read_sealed R fuel cap n rc =
     (if cap < n then (Panic, rc)
      else bind_st (apsnd (Pair (fst rc)) (ReadFull R fuel n (snd rc))) (\<lambda>p (r, c).
        let ns = ae_NonceSize (r_aead r); r' = r\<lparr>r_nonce := bump ns (r_nonce r)\<rparr>
        in case ae_Open (r_aead r) (take ns (r_nonce r)) p [] of
             None \<Rightarrow> (Err ''cipher: message authentication failed'', r', c)
           | Some d \<Rightarrow> (Ok d, r', c)))"

definition aead_read ::
  "(nat \<Rightarrow> 'c \<Rightarrow> bytes res \<times> 'c) \<Rightarrow> nat \<Rightarrow> nat \<Rightarrow> reader \<times> 'c \<Rightarrow> bytes res \<times> reader \<times> 'c" where
  "aead_read R fuel cap rc =
     bind_st (read_sealed R fuel cap (lenSize + ae_Overhead (r_aead (fst rc))) rc) (\<lambda>l rc.
       read_sealed R fuel cap (unat (be16_of (l ! 0) (l ! 1)) + ae_Overhead (r_aead (fst rc))) rc)"

definition copy_rest :: "nat \<Rightarrow> reader \<times> 'c \<Rightarrow> bytes res \<times> reader \<times> 'c" where
  "copy_rest len rc =
     (let (r, c) = rc; b = the (r_buf r); n = min len (length b - r_offset r); off = r_offset r + n
      in (Ok (take n (drop (r_offset r) b)),
          r\<lparr>r_offset := off, r_buf := (if off = length b then None else Some b)\<rparr>, c))"

definition aead_Read ::
  "(nat \<Rightarrow> 'c \<Rightarrow> bytes res \<times> 'c) \<Rightarrow> nat \<Rightarrow> nat \<Rightarrow> nat \<Rightarrow> reader \<times> 'c \<Rightarrow> bytes res \<times> reader \<times> 'c" where
  "aead_Read R fuel x len rc =
     (if r_buf (fst rc) = None then
        if maxPayload + ae_Overhead (r_aead (fst rc)) \<le> len then aead_read R fuel (len + x) rc
        else bind_st (aead_read R fuel (pool_cap bufSize) rc) (\<lambda>b (r, c). copy_rest len (r\<lparr>r_buf := Some b, r_offset := 0\<rparr>, c))
      else copy_rest len rc)"

section \<open>The connection\<close>

definition initReader :: "metaCipher \<Rightarrow> (nat \<Rightarrow> 'c \<Rightarrow> bytes res \<times> 'c) \<Rightarrow> nat \<Rightarrow> 'c \<Rightarrow> reader res \<times> 'c" where
  "initReader ci R fuel c =
     bind_st (case ReadFull R fuel (SaltSize ci) c of (Ok b, c) \<Rightarrow> (Ok (Decrypter ci b), c)
              | (Err e, c) \<Rightarrow> (Err e, c) | (Panic, c) \<Rightarrow> (Panic, c) | (Diverge, c) \<Rightarrow> (Diverge, c))
       (\<lambda>a c. case a of None \<Rightarrow> (Err ''aead'', c) | Some a \<Rightarrow> (Ok (newReader a), c))"

definition sc_Read ::
  "metaCipher \<Rightarrow> (nat \<Rightarrow> 'c \<Rightarrow> bytes res \<times> 'c) \<Rightarrow> nat \<Rightarrow> nat \<Rightarrow> nat \<Rightarrow> reader option \<times> 'c \<Rightarrow> bytes res \<times> reader option \<times> 'c" where
  "sc_Read ci R fuel x len rc =
     (case fst rc of
        Some r \<Rightarrow> apsnd (apfst Some) (aead_Read R fuel x len (r, snd rc))
      | None \<Rightarrow>
          (case initReader ci R fuel (snd rc) of
             (Ok r, c) \<Rightarrow> apsnd (apfst Some) (aead_Read R fuel x len (r, c))
           | (Err e, c) \<Rightarrow> (Err e, None, c)
           | (Panic, c) \<Rightarrow> (Panic, None, c)
           | (Diverge, c) \<Rightarrow> (Diverge, None, c)))"

text \<open>\<open>salt\<close> is what the random generator returns, or its error.\<close>

definition initWriter :: "metaCipher \<Rightarrow> string + bytes \<Rightarrow> string option \<Rightarrow> (string + writer) \<times> bytes" where
  "initWriter ci salt f =
     (case salt of
        Inl e \<Rightarrow> (Inl e, [])
      | Inr salt \<Rightarrow>
          (case Encrypter ci salt of
             None \<Rightarrow> (Inl ''aead'', [])
           | Some a \<Rightarrow> (case f of Some e \<Rightarrow> (Inl e, []) | None \<Rightarrow> (Inr (newWriter a), salt))))"

definition sc_Write ::
  "metaCipher \<Rightarrow> string + bytes \<Rightarrow> (nat \<Rightarrow> string option) \<Rightarrow> bytes \<Rightarrow> writer option \<Rightarrow> bytes \<times> nat \<times> string option \<times> writer option" where
  "sc_Write ci salt f b w =
     (case w of
        Some w \<Rightarrow> let (out, n, e, w) = aead_Write f b w in (out, n, e, Some w)
      | None \<Rightarrow>
          (case initWriter ci salt (f 0) of
             (Inl e, out) \<Rightarrow> (out, 0, Some e, None)
           | (Inr w, out) \<Rightarrow> let (out', n, e, w) = aead_Write (\<lambda>i. f (Suc i)) b w in (out @ out', n, e, Some w)))"

section \<open>Packets\<close>

text \<open>\<open>dst\<close> is the length of the destination buffer, \<open>salt\<close> the random bytes.\<close>

definition Pack :: "metaCipher \<Rightarrow> string + bytes \<Rightarrow> nat \<Rightarrow> bytes \<Rightarrow> bytes res" where
  "Pack ci salt dst p =
     (if dst < SaltSize ci then Panic
      else case salt of
        Inl e \<Rightarrow> Err e
      | Inr salt \<Rightarrow>
          (case Encrypter ci salt of
             None \<Rightarrow> Err ''aead''
           | Some a \<Rightarrow>
               if dst < SaltSize ci + length p + ae_Overhead a then Err ''short buffer''
               else Ok (salt @ ae_Seal a (replicate (ae_NonceSize a) 0) p [])))"

definition Unpack :: "metaCipher \<Rightarrow> nat \<Rightarrow> bytes \<Rightarrow> bytes res" where
  "Unpack ci dst pkt =
     (if length pkt < SaltSize ci then Err ''short packet''
      else case Decrypter ci (take (SaltSize ci) pkt) of
        None \<Rightarrow> Err ''aead''
      | Some a \<Rightarrow>
          if length pkt < SaltSize ci + ae_Overhead a then Err ''short packet''
          else if SaltSize ci + dst + ae_Overhead a < length pkt then Err ''short buffer''
          else case ae_Open a (replicate (ae_NonceSize a) 0) (drop (SaltSize ci) pkt) [] of
                 None \<Rightarrow> Err ''cipher: message authentication failed''
               | Some b \<Rightarrow> Ok b)"

definition maxPacketSize :: nat where "maxPacketSize = 64 * 1024"

definition pc_WriteTo :: "metaCipher \<Rightarrow> string + bytes \<Rightarrow> bytes \<Rightarrow> bytes res" where
  "pc_WriteTo ci salt b = Pack ci salt maxPacketSize b"

text \<open>\<open>ReadFrom\<close> on a buffer of \<open>len\<close> bytes into which the packet \<open>pkt\<close> has been read: the packet is decrypted inside the buffer.\<close>

definition pc_ReadFrom :: "metaCipher \<Rightarrow> nat \<Rightarrow> bytes \<Rightarrow> bytes res" where
  "pc_ReadFrom ci len pkt =
     (let b = take len pkt in if len < SaltSize ci then Panic else Unpack ci (len - SaltSize ci) b)"

section \<open>Chunks\<close>

definition at_count :: "AEAD \<Rightarrow> nat \<Rightarrow> bytes \<Rightarrow> bool" where
  "at_count a k nonce \<longleftrightarrow> length nonce = 32 \<and> take (ae_NonceSize a) nonce = counter (ae_NonceSize a) k"

lemma at_count_start: "aead_ok a \<Longrightarrow> at_count a 0 (replicate 32 0)"
  by (auto simp: at_count_def counter_def dest: aead_nonce)

lemma at_count_bump:
  assumes "aead_ok a" and "at_count a k nonce"
  shows "at_count a (Suc k) (bump (ae_NonceSize a) nonce)"
  using assms aead_nonce [OF assms(1)] by (simp add: at_count_def bump_def counter_Suc)

text \<open>The sealed form of a list of chunks, the first under the nonces \<open>k\<close> and \<open>k + 1\<close>.\<close>

fun seal_chunks :: "AEAD \<Rightarrow> nat \<Rightarrow> bytes list \<Rightarrow> bytes" where
  "seal_chunks a k [] = []"
| "seal_chunks a k (c # cs) =
     ae_Seal a (counter (ae_NonceSize a) k) (be16 (of_nat (length c))) [] @
     ae_Seal a (counter (ae_NonceSize a) (k + 1)) c [] @ seal_chunks a (k + 2) cs"

lemma seal_chunks_append: "seal_chunks a k (cs @ ds) = seal_chunks a k cs @ seal_chunks a (k + 2 * length cs) ds"
  by (induction cs arbitrary: k) simp_all

definition chunk_ok :: "bytes \<Rightarrow> bool" where
  "chunk_ok c \<longleftrightarrow> c \<noteq> [] \<and> length c \<le> maxPayload"

lemma cut_ok: "c \<in> set (cut_into maxPayload p) \<Longrightarrow> chunk_ok c"
  using cut_bounds [of maxPayload c p] by (simp add: chunk_ok_def maxPayload_def)

text \<open>The writer cuts the data into full chunks and a rest and counts the nonces.\<close>

lemma aead_Write_ok:
  assumes "aead_ok (w_aead w)" and "at_count (w_aead w) k (w_nonce w)" and "\<And>i. f i = None"
  shows "\<exists>w'. aead_Write f p w = (seal_chunks (w_aead w) k (cut_into maxPayload p), length p, None, w') \<and>
    w_aead w' = w_aead w \<and> at_count (w_aead w) (k + 2 * length (cut_into maxPayload p)) (w_nonce w')"
  using assms
proof (induction f p w arbitrary: k rule: aead_Write.induct)
  case (1 f p w)
  show ?case
  proof (cases "p = []")
    case True
    with 1 show ?thesis by (simp add: aead_Write.simps cut_into.simps)
  next
    case False
    let ?ns = "ae_NonceSize (w_aead w)"
    define nw where "nw = (if length p < maxPayload then length p else maxPayload)"
    define w1 where "w1 = w\<lparr>w_nonce := bump ?ns (bump ?ns (w_nonce w))\<rparr>"
    have t: "take nw p = take maxPayload p" "drop nw p = drop maxPayload p" by (auto simp: nw_def)
    have c1: "at_count (w_aead w) (Suc k) (bump ?ns (w_nonce w))" using at_count_bump 1(2,3) by blast
    then have c2: "at_count (w_aead w) (k + 2) (w_nonce w1)" using at_count_bump 1(2) by (simp add: w1_def)
    have seal: "seal_chunk (w_aead w) (w_nonce w) (take nw p) @ r = seal_chunks (w_aead w) k [take maxPayload p] @ r" for r
      using 1(3) c1 by (simp add: seal_chunk_def at_count_def t)
    obtain w' where w': "aead_Write (\<lambda>i. f (Suc i)) (drop nw p) w1 =
        (seal_chunks (w_aead w) (k + 2) (cut_into maxPayload (drop nw p)), length (drop nw p), None, w')"
      "w_aead w' = w_aead w" "at_count (w_aead w) (k + 2 + 2 * length (cut_into maxPayload (drop nw p))) (w_nonce w')"
      using 1(1) [OF False nw_def refl refl w1_def, of "k + 2"] 1(2,4) c2 by (auto simp: w1_def)
    have cutp: "cut_into maxPayload p = take maxPayload p # cut_into maxPayload (drop maxPayload p)"
      using False by (subst cut_into.simps) (simp add: maxPayload_def)
    have "aead_Write f p w = (seal_chunks (w_aead w) k (cut_into maxPayload p), length p, None, w')"
      unfolding aead_Write.simps [of f p w] using False w'(1) 1(4) seal
      by (simp add: Let_def nw_def [symmetric] w1_def [symmetric] cutp t) (simp add: nw_def)
    with w'(2,3) show ?thesis by (simp add: cutp t)
  qed
qed

section \<open>Reading back\<close>

lemma read_sealed_ok:
  assumes "byte_stream R H" and "aead_ok (r_aead r)" and "at_count (r_aead r) k (r_nonce r)"
    and "H c (ae_Seal (r_aead r) (counter (ae_NonceSize (r_aead r)) k) p [] @ rest)"
    and "length p + ae_Overhead (r_aead r) \<le> fuel" and "length p + ae_Overhead (r_aead r) \<le> cap"
  shows "\<exists>r' c'. read_sealed R fuel cap (length p + ae_Overhead (r_aead r)) (r, c) = (Ok p, r', c') \<and> H c' rest \<and>
    r_aead r' = r_aead r \<and> at_count (r_aead r) (Suc k) (r_nonce r') \<and> r_buf r' = r_buf r"
proof -
  let ?a = "r_aead r"
  have n: "take (ae_NonceSize ?a) (r_nonce r) = counter (ae_NonceSize ?a) k" using assms(3) by (simp add: at_count_def)
  have l: "length (ae_Seal ?a (counter (ae_NonceSize ?a) k) p []) = length p + ae_Overhead ?a"
    using aead_len [OF assms(2)] by simp
  obtain c' where c: "ReadFull R fuel (length p + ae_Overhead ?a) c = (Ok (ae_Seal ?a (counter (ae_NonceSize ?a) k) p []), c')" "H c' rest"
    using byte_stream.ReadFull_ok [OF assms(1,4), of fuel] assms(5) unfolding l by blast
  show ?thesis
    using c n assms(6) aead_open [OF assms(2), of "counter (ae_NonceSize ?a) k"] at_count_bump [OF assms(2,3)]
    by (simp add: read_sealed_def Let_def)
qed

lemma chunk_len: "length c \<le> maxPayload \<Longrightarrow> unat (of_nat (length c) :: u16) = length c"
  by (rule unat_of_nat_small) (simp add: maxPayload_def)

lemma aead_read_ok:
  assumes bs: "byte_stream R H" and a: "aead_ok (r_aead r)" and k: "at_count (r_aead r) k (r_nonce r)"
    and h: "H c (seal_chunks (r_aead r) k (p # cs))" and p: "chunk_ok p"
    and fuel: "maxPayload + ae_Overhead (r_aead r) \<le> fuel" and cap: "maxPayload + ae_Overhead (r_aead r) \<le> cap"
  shows "\<exists>r' c'. aead_read R fuel cap (r, c) = (Ok p, r', c') \<and> H c' (seal_chunks (r_aead r) (k + 2) cs) \<and>
    r_aead r' = r_aead r \<and> at_count (r_aead r) (k + 2) (r_nonce r') \<and> r_buf r' = r_buf r"
proof -
  let ?a = "r_aead r" and ?l = "be16 (of_nat (length p))"
  have two: "2 \<le> maxPayload" by (simp add: maxPayload_def)
  obtain r1 c1 where 1: "read_sealed R fuel cap (lenSize + ae_Overhead ?a) (r, c) = (Ok ?l, r1, c1)"
    "H c1 (ae_Seal ?a (counter (ae_NonceSize ?a) (Suc k)) p [] @ seal_chunks ?a (k + 2) cs)"
    "r_aead r1 = ?a" "at_count ?a (Suc k) (r_nonce r1)" "r_buf r1 = r_buf r"
    using read_sealed_ok [OF bs a k, of c ?l "ae_Seal ?a (counter (ae_NonceSize ?a) (Suc k)) p [] @ seal_chunks ?a (k + 2) cs" fuel cap]
      h two fuel cap
    by (auto simp: lenSize_def)
  have p': "length p \<le> maxPayload" using p by (simp add: chunk_ok_def)
  obtain r2 c2 where 2: "read_sealed R fuel cap (length p + ae_Overhead ?a) (r1, c1) = (Ok p, r2, c2)"
    "H c2 (seal_chunks ?a (k + 2) cs)" "r_aead r2 = ?a" "at_count ?a (Suc (Suc k)) (r_nonce r2)" "r_buf r2 = r_buf r1"
    using read_sealed_ok [OF bs, of r1 "Suc k" c1 p "seal_chunks ?a (k + 2) cs" fuel cap] 1 a p' fuel cap by auto
  have "aead_read R fuel cap (r, c) = (Ok p, r2, c2)"
    using 1(1,3) 2(1) by (simp add: aead_read_def be16_nth chunk_len [OF p'] del: One_nat_def)
  with 2 1(5) show ?thesis by simp
qed

lemma aead_read_end:
  assumes "byte_stream R H" and "H c []" and "0 < fuel" and "lenSize + ae_Overhead (r_aead r) \<le> cap"
  shows "\<exists>c'. aead_read R fuel cap (r, c) = (Err ''EOF'', r, c') \<and> H c' []"
  using byte_stream.ReadFull_end [OF assms(1,2) _ assms(3), of "lenSize + ae_Overhead (r_aead r)"] assms(4)
  by (auto simp: aead_read_def read_sealed_def lenSize_def)

text \<open>The data a reader holds: the rest of its buffer and the chunks to come.\<close>

definition reader_holds :: "('c \<Rightarrow> bytes \<Rightarrow> bool) \<Rightarrow> reader \<times> 'c \<Rightarrow> bytes \<Rightarrow> bool" where
  "reader_holds H rc d \<longleftrightarrow>
     (let (r, c) = rc; a = r_aead r
      in aead_ok a \<and> ae_Overhead a = 16 \<and>
        (\<exists>k cs. H c (seal_chunks a k cs) \<and> list_all chunk_ok cs \<and> at_count a k (r_nonce r) \<and>
           (case r_buf r of None \<Rightarrow> d = concat cs
            | Some b \<Rightarrow> r_offset r < length b \<and> d = drop (r_offset r) b @ concat cs)))"

lemma pool_cap_bufSize: "pool_cap bufSize = 32768"
proof -
  have "Len32 (2 ^ 14 + 1023) = Suc 14" by (rule Len32_unique) simp_all
  then show ?thesis by (simp add: pool_cap_def bufSize_def maxsize_def num_def)
qed

lemma reader_holdsI:
  assumes "aead_ok (r_aead r)" and "ae_Overhead (r_aead r) = 16" and "H c (seal_chunks (r_aead r) k cs)"
    and "list_all chunk_ok cs" and "at_count (r_aead r) k (r_nonce r)"
    and "case r_buf r of None \<Rightarrow> d = concat cs | Some b \<Rightarrow> r_offset r < length b \<and> d = drop (r_offset r) b @ concat cs"
  shows "reader_holds H (r, c) d"
  unfolding reader_holds_def Let_def case_prod_conv using assms by blast

text \<open>Serving a read from the buffer.\<close>

lemma copy_rest_ok:
  assumes "aead_ok (r_aead r)" and "ae_Overhead (r_aead r) = 16" and "H c (seal_chunks (r_aead r) k cs)"
    and "list_all chunk_ok cs" and "at_count (r_aead r) k (r_nonce r)" and "r_buf r = Some b" and "r_offset r < length b" and "0 < len"
  shows "\<exists>out d' rc'. copy_rest len (r, c) = (Ok out, rc') \<and> out \<noteq> [] \<and> length out \<le> len \<and>
    drop (r_offset r) b @ concat cs = out @ d' \<and> reader_holds H rc' d'"
proof -
  let ?n = "min len (length b - r_offset r)" and ?r = "drop (r_offset r) b"
  have out: "take ?n ?r \<noteq> []" "length (take ?n ?r) \<le> len" using assms(7,8) by simp_all
  have d: "drop (r_offset r) b @ concat cs = take ?n ?r @ drop ?n ?r @ concat cs"
    by (simp only: append_assoc [symmetric] append_take_drop_id)
  have "reader_holds H (r\<lparr>r_offset := r_offset r + ?n,
      r_buf := (if r_offset r + ?n = length b then None else Some b)\<rparr>, c) (drop ?n ?r @ concat cs)"
    by (rule reader_holdsI [where k = k and cs = cs]) (use assms in \<open>auto simp: min_def add.commute\<close>)
  moreover have "copy_rest len (r, c) = (Ok (take ?n ?r), r\<lparr>r_offset := r_offset r + ?n,
      r_buf := (if r_offset r + ?n = length b then None else Some b)\<rparr>, c)"
    by (simp add: copy_rest_def assms(6) Let_def)
  ultimately show ?thesis using out d by blast
qed

lemma reader_holdsE:
  assumes "reader_holds H (r, c) d"
  obtains k cs where "aead_ok (r_aead r)" "ae_Overhead (r_aead r) = 16" "H c (seal_chunks (r_aead r) k cs)"
    "list_all chunk_ok cs" "at_count (r_aead r) k (r_nonce r)"
    "case r_buf r of None \<Rightarrow> d = concat cs | Some b \<Rightarrow> r_offset r < length b \<and> d = drop (r_offset r) b @ concat cs"
  using assms unfolding reader_holds_def Let_def case_prod_conv by blast

definition read_cap :: "nat \<Rightarrow> nat \<Rightarrow> nat" where
  "read_cap x l = (if maxPayload + 16 \<le> l then l + x else pool_cap bufSize)"

lemma read_cap_enough: "maxPayload + 16 \<le> read_cap x l"
  by (simp add: read_cap_def pool_cap_bufSize maxPayload_def)

text \<open>A read of the next chunk, straight into the caller's buffer or through the reader's own.\<close>

lemma chunk_served:
  assumes r': "aead_read R fuel (read_cap x l) (r, c) = (Ok p, r', c')" "H c' (seal_chunks (r_aead r) k cs)" "r_aead r' = r_aead r"
    "at_count (r_aead r) k (r_nonce r')" "r_buf r' = None"
    and a: "aead_ok (r_aead r)" "ae_Overhead (r_aead r) = 16" and p: "chunk_ok p" "list_all chunk_ok cs"
    and r: "r_buf r = None" and l: "0 < l"
  shows "\<exists>out d' s'. aead_Read R fuel x l (r, c) = (Ok out, s') \<and> out \<noteq> [] \<and> length out \<le> l \<and> p @ concat cs = out @ d' \<and> reader_holds H s' d'"
proof (cases "maxPayload + 16 \<le> l")
  case True
  have "reader_holds H (r', c') (concat cs)"
    by (rule reader_holdsI [where k = k and cs = cs]) (use r' a p(2) in simp_all)
  with True r'(1) r p(1) a(2) show ?thesis
    by (simp add: aead_Read_def chunk_ok_def read_cap_def)
next
  case False
  let ?r = "r'\<lparr>r_buf := Some p, r_offset := 0\<rparr>"
  have "\<exists>out d' rc'. copy_rest l (?r, c') = (Ok out, rc') \<and> out \<noteq> [] \<and> length out \<le> l \<and>
      drop (r_offset ?r) p @ concat cs = out @ d' \<and> reader_holds H rc' d'"
    by (rule copy_rest_ok) (use r' a p l in \<open>simp_all add: chunk_ok_def\<close>)
  with False r'(1) r a(2) show ?thesis by (simp add: aead_Read_def read_cap_def)
qed

lemma shadow_stream:
  assumes bs: "byte_stream R H" and fuel: "maxPayload + 16 \<le> fuel"
  shows "byte_stream (aead_Read R fuel x) (reader_holds H)"
proof
  fix rc d l
  assume h: "reader_holds H rc d" and ne: "d \<noteq> []" and l: "0 < (l :: nat)"
  obtain r c where rc: "rc = (r, c)" by fastforce
  from h rc obtain k cs where a: "aead_ok (r_aead r)" "ae_Overhead (r_aead r) = 16" and H: "H c (seal_chunks (r_aead r) k cs)"
    "list_all chunk_ok cs" "at_count (r_aead r) k (r_nonce r)"
    and d: "case r_buf r of None \<Rightarrow> d = concat cs | Some b \<Rightarrow> r_offset r < length b \<and> d = drop (r_offset r) b @ concat cs"
    by (auto elim: reader_holdsE)
  show "\<exists>out d' s'. aead_Read R fuel x l rc = (Ok out, s') \<and> out \<noteq> [] \<and> length out \<le> l \<and> d = out @ d' \<and> reader_holds H s' d'"
  proof (cases "r_buf r")
    case (Some b)
    with d copy_rest_ok [where H = H, OF a H Some _ l] show ?thesis by (simp add: aead_Read_def rc)
  next
    case None
    with d ne obtain p cs' where cs: "cs = p # cs'" by (cases cs) auto
    then have p: "chunk_ok p" "list_all chunk_ok cs'" using H(2) by simp_all
    obtain r' c' where "aead_read R fuel (read_cap x l) (r, c) = (Ok p, r', c')" "H c' (seal_chunks (r_aead r) (k + 2) cs')"
      "r_aead r' = r_aead r" "at_count (r_aead r) (k + 2) (r_nonce r')" "r_buf r' = None"
      using aead_read_ok [where R = R and H = H, OF bs a(1) H(3) _ p(1), of c cs' fuel "read_cap x l"] H(1) fuel read_cap_enough [of x l] a(2) None cs by auto
    from chunk_served [where H = H, OF this a p None l] d None cs show ?thesis by (simp add: rc)
  qed
next
  fix rc l
  assume h: "reader_holds H rc []" and l: "0 < (l :: nat)"
  obtain r c where rc: "rc = (r, c)" by fastforce
  from h rc obtain k cs where a: "aead_ok (r_aead r)" "ae_Overhead (r_aead r) = 16" and H: "H c (seal_chunks (r_aead r) k cs)"
    "list_all chunk_ok cs" "at_count (r_aead r) k (r_nonce r)"
    and d: "case r_buf r of None \<Rightarrow> [] = concat cs | Some b \<Rightarrow> r_offset r < length b \<and> [] = drop (r_offset r) b @ concat cs"
    by (auto elim: reader_holdsE)
  have n: "r_buf r = None" "concat cs = []" using d by (auto split: option.splits)
  with H(2) have cs: "cs = []" by (cases cs) (auto simp: chunk_ok_def)
  have "lenSize + ae_Overhead (r_aead r) \<le> read_cap x l" "0 < fuel"
    using a(2) read_cap_enough [of x l] fuel by (simp_all add: maxPayload_def lenSize_def)
  then obtain c' where c': "aead_read R fuel (read_cap x l) (r, c) = (Err ''EOF'', r, c')" "H c' []"
    using aead_read_end [OF bs, of c fuel r] H(1) cs by auto
  have "reader_holds H (r, c') []" using a H(3) n c'(2)
    by (intro reader_holdsI [where k = k and cs = "[]"]) simp_all
  then show "\<exists>s'. aead_Read R fuel x l rc = (Err ''EOF'', s') \<and> reader_holds H s' []"
    using c'(1) n(1) a(2) by (cases "maxPayload + 16 \<le> l") (simp_all add: aead_Read_def rc read_cap_def)
qed

section \<open>The connection end to end\<close>

definition sc_holds :: "metaCipher \<Rightarrow> ('c \<Rightarrow> bytes \<Rightarrow> bool) \<Rightarrow> reader option \<times> 'c \<Rightarrow> bytes \<Rightarrow> bool" where
  "sc_holds ci H rc d \<longleftrightarrow>
     (case fst rc of
        Some r \<Rightarrow> reader_holds H (r, snd rc) d
      | None \<Rightarrow> \<exists>salt a cs. length salt = SaltSize ci \<and> Decrypter ci salt = Some a \<and>
          H (snd rc) (salt @ seal_chunks a 0 cs) \<and> list_all chunk_ok cs \<and> d = concat cs)"

lemma salt_positive: "0 < SaltSize ci" by (simp add: SaltSize_def Let_def)

text \<open>The first read takes the salt off and then goes on as any other.\<close>

lemma sc_first_read:
  assumes "byte_stream R H" and "cipher_ok ci" and "SaltSize ci \<le> fuel" and "sc_holds ci H (None, c) d"
  shows "\<exists>r c'. sc_Read ci R fuel x l (None, c) = sc_Read ci R fuel x l (Some r, c') \<and> sc_holds ci H (Some r, c') d"
proof -
  obtain salt a cs where salt: "length salt = SaltSize ci" and a: "Decrypter ci salt = Some a"
    and h: "H c (salt @ seal_chunks a 0 cs)" "list_all chunk_ok cs" "d = concat cs"
    using assms(4) by (auto simp: sc_holds_def)
  have ok: "aead_ok a" "ae_Overhead a = 16" using assms(2) a by (auto simp: cipher_ok_def Decrypter_def)
  obtain c' where c': "ReadFull R fuel (SaltSize ci) c = (Ok salt, c')" "H c' (seal_chunks a 0 cs)"
    using byte_stream.ReadFull_ok [OF assms(1) h(1), of fuel] salt assms(3) by auto
  have "initReader ci R fuel c = (Ok (newReader a), c')" using c'(1) a by (simp add: initReader_def)
  moreover have "reader_holds H (newReader a, c') d"
    by (rule reader_holdsI [where k = 0 and cs = cs]) (use ok h c'(2) at_count_start in \<open>simp_all add: newReader_def\<close>)
  ultimately show ?thesis by (intro exI [of _ "newReader a"] exI [of _ c']) (simp add: sc_Read_def sc_holds_def)
qed

lemma sc_stream:
  assumes "byte_stream R H" and "cipher_ok ci" and "SaltSize ci \<le> fuel" and "maxPayload + 16 \<le> fuel"
  shows "byte_stream (sc_Read ci R fuel x) (sc_holds ci H)"
proof -
  have later: "(d \<noteq> [] \<longrightarrow> (\<exists>out d' s'. sc_Read ci R fuel x l (Some r, c) = (Ok out, s') \<and> out \<noteq> [] \<and> length out \<le> l \<and>
      d = out @ d' \<and> sc_holds ci H s' d')) \<and>
      (d = [] \<longrightarrow> (\<exists>s'. sc_Read ci R fuel x l (Some r, c) = (Err ''EOF'', s') \<and> sc_holds ci H s' []))"
    if h: "sc_holds ci H (Some r, c) d" and l: "0 < l" for r c d l
  proof -
    have h': "reader_holds H (r, c) d" using h by (simp add: sc_holds_def)
    note st = shadow_stream [OF assms(1,4), of x]
    show ?thesis
      using byte_stream.read_some [OF st h' _ l] byte_stream.read_end [OF st, of "(r, c)" l] h' l
      by (fastforce simp: sc_Read_def sc_holds_def)
  qed
  have all: "(d \<noteq> [] \<longrightarrow> (\<exists>out d' s'. sc_Read ci R fuel x l rc = (Ok out, s') \<and> out \<noteq> [] \<and> length out \<le> l \<and>
      d = out @ d' \<and> sc_holds ci H s' d')) \<and>
      (d = [] \<longrightarrow> (\<exists>s'. sc_Read ci R fuel x l rc = (Err ''EOF'', s') \<and> sc_holds ci H s' []))"
    if h: "sc_holds ci H rc d" and l: "0 < l" for rc d l
  proof (cases rc)
    case (Pair ro c)
    then show ?thesis
      using later [of _ c d l] sc_first_read [OF assms(1-3), of c d x l] later [OF _ l] h l
      by (cases ro) metis+
  qed
  show ?thesis by unfold_locales (use all in blast)+
qed

text \<open>Writes one after the other, all of them taken by the network.\<close>

fun sc_writes :: "metaCipher \<Rightarrow> bytes \<Rightarrow> bytes list \<Rightarrow> writer option \<Rightarrow> bytes" where
  "sc_writes ci salt [] w = []"
| "sc_writes ci salt (p # ps) w =
     (let (out, n, e, w') = sc_Write ci (Inr salt) (\<lambda>_. None) p w in out @ sc_writes ci salt ps w')"

lemma sc_writes_later:
  assumes "aead_ok (w_aead w)" and "at_count (w_aead w) k (w_nonce w)"
  shows "sc_writes ci salt ps (Some w) = seal_chunks (w_aead w) k (concat (map (cut_into maxPayload) ps))"
  using assms
proof (induction ps arbitrary: w k)
  case (Cons p ps)
  obtain w' where "aead_Write (\<lambda>_. None) p w = (seal_chunks (w_aead w) k (cut_into maxPayload p), length p, None, w')"
    "w_aead w' = w_aead w" "at_count (w_aead w) (k + 2 * length (cut_into maxPayload p)) (w_nonce w')"
    using aead_Write_ok [OF Cons.prems, of "\<lambda>_. None" p] by blast
  with Cons show ?case by (simp add: sc_Write_def seal_chunks_append)
qed simp

lemma sc_writes_first:
  assumes "cipher_ok ci" and "Encrypter ci salt = Some a" and "ps \<noteq> []"
  shows "sc_writes ci salt ps None = salt @ seal_chunks a 0 (concat (map (cut_into maxPayload) ps))"
proof -
  have ok: "aead_ok a" using assms(1,2) by (auto simp: cipher_ok_def Encrypter_def)
  obtain p qs where ps: "ps = p # qs" using assms(3) by (cases ps) auto
  have "sc_writes ci salt ps None = salt @ sc_writes ci salt ps (Some (newWriter a))"
    using assms(2) by (simp add: ps sc_Write_def initWriter_def case_prod_beta)
  also have "\<dots> = salt @ seal_chunks a 0 (concat (map (cut_into maxPayload) ps))"
    using sc_writes_later [of "newWriter a" 0] ok at_count_start [OF ok] by (simp add: newWriter_def)
  finally show ?thesis .
qed

lemma cuts_ok: "list_all chunk_ok (concat (map (cut_into maxPayload) ps))"
  by (auto simp: list_all_iff intro: cut_ok)

lemma written_holds:
  assumes "cipher_ok ci" and "length salt = SaltSize ci" and "Encrypter ci salt = Some a" and "ps \<noteq> []"
    and "H c (sc_writes ci salt ps None)"
  shows "sc_holds ci H (None, c) (concat ps)"
  using assms cuts_ok concat_cuts unfolding sc_holds_def sc_writes_first [OF assms(1,3,4)]
  by (simp add: Decrypter_def Encrypter_def [of ci]) metis

text \<open>
  A Shadowsocks connection delivers. What one end writes, in any number of writes of any size, the other end reads: whatever the
  lengths of its reads and however the network cuts the bytes, it gets the data in order and, after the last
  byte, the end of the stream.
\<close>

theorem shadow_delivers:
  assumes "cipher_ok ci" and "length salt = SaltSize ci" and "Encrypter ci salt = Some a" and "ps \<noteq> []"
    and "in_bytes c = sc_writes ci salt ps None" and "\<forall>l \<in> set ls. 0 < l"
    and "SaltSize ci \<le> fuel" and "maxPayload + 16 \<le> fuel"
    and "run_reads (sc_Read ci conn_Read fuel x) ls (None, c) = (outs, e)"
  shows "\<exists>rest. concat ps = concat outs @ rest \<and>
    (length (concat ps) < length ls \<longrightarrow> concat outs = concat ps \<and> e = Some ''EOF'')"
proof -
  have "sc_holds ci conn_holds (None, c) (concat ps)"
    by (rule written_holds [OF assms(1-4)]) (simp add: conn_holds_def assms(5))
  moreover have "byte_stream (sc_Read ci conn_Read fuel x) (sc_holds ci conn_holds)"
    by (rule sc_stream [OF socket.byte_stream_axioms assms(1,7,8)])
  ultimately show ?thesis
    using byte_stream.reads_deliver [OF _ _ assms(6,9)] by fastforce
qed

definition sample_cipher :: metaCipher where
  "sample_cipher = \<lparr>mc_psk = replicate 16 1, mc_hkdf = (\<lambda>psk salt info n. take n (psk @ salt)), mc_makeAEAD = (\<lambda>key. Some sample_aead)\<rparr>"

lemma sample_cipher_ok: "cipher_ok sample_cipher" "SaltSize sample_cipher = 16" "Encrypter sample_cipher salt = Some sample_aead"
  by (auto simp: cipher_ok_def sample_cipher_def sample_aead_ok SaltSize_def KeySize_def Encrypter_def)

theorem shadow_delivers_witness:
  "\<exists>outs. run_reads (sc_Read sample_cipher conn_Read 20000 0) [2, 2, 2, 2]
      (None, \<lparr>in_bytes = sc_writes sample_cipher (replicate 16 7) [[1, 2], [3]] None, in_segs = [0, 4]\<rparr>) = (outs, Some ''EOF'') \<and>
     concat outs = [1, 2, 3]"
proof -
  let ?c = "\<lparr>in_bytes = sc_writes sample_cipher (replicate 16 7) [[1, 2], [3]] None, in_segs = [0, 4]\<rparr>"
  obtain outs e where r: "run_reads (sc_Read sample_cipher conn_Read 20000 0) [2, 2, 2, 2] (None, ?c) = (outs, e)" by fastforce
  have "length (replicate 16 (7 :: u8)) = SaltSize sample_cipher" by (simp add: sample_cipher_ok)
  from shadow_delivers [OF sample_cipher_ok(1) this sample_cipher_ok(3), of "[[1, 2], [3]]" ?c "[2, 2, 2, 2]" 20000 0 outs e] r
  show ?thesis by (simp add: sample_cipher_ok maxPayload_def)
qed

text \<open>
  C30. Every chunk has its own nonces. The bytes of a connection are the salt and then, for the \<open>i\<close>-th chunk, its length sealed under the
  counter value \<open>2i\<close> and its data sealed under \<open>2i + 1\<close>; no chunk is empty or longer than 16383 bytes, and no
  nonce is used twice before the counter of \<open>NonceSize\<close> bytes is exhausted.
\<close>

theorem shadow_nonces:
  assumes "cipher_ok ci" and "Encrypter ci salt = Some a" and "ps \<noteq> []"
  defines "cs \<equiv> concat (map (cut_into maxPayload) ps)"
  shows "sc_writes ci salt ps None = salt @ seal_chunks a 0 cs \<and> concat cs = concat ps \<and>
    list_all (\<lambda>c. 0 < length c \<and> length c \<le> 16383) cs \<and>
    (2 * length cs \<le> 256 ^ ae_NonceSize a \<longrightarrow> distinct (map (counter (ae_NonceSize a)) [0..<2 * length cs]))"
proof -
  have "distinct (map (counter (ae_NonceSize a)) [0..<2 * length cs])" if "2 * length cs \<le> 256 ^ ae_NonceSize a"
    using that by (auto simp: distinct_map inj_on_def counter_inject)
  moreover have "list_all (\<lambda>c. 0 < length c \<and> length c \<le> 16383) cs"
    using cuts_ok [of ps] by (simp add: cs_def list_all_iff chunk_ok_def maxPayload_def)
  ultimately show ?thesis
    using sc_writes_first [OF assms(1-3)] concat_cuts by (simp add: cs_def)
qed

theorem shadow_nonces_witness:
  "sc_writes sample_cipher [9] [[1, 2], [3]] None = [9] @ seal_chunks sample_aead 0 [[1, 2], [3]]"
proof -
  have "cut_into maxPayload [1, 2 :: u8] = [[1, 2]]" "cut_into maxPayload [3 :: u8] = [[3]]"
    by (simp_all add: cut_into.simps maxPayload_def)
  with shadow_nonces [OF sample_cipher_ok(1,3), of "[[1, 2], [3]]" "[9]"] show ?thesis by simp
qed

section \<open>What a peer cannot do, and what it can\<close>

lemma ReadFull_socket:
  assumes "ReadFull_loop conn_Read fuel got n c = (Ok b, c')"
  shows "\<exists>b'. b = got @ b' \<and> length b' = n \<and> in_bytes c = b' @ in_bytes c'"
  using assms
proof (induction conn_Read fuel got n c arbitrary: rule: ReadFull_loop.induct)
  case (3 fuel got n c)
  show ?case
  proof (cases "in_bytes c = []")
    case True
    with 3 show ?thesis by (simp add: conn_Read_def split: if_splits)
  next
    case False
    let ?m = "min (Suc n) (case in_segs c of [] \<Rightarrow> length (in_bytes c) | k # _ \<Rightarrow> Suc k)"
    let ?c = "c\<lparr>in_bytes := drop ?m (in_bytes c), in_segs := tl (in_segs c)\<rparr>" and ?out = "take ?m (in_bytes c)"
    have r: "conn_Read (Suc n) c = (Ok ?out, ?c)" using False by (simp add: conn_Read_def Let_def)
    from 3(1) [OF r [symmetric], of ?out] 3(2) r obtain b'
      where b': "b = (got @ ?out) @ b'" "length b' = Suc n - length ?out" "in_bytes ?c = b' @ in_bytes c'" by auto
    have "length ?out \<le> Suc n" by simp
    then show ?thesis
      using b' append_take_drop_id [of ?m "in_bytes c"] by (intro exI [of _ "?out @ b'"]) (simp del: append_take_drop_id)
  qed
qed auto

lemma read_sealed_socket:
  assumes "read_sealed conn_Read fuel cap n (r, c) = (Ok d, r', c')"
  shows "\<exists>ct. in_bytes c = ct @ in_bytes c' \<and> length ct = n \<and> n \<le> cap \<and>
    ae_Open (r_aead r) (take (ae_NonceSize (r_aead r)) (r_nonce r)) ct [] = Some d \<and>
    r' = r\<lparr>r_nonce := bump (ae_NonceSize (r_aead r)) (r_nonce r)\<rparr>"
proof (cases "ReadFull conn_Read fuel n c")
  case (Pair b c1)
  then show ?thesis
    using assms ReadFull_socket [of fuel "[]" n c]
    by (cases b) (auto simp: read_sealed_def Let_def ReadFull_def split: if_splits option.splits)
qed

text \<open>
  C26. A reader delivers only what was sealed for it. If a read of a chunk succeeds on any bytes whatever, then those bytes begin with a
  length and the delivered data, both sealed under the key of the connection and under just the nonces whose turn it is, so
  nothing forged, repeated, dropped or moved is ever delivered.
\<close>

theorem shadow_authentic:
  assumes "aead_ok (r_aead r)" and "aead_tidy (r_aead r)" and "at_count (r_aead r) k (r_nonce r)"
    and "aead_read conn_Read fuel cap (r, c) = (Ok d, r', c')"
  defines "nonce \<equiv> counter (ae_NonceSize (r_aead r))"
  shows "\<exists>l. in_bytes c = ae_Seal (r_aead r) (nonce k) l [] @ ae_Seal (r_aead r) (nonce (k + 1)) d [] @ in_bytes c' \<and>
    length l = 2 \<and> length d = unat (be16_of (l ! 0) (l ! 1)) \<and> at_count (r_aead r) (k + 2) (r_nonce r')"
proof -
  let ?a = "r_aead r"
  obtain l r1 c1 where 1: "read_sealed conn_Read fuel cap (lenSize + ae_Overhead ?a) (r, c) = (Ok l, r1, c1)"
    and 2: "read_sealed conn_Read fuel cap (unat (be16_of (l ! 0) (l ! 1)) + ae_Overhead (r_aead r1)) (r1, c1) = (Ok d, r', c')"
  proof -
    obtain v r1 c1 where v: "read_sealed conn_Read fuel cap (lenSize + ae_Overhead ?a) (r, c) = (v, r1, c1)" by (metis surj_pair)
    with that assms(4) show thesis by (cases v) (auto simp: aead_read_def)
  qed
  obtain ct1 where ct1: "in_bytes c = ct1 @ in_bytes c1" "length ct1 = lenSize + ae_Overhead ?a"
    "ae_Open ?a (nonce k) ct1 [] = Some l" "r1 = r\<lparr>r_nonce := bump (ae_NonceSize ?a) (r_nonce r)\<rparr>"
    using read_sealed_socket [OF 1] assms(3) by (auto simp: at_count_def nonce_def)
  have k1: "at_count ?a (Suc k) (r_nonce r1)" using at_count_bump [OF assms(1,3)] by (simp add: ct1(4))
  have ra: "r_aead r1 = ?a" by (simp add: ct1(4))
  obtain ct2 where ct2: "in_bytes c1 = ct2 @ in_bytes c'" "length ct2 = unat (be16_of (l ! 0) (l ! 1)) + ae_Overhead ?a"
    "ae_Open ?a (nonce (k + 1)) ct2 [] = Some d" "r' = r1\<lparr>r_nonce := bump (ae_NonceSize ?a) (r_nonce r1)\<rparr>"
    using read_sealed_socket [OF 2] k1 by (auto simp: at_count_def nonce_def ra)
  have "ct1 = ae_Seal ?a (nonce k) l []" "ct2 = ae_Seal ?a (nonce (k + 1)) d []"
    using assms(2) ct1(3) ct2(3) by (auto simp: aead_tidy_def)
  moreover from this have "length l = 2" "length d = unat (be16_of (l ! 0) (l ! 1))"
    using aead_len [OF assms(1)] ct1(2) ct2(2) by (auto simp: nonce_def lenSize_def)
  moreover have "at_count ?a (k + 2) (r_nonce r')" using at_count_bump [OF assms(1) k1] by (simp add: ct2(4))
  ultimately show ?thesis using ct1(1) ct2(1) by auto
qed

theorem shadow_authentic_witness:
  "\<exists>r' c'. aead_read conn_Read 20000 20000 (newReader sample_aead, \<lparr>in_bytes = seal_chunks sample_aead 0 [[5, 6]], in_segs = []\<rparr>) = (Ok [5, 6], r', c') \<and>
     at_count sample_aead 2 (r_nonce r')"
proof -
  let ?c = "\<lparr>in_bytes = seal_chunks sample_aead 0 [[5, 6]], in_segs = []\<rparr>" and ?r = "newReader sample_aead"
  have k: "at_count (r_aead ?r) 0 (r_nonce ?r)" and ok: "aead_ok (r_aead ?r)" "aead_tidy (r_aead ?r)"
    using at_count_start [OF sample_aead_ok] sample_aead_ok sample_aead_tidy by (simp_all add: newReader_def)
  have "conn_holds ?c (seal_chunks (r_aead ?r) 0 [[5, 6]])" by (simp add: conn_holds_def newReader_def)
  from aead_read_ok [OF socket.byte_stream_axioms ok(1) k this, of 20000 20000] obtain r' c'
    where r: "aead_read conn_Read 20000 20000 (?r, ?c) = (Ok [5, 6], r', c')"
    by (auto simp: chunk_ok_def maxPayload_def newReader_def)
  from shadow_authentic [OF ok k r] have "at_count (r_aead ?r) (0 + 2) (r_nonce r')" by blast
  with r show ?thesis by (auto simp: newReader_def numeral_2_eq_2)
qed

text \<open>
  The length of a chunk is not checked. It may be at most 16383, but the reader slices its buffer of 32768 bytes with whatever length the
  peer has sealed; a peer that holds the key can send a length that makes the slice expression panic.
\<close>

theorem shadow_long_chunk_panics:
  assumes "aead_ok (r_aead r)" and "at_count (r_aead r) k (r_nonce r)" and "r_buf r = None"
    and "in_bytes c = ae_Seal (r_aead r) (counter (ae_NonceSize (r_aead r)) k) (be16 n) [] @ rest"
    and "32768 < unat n + ae_Overhead (r_aead r)" and "len < maxPayload + ae_Overhead (r_aead r)"
    and "2 + ae_Overhead (r_aead r) \<le> fuel" and "2 + ae_Overhead (r_aead r) \<le> 32768"
  shows "fst (aead_Read conn_Read fuel x len (r, c)) = Panic"
proof -
  have "\<exists>r' c'. read_sealed conn_Read fuel 32768 (length (be16 n) + ae_Overhead (r_aead r)) (r, c) = (Ok (be16 n), r', c') \<and>
      conn_holds c' rest \<and> r_aead r' = r_aead r \<and> at_count (r_aead r) (Suc k) (r_nonce r') \<and> r_buf r' = r_buf r"
    by (rule read_sealed_ok [OF socket.byte_stream_axioms assms(1,2)]) (use assms(4,7,8) in \<open>simp_all add: conn_holds_def\<close>)
  then obtain r' c' where "read_sealed conn_Read fuel 32768 (lenSize + ae_Overhead (r_aead r)) (r, c) = (Ok (be16 n), r', c')"
    "r_aead r' = r_aead r" by (auto simp: lenSize_def)
  then have "aead_read conn_Read fuel 32768 (r, c) = (Panic, r', c')"
    using assms(5) be16_nth [of n] by (simp add: aead_read_def read_sealed_def del: One_nat_def)
  then show ?thesis using assms(3,6) by (simp add: aead_Read_def pool_cap_bufSize)
qed

theorem shadow_long_chunk_panics_witness:
  "fst (aead_Read conn_Read 100 0 10 (newReader sample_aead,
     \<lparr>in_bytes = ae_Seal sample_aead (counter 12 0) (be16 40000) [], in_segs = []\<rparr>)) = Panic"
  by (rule shadow_long_chunk_panics [where k = 0 and n = 40000 and rest = "[]"])
    (use at_count_start [OF sample_aead_ok] in \<open>simp_all add: newReader_def sample_aead_ok maxPayload_def\<close>)

section \<open>Packets end to end\<close>

lemma shadow_packet:
  assumes "cipher_ok ci" and "length salt = SaltSize ci" and "Encrypter ci salt = Some a"
    and "SaltSize ci + length p + 16 \<le> maxPacketSize"
  shows "\<exists>pkt. pc_WriteTo ci (Inr salt) p = Ok pkt \<and> length pkt = SaltSize ci + length p + 16 \<and>
    (length pkt \<le> len \<longrightarrow> pc_ReadFrom ci len pkt = Ok p)"
proof -
  have a: "aead_ok a" "ae_Overhead a = 16" using assms(1,3) by (auto simp: cipher_ok_def Encrypter_def)
  have d: "Decrypter ci salt = Some a" using assms(3) by (simp add: Decrypter_def Encrypter_def)
  let ?pkt = "salt @ ae_Seal a (replicate (ae_NonceSize a) 0) p []"
  have l: "length ?pkt = SaltSize ci + length p + 16" using aead_len [OF a(1)] a(2) assms(2) by simp
  have "pc_WriteTo ci (Inr salt) p = Ok ?pkt"
    using assms a by (simp add: pc_WriteTo_def Pack_def)
  moreover have "pc_ReadFrom ci len ?pkt = Ok p" if "length ?pkt \<le> len"
    using that l d a aead_open [OF a(1)] assms(2) by (simp add: pc_ReadFrom_def Unpack_def Let_def)
  ultimately show ?thesis using l by blast
qed

end
