(* ===== verification/Relay.thy ===== *)
theory Relay
  imports ByteStreams
begin

text \<open>
  Moving data between connections (\<open>src/proxy/conn.go\<close>): \<open>CopyBuffer\<close>, \<open>CopyN\<close> over an \<open>io.LimitedReader\<close>, the error
  that \<open>Relay\<close> reports of its two directions, and the read timeouts of \<open>CopyUDP\<close>. \<open>Copy\<close> may hand the work to the
  kernel instead; what is copied is the same, so only the loop in user space is modelled.

  The source is any connection with a \<open>Read\<close>, the destination a function \<open>W\<close> from the number of the write and
  the data to the count and the error it returns. \<open>CopyBuffer\<close> returns what the destination has taken, the count and the error.
\<close>

definition TCPBufSize :: nat where "TCPBufSize = 32 * 1024"
definition UDPBufSize :: nat where "UDPBufSize = 2 * 1024"

type_synonym 's rd = "nat \<Rightarrow> 's \<Rightarrow> bytes res \<times> 's"
type_synonym sink = "nat \<Rightarrow> bytes \<Rightarrow> nat \<times> string option"

fun copy_loop :: "'s rd \<Rightarrow> sink \<Rightarrow> nat \<Rightarrow> nat \<Rightarrow> nat \<Rightarrow> bytes \<Rightarrow> 's \<Rightarrow> (bytes \<times> string option) res \<times> 's" where
  "copy_loop R W sz 0 i acc s = (Diverge, s)"
| "copy_loop R W sz (Suc fuel) i acc s =
     (case R sz s of
        (Ok out, s') \<Rightarrow>
          if out = [] then copy_loop R W sz fuel i acc s'
          else let (nw, ew) = W i out; d = acc @ take nw out
               in (case ew of
                     Some e \<Rightarrow> (Ok (d, Some e), s')
                   | None \<Rightarrow> if length out \<noteq> nw then (Ok (d, Some ''short write''), s')
                             else copy_loop R W sz fuel (Suc i) d s')
      | (Err e, s') \<Rightarrow> (Ok (acc, if e = ''EOF'' then None else Some e), s')
      | (Panic, s') \<Rightarrow> (Panic, s')
      | (Diverge, s') \<Rightarrow> (Diverge, s'))"

text \<open>The limit of a limited reader, if the source is one, bounds the buffer.\<close>

definition copy_size :: "nat option \<Rightarrow> nat" where
  "copy_size limit = (case limit of Some n \<Rightarrow> if n < TCPBufSize then (if n < 1 then 1 else n) else TCPBufSize | None \<Rightarrow> TCPBufSize)"

definition CopyBuffer :: "'s rd \<Rightarrow> sink \<Rightarrow> nat option \<Rightarrow> nat \<Rightarrow> 's \<Rightarrow> (bytes \<times> string option) res \<times> 's" where
  "CopyBuffer R W limit fuel s = copy_loop R W (copy_size limit) fuel 0 [] s"

text \<open>\<open>io.LimitReader\<close>: at most \<open>N\<close> more bytes of the source.\<close>

definition limit_Read :: "'s rd \<Rightarrow> (nat \<times> 's) rd" where
  "limit_Read R l = (\<lambda>(N, s).
     if N = 0 then (Err ''EOF'', (N, s))
     else case R (min l N) s of (Ok out, s') \<Rightarrow> (Ok out, (N - length out, s')) | (e, s') \<Rightarrow> (e, (N, s')))"

definition CopyN :: "'s rd \<Rightarrow> sink \<Rightarrow> nat \<Rightarrow> nat \<Rightarrow> 's \<Rightarrow> (bytes \<times> string option) res \<times> 's" where
  "CopyN R W n fuel s =
     (case CopyBuffer (limit_Read R) W (Some n) fuel (n, s) of
        (Ok (d, err), (_, s')) \<Rightarrow>
          (Ok (d, if length d = n then None else if length d < n \<and> err = None then Some ''EOF'' else err), s')
      | (Err e, (_, s')) \<Rightarrow> (Err e, s')
      | (Panic, (_, s')) \<Rightarrow> (Panic, s')
      | (Diverge, (_, s')) \<Rightarrow> (Diverge, s'))"

text \<open>\<open>Relay\<close> joins both directions: \<open>err1\<close> is that of the copy to the right, \<open>err\<close> that of the copy to the left.\<close>

definition relay_error :: "string option \<Rightarrow> string option \<Rightarrow> string option" where
  "relay_error err err1 =
     (let real = (\<lambda>e. e \<noteq> None \<and> e \<noteq> Some ''i/o timeout'') in if real err1 then err1 else if real err then err else None)"

text \<open>The timeout of the next read of \<open>CopyUDP\<close>, given the one before.\<close>

definition next_timeout :: "int \<Rightarrow> int \<Rightarrow> int \<Rightarrow> int" where
  "next_timeout timeout step t = (let t = wrap64 (t + step) in if t = 0 \<or> timeout < t then timeout else t)"

section \<open>Copying\<close>

definition takes_all :: "sink \<Rightarrow> bool" where
  "takes_all W \<longleftrightarrow> (\<forall>i b. W i b = (length b, None))"

lemma copy_loop_ok:
  assumes "byte_stream R H" and "takes_all W" and "0 < sz" and "H s d" and "length d < fuel"
  shows "\<exists>s'. copy_loop R W sz fuel i acc s = (Ok (acc @ d, None), s') \<and> H s' []"
  using assms(4,5)
proof (induction fuel arbitrary: i acc s d)
  case (Suc fuel)
  show ?case
  proof (cases "d = []")
    case True
    with byte_stream.read_end [OF assms(1), of s sz] Suc.prems assms(3) show ?thesis by auto
  next
    case False
    then obtain out d' s1 where out: "R sz s = (Ok out, s1)" "out \<noteq> []" "d = out @ d'" "H s1 d'"
      using byte_stream.read_some [OF assms(1) Suc.prems(1) _ assms(3)] by blast
    have "length d' < fuel" using Suc.prems(2) out(2,3) by (cases out) auto
    moreover have "W i out = (length out, None)" using assms(2) by (simp add: takes_all_def)
    ultimately show ?thesis using Suc.IH [OF out(4), of "Suc i" "acc @ out"] out by simp
  qed
qed simp

text \<open>A limited source is a source that ends earlier; what it does not deliver stays in the source.\<close>

definition limit_holds :: "bytes \<Rightarrow> ('s \<Rightarrow> bytes \<Rightarrow> bool) \<Rightarrow> nat \<times> 's \<Rightarrow> bytes \<Rightarrow> bool" where
  "limit_holds rest H Ns d \<longleftrightarrow> length d = fst Ns \<and> H (snd Ns) (d @ rest)"

lemma limit_stream:
  assumes "byte_stream R H"
  shows "byte_stream (limit_Read R) (limit_holds rest H)"
proof
  fix Ns d and l :: nat
  assume h: "limit_holds rest H Ns d" and d: "d \<noteq> []" and l: "0 < l"
  obtain N s where Ns: "Ns = (N, s)" by fastforce
  have N: "length d = N" "H s (d @ rest)" "0 < N" using h d by (auto simp: limit_holds_def Ns)
  obtain out d' s' where out: "R (min l N) s = (Ok out, s')" "out \<noteq> []" "length out \<le> min l N" "d @ rest = out @ d'" "H s' d'"
    using byte_stream.read_some [OF assms N(2), of "min l N"] d l N(3) by auto
  then obtain d1 where "d = out @ d1" "d' = d1 @ rest" using N(1) by (auto simp: append_eq_append_conv2)
  with out N show "\<exists>out d' s'. limit_Read R l Ns = (Ok out, s') \<and> out \<noteq> [] \<and> length out \<le> l \<and> d = out @ d' \<and> limit_holds rest H s' d'"
    by (auto simp: limit_Read_def Ns limit_holds_def)
qed (auto simp: limit_Read_def limit_holds_def)

lemma copy_size_pos: "0 < copy_size limit"
  by (simp add: copy_size_def TCPBufSize_def split: option.splits)

lemma CopyN_ok:
  assumes "byte_stream R H" and "takes_all W" and "H s (d @ rest)" and "length d < fuel"
  shows "\<exists>s'. CopyN R W (length d) fuel s = (Ok (d, None), s') \<and> H s' rest"
proof -
  have "limit_holds rest H (length d, s) d" using assms(3) by (simp add: limit_holds_def)
  then obtain Ns' where Ns': "copy_loop (limit_Read R) W (copy_size (Some (length d))) fuel 0 [] (length d, s) = (Ok (d, None), Ns')"
    "limit_holds rest H Ns' []"
    using copy_loop_ok [OF limit_stream [OF assms(1)] assms(2) copy_size_pos [of "Some (length d)"], of rest "(length d, s)" d fuel 0 "[]"] assms(4)
    by auto
  then show ?thesis by (cases Ns') (auto simp: CopyN_def CopyBuffer_def limit_holds_def)
qed

lemma CopyBuffer_ok:
  assumes "byte_stream R H" and "takes_all W" and "H s d" and "length d < fuel"
  shows "\<exists>s'. CopyBuffer R W None fuel s = (Ok (d, None), s')"
  using copy_loop_ok [OF assms(1,2) copy_size_pos [of None] assms(3,4), of 0 "[]"]
  by (auto simp: CopyBuffer_def)

section \<open>Timeouts\<close>

text \<open>The timeout of the \<open>k\<close>-th read grows by \<open>step\<close> up to \<open>timeout\<close>.\<close>

lemma udp_timeouts:
  assumes "0 < step" and "step \<le> timeout" and "timeout < 2 ^ 62"
  shows "(next_timeout timeout step ^^ k) 0 = min (int k * step) timeout"
proof (induction k)
  case 0
  then show ?case using assms by simp
next
  case (Suc k)
  define t where "t = min (int k * step) timeout"
  have t: "0 \<le> t" "t \<le> timeout" using assms by (simp_all add: t_def)
  have "2 * timeout < (2 ^ 63 :: int)" using assms(3) by simp
  with t assms have "t + step < 2 ^ 63" "- (2 ^ 63) \<le> t + step" by linarith+
  then have "wrap64 (t + step) = t + step" by (intro wrap64_id) (simp add: int64_range_def)
  then have "next_timeout timeout step t = min (t + step) timeout"
    using t assms by (auto simp: next_timeout_def Let_def)
  also have "\<dots> = min (int (Suc k) * step) timeout"
    using assms by (auto simp: t_def algebra_simps min_def)
  finally show ?case using Suc by (simp add: t_def)
qed

end
