(* ===== verification/Inbound.thy ===== *)
theory Inbound
  imports RuleProxy Relay "HOL-Library.Sublist"
begin

text \<open>
  What the servers do once they know the target of a connection, the same lines in \<open>src/proxy/ss/server.go\<close>,
  \<open>src/proxy/trojan/server.go\<close> and \<open>src/proxy/vless/server.go\<close> (\<open>serve_via\<close>: one forwarder is asked for and
  dialed), and in \<open>src/proxy/socks5/server.go\<close> and \<open>src/proxy/http/server.go\<close> (\<open>serve_dial\<close>: the group dials, with its retries): dial, relay,
  and record a failed relay against the forwarder unless the error mentions the server's own address. The outcomes of the dial and of the relay are
  the environment's.
\<close>

datatype outcome = DialFailed string | Relayed "string option"

record serve_env =
  se_order :: "Prefix list"
  se_dial :: "fid \<Rightarrow> string + nat"
  se_relay :: "string option"

text \<open>\<open>strings.Contains(err.Error(), s.addr)\<close> guards the record.\<close>

definition record_relay :: "string \<Rightarrow> fid \<Rightarrow> string option \<Rightarrow> world \<Rightarrow> world" where
  "record_relay saddr f err w =
     (case err of None \<Rightarrow> w | Some e \<Rightarrow> if \<not> sublist saddr e then Record f False w else w)"

definition serve_fwd :: "serve_env \<Rightarrow> string \<Rightarrow> fid \<Rightarrow> world \<Rightarrow> (fid \<times> outcome) \<times> world" where
  "serve_fwd env saddr f w =
     (let w' = Forwarder_Dial f (se_dial env f) w
      in case se_dial env f of
           Inl err \<Rightarrow> ((f, DialFailed err), w')
         | Inr c \<Rightarrow> ((f, Relayed (se_relay env)), record_relay saddr f (se_relay env) w'))"

definition serve_via :: "serve_env \<Rightarrow> string \<Rightarrow> proxyState \<Rightarrow> string \<Rightarrow> world \<Rightarrow> (fid \<times> outcome) \<times> world" where
  "serve_via env saddr s target w =
     (let (f, w1) = Proxy_NextDialer (se_order env) s target w in serve_fwd env saddr f w1)"

definition serve_dial ::
  "dial_env \<Rightarrow> int \<Rightarrow> Prefix list \<Rightarrow> string option \<Rightarrow> string \<Rightarrow> proxyState \<Rightarrow> string \<Rightarrow> world \<Rightarrow> (fid option \<times> outcome) \<times> world" where
  "serve_dial env start order relay saddr s target w =
     (case Proxy_Dial env start order s target w of
        ((None, d, err), tried, w') \<Rightarrow> ((d, DialFailed (case err of Some e \<Rightarrow> e | None \<Rightarrow> '''')), w')
      | ((Some c, d, err), tried, w') \<Rightarrow>
          ((d, Relayed relay), case d of Some f \<Rightarrow> record_relay saddr f relay w' | None \<Rightarrow> w'))"

section \<open>Who is asked and who is charged\<close>

lemma NextDialer_fwdr: "w_fwdr (snd (NextDialer g dst w)) = w_fwdr w"
  by (simp add: NextDialer_def upd_group_def case_prod_beta)

text \<open>The server's own share of a relay error is an error text that contains its address; a server without an address blames itself always.\<close>

lemma record_relay_own: "record_relay [] f err w = w"
  by (simp add: record_relay_def split: option.splits)

definition charges :: "serve_env \<Rightarrow> string \<Rightarrow> fid \<Rightarrow> bool" where
  "charges env saddr f \<longleftrightarrow>
     (case se_dial env f of Inl err \<Rightarrow> True | Inr c \<Rightarrow> (case se_relay env of None \<Rightarrow> False | Some e \<Rightarrow> \<not> sublist saddr e))"


definition one_forwarder :: world where
  "one_forwarder = \<lparr>w_fwdr = (\<lambda>_. sample_fwdr 0 0 []), w_group = (\<lambda>_. sample_group [0] [0] 0 HA), w_nfwdr = 1, w_ngroup = 1\<rparr>"

definition no_rules :: proxyState where
  "no_rules = \<lparr>ps_main = 0, ps_all = [], ps_domain = (\<lambda>_. None), ps_ip = (\<lambda>_. None), ps_cidr = (\<lambda>_. None)\<rparr>"


end
