(* ===== verification/Shadowsocks.thy ===== *)
theory Shadowsocks
  imports ShadowAead Inbound
begin

text \<open>
  Shadowsocks (\<open>src/proxy/ss\<close>): the client's \<open>Dial\<close>, the server's \<open>Serve\<close> and the packets of both. The server reads the target from the
  decrypted stream and serves it with \<open>serve_via\<close>; \<open>ss_end_to_end\<close> puts client, wire, server and rules together.
\<close>

section \<open>Connections\<close>

text \<open>
  \<open>dialed\<close> is the outcome of the dialer underneath, \<open>salt\<close> the random salt and \<open>f i\<close> the error of the \<open>i\<close>-th write.
  Returned are the writer and the bytes sent.
\<close>

definition SS_Dial ::
  "metaCipher \<Rightarrow> string option \<Rightarrow> string + bytes \<Rightarrow> (nat \<Rightarrow> string option) \<Rightarrow> string \<Rightarrow> string + writer option \<times> bytes" where
  "SS_Dial ci dialed salt f addr =
     (case Socks_ParseAddr addr of
        None \<Rightarrow> Inl (''[ss] unable to parse address: '' @ addr)
      | Some target \<Rightarrow>
          (case dialed of
             Some e \<Rightarrow> Inl e
           | None \<Rightarrow>
               let (out, n, e, w) = sc_Write ci salt f target None
               in case e of Some e \<Rightarrow> Inl e | None \<Rightarrow> Inr (w, out)))"

text \<open>A connection whose target cannot be read is drained and closed (\<open>None\<close>).\<close>

definition SS_Serve ::
  "metaCipher \<Rightarrow> 'c rd \<Rightarrow> nat \<Rightarrow> nat \<Rightarrow> serve_env \<Rightarrow> string \<Rightarrow> proxyState \<Rightarrow> 'c \<Rightarrow> world \<Rightarrow>
     ((fid \<times> outcome) option \<times> world) res \<times> reader option \<times> 'c" where
  "SS_Serve ci R fuel x env saddr s c w =
     bind_st (run_over (sc_Read ci R fuel x) fuel (ReadAddr Done) (None, c)) (\<lambda>r rc.
       case r of
         Inl e \<Rightarrow> (Ok (None, w), rc)
       | Inr tgt \<Rightarrow>
           (case Addr_String tgt of
              None \<Rightarrow> (Panic, rc)
            | Some t \<Rightarrow> (Ok (apfst Some (serve_via env saddr s t w)), rc)))"

section \<open>Packets\<close>

text \<open>\<open>readFrom\<close> on a decrypted datagram \<open>data\<close> from \<open>raddr\<close>, into a buffer of \<open>room\<close> bytes.\<close>

definition ss_readFrom :: "(string \<Rightarrow> string option) \<Rightarrow> nat \<Rightarrow> bytes \<Rightarrow> string \<Rightarrow> PktConn \<Rightarrow> (string + bytes \<times> string \<times> string) \<times> PktConn" where
  "ss_readFrom resolve room data raddr pc =
     (let buf = take room data in
      case SplitAddr buf of
        None \<Rightarrow> (Inl ''can not get target addr'', pc)
      | Some tgtAddr \<Rightarrow>
         (case Option.bind (Addr_String tgtAddr) resolve of
            None \<Rightarrow> (Inl ''wrong target addr'', pc)
          | Some target \<Rightarrow>
              let pc1 = (if pc_writeTo pc = None then pc\<lparr>pc_writeTo := Some raddr\<rparr> else pc);
                  pc2 = (if pc_target pc1 = None then pc1\<lparr>pc_target := Some tgtAddr\<rparr> else pc1)
              in (Inr (drop (length tgtAddr) buf, raddr, target), pc2)))"

definition ss_WriteTo :: "bytes \<Rightarrow> string option \<Rightarrow> PktConn \<Rightarrow> string + bytes \<times> string option" where
  "ss_WriteTo b addr pc =
     (case (case addr of Some a \<Rightarrow> Socks_ParseAddr a | None \<Rightarrow> pc_target pc) of
        None \<Rightarrow> Inl ''invalid addr''
      | Some target \<Rightarrow> Inr (target @ b, pc_writeTo pc))"

section \<open>End to end\<close>

lemma SS_Dial_ok:
  assumes "cipher_ok ci" and "Encrypter ci salt = Some a" and "Socks_ParseAddr addr = Some t" and "SS_Dial ci None (Inr salt) (\<lambda>_. None) addr = Inr (w, out)"
  shows "out @ sc_writes ci salt ps w = sc_writes ci salt (t # ps) None"
  using assms by (simp add: SS_Dial_def split: prod.splits option.splits)

text \<open>
  C25. Shadowsocks end to end. When a client has dialed \<open>h:p\<close> and written \<open>ps\<close>, then the server, however the network cuts the bytes, serves
  the target \<open>h:p\<close> as the rules say, and what it relays to the target is exactly what the client wrote.
\<close>

theorem ss_end_to_end:
  assumes "cipher_ok ci" and "length salt = SaltSize ci" and "Encrypter ci salt = Some a"
    and "plain_host h" and "p < 65536" and "target = JoinHostPort h (dec p)"
    and "SS_Dial ci None (Inr salt) (\<lambda>_. None) target = Inr (w, out)"
    and "in_bytes c = out @ sc_writes ci salt ps w"
    and "SaltSize ci \<le> fuel" and "maxPayload + 16 \<le> fuel" and "takes_all W"
  shows "\<exists>rc rc'. SS_Serve ci conn_Read fuel x env saddr s c wd = (Ok (apfst Some (serve_via env saddr s target wd)), rc) \<and>
    CopyBuffer (sc_Read ci conn_Read fuel x) W None (Suc (length (concat ps))) rc = (Ok (concat ps, None), rc')"
proof -
  obtain t where t: "Socks_ParseAddr target = Some t" "Addr_String t = Some target"
    using Socks_ParseAddr_string [OF assms(4,5)] assms(6) by blast
  have wf: "wf_addr t" using Socks_ParseAddr_wf [OF t(1)] .
  have bs: "byte_stream (sc_Read ci conn_Read fuel x) (sc_holds ci conn_holds)"
    by (rule sc_stream [OF socket.byte_stream_axioms assms(1,9,10)])
  have "sc_holds ci conn_holds (None, c) (concat (t # ps))"
    by (rule written_holds [OF assms(1-3)]) (use SS_Dial_ok [OF assms(1,3) t(1) assms(7)] assms(8) in \<open>simp_all add: conn_holds_def\<close>)
  moreover have "length t \<le> fuel"
    using wf_addr_length [OF wf] assms(10) by (simp add: maxPayload_def)
  ultimately obtain rc where rc: "run_over (sc_Read ci conn_Read fuel x) fuel (ReadAddr Done) (None, c) = (Ok (Inr t), rc)"
    "sc_holds ci conn_holds rc (concat ps)"
    using byte_stream.eats_over [OF bs eats_ReadAddr [OF wf, of Done]] by fastforce
  then have "SS_Serve ci conn_Read fuel x env saddr s c wd = (Ok (apfst Some (serve_via env saddr s target wd)), rc)"
    by (simp add: SS_Serve_def t(2))
  with CopyBuffer_ok [OF bs assms(11) rc(2), of "Suc (length (concat ps))"] show ?thesis by blast
qed

lemma SS_Dial_succeeds:
  assumes "cipher_ok ci" and "Encrypter ci salt = Some a" and "Socks_ParseAddr addr = Some t"
  shows "\<exists>w out. SS_Dial ci None (Inr salt) (\<lambda>_. None) addr = Inr (w, out)"
proof -
  have "aead_ok a" using assms(1,2) by (auto simp: cipher_ok_def Encrypter_def)
  then obtain w' where "aead_Write (\<lambda>_. None) t (newWriter a) = (seal_chunks a 0 (cut_into maxPayload t), length t, None, w')"
    using aead_Write_ok [of "newWriter a" 0 "\<lambda>_. None" t] at_count_start [of a] by (auto simp: newWriter_def)
  then show ?thesis using assms(2,3) by (simp add: SS_Dial_def sc_Write_def initWriter_def)
qed

lemma sample_target: "''a.com:80'' = JoinHostPort ''a.com'' (dec 80)"
  by (simp add: JoinHostPort_def dec.simps char_of_def bit_iff_odd)

theorem ss_end_to_end_witness:
  "\<exists>w out rc rc'. SS_Dial sample_cipher None (Inr (replicate 16 7)) (\<lambda>_. None) ''a.com:80'' = Inr (w, out) \<and>
    SS_Serve sample_cipher conn_Read 20000 0 \<lparr>se_order = [], se_dial = (\<lambda>_. Inr 1), se_relay = None\<rparr> '':8443'' no_rules
      \<lparr>in_bytes = out @ sc_writes sample_cipher (replicate 16 7) [[1, 2]] w, in_segs = [0, 0]\<rparr> one_forwarder =
      (Ok (apfst Some (serve_via \<lparr>se_order = [], se_dial = (\<lambda>_. Inr 1), se_relay = None\<rparr> '':8443'' no_rules ''a.com:80'' one_forwarder)), rc) \<and>
    CopyBuffer (sc_Read sample_cipher conn_Read 20000 0) (\<lambda>i b. (length b, None)) None 3 rc = (Ok ([1, 2], None), rc')"
proof -
  let ?salt = "replicate 16 (7 :: u8)" and ?env = "\<lparr>se_order = [], se_dial = (\<lambda>_. Inr 1), se_relay = None\<rparr>"
  obtain t where t: "Socks_ParseAddr ''a.com:80'' = Some t"
    using Socks_ParseAddr_string [OF sample_plain, of 80] by (auto simp: sample_target)
  obtain w out where d: "SS_Dial sample_cipher None (Inr ?salt) (\<lambda>_. None) ''a.com:80'' = Inr (w, out)"
    using SS_Dial_succeeds [OF sample_cipher_ok(1,3) t] by blast
  have "length ?salt = SaltSize sample_cipher" "takes_all (\<lambda>i b. (length b, None))"
    by (simp_all add: sample_cipher_ok takes_all_def)
  from ss_end_to_end [OF sample_cipher_ok(1) this(1) sample_cipher_ok(3) sample_plain _ sample_target d, of
      "\<lparr>in_bytes = out @ sc_writes sample_cipher ?salt [[1, 2]] w, in_segs = [0, 0]\<rparr>" "[[1, 2]]" 20000 _ 0 ?env "'':8443''" no_rules one_forwarder, OF _ _ _ _ this(2)] d
  show ?thesis by (simp add: sample_cipher_ok maxPayload_def numeral_3_eq_3)
qed

text \<open>
  C27. Shadowsocks datagrams. What the client writes to \<open>h:p\<close> is sealed into one packet, and the server that receives the packet with enough room
  gets the payload, the sender and the resolved target, and remembers both for the replies.
\<close>

theorem ss_datagram:
  assumes "cipher_ok ci" and "length salt = SaltSize ci" and "Encrypter ci salt = Some a"
    and "ss_WriteTo b (Some (JoinHostPort h (dec p))) pc = Inr (data, dst)" and "plain_host h" and "p < 65536"
    and "SaltSize ci + length data + 16 \<le> room" and "room \<le> maxPacketSize" and "resolve (JoinHostPort h (dec p)) = Some t"
  shows "\<exists>pkt pc2. pc_WriteTo ci (Inr salt) data = Ok pkt \<and> pc_ReadFrom ci room pkt = Ok data \<and>
    ss_readFrom resolve room data raddr \<lparr>pc_writeTo = None, pc_target = None\<rparr> = (Inr (b, raddr, t), pc2) \<and>
    pc_writeTo pc2 = Some raddr \<and> (\<exists>tgt. pc_target pc2 = Some tgt \<and> Addr_String tgt = Some (JoinHostPort h (dec p)))"
proof -
  obtain pkt where pkt: "pc_WriteTo ci (Inr salt) data = Ok pkt" "pc_ReadFrom ci room pkt = Ok data"
    using shadow_packet [OF assms(1-3), of data room] assms(7,8) by auto
  obtain tgt where tgt: "Socks_ParseAddr (JoinHostPort h (dec p)) = Some tgt" "Addr_String tgt = Some (JoinHostPort h (dec p))"
    using Socks_ParseAddr_string [OF assms(5,6)] by blast
  then have d: "data = tgt @ b" using assms(4) by (simp add: ss_WriteTo_def)
  have "SplitAddr (tgt @ b) = Some tgt" using Socks_ParseAddr_wf [OF tgt(1)] by (rule SplitAddr_append)
  then show ?thesis using pkt tgt(2) assms(7,9) d by (simp add: ss_readFrom_def Let_def)
qed

theorem ss_datagram_witness:
  "\<exists>data dst pkt. ss_WriteTo [1, 2] (Some ''a.com:80'') \<lparr>pc_writeTo = Some ''s:1'', pc_target = None\<rparr> = Inr (data, dst) \<and>
     pc_WriteTo sample_cipher (Inr (replicate 16 7)) data = Ok pkt \<and> pc_ReadFrom sample_cipher 2048 pkt = Ok data"
proof -
  obtain tgt where tgt: "Socks_ParseAddr ''a.com:80'' = Some tgt"
    using Socks_ParseAddr_string [OF sample_plain, of 80] by (auto simp: sample_target)
  then have w: "ss_WriteTo [1, 2] (Some (JoinHostPort ''a.com'' (dec 80))) \<lparr>pc_writeTo = Some ''s:1'', pc_target = None\<rparr> = Inr (tgt @ [1, 2], Some ''s:1'')"
    by (simp add: ss_WriteTo_def flip: sample_target)
  have "length tgt \<le> 259" using wf_addr_length [OF Socks_ParseAddr_wf [OF tgt]] .
  then have room: "SaltSize sample_cipher + length (tgt @ [1, 2]) + 16 \<le> 2048" by (simp add: sample_cipher_ok)
  have salt: "length (replicate 16 (7 :: u8)) = SaltSize sample_cipher" by (simp add: sample_cipher_ok)
  have m: "2048 \<le> maxPacketSize" by (simp add: maxPacketSize_def)
  obtain pkt where "pc_WriteTo sample_cipher (Inr (replicate 16 7)) (tgt @ [1, 2]) = Ok pkt" "pc_ReadFrom sample_cipher 2048 pkt = Ok (tgt @ [1, 2])"
    using ss_datagram [OF sample_cipher_ok(1) salt sample_cipher_ok(3) w sample_plain _ room m, of Some] by force
  with w show ?thesis by (simp only: sample_target) blast
qed

end
