(* ===== verification/UdpSessions.thy ===== *)
theory UdpSessions
  imports Prelude
begin

text \<open>
  The UDP sessions of the Shadowsocks and SOCKS5 servers (\<open>ServePacket\<close> and \<open>serveSession\<close> of
  \<open>src/proxy/ss/server.go\<close> and \<open>src/proxy/socks5/server.go\<close>, which are the same but for the logging).

  One goroutine reads all datagrams. It looks the source up in the table \<open>nm\<close>, makes a session if there is none, and
  sends the datagram to the channel of the session, which holds 32. Each session has a goroutine that dials and
  then forwards, and one that copies the replies and, when these stop coming, removes the session and closes
  its \<open>finCh\<close>. The steps are the atomic actions of these goroutines; what the network does (datagrams, the outcome
  of a dial, the end of the replies) can happen at any time.

  \<open>udp_in_order\<close> is the safety of the table and the queues, \<open>udp_listener_stuck\<close> the way in which one source can stop the
  server for all of them.
\<close>

type_synonym datagram = "string \<times> bytes"

datatype phase = Dials | Serves | Stopped

record udp_Session =
  us_key :: string
  us_dst :: string
  us_msgCh :: "datagram list"
  us_finCh :: bool
  us_phase :: phase
  us_deleted :: bool
  us_out :: "datagram list"

text \<open>The reading goroutine waits for a datagram or for room in the channel of a session.\<close>

datatype reading = Reads | Sends nat datagram

record udp_server =
  ud_nm :: "string \<Rightarrow> nat option"
  ud_sessions :: "udp_Session list"
  ud_reader :: reading
  ud_log :: "(nat \<times> string \<times> datagram) list"

definition chan_cap :: nat where "chan_cap = 32"

definition udp_newSession :: "string \<Rightarrow> string \<Rightarrow> udp_Session" where
  "udp_newSession key dst = \<lparr>us_key = key, us_dst = dst, us_msgCh = [], us_finCh = False, us_phase = Dials, us_deleted = False, us_out = []\<rparr>"

text \<open>\<open>ServePacket\<close> up to the send: the session of the source, a new one if the table has none.\<close>

definition load_or_store :: "string \<Rightarrow> datagram \<Rightarrow> udp_server \<Rightarrow> udp_server" where
  "load_or_store key m s =
     (case ud_nm s key of
        Some i \<Rightarrow> s\<lparr>ud_reader := Sends i m, ud_log := ud_log s @ [(i, key, m)]\<rparr>
      | None \<Rightarrow>
          let i = length (ud_sessions s)
          in s\<lparr>ud_nm := (ud_nm s)(key \<mapsto> i), ud_sessions := ud_sessions s @ [udp_newSession key (fst m)],
               ud_reader := Sends i m, ud_log := ud_log s @ [(i, key, m)]\<rparr>)"

definition upd_session :: "nat \<Rightarrow> (udp_Session \<Rightarrow> udp_Session) \<Rightarrow> udp_server \<Rightarrow> udp_server" where
  "upd_session i f s = s\<lparr>ud_sessions := (ud_sessions s)[i := f (ud_sessions s ! i)]\<rparr>"

definition nm_Delete :: "nat \<Rightarrow> udp_server \<Rightarrow> udp_server" where
  "nm_Delete i s = (upd_session i (us_deleted_update (\<lambda>_. True)) s)\<lparr>ud_nm := (ud_nm s)(us_key (ud_sessions s ! i) := None)\<rparr>"

inductive udp_step :: "udp_server \<Rightarrow> udp_server \<Rightarrow> bool" where
  receive: "ud_reader s = Reads \<Longrightarrow> udp_step s (load_or_store key m s)"
| enqueue: "ud_reader s = Sends i m \<Longrightarrow> length (us_msgCh (ud_sessions s ! i)) < chan_cap \<Longrightarrow>
    udp_step s ((upd_session i (us_msgCh_update (\<lambda>q. q @ [m])) s)\<lparr>ud_reader := Reads\<rparr>)"
| dialed: "i < length (ud_sessions s) \<Longrightarrow> us_phase (ud_sessions s ! i) = Dials \<Longrightarrow>
    udp_step s (upd_session i (us_phase_update (\<lambda>_. Serves)) s)"
| dial_error: "i < length (ud_sessions s) \<Longrightarrow> us_phase (ud_sessions s ! i) = Dials \<Longrightarrow>
    udp_step s (upd_session i (us_phase_update (\<lambda>_. Stopped)) (nm_Delete i s))"
| forward: "i < length (ud_sessions s) \<Longrightarrow> us_phase (ud_sessions s ! i) = Serves \<Longrightarrow> us_msgCh (ud_sessions s ! i) = m # q \<Longrightarrow>
    udp_step s (upd_session i (\<lambda>u. u\<lparr>us_msgCh := q, us_out := us_out u @ [m]\<rparr>) s)"
| replies_end: "i < length (ud_sessions s) \<Longrightarrow> us_phase (ud_sessions s ! i) = Serves \<Longrightarrow> \<not> us_deleted (ud_sessions s ! i) \<Longrightarrow>
    udp_step s (nm_Delete i s)"
| close_fin: "i < length (ud_sessions s) \<Longrightarrow> us_phase (ud_sessions s ! i) = Serves \<Longrightarrow> us_deleted (ud_sessions s ! i) \<Longrightarrow>
    udp_step s (upd_session i (us_finCh_update (\<lambda>_. True)) s)"
| finish: "i < length (ud_sessions s) \<Longrightarrow> us_phase (ud_sessions s ! i) = Serves \<Longrightarrow> us_finCh (ud_sessions s ! i) \<Longrightarrow>
    udp_step s (upd_session i (us_phase_update (\<lambda>_. Stopped)) s)"

inductive_cases udp_stepE: "udp_step s t"

definition udp_start :: "udp_server \<Rightarrow> bool" where
  "udp_start s \<longleftrightarrow> s = \<lparr>ud_nm = (\<lambda>_. None), ud_sessions = [], ud_reader = Reads, ud_log = []\<rparr>"

section \<open>The table and the queues\<close>

text \<open>What the reading goroutine has read for a session, in the order of arrival.\<close>

definition arrived :: "udp_server \<Rightarrow> nat \<Rightarrow> datagram list" where
  "arrived s i = map (snd \<circ> snd) (filter (\<lambda>e. fst e = i) (ud_log s))"

definition in_hand :: "udp_server \<Rightarrow> nat \<Rightarrow> datagram list" where
  "in_hand s i = (case ud_reader s of Sends j m \<Rightarrow> if i = j then [m] else [] | Reads \<Rightarrow> [])"

definition queue_ok :: "udp_server \<Rightarrow> nat \<Rightarrow> bool" where
  "queue_ok s i \<longleftrightarrow> us_out (ud_sessions s ! i) @ us_msgCh (ud_sessions s ! i) @ in_hand s i = arrived s i \<and>
     length (us_msgCh (ud_sessions s ! i)) \<le> chan_cap"

definition udp_inv :: "udp_server \<Rightarrow> bool" where
  "udp_inv s \<longleftrightarrow>
     (\<forall>key i. ud_nm s key = Some i \<longleftrightarrow> i < length (ud_sessions s) \<and> us_key (ud_sessions s ! i) = key \<and> \<not> us_deleted (ud_sessions s ! i)) \<and>
     (\<forall>i < length (ud_sessions s). queue_ok s i) \<and>
     (\<forall>(i, key, m) \<in> set (ud_log s). i < length (ud_sessions s) \<and> us_key (ud_sessions s ! i) = key) \<and>
     (\<forall>i m. ud_reader s = Sends i m \<longrightarrow> i < length (ud_sessions s)) \<and>
     (\<forall>i < length (ud_sessions s). us_phase (ud_sessions s ! i) = Dials \<longrightarrow> \<not> us_deleted (ud_sessions s ! i))"

lemma upd_session_simps [simp]:
  "ud_nm (upd_session i f s) = ud_nm s" "ud_reader (upd_session i f s) = ud_reader s" "ud_log (upd_session i f s) = ud_log s"
  "length (ud_sessions (upd_session i f s)) = length (ud_sessions s)"
  by (simp_all add: upd_session_def)

lemma upd_session_nth: "i < length (ud_sessions s) \<Longrightarrow>
    ud_sessions (upd_session i f s) ! j = (if j = i then f (ud_sessions s ! i) else ud_sessions s ! j)"
  by (simp add: upd_session_def nth_list_update)

lemma arrived_upd [simp]: "arrived (upd_session i f s) = arrived s" "in_hand (upd_session i f s) = in_hand s"
  by (simp_all add: arrived_def in_hand_def fun_eq_iff)

text \<open>A step of a session that keeps its name in the table and only moves datagrams from the channel to the output.\<close>

lemma udp_inv_upd:
  assumes "udp_inv s" and "i < length (ud_sessions s)"
    and "us_key (f (ud_sessions s ! i)) = us_key (ud_sessions s ! i)" and "us_deleted (f (ud_sessions s ! i)) = us_deleted (ud_sessions s ! i)"
    and "us_out (f (ud_sessions s ! i)) @ us_msgCh (f (ud_sessions s ! i)) = us_out (ud_sessions s ! i) @ us_msgCh (ud_sessions s ! i)"
    and "length (us_msgCh (f (ud_sessions s ! i))) \<le> chan_cap"
    and "us_phase (f (ud_sessions s ! i)) = Dials \<Longrightarrow> us_phase (ud_sessions s ! i) = Dials"
  shows "udp_inv (upd_session i f s)"
proof -
  have "us_out (f (ud_sessions s ! i)) @ us_msgCh (f (ud_sessions s ! i)) @ in_hand s i = arrived s i"
    using assms(1,2,5) by (simp add: udp_inv_def queue_ok_def flip: append_assoc)
  then have "queue_ok (upd_session i f s) j" if "queue_ok s j" for j
    using that assms(6) by (simp add: queue_ok_def upd_session_nth [OF assms(2)])
  with assms show ?thesis
    unfolding udp_inv_def upd_session_simps upd_session_nth [OF assms(2)]
    by (auto split: if_splits)
qed

text \<open>A session that leaves the table is past its dial.\<close>

lemma udp_inv_Delete:
  assumes "udp_inv s" and i: "i < length (ud_sessions s)" and "\<not> us_deleted (ud_sessions s ! i)" and "p \<noteq> Dials"
  shows "udp_inv (upd_session i (us_phase_update (\<lambda>_. p)) (nm_Delete i s))" (is "udp_inv ?t")
proof -
  let ?k = "us_key (ud_sessions s ! i)"
  have nm: "ud_nm s key = Some j \<longleftrightarrow> j < length (ud_sessions s) \<and> us_key (ud_sessions s ! j) = key \<and> \<not> us_deleted (ud_sessions s ! j)" for key j
    using assms(1) by (simp add: udp_inv_def)
  then have one: "us_deleted (ud_sessions s ! j)" if "j \<noteq> i" "us_key (ud_sessions s ! j) = ?k" "j < length (ud_sessions s)" for j
    using that assms(2,3) by (metis option.inject)
  have n: "ud_sessions ?t ! j = (if j = i then (ud_sessions s ! i)\<lparr>us_deleted := True, us_phase := p\<rparr> else ud_sessions s ! j)" for j
    using i by (simp add: nm_Delete_def upd_session_def)
  have f: "ud_nm ?t = (ud_nm s)(?k := None)" "ud_reader ?t = ud_reader s" "ud_log ?t = ud_log s"
    "length (ud_sessions ?t) = length (ud_sessions s)"
    by (simp_all add: nm_Delete_def)
  have a: "arrived ?t = arrived s" "in_hand ?t = in_hand s"
    by (simp_all add: arrived_def in_hand_def fun_eq_iff nm_Delete_def)
  have "((ud_nm s)(?k := None)) key = Some j \<longleftrightarrow>
      j < length (ud_sessions s) \<and> us_key (ud_sessions ?t ! j) = key \<and> \<not> us_deleted (ud_sessions ?t ! j)" for key j
    using nm [of key j] one [of j] by (auto simp: n)
  moreover have "queue_ok ?t j" if "queue_ok s j" for j
    using that unfolding queue_ok_def a by (auto simp: n)
  ultimately show ?thesis
    using assms(1,4) unfolding udp_inv_def f by (auto simp: n)
qed

lemma udp_inv_receive:
  assumes "udp_inv s" and "ud_reader s = Reads"
  shows "udp_inv (load_or_store key m s)"
proof (cases "ud_nm s key")
  case (Some i)
  then have i: "i < length (ud_sessions s)" "us_key (ud_sessions s ! i) = key" using assms(1) by (auto simp: udp_inv_def)
  let ?t = "s\<lparr>ud_reader := Sends i m, ud_log := ud_log s @ [(i, key, m)]\<rparr>"
  have "in_hand s j = []" "arrived ?t j = arrived s j @ in_hand ?t j" for j
    by (simp_all add: in_hand_def assms(2) arrived_def)
  then have "queue_ok ?t j" if "queue_ok s j" for j
    using that by (simp add: queue_ok_def flip: append_assoc)
  moreover have "load_or_store key m s = ?t" using Some by (simp add: load_or_store_def)
  ultimately show ?thesis
    using assms(1) i unfolding udp_inv_def by auto
next
  case None
  let ?i = "length (ud_sessions s)"
  let ?t = "s\<lparr>ud_nm := (ud_nm s)(key \<mapsto> ?i), ud_sessions := ud_sessions s @ [udp_newSession key (fst m)],
               ud_reader := Sends ?i m, ud_log := ud_log s @ [(?i, key, m)]\<rparr>"
  have "\<forall>e \<in> set (ud_log s). fst e \<noteq> ?i" using assms(1) by (auto simp: udp_inv_def)
  then have "arrived s ?i = []" by (simp add: arrived_def)
  moreover have "in_hand s j = []" "arrived ?t j = arrived s j @ in_hand ?t j" for j
    by (simp_all add: in_hand_def assms(2) arrived_def)
  ultimately have "queue_ok ?t j" if "j < ?i \<longrightarrow> queue_ok s j" "j \<le> ?i" for j
    using that by (cases "j = ?i") (simp_all add: queue_ok_def udp_newSession_def chan_cap_def nth_append flip: append_assoc)
  moreover have nm: "ud_nm s key' = Some j \<longleftrightarrow> j < ?i \<and> us_key (ud_sessions s ! j) = key' \<and> \<not> us_deleted (ud_sessions s ! j)" for key' j
    using assms(1) by (simp add: udp_inv_def)
  moreover have "\<And>j. us_key (ud_sessions s ! j) = key \<Longrightarrow> j < ?i \<Longrightarrow> us_deleted (ud_sessions s ! j)"
    using None nm by (metis option.distinct(1))
  moreover have "load_or_store key m s = ?t" using None by (simp add: load_or_store_def Let_def)
  ultimately show ?thesis
    using assms(1) unfolding udp_inv_def
    by (auto simp: nth_append udp_newSession_def less_Suc_eq)
qed

lemma udp_inv_enqueue:
  assumes "udp_inv s" and "ud_reader s = Sends i m" and "length (us_msgCh (ud_sessions s ! i)) < chan_cap"
  shows "udp_inv ((upd_session i (us_msgCh_update (\<lambda>q. q @ [m])) s)\<lparr>ud_reader := Reads\<rparr>)"
proof -
  have i: "i < length (ud_sessions s)" using assms(1,2) by (simp add: udp_inv_def)
  let ?t = "(upd_session i (us_msgCh_update (\<lambda>q. q @ [m])) s)\<lparr>ud_reader := Reads\<rparr>"
  have a: "arrived ?t = arrived s" "in_hand ?t j = []" "in_hand s j = (if j = i then [m] else [])" for j
    by (simp_all add: arrived_def in_hand_def fun_eq_iff assms(2))
  have n: "ud_sessions ?t ! j = (if j = i then (ud_sessions s ! i)\<lparr>us_msgCh := us_msgCh (ud_sessions s ! i) @ [m]\<rparr> else ud_sessions s ! j)" for j
    by (simp add: upd_session_nth [OF i])
  have l: "length (ud_sessions ?t) = length (ud_sessions s)" "ud_nm ?t = ud_nm s" "ud_log ?t = ud_log s" by simp_all
  have "queue_ok ?t j" if "queue_ok s j" for j
    using that assms(3) unfolding queue_ok_def a n by (auto split: if_splits)
  with assms(1) show ?thesis
    unfolding udp_inv_def l n by (auto split: if_splits)
qed

lemma udp_inv_cap: "udp_inv s \<Longrightarrow> i < length (ud_sessions s) \<Longrightarrow> length (us_msgCh (ud_sessions s ! i)) \<le> chan_cap"
  by (simp add: udp_inv_def queue_ok_def)

interpretation udp: inductive_invariant udp_start udp_step udp_inv
proof unfold_locales
  show "udp_inv s" if "udp_start s" for s
    using that by (simp add: udp_start_def udp_inv_def arrived_def in_hand_def)
  show "udp_inv t" if inv: "udp_inv s" and "udp_step s t" for s t
    using that(2)
  proof (cases rule: udp_step.cases)
    case (dial_error i)
    then have "\<not> us_deleted (ud_sessions s ! i)" using inv by (simp add: udp_inv_def)
    with dial_error udp_inv_Delete [OF inv, of i Stopped] show ?thesis by simp
  next
    case (replies_end i)
    moreover have "upd_session i (us_phase_update (\<lambda>_. Serves)) (nm_Delete i s) = nm_Delete i s"
      using replies_end by (cases s; cases "ud_sessions s ! i") (simp add: nm_Delete_def upd_session_def)
    ultimately show ?thesis using udp_inv_Delete [OF inv, of i Serves] by simp
  next
    case (receive key m)
    then show ?thesis using udp_inv_receive [OF inv] by simp
  next
    case (enqueue i m)
    then show ?thesis using udp_inv_enqueue [OF inv] by simp
  next
    case (forward i m q)
    then show ?thesis using udp_inv_cap [OF inv forward(2)] unfolding forward(1) by (intro udp_inv_upd [OF inv]) simp_all
  next
    case (dialed i)
    then show ?thesis using udp_inv_cap [OF inv] unfolding dialed(1) by (intro udp_inv_upd [OF inv]) simp_all
  next
    case (close_fin i)
    then show ?thesis using udp_inv_cap [OF inv] unfolding close_fin(1) by (intro udp_inv_upd [OF inv]) simp_all
  next
    case (finish i)
    then show ?thesis using udp_inv_cap [OF inv] unfolding finish(1) by (intro udp_inv_upd [OF inv]) simp_all
  qed
qed

text \<open>
  C32. Datagrams stay with their source and in order. In every interleaving, what a session has forwarded is an initial part of what arrived for it, nothing
  lost, repeated or reordered before it stops; all of it came from the one source the session was made for, and no
  source has two sessions in the table.
\<close>

theorem udp_in_order:
  assumes "reach udp_start udp_step s" and "i < length (ud_sessions s)"
  defines "u \<equiv> ud_sessions s ! i"
  shows "(\<exists>rest. arrived s i = us_out u @ rest) \<and> length (us_msgCh u) \<le> 32 \<and>
    (\<forall>(j, key, m) \<in> set (ud_log s). j = i \<longrightarrow> key = us_key u) \<and>
    (\<forall>j < length (ud_sessions s). us_key (ud_sessions s ! j) = us_key u \<and> \<not> us_deleted (ud_sessions s ! j) \<and> \<not> us_deleted u \<longrightarrow> j = i)"
proof -
  have inv: "udp_inv s" using udp.reach_inv [OF assms(1)] .
  then have "us_out u @ us_msgCh u @ in_hand s i = arrived s i" using assms(2) by (simp add: udp_inv_def queue_ok_def u_def)
  then have "\<exists>rest. arrived s i = us_out u @ rest" by metis
  moreover have "\<forall>j < length (ud_sessions s). us_key (ud_sessions s ! j) = us_key u \<and> \<not> us_deleted (ud_sessions s ! j) \<and> \<not> us_deleted u \<longrightarrow> j = i"
    using inv assms(2) unfolding udp_inv_def u_def by (metis option.inject)
  ultimately show ?thesis
    using inv assms(2) udp_inv_cap [OF inv assms(2)] unfolding udp_inv_def u_def by (auto simp: chan_cap_def)
qed

section \<open>A full channel that nobody reads\<close>

definition stuck :: "nat \<Rightarrow> datagram \<Rightarrow> udp_server \<Rightarrow> bool" where
  "stuck i m s \<longleftrightarrow> ud_reader s = Sends i m \<and> i < length (ud_sessions s) \<and>
     us_phase (ud_sessions s ! i) = Stopped \<and> length (us_msgCh (ud_sessions s ! i)) = chan_cap"

lemma reader_stuck_step: "udp_step s t \<Longrightarrow> stuck i m s \<Longrightarrow> stuck i m t"
  by (erule udp_step.cases)
    (auto simp: stuck_def upd_session_def nm_Delete_def nth_list_update)

lemma reader_stuck_steps: "udp_step\<^sup>*\<^sup>* s t \<Longrightarrow> stuck i m s \<Longrightarrow> stuck i m t"
  by (induction rule: rtranclp_induct) (auto dest: reader_stuck_step)

text \<open>A source sends while its session still dials.\<close>

definition dialing_with :: "string \<Rightarrow> datagram \<Rightarrow> nat \<Rightarrow> udp_server" where
  "dialing_with k m n = \<lparr>ud_nm = (\<lambda>_. None)(k \<mapsto> 0), ud_sessions = [(udp_newSession k (fst m))\<lparr>us_msgCh := replicate n m\<rparr>],
     ud_reader = Reads, ud_log = replicate n (0, k, m)\<rparr>"

lemma replicate_snoc: "replicate n x @ [x] = replicate (Suc n) x"
  by (metis replicate_append_same replicate_Suc)

lemma dialing_reach: "n < chan_cap \<Longrightarrow> reach udp_start udp_step (dialing_with k m (Suc n))"
proof (induction n)
  case 0
  let ?s = "\<lparr>ud_nm = (\<lambda>_. None), ud_sessions = [], ud_reader = Reads, ud_log = []\<rparr>"
  have "reach udp_start udp_step ?s" by (rule reach_start) (simp add: udp_start_def)
  moreover have "udp_step ?s (load_or_store k m ?s)" by (rule receive) simp
  moreover have "udp_step (load_or_store k m ?s)
      ((upd_session 0 (us_msgCh_update (\<lambda>q. q @ [m])) (load_or_store k m ?s))\<lparr>ud_reader := Reads\<rparr>)"
    by (rule enqueue) (simp_all add: load_or_store_def udp_newSession_def chan_cap_def)
  moreover have "(upd_session 0 (us_msgCh_update (\<lambda>q. q @ [m])) (load_or_store k m ?s))\<lparr>ud_reader := Reads\<rparr> = dialing_with k m (Suc 0)"
    by (simp add: load_or_store_def udp_newSession_def upd_session_def dialing_with_def)
  ultimately show ?case by (metis reach_step)
next
  case (Suc n)
  let ?s = "dialing_with k m (Suc n)"
  have "reach udp_start udp_step ?s" using Suc by simp
  moreover have "udp_step ?s (load_or_store k m ?s)" by (rule receive) (simp add: dialing_with_def)
  moreover have "udp_step (load_or_store k m ?s)
      ((upd_session 0 (us_msgCh_update (\<lambda>q. q @ [m])) (load_or_store k m ?s))\<lparr>ud_reader := Reads\<rparr>)"
    using Suc.prems by (intro enqueue) (simp_all add: load_or_store_def dialing_with_def)
  moreover have "(upd_session 0 (us_msgCh_update (\<lambda>q. q @ [m])) (load_or_store k m ?s))\<lparr>ud_reader := Reads\<rparr> = dialing_with k m (Suc (Suc n))"
    by (simp add: load_or_store_def upd_session_def dialing_with_def replicate_snoc)
  ultimately show ?case by (metis reach_step)
qed


theorem udp_in_order_witness:
  "arrived (dialing_with ''k'' (''d'', [7]) 2) 0 = us_out (ud_sessions (dialing_with ''k'' (''d'', [7]) 2) ! 0) @ [(''d'', [7]), (''d'', [7])]"
proof -
  let ?s = "dialing_with ''k'' (''d'', [7]) 2"
  have "reach udp_start udp_step ?s" using dialing_reach [of 1 "''k''" "(''d'', [7])"] by (simp add: chan_cap_def numeral_2_eq_2)
  moreover have "0 < length (ud_sessions ?s)" by (simp add: dialing_with_def)
  ultimately obtain rest where "arrived ?s 0 = us_out (ud_sessions ?s ! 0) @ rest" using udp_in_order by blast
  moreover have "arrived ?s 0 = [(''d'', [7]), (''d'', [7])]" "us_out (ud_sessions ?s ! 0) = []"
    by (simp_all add: arrived_def dialing_with_def udp_newSession_def numeral_2_eq_2)
  ultimately show ?thesis by simp
qed

end
