(* ===== verification/VmessBody.thy ===== *)
theory VmessBody
  imports Aead
begin

unbundle bit_operations_syntax

text \<open>
  The body of a VMess connection: masked chunk sizes (\<open>src/proxy/vmess/size.go\<close>), plain chunks (\<open>chunk.go\<close>) and sealed
  chunks (\<open>aead.go\<close>). The mask stream of SHAKE-128 is a parameter, \<open>shake iv k\<close> being the \<open>k\<close>-th pair of
  bytes of its output, as are the algorithms behind \<open>cipher.AEAD\<close>.

  \<open>chunked_stream\<close> and \<open>vm_stream\<close> show that a reader over a byte stream that carries the chunks of a writer with the same
  parameters is a byte stream of the data.
\<close>

section \<open>Sizes\<close>

type_synonym shake = "bytes \<Rightarrow> nat \<Rightarrow> u16"

record ShakeSizeParser =
  sp_nonce :: bytes
  sp_pos :: nat

definition NewShakeSizeParser :: "bytes \<Rightarrow> ShakeSizeParser" where
  "NewShakeSizeParser nonce = \<lparr>sp_nonce = nonce, sp_pos = 0\<rparr>"

definition sp_next :: "shake \<Rightarrow> ShakeSizeParser \<Rightarrow> u16 \<times> ShakeSizeParser" where
  "sp_next shake s = (shake (sp_nonce s) (sp_pos s), s\<lparr>sp_pos := sp_pos s + 1\<rparr>)"

definition sp_Decode :: "shake \<Rightarrow> bytes \<Rightarrow> ShakeSizeParser \<Rightarrow> u16 \<times> ShakeSizeParser" where
  "sp_Decode shake b s = (let (mask, s') = sp_next shake s in (mask XOR be16_of (b ! 0) (b ! 1), s'))"

definition sp_Encode :: "shake \<Rightarrow> u16 \<Rightarrow> ShakeSizeParser \<Rightarrow> bytes \<times> ShakeSizeParser" where
  "sp_Encode shake sz s = (let (mask, s') = sp_next shake s in (be16 (mask XOR sz), s'))"

section \<open>Plain chunks\<close>

definition vm_chunkSize :: nat where "vm_chunkSize = 16 * 1024"

text \<open>The \<open>i\<close>-th write of the connection fails with \<open>f i\<close>. Returned: what was written, \<open>n\<close>, the error and the parser.\<close>

function chunked_Write :: "shake \<Rightarrow> (nat \<Rightarrow> string option) \<Rightarrow> bytes \<Rightarrow> ShakeSizeParser \<Rightarrow> bytes \<times> nat \<times> string option \<times> ShakeSizeParser" where
  "chunked_Write shake f p s =
     (if p = [] then ([], 0, None, s)
      else
        let dataLen = (if vm_chunkSize < length p then vm_chunkSize else length p);
            (hdr, s') = sp_Encode shake (of_nat dataLen) s
        in case f 0 of
             Some e \<Rightarrow> ([], 0, Some e, s')
           | None \<Rightarrow> let (outs, n, e, s'') = chunked_Write shake (\<lambda>i. f (Suc i)) (drop dataLen p) s' in (hdr @ take dataLen p @ outs, dataLen + n, e, s''))"
  by pat_completeness auto
termination by (relation "measure (\<lambda>(shake, f, p, s). length p)") (auto simp: vm_chunkSize_def)

declare chunked_Write.simps [simp del]

record chunkedReader =
  cr_size :: ShakeSizeParser
  cr_left :: nat

definition chunked_rest :: "(nat \<Rightarrow> 'c \<Rightarrow> bytes res \<times> 'c) \<Rightarrow> nat \<Rightarrow> chunkedReader \<times> 'c \<Rightarrow> bytes res \<times> chunkedReader \<times> 'c" where
  "chunked_rest R len rc =
     (case R (min len (cr_left (fst rc))) (snd rc) of
        (Ok out, c) \<Rightarrow> (Ok out, (fst rc)\<lparr>cr_left := cr_left (fst rc) - length out\<rparr>, c)
      | (r, c) \<Rightarrow> (r, fst rc, c))"

definition chunked_Read ::
  "shake \<Rightarrow> (nat \<Rightarrow> 'c \<Rightarrow> bytes res \<times> 'c) \<Rightarrow> nat \<Rightarrow> nat \<Rightarrow> chunkedReader \<times> 'c \<Rightarrow> bytes res \<times> chunkedReader \<times> 'c" where
  "chunked_Read shake R fuel len rc =
     (if cr_left (fst rc) = 0 then
        bind_st (apsnd (Pair (fst rc)) (ReadFull R fuel 2 (snd rc))) (\<lambda>b (r, c).
          let (n, s) = sp_Decode shake b (cr_size r); r' = r\<lparr>cr_size := s, cr_left := unat n\<rparr>
          in if cr_left r' = 0 then (Ok [], r', c) else chunked_rest R len (r', c))
      else chunked_rest R len rc)"

section \<open>Sealed chunks\<close>

record aeadWriter =
  vw_aead :: AEAD
  vw_nonce :: bytes
  vw_count :: u16
  vw_size :: ShakeSizeParser

definition body_nonce :: "AEAD \<Rightarrow> bytes \<Rightarrow> bytes" where
  "body_nonce a iv = (let iv' = take (ae_NonceSize a - 2) (drop 2 iv) in [0, 0] @ iv' @ replicate (30 - length iv') 0)"

definition AEADWriter :: "AEAD \<Rightarrow> bytes \<Rightarrow> ShakeSizeParser \<Rightarrow> aeadWriter" where
  "AEADWriter a iv s = \<lparr>vw_aead = a, vw_nonce = body_nonce a iv, vw_count = 0, vw_size = s\<rparr>"

definition put_count :: "u16 \<Rightarrow> bytes \<Rightarrow> bytes" where
  "put_count n nonce = be16 n @ drop 2 nonce"

text \<open>The loop makes progress for overheads below the chunk size; those in use are 16.\<close>

function vm_Write :: "shake \<Rightarrow> (nat \<Rightarrow> string option) \<Rightarrow> bytes \<Rightarrow> aeadWriter \<Rightarrow> bytes \<times> nat \<times> string option \<times> aeadWriter" where
  "vm_Write shake f b w =
     (if b = [] then ([], 0, None, w)
      else if vm_chunkSize \<le> ae_Overhead (vw_aead w) then ([], 0, Some ''panic'', w)
      else
        let a = vw_aead w;
            writeLen = (if vm_chunkSize < length b + ae_Overhead a then vm_chunkSize else length b + ae_Overhead a);
            dataLen = writeLen - ae_Overhead a;
            (hdr, s) = sp_Encode shake (of_nat writeLen) (vw_size w);
            nonce = put_count (vw_count w) (vw_nonce w);
            sealed = ae_Seal a (take (ae_NonceSize a) nonce) (take dataLen b) [];
            w' = w\<lparr>vw_nonce := nonce, vw_count := vw_count w + 1, vw_size := s\<rparr>
        in case f 0 of
             Some e \<Rightarrow> ([], 0, Some e, w')
           | None \<Rightarrow> let (outs, n, e, w'') = vm_Write shake (\<lambda>i. f (Suc i)) (drop dataLen b) w' in (hdr @ sealed @ outs, dataLen + n, e, w''))"
  by pat_completeness auto
termination by (relation "measure (\<lambda>(shake, f, b, w). length b)") (auto simp: vm_chunkSize_def split: if_splits)

declare vm_Write.simps [simp del]

record aeadReader =
  vr_aead :: AEAD
  vr_nonce :: bytes
  vr_count :: u16
  vr_size :: ShakeSizeParser
  vr_buf :: "bytes option"
  vr_offset :: nat

definition AEADReader :: "AEAD \<Rightarrow> bytes \<Rightarrow> ShakeSizeParser \<Rightarrow> aeadReader" where
  "AEADReader a iv s = \<lparr>vr_aead = a, vr_nonce = body_nonce a iv, vr_count = 0, vr_size = s, vr_buf = None, vr_offset = 0\<rparr>"

text \<open>One chunk into a buffer of \<open>len\<close> bytes. A size that is too small or too large ends the stream.\<close>

definition vm_read ::
  "shake \<Rightarrow> (nat \<Rightarrow> 'c \<Rightarrow> bytes res \<times> 'c) \<Rightarrow> nat \<Rightarrow> nat \<Rightarrow> aeadReader \<times> 'c \<Rightarrow> bytes res \<times> aeadReader \<times> 'c" where
  "vm_read shake R fuel len rc =
     bind_st (apsnd (Pair (fst rc)) (ReadFull R fuel 2 (snd rc))) (\<lambda>b (r, c).
       let (n, s) = sp_Decode shake b (vr_size r); r1 = r\<lparr>vr_size := s\<rparr>; a = vr_aead r
       in if unat n \<le> ae_Overhead a \<or> len < unat n then (Err ''EOF'', r1, c)
          else bind_st (apsnd (Pair r1) (ReadFull R fuel (unat n) c)) (\<lambda>p (r, c).
            let nonce = put_count (vr_count r) (vr_nonce r); r2 = r\<lparr>vr_nonce := nonce, vr_count := vr_count r + 1\<rparr>
            in case ae_Open a (take (ae_NonceSize a) nonce) p [] of
                 None \<Rightarrow> (Err ''cipher: message authentication failed'', r2, c)
               | Some d \<Rightarrow> (Ok d, r2, c)))"

definition vm_copy :: "nat \<Rightarrow> aeadReader \<times> 'c \<Rightarrow> bytes res \<times> aeadReader \<times> 'c" where
  "vm_copy len rc =
     (let (r, c) = rc; b = the (vr_buf r); n = min len (length b - vr_offset r); off = vr_offset r + n
      in (Ok (take n (drop (vr_offset r) b)),
          r\<lparr>vr_offset := off, vr_buf := (if off = length b then None else Some b)\<rparr>, c))"

definition vm_Read ::
  "shake \<Rightarrow> (nat \<Rightarrow> 'c \<Rightarrow> bytes res \<times> 'c) \<Rightarrow> nat \<Rightarrow> nat \<Rightarrow> aeadReader \<times> 'c \<Rightarrow> bytes res \<times> aeadReader \<times> 'c" where
  "vm_Read shake R fuel len rc =
     (if vr_buf (fst rc) = None then
        if vm_chunkSize \<le> len then vm_read shake R fuel len rc
        else bind_st (vm_read shake R fuel vm_chunkSize rc) (\<lambda>b (r, c).
          if b = [] then (Ok [], r, c) else vm_copy len (r\<lparr>vr_buf := Some b, vr_offset := 0\<rparr>, c))
      else vm_copy len rc)"

section \<open>Chunks on the wire\<close>

lemma sp_Encode_at: "sp_Encode shake sz \<lparr>sp_nonce = sn, sp_pos = k\<rparr> = (be16 (shake sn k XOR sz), \<lparr>sp_nonce = sn, sp_pos = Suc k\<rparr>)"
  by (simp add: sp_Encode_def sp_next_def)

lemma sp_Decode_at: "sp_Decode shake (be16 (shake sn k XOR sz)) \<lparr>sp_nonce = sn, sp_pos = k\<rparr> = (sz, \<lparr>sp_nonce = sn, sp_pos = Suc k\<rparr>)"
  by (simp add: sp_Decode_def sp_next_def be16_nth del: One_nat_def flip: xor.assoc)

lemma put_count_twice [simp]: "put_count n (put_count m x) = put_count n x"
  by (simp add: put_count_def)

lemma length_put_count: "2 \<le> length x \<Longrightarrow> length (put_count n x) = length x"
  by (simp add: put_count_def)

text \<open>The chunks of a writer whose parser and counter are at \<open>k\<close>. The counter in the nonce has 16 bits.\<close>

fun chunk_wire :: "shake \<Rightarrow> bytes \<Rightarrow> nat \<Rightarrow> bytes list \<Rightarrow> bytes" where
  "chunk_wire shake sn k [] = []"
| "chunk_wire shake sn k (c # cs) = be16 (shake sn k XOR of_nat (length c)) @ c @ chunk_wire shake sn (Suc k) cs"

fun vm_wire :: "shake \<Rightarrow> AEAD \<Rightarrow> bytes \<Rightarrow> bytes \<Rightarrow> nat \<Rightarrow> bytes list \<Rightarrow> bytes" where
  "vm_wire shake a base sn k [] = []"
| "vm_wire shake a base sn k (c # cs) =
     be16 (shake sn k XOR of_nat (length c + ae_Overhead a)) @
     ae_Seal a (take (ae_NonceSize a) (put_count (of_nat k) base)) c [] @ vm_wire shake a base sn (Suc k) cs"

lemma chunk_wire_append: "chunk_wire shake sn k (cs @ ds) = chunk_wire shake sn k cs @ chunk_wire shake sn (k + length cs) ds"
  by (induction cs arbitrary: k) simp_all

lemma vm_wire_append: "vm_wire shake a base sn k (cs @ ds) = vm_wire shake a base sn k cs @ vm_wire shake a base sn (k + length cs) ds"
  by (induction cs arbitrary: k) simp_all

lemma cut_step: "p \<noteq> [] \<Longrightarrow> 0 < m \<Longrightarrow> cut_into m p = take m p # cut_into m (drop m p)"
  by (subst cut_into.simps) simp

lemma chunked_Write_ok:
  assumes "\<And>i. f i = None"
  shows "chunked_Write shake f p \<lparr>sp_nonce = sn, sp_pos = k\<rparr> =
    (chunk_wire shake sn k (cut_into vm_chunkSize p), length p, None, \<lparr>sp_nonce = sn, sp_pos = k + length (cut_into vm_chunkSize p)\<rparr>)"
  using assms
proof (induction "length p" arbitrary: f p k rule: less_induct)
  case less
  show ?case
  proof (cases "p = []")
    case True
    then show ?thesis by (simp add: chunked_Write.simps cut_into.simps)
  next
    case False
    have m: "0 < vm_chunkSize" by (simp add: vm_chunkSize_def)
    define n where "n = (if vm_chunkSize < length p then vm_chunkSize else length p)"
    have t: "take n p = take vm_chunkSize p" "drop n p = drop vm_chunkSize p" "n = length (take vm_chunkSize p)" by (auto simp: n_def)
    have "length (drop n p) < length p" using False m by (simp add: n_def)
    from less.hyps [OF this, of "\<lambda>i. f (Suc i)" "Suc k"] less.prems
    have "chunked_Write shake (\<lambda>i. f (Suc i)) (drop n p) \<lparr>sp_nonce = sn, sp_pos = Suc k\<rparr> =
      (chunk_wire shake sn (Suc k) (cut_into vm_chunkSize (drop n p)), length (drop n p), None,
       \<lparr>sp_nonce = sn, sp_pos = Suc k + length (cut_into vm_chunkSize (drop n p))\<rparr>)" by simp
    then show ?thesis
      unfolding chunked_Write.simps [of shake f p] using False less.prems
      by (simp add: Let_def n_def [symmetric] sp_Encode_at cut_step [OF False m] t(1,2)) (simp add: n_def)
  qed
qed

definition vw_at :: "AEAD \<Rightarrow> bytes \<Rightarrow> bytes \<Rightarrow> nat \<Rightarrow> aeadWriter \<Rightarrow> bool" where
  "vw_at a base sn k w \<longleftrightarrow> vw_aead w = a \<and> drop 2 (vw_nonce w) = drop 2 base \<and> vw_count w = of_nat k \<and> vw_size w = \<lparr>sp_nonce = sn, sp_pos = k\<rparr>"

lemma vm_Write_ok:
  assumes "vw_at a base sn k w" and "ae_Overhead a < vm_chunkSize" and "\<And>i. f i = None"
  shows "\<exists>w'. vm_Write shake f b w = (vm_wire shake a base sn k (cut_into (vm_chunkSize - ae_Overhead a) b), length b, None, w') \<and>
    vw_at a base sn (k + length (cut_into (vm_chunkSize - ae_Overhead a) b)) w'"
  using assms(1,3)
proof (induction "length b" arbitrary: f b k w rule: less_induct)
  case less
  let ?m = "vm_chunkSize - ae_Overhead a"
  show ?case
  proof (cases "b = []")
    case True
    then show ?thesis using less.prems by (simp add: vm_Write.simps cut_into.simps)
  next
    case False
    have m: "0 < ?m" using assms(2) by simp
    define l where "l = (if vm_chunkSize < length b + ae_Overhead a then vm_chunkSize else length b + ae_Overhead a)"
    define n where "n = l - ae_Overhead a"
    have t: "take n b = take ?m b" "drop n b = drop ?m b" using assms(2) by (auto simp: n_def l_def)
    have l: "l = length (take ?m b) + ae_Overhead a" using assms(2) by (auto simp: l_def)
    define w1 where "w1 = w\<lparr>vw_nonce := put_count (vw_count w) (vw_nonce w), vw_count := vw_count w + 1, vw_size := \<lparr>sp_nonce = sn, sp_pos = Suc k\<rparr>\<rparr>"
    have pc: "put_count (vw_count w) (vw_nonce w) = put_count (of_nat k) base" using less.prems(1) by (simp add: vw_at_def put_count_def)
    have w1: "vw_at a base sn (Suc k) w1" using less.prems(1) pc by (simp add: vw_at_def w1_def put_count_def add.commute)
    have shorter: "length (drop n b) < length b" using m length_greater_0_conv [of b] False unfolding t(2) length_drop by linarith
    obtain w' where w': "vm_Write shake (\<lambda>i. f (Suc i)) (drop n b) w1 =
        (vm_wire shake a base sn (Suc k) (cut_into ?m (drop n b)), length (drop n b), None, w')"
      "vw_at a base sn (Suc k + length (cut_into ?m (drop n b))) w'"
      using less.hyps [OF shorter w1, of "\<lambda>i. f (Suc i)"] less.prems(2) by auto
    have s: "vw_aead w = a" "vw_size w = \<lparr>sp_nonce = sn, sp_pos = k\<rparr>" using less.prems(1) by (simp_all add: vw_at_def)
    have "vm_Write shake f b w = (vm_wire shake a base sn k (cut_into ?m b), length b, None, w')"
      unfolding vm_Write.simps [of shake f b] s(1) l_def [symmetric] n_def [symmetric] s(2) sp_Encode_at Let_def case_prod_conv w1_def [symmetric]
      using False assms(2) less.prems(2) w'(1) m
      by (simp add: cut_step [OF False m] t pc l [symmetric]) (simp add: n_def l_def)
    with w'(2) show ?thesis by (simp add: cut_step [OF False m] t)
  qed
qed

section \<open>Reading plain chunks\<close>

definition plain_ok :: "bytes \<Rightarrow> bool" where
  "plain_ok c \<longleftrightarrow> c \<noteq> [] \<and> length c \<le> vm_chunkSize"

definition chunked_holds :: "shake \<Rightarrow> ('c \<Rightarrow> bytes \<Rightarrow> bool) \<Rightarrow> chunkedReader \<times> 'c \<Rightarrow> bytes \<Rightarrow> bool" where
  "chunked_holds shake H rc d \<longleftrightarrow>
     (\<exists>sn k x cs. cr_size (fst rc) = \<lparr>sp_nonce = sn, sp_pos = k\<rparr> \<and> length x = cr_left (fst rc) \<and>
        H (snd rc) (x @ chunk_wire shake sn k cs) \<and> list_all plain_ok cs \<and> d = x @ concat cs)"

lemma chunked_holdsI:
  "cr_size r = \<lparr>sp_nonce = sn, sp_pos = k\<rparr> \<Longrightarrow> length x = cr_left r \<Longrightarrow> H c (x @ chunk_wire shake sn k cs) \<Longrightarrow> list_all plain_ok cs \<Longrightarrow>
   d = x @ concat cs \<Longrightarrow> chunked_holds shake H (r, c) d"
  unfolding chunked_holds_def fst_conv snd_conv by blast

lemma chunked_rest_ok:
  assumes bs: "byte_stream R H" and r: "cr_size r = \<lparr>sp_nonce = sn, sp_pos = k\<rparr>" "length x = cr_left r" and h: "H c (x @ chunk_wire shake sn k cs)"
    and cs: "list_all plain_ok cs" and "x \<noteq> []" "0 < l"
  shows "\<exists>out d' s'. chunked_rest R l (r, c) = (Ok out, s') \<and> out \<noteq> [] \<and> length out \<le> l \<and> x @ concat cs = out @ d' \<and> chunked_holds shake H s' d'"
proof -
  have "0 < min l (cr_left r)" "x @ chunk_wire shake sn k cs \<noteq> []" using assms(6,7) r(2) [symmetric] by auto
  from byte_stream.read_some [OF bs h this(2,1)]
  obtain out rest c' where o: "R (min l (cr_left r)) c = (Ok out, c')" "out \<noteq> []" "length out \<le> min l (cr_left r)"
    "x @ chunk_wire shake sn k cs = out @ rest" "H c' rest" by blast
  have "length out \<le> length x" using o(3) r(2) by simp
  with o(4) obtain x' where x': "x = out @ x'" by (metis append_eq_append_conv_if append_take_drop_id)
  with o(4) have "rest = x' @ chunk_wire shake sn k cs" by simp
  with o r x' cs have "chunked_holds shake H (r\<lparr>cr_left := cr_left r - length out\<rparr>, c') (x' @ concat cs)"
    by (intro chunked_holdsI [where x = x' and cs = cs and sn = sn and k = k]) auto
  with o x' show ?thesis by (auto simp: chunked_rest_def)
qed

lemma chunked_stream:
  assumes bs: "byte_stream R H" and fuel: "2 \<le> fuel"
  shows "byte_stream (chunked_Read shake R fuel) (chunked_holds shake H)"
proof
  fix rc d and l :: nat
  assume h: "chunked_holds shake H rc d" and ne: "d \<noteq> []" and l: "0 < l"
  obtain r c where rc: "rc = (r, c)" by (rule prod.exhaust)
  from h rc obtain sn k x cs where r: "cr_size r = \<lparr>sp_nonce = sn, sp_pos = k\<rparr>" "length x = cr_left r"
    and H: "H c (x @ chunk_wire shake sn k cs)" "list_all plain_ok cs" "d = x @ concat cs"
    by (auto simp: chunked_holds_def)
  show "\<exists>out d' s'. chunked_Read shake R fuel l rc = (Ok out, s') \<and> out \<noteq> [] \<and> length out \<le> l \<and> d = out @ d' \<and> chunked_holds shake H s' d'"
  proof (cases "cr_left r = 0")
    case False
    with r(2) have "x \<noteq> []" by auto
    from chunked_rest_ok [where H = H, OF bs r H(1,2) this l] False H(3) show ?thesis by (simp add: chunked_Read_def rc)
  next
    case True
    with r(2) H(3) ne obtain p cs' where cs: "x = []" "cs = p # cs'" by (cases cs) auto
    then have p: "plain_ok p" "list_all plain_ok cs'" using H(2) by simp_all
    then have n: "unat (of_nat (length p) :: u16) = length p" "p \<noteq> []" by (auto simp: plain_ok_def vm_chunkSize_def)
    let ?b = "be16 (shake sn k XOR of_nat (length p))" and ?r = "r\<lparr>cr_size := \<lparr>sp_nonce = sn, sp_pos = Suc k\<rparr>, cr_left := length p\<rparr>"
    obtain c' where c': "ReadFull R fuel 2 c = (Ok ?b, c')" "H c' (p @ chunk_wire shake sn (Suc k) cs')"
      using byte_stream.ReadFull_ok [OF bs, of c ?b "p @ chunk_wire shake sn (Suc k) cs'" fuel] H(1) cs fuel by auto
    have "chunked_Read shake R fuel l rc = chunked_rest R l (?r, c')"
      using True c'(1) n by (simp add: chunked_Read_def rc r(1) sp_Decode_at Let_def)
    with chunked_rest_ok [where H = H, OF bs _ _ c'(2) p(2) n(2) l, of ?r] cs H(3) show ?thesis by simp
  qed
next
  fix rc and l :: nat
  assume h: "chunked_holds shake H rc []" and l: "0 < l"
  then obtain sn k where r: "cr_size (fst rc) = \<lparr>sp_nonce = sn, sp_pos = k\<rparr>" "cr_left (fst rc) = 0" "H (snd rc) []"
    by (auto simp: chunked_holds_def plain_ok_def list_all_iff)
  then obtain c' where c': "ReadFull R fuel 2 (snd rc) = (Err ''EOF'', c')" "H c' []"
    using byte_stream.ReadFull_end [OF bs r(3), of 2 fuel] fuel by auto
  have "chunked_holds shake H (fst rc, c') []"
    using r c'(2) by (intro chunked_holdsI [where x = "[]" and cs = "[]" and sn = sn and k = k]) simp_all
  then show "\<exists>s'. chunked_Read shake R fuel l rc = (Err ''EOF'', s') \<and> chunked_holds shake H s' []"
    using c'(1) r(2) by (simp add: chunked_Read_def)
qed

section \<open>Reading sealed chunks\<close>

definition vr_at :: "AEAD \<Rightarrow> bytes \<Rightarrow> bytes \<Rightarrow> nat \<Rightarrow> aeadReader \<Rightarrow> bool" where
  "vr_at a base sn k r \<longleftrightarrow> vr_aead r = a \<and> drop 2 (vr_nonce r) = drop 2 base \<and> vr_count r = of_nat k \<and> vr_size r = \<lparr>sp_nonce = sn, sp_pos = k\<rparr>"

text \<open>The algorithm, and a nonce that is long enough.\<close>

definition body_ok :: "AEAD \<Rightarrow> bytes \<Rightarrow> bool" where
  "body_ok a base \<longleftrightarrow> aead_ok a \<and> ae_Overhead a = 16 \<and> length base = 32"

definition sealed_ok :: "bytes \<Rightarrow> bool" where
  "sealed_ok c \<longleftrightarrow> c \<noteq> [] \<and> length c + 16 \<le> vm_chunkSize"

lemma body_nonce_length: "body_ok a base \<Longrightarrow> length (take (ae_NonceSize a) (put_count n base)) = ae_NonceSize a"
  by (auto simp: body_ok_def put_count_def dest: aead_nonce)

lemma vm_read_ok:
  assumes bs: "byte_stream R H" and ok: "body_ok a base" and r: "vr_at a base sn k r" and h: "H c (vm_wire shake a base sn k (p # cs))"
    and p: "sealed_ok p" and fuel: "vm_chunkSize \<le> fuel" and len: "vm_chunkSize \<le> len"
  shows "\<exists>r' c'. vm_read shake R fuel len (r, c) = (Ok p, r', c') \<and> H c' (vm_wire shake a base sn (Suc k) cs) \<and>
    vr_at a base sn (Suc k) r' \<and> vr_buf r' = vr_buf r"
proof -
  have ov: "aead_ok a" "ae_Overhead a = 16" using ok by (simp_all add: body_ok_def)
  have pl: "length p + 16 \<le> vm_chunkSize" "p \<noteq> []" using p by (simp_all add: sealed_ok_def)
  then have n: "unat (of_nat (length p + 16) :: u16) = length p + 16" by (intro unat_of_nat_small) (simp add: vm_chunkSize_def)
  have two: "2 \<le> fuel" using fuel by (simp add: vm_chunkSize_def)
  let ?b = "be16 (shake sn k XOR of_nat (length p + 16))" and ?nonce = "put_count (of_nat k) base"
  let ?s = "ae_Seal a (take (ae_NonceSize a) ?nonce) p []"
  have sl: "length ?s = length p + 16" using aead_len [OF ov(1) body_nonce_length [OF ok]] ov(2) by simp
  obtain c1 where c1: "ReadFull R fuel 2 c = (Ok ?b, c1)" "H c1 (?s @ vm_wire shake a base sn (Suc k) cs)"
    using byte_stream.ReadFull_ok [OF bs, of c ?b "?s @ vm_wire shake a base sn (Suc k) cs" fuel] h two ov(2) by auto
  obtain c2 where c2: "ReadFull R fuel (length p + 16) c1 = (Ok ?s, c2)" "H c2 (vm_wire shake a base sn (Suc k) cs)"
    using byte_stream.ReadFull_ok [OF bs c1(2), of fuel] sl pl fuel by auto
  have s: "vr_aead r = a" "vr_size r = \<lparr>sp_nonce = sn, sp_pos = k\<rparr>" "put_count (vr_count r) (vr_nonce r) = ?nonce"
    using r by (simp_all add: vr_at_def put_count_def)
  let ?r = "r\<lparr>vr_size := \<lparr>sp_nonce = sn, sp_pos = Suc k\<rparr>, vr_nonce := ?nonce, vr_count := vr_count r + 1\<rparr>"
  have "vm_read shake R fuel len (r, c) = (Ok p, ?r, c2)"
    using c1(1) c2(1) pl len n
    by (simp add: vm_read_def s sp_Decode_at Let_def ov(2) aead_open [OF ov(1) body_nonce_length [OF ok]] del: of_nat_add)
  moreover have "vr_at a base sn (Suc k) ?r" using r by (simp add: vr_at_def put_count_def add.commute)
  ultimately show ?thesis using c2(2) by simp
qed

definition vr_holds :: "shake \<Rightarrow> ('c \<Rightarrow> bytes \<Rightarrow> bool) \<Rightarrow> aeadReader \<times> 'c \<Rightarrow> bytes \<Rightarrow> bool" where
  "vr_holds shake H rc d \<longleftrightarrow>
     (\<exists>a base sn k cs. body_ok a base \<and> vr_at a base sn k (fst rc) \<and> H (snd rc) (vm_wire shake a base sn k cs) \<and> list_all sealed_ok cs \<and>
        (case vr_buf (fst rc) of None \<Rightarrow> d = concat cs
         | Some b \<Rightarrow> vr_offset (fst rc) < length b \<and> d = drop (vr_offset (fst rc)) b @ concat cs))"

lemma vr_holdsI:
  assumes "body_ok a base" "vr_at a base sn k r" "H c (vm_wire shake a base sn k cs)" "list_all sealed_ok cs"
    and "case vr_buf r of None \<Rightarrow> d = concat cs | Some b \<Rightarrow> vr_offset r < length b \<and> d = drop (vr_offset r) b @ concat cs"
  shows "vr_holds shake H (r, c) d"
  unfolding vr_holds_def fst_conv snd_conv using assms by blast

lemma vr_holdsE:
  assumes "vr_holds shake H (r, c) d"
  obtains a base sn k cs where "body_ok a base" "vr_at a base sn k r" "H c (vm_wire shake a base sn k cs)" "list_all sealed_ok cs"
    "case vr_buf r of None \<Rightarrow> d = concat cs | Some b \<Rightarrow> vr_offset r < length b \<and> d = drop (vr_offset r) b @ concat cs"
  using assms unfolding vr_holds_def fst_conv snd_conv by blast

lemma vm_copy_ok:
  assumes "body_ok a base" "vr_at a base sn k r" "H c (vm_wire shake a base sn k cs)" "list_all sealed_ok cs"
    and "vr_buf r = Some b" and "vr_offset r < length b" and "0 < len"
  shows "\<exists>out d' s'. vm_copy len (r, c) = (Ok out, s') \<and> out \<noteq> [] \<and> length out \<le> len \<and>
    drop (vr_offset r) b @ concat cs = out @ d' \<and> vr_holds shake H s' d'"
proof -
  let ?n = "min len (length b - vr_offset r)" and ?d = "drop (vr_offset r) b"
  let ?r = "r\<lparr>vr_offset := vr_offset r + ?n, vr_buf := (if vr_offset r + ?n = length b then None else Some b)\<rparr>"
  have "vr_holds shake H (?r, c) (drop ?n ?d @ concat cs)"
    by (rule vr_holdsI [where a = a and base = base and sn = sn and k = k and cs = cs])
      (use assms in \<open>auto simp: vr_at_def min_def add.commute\<close>)
  moreover have "vm_copy len (r, c) = (Ok (take ?n ?d), ?r, c)" by (simp add: vm_copy_def assms(5) Let_def)
  moreover have "take ?n ?d \<noteq> []" "length (take ?n ?d) \<le> len" using assms(6,7) by simp_all
  moreover have "?d @ concat cs = take ?n ?d @ drop ?n ?d @ concat cs" by (simp only: append_assoc [symmetric] append_take_drop_id)
  ultimately show ?thesis by blast
qed

lemma vm_stream:
  assumes bs: "byte_stream R H" and fuel: "vm_chunkSize \<le> fuel"
  shows "byte_stream (vm_Read shake R fuel) (vr_holds shake H)"
proof
  fix rc d and l :: nat
  assume h: "vr_holds shake H rc d" and ne: "d \<noteq> []" and l: "0 < l"
  obtain r c where rc: "rc = (r, c)" by (rule prod.exhaust)
  from h [unfolded rc] obtain a base sn k cs where s: "body_ok a base" "vr_at a base sn k r" "H c (vm_wire shake a base sn k cs)" "list_all sealed_ok cs"
    and d: "case vr_buf r of None \<Rightarrow> d = concat cs | Some b \<Rightarrow> vr_offset r < length b \<and> d = drop (vr_offset r) b @ concat cs"
    by (rule vr_holdsE)
  show "\<exists>out d' s'. vm_Read shake R fuel l rc = (Ok out, s') \<and> out \<noteq> [] \<and> length out \<le> l \<and> d = out @ d' \<and> vr_holds shake H s' d'"
  proof (cases "vr_buf r")
    case (Some b)
    with d vm_copy_ok [where H = H, OF s Some _ l] show ?thesis by (simp add: vm_Read_def rc)
  next
    case None
    with d ne obtain p cs' where cs: "cs = p # cs'" by (cases cs) auto
    then have p: "sealed_ok p" "list_all sealed_ok cs'" using s(4) by simp_all
    have big: "vm_chunkSize \<le> max l vm_chunkSize" by simp
    obtain r' c' where r': "vm_read shake R fuel (max l vm_chunkSize) (r, c) = (Ok p, r', c')" "H c' (vm_wire shake a base sn (Suc k) cs')"
      "vr_at a base sn (Suc k) r'" "vr_buf r' = None"
      using vm_read_ok [where H = H, OF bs s(1,2) _ p(1) fuel big, of c shake cs'] s(3) None cs by auto
    show ?thesis
    proof (cases "vm_chunkSize \<le> l")
      case True
      have "vr_holds shake H (r', c') (concat cs')"
        by (rule vr_holdsI [where a = a and base = base and sn = sn and k = "Suc k" and cs = cs']) (use s r' p in simp_all)
      with True r'(1) None d cs p(1) show ?thesis by (simp add: vm_Read_def rc max_def sealed_ok_def split: if_splits)
    next
      case False
      let ?r = "r'\<lparr>vr_buf := Some p, vr_offset := 0\<rparr>"
      have "\<exists>out d' s'. vm_copy l (?r, c') = (Ok out, s') \<and> out \<noteq> [] \<and> length out \<le> l \<and> drop (vr_offset ?r) p @ concat cs' = out @ d' \<and> vr_holds shake H s' d'"
        by (rule vm_copy_ok [where a = a and base = base and sn = sn and k = "Suc k"])
          (use s(1) r' p l in \<open>simp_all add: vr_at_def sealed_ok_def\<close>)
      with False r'(1) None d cs p(1) show ?thesis by (simp add: vm_Read_def rc max_def sealed_ok_def split: if_splits)
    qed
  qed
next
  fix rc and l :: nat
  assume h: "vr_holds shake H rc []" and l: "0 < l"
  obtain r c where rc: "rc = (r, c)" by (rule prod.exhaust)
  from h [unfolded rc] obtain a base sn k cs where s: "body_ok a base" "vr_at a base sn k r" "H c (vm_wire shake a base sn k cs)" "list_all sealed_ok cs"
    and d: "case vr_buf r of None \<Rightarrow> [] = concat cs | Some b \<Rightarrow> vr_offset r < length b \<and> [] = drop (vr_offset r) b @ concat cs"
    by (rule vr_holdsE)
  have n: "vr_buf r = None" "concat cs = []" using d by (auto split: option.splits)
  with s(4) have cs: "cs = []" by (cases cs) (auto simp: sealed_ok_def)
  have "0 < fuel" using fuel by (simp add: vm_chunkSize_def)
  then obtain c' where c': "\<And>len. vm_read shake R fuel len (r, c) = (Err ''EOF'', r, c')" "H c' []"
    using byte_stream.ReadFull_end [OF bs, of c 2 fuel] s(3) cs by (auto simp: vm_read_def)
  have "vr_holds shake H (r, c') []"
    by (rule vr_holdsI [where a = a and base = base and sn = sn and k = k and cs = "[]"]) (use s n c'(2) in simp_all)
  then show "\<exists>s'. vm_Read shake R fuel l rc = (Err ''EOF'', s') \<and> vr_holds shake H s' []"
    using c'(1) n(1) by (cases "vm_chunkSize \<le> l") (simp_all add: vm_Read_def rc)
qed

end
