(* ===== verification/TrojanVless.thy ===== *)
theory TrojanVless
  imports Socks5 Inbound
begin

text \<open>
  Trojan (\<open>src/proxy/trojan\<close>) and VLESS (\<open>src/proxy/vless\<close>): the requests the clients send, the headers the
  servers read, and what a server does with a connection. A header that is not accepted is not an error to the peer: with a fallback configured,
  the server connects there, sends all it has read so far and relays, so that it looks like the fallback.
  \<open>tee_Read\<close> is the \<open>io.TeeReader\<close> that remembers what was read.

  TLS is the connection underneath; the hashes that make keys of passwords are parameters.
\<close>

section \<open>Reading with a memory\<close>

definition tee_Read :: "'s rd \<Rightarrow> ('s \<times> bytes) rd" where
  "tee_Read R l sl =
     (case R l (fst sl) of
        (Ok out, s') \<Rightarrow> (Ok out, (s', snd sl @ out))
      | (r, s') \<Rightarrow> (r, (s', snd sl)))"

text \<open>What was read and what is left are what there was.\<close>

definition tee_ok :: "('s \<Rightarrow> bytes \<Rightarrow> bool) \<Rightarrow> bytes \<Rightarrow> 's \<times> bytes \<Rightarrow> bool" where
  "tee_ok H d sl \<longleftrightarrow> (\<exists>rest. d = snd sl @ rest \<and> H (fst sl) rest)"

lemma tee_step:
  assumes "byte_stream R H" and "tee_ok H d sl" and "0 < l"
  shows "tee_ok H d (snd (tee_Read R l sl))"
proof -
  obtain s log where sl: "sl = (s, log)" by fastforce
  from assms(2) obtain rest where rest: "d = log @ rest" "H s rest" by (auto simp: tee_ok_def sl)
  show ?thesis
  proof (cases "rest = []")
    case True
    with byte_stream.read_end [OF assms(1), of s l] rest assms(3) show ?thesis by (auto simp: tee_Read_def sl tee_ok_def)
  next
    case False
    then obtain out d' s' where "R l s = (Ok out, s')" "rest = out @ d'" "H s' d'"
      using byte_stream.read_some [OF assms(1) rest(2) _ assms(3)] by blast
    with rest show ?thesis by (auto simp: tee_Read_def sl tee_ok_def)
  qed
qed

lemma tee_loop:
  assumes "byte_stream R H" and "tee_ok H d sl"
  shows "tee_ok H d (snd (ReadFull_loop (tee_Read R) fuel got n sl))"
  using assms(2)
proof (induction "tee_Read R" fuel got n sl rule: ReadFull_loop.induct)
  case (3 fuel got n sl)
  have ok: "tee_ok H d (snd (tee_Read R (Suc n) sl))" by (rule tee_step [OF assms(1) 3(2)]) simp
  obtain v sl' where v: "tee_Read R (Suc n) sl = (v, sl')" by (rule prod.exhaust)
  show ?case
  proof (cases v)
    case (Ok out)
    with 3(1) [of v sl' out] v ok show ?thesis by simp
  qed (use v ok in simp_all)
qed simp_all

lemma tee_run:
  assumes "byte_stream R H" and "tee_ok H d sl"
  shows "tee_ok H d (snd (run_over (tee_Read R) fuel p sl))"
  using assms(2)
proof (induction p arbitrary: sl)
  case (Recv n k)
  obtain v sl' where v: "ReadFull (tee_Read R) fuel n sl = (v, sl')" by (rule prod.exhaust)
  then have ok: "tee_ok H d sl'" using tee_loop [OF assms(1) Recv.prems, of fuel "[]" n] by (simp add: ReadFull_def)
  then show ?case using Recv.IH v by (cases v) auto
qed auto

definition tee_holds :: "('s \<Rightarrow> bytes \<Rightarrow> bool) \<Rightarrow> 's \<times> bytes \<Rightarrow> bytes \<Rightarrow> bool" where
  "tee_holds H sl d \<longleftrightarrow> H (fst sl) d"

lemma tee_stream:
  assumes "byte_stream R H"
  shows "byte_stream (tee_Read R) (tee_holds H)"
proof
  fix sl d and l :: nat
  assume "tee_holds H sl d" "d \<noteq> []" "0 < l"
  then show "\<exists>out d' s'. tee_Read R l sl = (Ok out, s') \<and> out \<noteq> [] \<and> length out \<le> l \<and> d = out @ d' \<and> tee_holds H s' d'"
    using byte_stream.read_some [OF assms, of "fst sl" d l] by (auto simp: tee_Read_def tee_holds_def)
next
  fix sl and l :: nat
  assume "tee_holds H sl []" "0 < l"
  then show "\<exists>s'. tee_Read R l sl = (Err ''EOF'', s') \<and> tee_holds H s' []"
    using byte_stream.read_end [OF assms, of "fst sl" l] by (auto simp: tee_Read_def tee_holds_def)
qed

section \<open>Trojan\<close>

record Trojan =
  tj_addr :: string
  tj_pass :: bytes
  tj_fallback :: string

definition crlf :: bytes where "crlf = [0x0D, 0x0A]"

text \<open>What \<open>dial\<close> writes. A target that cannot be parsed is left out.\<close>

definition Trojan_request :: "Trojan \<Rightarrow> string \<Rightarrow> string \<Rightarrow> bytes" where
  "Trojan_request t network addr =
     tj_pass t @ crlf @ [if network = ''udp'' then CmdUDPAssociate else CmdConnect] @
     (case Socks_ParseAddr addr of Some a \<Rightarrow> a | None \<Rightarrow> []) @ crlf"

definition Trojan_readHeader :: "Trojan \<Rightarrow> (string + u8 \<times> bytes \<Rightarrow> 'r proc) \<Rightarrow> 'r proc" where
  "Trojan_readHeader t k =
     recv_or 59 k (\<lambda>buf.
       if take 56 buf \<noteq> tj_pass t then k (Inl ''wrong password'')
       else ReadAddr (\<lambda>r. case r of
              Inl e \<Rightarrow> k (Inl e)
            | Inr tgt \<Rightarrow> recv_or 2 k (\<lambda>_. k (Inr (buf ! 58, tgt)))))"

text \<open>
  What becomes of a connection: it is closed, it is relayed to the fallback after the bytes already
  read, it is served as UDP over the connection, or it is served through a forwarder.
\<close>

datatype action = Closed | Fallback bytes "fid \<times> outcome" | UoT string | Through string "fid \<times> outcome"

text \<open>A failed write of the bytes already read ends the connection like a failed relay; neither is charged to the forwarder.\<close>

definition serve_fallback :: "serve_env \<Rightarrow> proxyState \<Rightarrow> string \<Rightarrow> bytes \<Rightarrow> world \<Rightarrow> action \<times> world" where
  "serve_fallback env s tgt head w =
     (if tgt = [] then (Closed, w)
      else let (f, w1) = Proxy_NextDialer (se_order env) s tgt w; w2 = Forwarder_Dial f (se_dial env f) w1
           in (Fallback head (f, case se_dial env f of Inl e \<Rightarrow> DialFailed e | Inr c \<Rightarrow> Relayed (se_relay env)), w2))"

definition serve_cmd :: "serve_env \<Rightarrow> proxyState \<Rightarrow> string \<Rightarrow> bool \<Rightarrow> string \<Rightarrow> world \<Rightarrow> action \<times> world" where
  "serve_cmd env s saddr udp target w =
     (let (f, w1) = Proxy_NextDialer (se_order env) s target w in
      if udp \<and> f_addr (w_fwdr w1 f) = ''DIRECT'' then (UoT target, w1)
      else let (r, w2) = serve_fwd env saddr f w1 in (Through (if udp then ''udp'' else ''tcp'') r, w2))"

definition Trojan_Serve :: "Trojan \<Rightarrow> 'c rd \<Rightarrow> nat \<Rightarrow> serve_env \<Rightarrow> proxyState \<Rightarrow> 'c \<Rightarrow> world \<Rightarrow> (action \<times> world) res \<times> 'c \<times> bytes" where
  "Trojan_Serve t R fuel env s c w =
     bind_st (run_over (tee_Read R) fuel (Trojan_readHeader t Done) (c, [])) (\<lambda>r ch.
       case r of
         Inl e \<Rightarrow> (Ok (serve_fallback env s (tj_fallback t) (snd ch) w), ch)
       | Inr (cmd, tgt) \<Rightarrow>
           (case Addr_String tgt of
              None \<Rightarrow> (Panic, ch)
            | Some target \<Rightarrow> (Ok (serve_cmd env s (tj_addr t) (cmd = CmdUDPAssociate) target w), ch)))"

section \<open>VLESS\<close>

record VLess =
  vl_addr :: string
  vl_uuid :: bytes
  vl_fallback :: string

definition vl_Version :: u8 where "vl_Version = 0"
definition vl_CmdTCP :: u8 where "vl_CmdTCP = 1"
definition vl_CmdUDP :: u8 where "vl_CmdUDP = 2"

fun hex_Decode :: "string \<Rightarrow> bytes option" where
  "hex_Decode [] = Some []"
| "hex_Decode [c] = None"
| "hex_Decode (a # b # r) =
     (case (hex_val a, hex_val b) of
        (Some x, Some y) \<Rightarrow> map_option ((#) (of_nat (16 * x + y))) (hex_Decode r)
      | _ \<Rightarrow> None)"

text \<open>A name of up to thirty characters is hashed, anything else is the hexadecimal text of the identifier.\<close>

definition StrToUUID :: "(bytes \<Rightarrow> bytes) \<Rightarrow> string \<Rightarrow> bytes option" where
  "StrToUUID sha1 s =
     (if 1 \<le> length s \<and> length s \<le> 30 then
        let u = take 16 (sha1 (replicate 16 0 @ to_bytes s));
            u1 = u[6 := ((u ! 6) AND 0x0f) OR 0x50]
        in Some (u1[8 := ((u1 ! 8) AND 0x3f) OR 0x80])
      else let b = filter (\<lambda>c. c \<noteq> CHR ''-'') s in if length b \<noteq> 32 then None else hex_Decode b)"

text \<open>The request of \<open>NewClientConn\<close>.\<close>

definition VLess_request :: "bytes \<Rightarrow> string \<Rightarrow> string \<Rightarrow> bytes option" where
  "VLess_request uuid network target =
     map_option (\<lambda>x. [vl_Version] @ uuid @ [0] @ [if network = ''udp'' then vl_CmdUDP else vl_CmdTCP] @ vless_addr x)
       (Vless_ParseAddr target)"

text \<open>The addons are skipped with \<open>CopyN\<close>, whose result is ignored.\<close>

definition VLess_readHeader :: "VLess \<Rightarrow> (string + u8 \<times> string \<Rightarrow> 'r proc) \<Rightarrow> 'r proc" where
  "VLess_readHeader v k =
     recv_or 18 k (\<lambda>buf.
       if buf ! 0 \<noteq> vl_Version then k (Inl ''version not supported'')
       else if vl_uuid v \<noteq> take 16 (drop 1 buf) then k (Inl ''auth failed'')
       else
         let rest = recv_or 1 k (\<lambda>b. Vless_ReadAddrString (\<lambda>r. case r of Inl e \<Rightarrow> k (Inl e) | Inr target \<Rightarrow> k (Inr (hd b, target))))
         in if buf ! 17 \<noteq> 0 then Recv (unat (buf ! 17)) (\<lambda>_. rest) else rest)"

definition VLess_Serve :: "VLess \<Rightarrow> 'c rd \<Rightarrow> nat \<Rightarrow> serve_env \<Rightarrow> proxyState \<Rightarrow> 'c \<Rightarrow> world \<Rightarrow> (action \<times> world) res \<times> 'c \<times> bytes" where
  "VLess_Serve v R fuel env s c w =
     bind_st (run_over (tee_Read R) fuel (VLess_readHeader v Done) (c, [])) (\<lambda>r ch.
       case r of
         Inl e \<Rightarrow> (Ok (serve_fallback env s (vl_fallback v) (snd ch) w), ch)
       | Inr (cmd, target) \<Rightarrow> (Ok (serve_cmd env s (vl_addr v) (cmd = vl_CmdUDP) target w), ch))"

text \<open>The server's answer starts with a version and no addons, in front of the first data; the client takes them off before its first read.\<close>

definition ServerConn_Write :: "bool \<Rightarrow> bytes \<Rightarrow> bytes \<times> bool" where
  "ServerConn_Write sent b = (if \<not> sent then [vl_Version, 0] @ b else b, True)"

definition ClientConn_Read :: "'c rd \<Rightarrow> nat \<Rightarrow> nat \<Rightarrow> bool \<times> 'c \<Rightarrow> bytes res \<times> bool \<times> 'c" where
  "ClientConn_Read R fuel l rc =
     (if fst rc then apsnd (Pair True) (R l (snd rc))
      else case ReadFull R fuel 2 (snd rc) of
             (Ok buf, c) \<Rightarrow>
               if buf ! 0 \<noteq> vl_Version then (Err ''version not supported'', False, c)
               else let c' = (if 0 < unat (buf ! 1) then snd (CopyN R (\<lambda>i b. (length b, None)) (unat (buf ! 1)) fuel c) else c)
                    in apsnd (Pair True) (R l c')
           | (Err e, c) \<Rightarrow> (Err e, False, c)
           | (Panic, c) \<Rightarrow> (Panic, False, c)
           | (Diverge, c) \<Rightarrow> (Diverge, False, c))"

primrec ServerConn_writes :: "bool \<Rightarrow> bytes list \<Rightarrow> bytes" where
  "ServerConn_writes sent [] = []"
| "ServerConn_writes sent (b # bs) = (let (out, sent') = ServerConn_Write sent b in out @ ServerConn_writes sent' bs)"

text \<open>Datagrams on the connection.\<close>

definition VLess_WriteTo :: "bytes \<Rightarrow> bytes" where
  "VLess_WriteTo b = be16 (of_nat (length b)) @ b"

definition VLess_ReadFrom :: "nat \<Rightarrow> (string + bytes \<Rightarrow> 'r proc) \<Rightarrow> 'r proc" where
  "VLess_ReadFrom room k =
     (if room < 2 then k (Inl ''buf size is not enough'')
      else recv_or 2 k (\<lambda>l.
        let length = unat (be16_of (l ! 0) (l ! 1)) in
        if room < length then k (Inl ''buf size is not enough'') else recv_or length k (\<lambda>d. k (Inr d))))"

section \<open>What the servers accept\<close>

lemma eats_Trojan_readHeader:
  assumes "length (tj_pass t) = 56" and "wf_addr a"
  shows "eats (Trojan_readHeader t k) ((tj_pass t @ crlf @ [cmd]) @ a @ crlf) (k (Inr (cmd, a)))"
proof -
  let ?buf = "tj_pass t @ crlf @ [cmd]"
  have "?buf ! 58 = cmd" using assms(1) by (simp add: nth_append crlf_def)
  then have "eats (recv_or 2 k (\<lambda>_. k (Inr (?buf ! 58, a)))) crlf (k (Inr (cmd, a)))"
    by (intro eats_last) (simp_all add: crlf_def)
  then have "eats (ReadAddr (\<lambda>r. case r of Inl e \<Rightarrow> k (Inl e) | Inr tgt \<Rightarrow> recv_or 2 k (\<lambda>_. k (Inr (?buf ! 58, tgt))))) (a @ crlf) (k (Inr (cmd, a)))"
    by (intro eats_trans [OF eats_ReadAddr [OF assms(2)]]) simp
  moreover have "length ?buf = 59" "take 56 ?buf = tj_pass t" using assms(1) by (simp_all add: crlf_def)
  ultimately show ?thesis unfolding Trojan_readHeader_def by (intro eats_recv_or) (simp_all del: append_assoc)
qed

lemma served_header:
  assumes "byte_stream R H" and "eats p a (Done r)" and "H c (a @ rest)" and "length a \<le> fuel"
  shows "\<exists>c' head. run_over (tee_Read R) fuel p (c, []) = (Ok r, c', head) \<and> H c' rest"
  using byte_stream.eats_over [OF tee_stream [OF assms(1)] assms(2), of "(c, [])" rest fuel] assms(3,4)
  by (auto simp: tee_holds_def)

text \<open>
  C29. Trojan end to end. A server with the client's password, reading whatever the client of a dial to \<open>h:p\<close> has sent, in any portions, serves the target
  \<open>h:p\<close> for the network that was asked for, and what is left of the connection is just the data that follows the request.
\<close>

theorem trojan_end_to_end:
  assumes "length (tj_pass t) = 56" and "plain_host h" and "p < 65536" and "target = JoinHostPort h (dec p)"
    and "in_bytes c = Trojan_request t network target @ data" and "320 \<le> fuel"
  shows "\<exists>c' head. Trojan_Serve t conn_Read fuel env s c w = (Ok (serve_cmd env s (tj_addr t) (network = ''udp'') target w), c', head) \<and>
    in_bytes c' = data"
proof -
  obtain a where a: "Socks_ParseAddr target = Some a" "Addr_String a = Some target"
    using Socks_ParseAddr_string [OF assms(2,3)] assms(4) by blast
  have wf: "wf_addr a" using Socks_ParseAddr_wf [OF a(1)] .
  let ?cmd = "if network = ''udp'' then CmdUDPAssociate else CmdConnect"
  have req: "Trojan_request t network target = (tj_pass t @ crlf @ [?cmd]) @ a @ crlf"
    by (simp add: Trojan_request_def a(1))
  have "length (Trojan_request t network target) \<le> fuel"
    using wf_addr_length [OF wf] assms(1,6) by (simp add: req crlf_def)
  moreover have "conn_holds c (Trojan_request t network target @ data)" using assms(5) by (simp add: conn_holds_def)
  ultimately obtain c' head where "run_over (tee_Read conn_Read) fuel (Trojan_readHeader t Done) (c, []) = (Ok (Inr (?cmd, a)), c', head)" "conn_holds c' data"
    using served_header [OF socket.byte_stream_axioms eats_Trojan_readHeader [OF assms(1) wf, of Done ?cmd], folded req] by blast
  then show ?thesis
    by (simp add: Trojan_Serve_def a(2) conn_holds_def socks5_consts)
qed

theorem trojan_end_to_end_witness:
  "\<exists>c' head. Trojan_Serve \<lparr>tj_addr = '':443'', tj_pass = replicate 56 97, tj_fallback = ''''\<rparr> conn_Read 400
      \<lparr>se_order = [], se_dial = (\<lambda>_. Inr 1), se_relay = None\<rparr> no_rules
      \<lparr>in_bytes = Trojan_request \<lparr>tj_addr = ''s:443'', tj_pass = replicate 56 97, tj_fallback = ''''\<rparr> ''tcp'' ''a.com:80'' @ [1, 2], in_segs = [3]\<rparr> one_forwarder =
      (Ok (serve_cmd \<lparr>se_order = [], se_dial = (\<lambda>_. Inr 1), se_relay = None\<rparr> no_rules '':443'' False ''a.com:80'' one_forwarder), c', head) \<and>
     in_bytes c' = [1, 2]"
proof -
  have tgt: "''a.com:80'' = JoinHostPort ''a.com'' (dec 80)"
    by (simp add: JoinHostPort_def dec.simps char_of_def bit_iff_odd)
  let ?t = "\<lparr>tj_addr = '':443'', tj_pass = replicate 56 97, tj_fallback = ''''\<rparr>"
  let ?c = "\<lparr>in_bytes = Trojan_request \<lparr>tj_addr = ''s:443'', tj_pass = replicate 56 97, tj_fallback = ''''\<rparr> ''tcp'' ''a.com:80'' @ [1, 2], in_segs = [3]\<rparr>"
  have "in_bytes ?c = Trojan_request ?t ''tcp'' ''a.com:80'' @ [1, 2]" by (simp add: Trojan_request_def)
  from trojan_end_to_end [OF _ sample_plain _ tgt this, of 400 "\<lparr>se_order = [], se_dial = (\<lambda>_. Inr 1), se_relay = None\<rparr>" no_rules one_forwarder]
  show ?thesis by simp
qed

text \<open>
  C30. An unwelcome connection becomes one to the fallback. Whatever a peer sends that does not begin with the password, however short, the server connects to its fallback,
  through the forwarder its rules name, and the bytes it sends there first followed by those it then relays are exactly what the peer
  sent: not a byte is swallowed.
\<close>

theorem trojan_fallback:
  assumes "length (tj_pass t) = 56" and "take 56 (in_bytes c) \<noteq> tj_pass t" and "60 \<le> fuel" and "tj_fallback t \<noteq> []"
  shows "\<exists>head out w' c'. Trojan_Serve t conn_Read fuel env s c w =
      (Ok (Fallback head (fst (NextDialer (findDialer (se_order env) s (tj_fallback t)) (tj_fallback t) w), out), w'), c', head) \<and>
    in_bytes c = head @ in_bytes c'"
proof -
  note tee = tee_stream [OF socket.byte_stream_axioms]
  have h: "tee_holds conn_holds (c, []) (in_bytes c)" by (simp add: tee_holds_def conn_holds_def)
  obtain e c' head where r: "run_over (tee_Read conn_Read) fuel (Trojan_readHeader t Done) (c, []) = (Ok (Inl e), c', head)"
  proof (cases "length (in_bytes c) < 59")
    case True
    with byte_stream.ReadFull_short [OF tee h, of 59 fuel] assms(3) that show thesis
      by (fastforce simp: Trojan_readHeader_def recv_or_def)
  next
    case False
    obtain ch where ch: "ReadFull (tee_Read conn_Read) fuel 59 (c, []) = (Ok (take 59 (in_bytes c)), ch)"
      using byte_stream.ReadFull_take [OF tee h, of 59 fuel] False assms(3) by auto
    moreover have "take 56 (take 59 (in_bytes c)) \<noteq> tj_pass t" using assms(2) by (simp add: min_def)
    ultimately have "run_over (tee_Read conn_Read) fuel (Trojan_readHeader t Done) (c, []) = (Ok (Inl ''wrong password''), ch)"
      by (simp add: Trojan_readHeader_def recv_or_def)
    then show thesis using that by (metis surj_pair)
  qed
  have "tee_ok conn_holds (in_bytes c) (c, [])" by (simp add: tee_ok_def conn_holds_def)
  from tee_run [OF socket.byte_stream_axioms this, of fuel "Trojan_readHeader t Done"] r
  have "in_bytes c = head @ in_bytes c'" by (auto simp: tee_ok_def conn_holds_def)
  then show ?thesis
    using r assms(4) by (simp add: Trojan_Serve_def serve_fallback_def Proxy_NextDialer_def case_prod_beta)
qed

theorem trojan_fallback_witness:
  "\<exists>head out w' c'. Trojan_Serve \<lparr>tj_addr = '':443'', tj_pass = replicate 56 97, tj_fallback = ''a.com:80''\<rparr> conn_Read 100
      \<lparr>se_order = [], se_dial = (\<lambda>_. Inr 1), se_relay = None\<rparr> no_rules \<lparr>in_bytes = [71, 69, 84], in_segs = []\<rparr> one_forwarder =
      (Ok (Fallback head (0, out), w'), c', head) \<and> [71, 69, 84] = head @ in_bytes c'"
proof -
  have "fst (NextDialer g ''a.com:80'' one_forwarder) = 0" for g
    by (simp add: NextDialer_def nextDialer_def one_forwarder_def sample_group_def scheduleHA_def)
  with trojan_fallback [of "\<lparr>tj_addr = '':443'', tj_pass = replicate 56 97, tj_fallback = ''a.com:80''\<rparr>" "\<lparr>in_bytes = [71, 69, 84], in_segs = []\<rparr>" 100
      "\<lparr>se_order = [], se_dial = (\<lambda>_. Inr 1), se_relay = None\<rparr>" no_rules one_forwarder]
  show ?thesis by (simp add: numeral_eq_Suc)
qed

subsection \<open>VLESS\<close>

lemma Vless_ParseAddr_some:
  assumes "plain_host h" and "p < 65536"
  shows "\<exists>x. Vless_ParseAddr (JoinHostPort h (dec p)) = Some x"
  using ParseUint_dec [of p 16] SplitHostPort_plain [OF assms(1)] assms
  by (auto simp: Vless_ParseAddr_def plain_host_def ParseAddr_dotted split: option.splits)

lemma vless_addr_length:
  assumes "plain_host h" and "p < 65536" and "Vless_ParseAddr (JoinHostPort h (dec p)) = Some x"
  shows "length (vless_addr x) \<le> 259"
  using assms SplitHostPort_plain [OF assms(1)]
  by (auto simp: Vless_ParseAddr_def vless_addr_def plain_host_def ParseAddr_dotted be16_def split: if_splits option.splits prod.splits)

lemma eats_VLess_readHeader:
  assumes "length (vl_uuid v) = 16" and "length addons = unat n" and "eats (Vless_ReadAddrString k') a (k' (Inr target))"
    and "k' = (\<lambda>r. case r of Inl e \<Rightarrow> k (Inl e) | Inr target \<Rightarrow> k (Inr (cmd, target)))"
  shows "eats (VLess_readHeader v k) ((vl_Version # vl_uuid v @ [n]) @ addons @ [cmd] @ a) (k (Inr (cmd, target)))"
proof -
  let ?buf = "vl_Version # vl_uuid v @ [n]"
  have buf: "?buf ! 0 = vl_Version" "?buf ! 17 = n" "take 16 (drop 1 ?buf) = vl_uuid v" "length ?buf = 18"
    using assms(1) by (simp_all add: nth_append nth_Cons')
  let ?rest = "recv_or 1 k (\<lambda>b. Vless_ReadAddrString (\<lambda>r. case r of Inl e \<Rightarrow> k (Inl e) | Inr target \<Rightarrow> k (Inr (hd b, target))))"
  have rest: "eats ?rest ([cmd] @ a) (k (Inr (cmd, target)))"
    using assms(3) unfolding assms(4) sum.case
    by (intro eats_recv_or) (simp, unfold list.sel(1))
  have "eats (if n \<noteq> 0 then Recv (unat n) (\<lambda>_. ?rest) else ?rest) (addons @ [cmd] @ a) (k (Inr (cmd, target)))"
    using rest assms(2) by (auto intro: eats_recv)
  then show ?thesis unfolding VLess_readHeader_def Let_def
    by (intro eats_recv_or) (simp_all only: buf simp_thms if_False)
qed

text \<open>The client's side of a connection holds the data once the answer's header, whatever its addons, has been taken off.\<close>

definition vl_holds :: "('c \<Rightarrow> bytes \<Rightarrow> bool) \<Rightarrow> bool \<times> 'c \<Rightarrow> bytes \<Rightarrow> bool" where
  "vl_holds H rc d \<longleftrightarrow> (if fst rc then H (snd rc) d else \<exists>n addons. H (snd rc) ([vl_Version, n] @ addons @ d) \<and> length addons = unat n)"

lemma ClientConn_Read_strip:
  assumes "byte_stream R H" and "256 < fuel" and "vl_holds H rc d"
  shows "\<exists>c'. ClientConn_Read R fuel l rc = apsnd (Pair True) (R l c') \<and> H c' d"
proof (cases "fst rc")
  case True
  then show ?thesis using assms(3) by (auto simp: ClientConn_Read_def vl_holds_def)
next
  case False
  then obtain n addons where h: "H (snd rc) ([vl_Version, n] @ addons @ d)" "length addons = unat n"
    using assms(3) by (auto simp: vl_holds_def)
  have "length [vl_Version, n] \<le> fuel" using assms(2) by simp
  from byte_stream.ReadFull_ok [OF assms(1) h(1) this]
  obtain c where c: "ReadFull R fuel 2 (snd rc) = (Ok [vl_Version, n], c)" "H c (addons @ d)"
    by (auto simp: numeral_2_eq_2)
  have "unat n < 256" using unsigned_less [of n] by simp
  then have "length addons < fuel" using h(2) assms(2) by simp
  from CopyN_ok [OF assms(1) _ c(2) this, of "\<lambda>i b. (length b, None)"]
  have "\<exists>c'. CopyN R (\<lambda>i b. (length b, None)) (unat n) fuel c = (Ok (addons, None), c') \<and> H c' d"
    by (simp add: takes_all_def h(2))
  then show ?thesis using False c h(2) by (auto simp: ClientConn_Read_def)
qed

lemma ClientConn_stream:
  assumes "byte_stream R H" and "256 < fuel"
  shows "byte_stream (ClientConn_Read R fuel) (vl_holds H)"
proof
  fix rc d and l :: nat assume h: "vl_holds H rc d" and "d \<noteq> []" "0 < l"
  obtain c' where c': "ClientConn_Read R fuel l rc = apsnd (Pair True) (R l c')" "H c' d"
    using ClientConn_Read_strip [OF assms h] by blast
  with byte_stream.read_some [OF assms(1) c'(2) \<open>d \<noteq> []\<close> \<open>0 < l\<close>]
  show "\<exists>out d' s'. ClientConn_Read R fuel l rc = (Ok out, s') \<and> out \<noteq> [] \<and> length out \<le> l \<and> d = out @ d' \<and> vl_holds H s' d'"
    by (force simp: vl_holds_def)
next
  fix rc and l :: nat assume h: "vl_holds H rc []" and "0 < l"
  obtain c' where c': "ClientConn_Read R fuel l rc = apsnd (Pair True) (R l c')" "H c' []"
    using ClientConn_Read_strip [OF assms h] by blast
  with byte_stream.read_end [OF assms(1) c'(2) \<open>0 < l\<close>]
  show "\<exists>s'. ClientConn_Read R fuel l rc = (Err ''EOF'', s') \<and> vl_holds H s' []"
    by (force simp: vl_holds_def)
qed

lemma ServerConn_writes_sent: "ServerConn_writes True bs = concat bs"
  by (induction bs) (simp_all add: ServerConn_Write_def)

lemma vless_answer:
  assumes "in_bytes c = ServerConn_writes False (b # bs)" and "256 < fuel" and "\<forall>l \<in> set ls. 0 < l"
    and "run_reads (ClientConn_Read conn_Read fuel) ls (False, c) = (outs, e)"
  shows "\<exists>d'. concat (b # bs) = concat outs @ d' \<and> (length (concat (b # bs)) < length ls \<longrightarrow> d' = [] \<and> e = Some ''EOF'')"
proof -
  have "vl_holds conn_holds (False, c) (concat (b # bs))"
    using assms(1) by (auto simp: vl_holds_def conn_holds_def ServerConn_Write_def ServerConn_writes_sent intro: exI [of _ 0])
  from byte_stream.reads_deliver [OF ClientConn_stream [OF socket.byte_stream_axioms assms(2)] this assms(3,4)] show ?thesis .
qed

lemma vless_served:
  assumes "length (vl_uuid v) = 16" and "plain_host h" and "p < 65536" and "target = JoinHostPort h (dec p)"
    and "VLess_request (vl_uuid v) network target = Some req" and "in_bytes c = req @ data" and "300 \<le> fuel"
  shows "\<exists>c' head. VLess_Serve v conn_Read fuel env s c w = (Ok (serve_cmd env s (vl_addr v) (network = ''udp'') target w), c', head) \<and>
    in_bytes c' = data"
proof -
  obtain x where x: "Vless_ParseAddr target = Some x" using Vless_ParseAddr_some [OF assms(2,3)] assms(4) by blast
  let ?cmd = "if network = ''udp'' then vl_CmdUDP else vl_CmdTCP"
  have req: "req = (vl_Version # vl_uuid v @ [0]) @ [] @ [?cmd] @ vless_addr x"
    using assms(5) x by (simp add: VLess_request_def)
  have e: "eats (VLess_readHeader v Done) req (Done (Inr (?cmd, target)))"
    unfolding req using vless_roundtrip [OF assms(2,3), folded assms(4), OF x]
    by (rule eats_VLess_readHeader [OF assms(1) _ _ refl, rotated]) simp
  have l: "length req \<le> fuel"
    using vless_addr_length [OF assms(2,3), folded assms(4), OF x] assms(1,7) by (simp add: req)
  have "conn_holds c (req @ data)" using assms(6) by (simp add: conn_holds_def)
  from served_header [OF socket.byte_stream_axioms e this l]
  obtain c' head where "run_over (tee_Read conn_Read) fuel (VLess_readHeader v Done) (c, []) = (Ok (Inr (?cmd, target)), c', head)" "conn_holds c' data"
    by blast
  then show ?thesis by (simp add: VLess_Serve_def conn_holds_def vl_CmdTCP_def vl_CmdUDP_def)
qed

text \<open>A datagram that fits the reader's buffer and 16 bits is read back as it was written.\<close>

lemma eats_VLess_packet:
  assumes "length b < 65536" and "length b \<le> room" and "2 \<le> room"
  shows "eats (VLess_ReadFrom room k) (VLess_WriteTo b) (k (Inr b))"
proof -
  have "unat (be16_of (be16 (of_nat (length b)) ! 0) (be16 (of_nat (length b)) ! 1)) = length b"
    using assms(1) unat_of_nat_small [of "length b", where 'a = 16] be16_of_be16 [of "of_nat (length b)"] by (simp add: be16_def)
  then have "eats (let length = unat (be16_of (be16 (of_nat (length b)) ! 0) (be16 (of_nat (length b)) ! 1)) in
      if room < length then k (Inl ''buf size is not enough'') else recv_or length k (\<lambda>d. k (Inr d))) b (k (Inr b))"
    using assms(2) by (auto intro: eats_last)
  with assms(3) show ?thesis unfolding VLess_ReadFrom_def VLess_WriteTo_def
    by (simp add: eats_recv_or)
qed

text \<open>
  C31. VLESS end to end. A server with the client's identifier, reading the request of a dial to \<open>h:p\<close> in any
  portions, serves that target for the network asked for and leaves just the data that follows; and whatever it then writes,
  the client's reads, of any sizes, return exactly that in order, without the header the server puts in front of
  its first write.
\<close>

theorem vless_end_to_end:
  assumes "length (vl_uuid v) = 16" and "plain_host h" and "p < 65536" and "target = JoinHostPort h (dec p)"
    and "VLess_request (vl_uuid v) network target = Some req" and "in_bytes c = req @ data" and "300 \<le> fuel"
    and "in_bytes c2 = ServerConn_writes False (b # bs)" and "\<forall>l \<in> set ls. 0 < l"
    and "run_reads (ClientConn_Read conn_Read fuel) ls (False, c2) = (outs, e)"
  shows "(\<exists>c' head. VLess_Serve v conn_Read fuel env s c w = (Ok (serve_cmd env s (vl_addr v) (network = ''udp'') target w), c', head) \<and>
      in_bytes c' = data) \<and>
    (\<exists>d'. concat (b # bs) = concat outs @ d' \<and> (length (concat (b # bs)) < length ls \<longrightarrow> d' = [] \<and> e = Some ''EOF''))"
  using vless_served [OF assms(1-7)] vless_answer [OF assms(8) _ assms(9,10)] assms(7) by simp

theorem vless_end_to_end_witness:
  "\<exists>req c' head. VLess_request (replicate 16 7) ''tcp'' ''a.com:80'' = Some req \<and>
     VLess_Serve \<lparr>vl_addr = '':443'', vl_uuid = replicate 16 7, vl_fallback = ''''\<rparr> conn_Read 400
      \<lparr>se_order = [], se_dial = (\<lambda>_. Inr 1), se_relay = None\<rparr> no_rules \<lparr>in_bytes = req @ [1, 2], in_segs = [3]\<rparr> one_forwarder =
      (Ok (serve_cmd \<lparr>se_order = [], se_dial = (\<lambda>_. Inr 1), se_relay = None\<rparr> no_rules '':443'' False ''a.com:80'' one_forwarder), c', head) \<and>
     in_bytes c' = [1, 2]"
proof -
  have tgt: "''a.com:80'' = JoinHostPort ''a.com'' (dec 80)"
    by (simp add: JoinHostPort_def dec.simps char_of_def bit_iff_odd)
  obtain x where "Vless_ParseAddr ''a.com:80'' = Some x"
    using Vless_ParseAddr_some [OF sample_plain, of 80] by (auto simp flip: tgt)
  then obtain req where req: "VLess_request (replicate 16 7) ''tcp'' ''a.com:80'' = Some req" by (simp add: VLess_request_def)
  let ?v = "\<lparr>vl_addr = '':443'', vl_uuid = replicate 16 7, vl_fallback = ''''\<rparr>"
  have r: "run_reads (ClientConn_Read conn_Read 400) [] (False, \<lparr>in_bytes = ServerConn_writes False [[9]], in_segs = []\<rparr>) = ([], None)" by simp
  from vless_end_to_end [of ?v "''a.com''" 80, OF _ sample_plain _ tgt _ _ _ _ _ r, of "''tcp''" req "\<lparr>in_bytes = req @ [1, 2], in_segs = [3]\<rparr>" "[1, 2]" "[9]" "[]"
      "\<lparr>se_order = [], se_dial = (\<lambda>_. Inr 1), se_relay = None\<rparr>" no_rules one_forwarder] req
  show ?thesis by simp
qed

end
