(* ===== verification/Vmess.thy ===== *)
theory Vmess
  imports VmessBody TrojanVless
begin

unbundle bit_operations_syntax

text \<open>
  The VMess client: users (\<open>src/proxy/vmess/user.go\<close>), the sealed headers (\<open>auth.go\<close>) and the connection (\<open>client.go\<close>) over the body of
  \<open>VmessBody\<close>. The hash functions, AES and the AEADs are a record of parameters, \<open>vm_crypto\<close>; what is random
  or read from the clock is a record of arguments. \<open>ParseAddr\<close> of \<open>addr.go\<close> is the one of VLESS.

  \<open>vn_stream\<close> shows that a connection is a byte stream of the server's data, whatever its security. \<open>vmess_answer_read\<close> puts the writer of the
  same code at the other end, and \<open>vmess_request_ok\<close> is about the request as the holder of the key opens it.
\<close>

record vm_crypto =
  vc_sha256 :: "bytes \<Rightarrow> bytes"
  vc_md5 :: "bytes \<Rightarrow> bytes"
  vc_gcm :: "bytes \<Rightarrow> AEAD"
  vc_chacha :: "bytes \<Rightarrow> AEAD"
  vc_cfb :: "bool \<Rightarrow> bytes \<Rightarrow> bytes \<Rightarrow> bytes \<Rightarrow> bytes"
  vc_aes :: "bytes \<Rightarrow> bytes \<Rightarrow> bytes"
  vc_crc32 :: "bytes \<Rightarrow> u32"
  vc_shake :: shake

definition be64 :: "u64 \<Rightarrow> bytes" where
  "be64 w = be32 (ucast (drop_bit 32 w)) @ be32 (ucast w)"

section \<open>Users\<close>

record User =
  us_UUID :: bytes
  us_CmdKey :: bytes

definition GetKey :: "vm_crypto \<Rightarrow> bytes \<Rightarrow> bytes" where
  "GetKey cr uuid = vc_md5 cr (uuid @ to_bytes ''c48619fe-8f02-49e0-b9e9-edf763e17e21'')"

definition NewUser :: "vm_crypto \<Rightarrow> bytes \<Rightarrow> User" where
  "NewUser cr uuid = \<lparr>us_UUID = uuid, us_CmdKey = take 16 (GetKey cr uuid)\<rparr>"

text \<open>The loop ends with the first hash that differs from the old identifier.\<close>

primrec nextID_loop :: "vm_crypto \<Rightarrow> nat \<Rightarrow> bytes \<Rightarrow> bytes \<Rightarrow> bytes option" where
  "nextID_loop cr 0 written oldID = None"
| "nextID_loop cr (Suc fuel) written oldID =
     (let newID = vc_md5 cr written in
      if oldID \<noteq> newID then Some newID
      else nextID_loop cr fuel (written @ to_bytes ''533eff8a-4113-4b10-b5ce-0f5d76b98cd2'') oldID)"

definition nextID :: "vm_crypto \<Rightarrow> nat \<Rightarrow> bytes \<Rightarrow> bytes option" where
  "nextID cr fuel oldID = nextID_loop cr fuel (oldID @ to_bytes ''16167dc8-16b6-4e6d-b8bb-65dd68113a81'') oldID"

primrec alter_loop :: "vm_crypto \<Rightarrow> nat \<Rightarrow> nat \<Rightarrow> bytes \<Rightarrow> bytes \<Rightarrow> User list option" where
  "alter_loop cr fuel 0 key preID = Some []"
| "alter_loop cr fuel (Suc n) key preID =
     (case nextID cr fuel preID of
        None \<Rightarrow> None
      | Some newID \<Rightarrow> map_option ((#) \<lparr>us_UUID = newID, us_CmdKey = key\<rparr>) (alter_loop cr fuel n key newID))"

definition GenAlterIDUsers :: "vm_crypto \<Rightarrow> nat \<Rightarrow> nat \<Rightarrow> User \<Rightarrow> User list option" where
  "GenAlterIDUsers cr fuel alterID u = alter_loop cr fuel alterID (us_CmdKey u) (us_UUID u)"

definition TimestampHash :: "vm_crypto \<Rightarrow> u64 \<Rightarrow> bytes" where
  "TimestampHash cr t = vc_md5 cr (be64 t @ be64 t @ be64 t @ be64 t)"

section \<open>Sealed headers\<close>

definition hmac :: "(bytes \<Rightarrow> bytes) \<Rightarrow> bytes \<Rightarrow> bytes \<Rightarrow> bytes" where
  "hmac h key msg =
     (let k = (if 64 < length key then h key else key); pad = k @ replicate (64 - length k) 0
      in h (map (\<lambda>b. b XOR 0x5c) pad @ h (map (\<lambda>b. b XOR 0x36) pad @ msg)))"

text \<open>The hash of each element of the path is an HMAC over the one before (\<open>hMacCreator\<close>).\<close>

definition hMacCreator :: "vm_crypto \<Rightarrow> bytes list \<Rightarrow> bytes \<Rightarrow> bytes" where
  "hMacCreator cr path = fold (\<lambda>v h. hmac h v) path (hmac (vc_sha256 cr) (to_bytes ''VMess AEAD KDF''))"

definition kdf :: "vm_crypto \<Rightarrow> bytes \<Rightarrow> bytes list \<Rightarrow> bytes" where
  "kdf cr key path = hMacCreator cr path key"

definition createAuthID :: "vm_crypto \<Rightarrow> bytes \<Rightarrow> u64 \<Rightarrow> bytes \<Rightarrow> bytes" where
  "createAuthID cr cmdKey time random =
     (let buf = be64 time @ random
      in vc_aes cr (take 16 (kdf cr cmdKey [to_bytes ''AES Auth ID Encryption''])) (buf @ be32 (vc_crc32 cr buf)))"

definition header_seal :: "vm_crypto \<Rightarrow> bytes \<Rightarrow> string \<Rightarrow> string \<Rightarrow> bytes \<Rightarrow> bytes \<Rightarrow> bytes \<Rightarrow> bytes" where
  "header_seal cr key keySalt ivSalt authID nonce data =
     ae_Seal (vc_gcm cr (take 16 (kdf cr key [to_bytes keySalt, authID, nonce]))) (take 12 (kdf cr key [to_bytes ivSalt, authID, nonce])) data authID"

definition sealVMessAEADHeader :: "vm_crypto \<Rightarrow> bytes \<Rightarrow> bytes \<Rightarrow> u64 \<Rightarrow> bytes \<Rightarrow> bytes \<Rightarrow> bytes" where
  "sealVMessAEADHeader cr key data time random nonce =
     (let authID = createAuthID cr key time random
      in authID @
         header_seal cr key ''VMess Header AEAD Key_Length'' ''VMess Header AEAD Nonce_Length'' authID nonce (be16 (of_nat (length data))) @
         nonce @
         header_seal cr key ''VMess Header AEAD Key'' ''VMess Header AEAD Nonce'' authID nonce data)"

text \<open>The length is sixteen bits wide, also after adding the overhead.\<close>

definition openVMessAEADHeader :: "vm_crypto \<Rightarrow> (nat \<Rightarrow> 'c \<Rightarrow> bytes res \<times> 'c) \<Rightarrow> nat \<Rightarrow> bytes \<Rightarrow> bytes \<Rightarrow> 'c \<Rightarrow> bytes res \<times> 'c" where
  "openVMessAEADHeader cr R fuel key iv c =
     bind_st (ReadFull R fuel 18 c) (\<lambda>el c.
       case ae_Open (vc_gcm cr (take 16 (kdf cr key [to_bytes ''AEAD Resp Header Len Key'']))) (take 12 (kdf cr iv [to_bytes ''AEAD Resp Header Len IV''])) el [] of
         None \<Rightarrow> (Err ''cipher: message authentication failed'', c)
       | Some l \<Rightarrow>
           bind_st (ReadFull R fuel (unat (be16_of (l ! 0) (l ! 1) + 16)) c) (\<lambda>eb c.
             case ae_Open (vc_gcm cr (take 16 (kdf cr key [to_bytes ''AEAD Resp Header Key'']))) (take 12 (kdf cr iv [to_bytes ''AEAD Resp Header IV''])) eb [] of
               None \<Rightarrow> (Err ''cipher: message authentication failed'', c)
             | Some b \<Rightarrow> (Ok b, c)))"

section \<open>The connection\<close>

definition OptChunkStream :: u8 where "OptChunkStream = 1"
definition OptChunkMasking :: u8 where "OptChunkMasking = 4"
definition SecurityAES128GCM :: u8 where "SecurityAES128GCM = 3"
definition SecurityChacha20Poly1305 :: u8 where "SecurityChacha20Poly1305 = 4"
definition SecurityNone :: u8 where "SecurityNone = 5"

record VmClient =
  vm_users :: "User list"
  vm_opt :: u8
  vm_aead :: bool
  vm_security :: u8

datatype data_writer = RawWriter | PlainWriter ShakeSizeParser | SealedWriter aeadWriter
datatype data_reader = RawReader | PlainReader chunkedReader | SealedReader aeadReader

record VmConn =
  vn_user :: User
  vn_opt :: u8
  vn_aead :: bool
  vn_security :: u8
  vn_target :: "u8 \<times> bytes \<times> u16"
  vn_reqBodyIV :: bytes
  vn_reqBodyKey :: bytes
  vn_reqRespV :: u8
  vn_respBodyIV :: bytes
  vn_respBodyKey :: bytes
  vn_reader :: "data_reader option"
  vn_writer :: "data_writer option"

text \<open>\<open>amd64\<close> stands for the architectures with fast AES. \<open>None\<close> is an identifier or a security that is refused, or not having an alternative identifier.\<close>

definition security_of :: "bool \<Rightarrow> string \<Rightarrow> (u8 \<times> u8) option" where
  "security_of amd64 security =
     (let s = to_lower security; opt = OptChunkStream OR OptChunkMasking in
      if s = ''aes-128-gcm'' then Some (SecurityAES128GCM, opt)
      else if s = ''chacha20-poly1305'' then Some (SecurityChacha20Poly1305, opt)
      else if s = ''none'' then Some (SecurityNone, opt)
      else if s = ''zero'' then Some (SecurityNone, 0)
      else if s = [] then Some (if amd64 then SecurityAES128GCM else SecurityChacha20Poly1305, opt)
      else None)"

definition vm_NewClient :: "vm_crypto \<Rightarrow> (bytes \<Rightarrow> bytes) \<Rightarrow> nat \<Rightarrow> bool \<Rightarrow> string \<Rightarrow> string \<Rightarrow> nat \<Rightarrow> bool \<Rightarrow> VmClient option" where
  "vm_NewClient cr sha1 fuel amd64 uuidStr security alterID aead =
     (case StrToUUID sha1 uuidStr of
        None \<Rightarrow> None
      | Some uuid \<Rightarrow>
          (case (GenAlterIDUsers cr fuel alterID (NewUser cr uuid), security_of amd64 security) of
             (Some alters, Some (sec, opt)) \<Rightarrow> Some \<lparr>vm_users = NewUser cr uuid # alters, vm_opt = opt, vm_aead = aead, vm_security = sec\<rparr>
           | _ \<Rightarrow> None))"

text \<open>What is random or read from the clock.\<close>

record vm_rand =
  rd_user :: nat
  rd_body :: bytes
  rd_respV :: u8
  rd_padding :: bytes
  rd_time :: u64
  rd_auth :: bytes
  rd_nonce :: bytes

definition fnv1a :: "bytes \<Rightarrow> u32" where
  "fnv1a bs = fold (\<lambda>b h. (h XOR ucast b) * 16777619) bs 2166136261"

text \<open>The padding has less than sixteen bytes; its length shares a byte with the security.\<close>

definition request_header :: "vm_rand \<Rightarrow> u8 \<Rightarrow> VmConn \<Rightarrow> bytes" where
  "request_header rd cmd c =
     (let buf = [1] @ vn_reqBodyIV c @ vn_reqBodyKey c @ [vn_reqRespV c, vn_opt c,
            push_bit 4 (of_nat (length (rd_padding rd))) OR vn_security c, 0, cmd] @ vless_addr (vn_target c) @ rd_padding rd
      in buf @ be32 (fnv1a buf))"

definition vm_Request :: "vm_crypto \<Rightarrow> vm_rand \<Rightarrow> u8 \<Rightarrow> VmConn \<Rightarrow> bytes" where
  "vm_Request cr rd cmd c =
     (if vn_aead c then sealVMessAEADHeader cr (us_CmdKey (vn_user c)) (request_header rd cmd c) (rd_time rd) (rd_auth rd) (rd_nonce rd)
      else vc_cfb cr True (us_CmdKey (vn_user c)) (TimestampHash cr (rd_time rd)) (request_header rd cmd c))"

definition Auth :: "vm_crypto \<Rightarrow> u64 \<Rightarrow> VmConn \<Rightarrow> bytes" where
  "Auth cr time c = hmac (vc_md5 cr) (us_UUID (vn_user c)) (be64 time)"

definition vm_conn :: "vm_crypto \<Rightarrow> VmClient \<Rightarrow> vm_rand \<Rightarrow> (u8 \<times> bytes \<times> u16) \<Rightarrow> VmConn" where
  "vm_conn cr cl rd target =
     (let iv = take 16 (rd_body rd); key = take 16 (drop 16 (rd_body rd)); h = (\<lambda>b. if vm_aead cl then take 16 (vc_sha256 cr b) else vc_md5 cr b)
      in \<lparr>vn_user = vm_users cl ! rd_user rd, vn_opt = vm_opt cl, vn_aead = vm_aead cl, vn_security = vm_security cl, vn_target = target,
          vn_reqBodyIV = iv, vn_reqBodyKey = key, vn_reqRespV = rd_respV rd, vn_respBodyIV = h iv, vn_respBodyKey = h key,
          vn_reader = None, vn_writer = None\<rparr>)"

text \<open>The connection and what has been written to the server; the \<open>i\<close>-th write fails with \<open>f i\<close>.\<close>

definition NewConn :: "vm_crypto \<Rightarrow> VmClient \<Rightarrow> vm_rand \<Rightarrow> (nat \<Rightarrow> string option) \<Rightarrow> string \<Rightarrow> u8 \<Rightarrow> (string + VmConn) \<times> bytes" where
  "NewConn cr cl rd f target cmd =
     (case Vless_ParseAddr target of
        None \<Rightarrow> (Inl ''invalid addr'', [])
      | Some x \<Rightarrow>
          let c = vm_conn cr cl rd x; auth = (if vm_aead cl then [] else Auth cr (rd_time rd) c); i = (if vm_aead cl then 0 else 1)
          in if \<not> vm_aead cl \<and> f 0 \<noteq> None then (Inl (the (f 0)), [])
             else case f i of
               Some e \<Rightarrow> (Inl e, auth)
             | None \<Rightarrow> (Inr c, auth @ vm_Request cr rd cmd c))"

definition check_header :: "u8 \<Rightarrow> bytes \<Rightarrow> unit res" where
  "check_header respV buf =
     (if buf ! 0 \<noteq> respV then Err ''unexpected response header''
      else if buf ! 2 \<noteq> 0 then Err ''dynamic port is not supported now'' else Ok ())"

definition DecodeRespHeader :: "vm_crypto \<Rightarrow> (nat \<Rightarrow> 'c \<Rightarrow> bytes res \<times> 'c) \<Rightarrow> nat \<Rightarrow> VmConn \<Rightarrow> 'c \<Rightarrow> unit res \<times> 'c" where
  "DecodeRespHeader cr R fuel c s =
     (if vn_aead c then
        bind_st (openVMessAEADHeader cr R fuel (vn_respBodyKey c) (vn_respBodyIV c) s) (\<lambda>buf s.
          if length buf < 4 then (Err ''unexpected buffer length'', s) else (check_header (vn_reqRespV c) buf, s))
      else
        bind_st (ReadFull R fuel 4 s) (\<lambda>buf s.
          (check_header (vn_reqRespV c) (vc_cfb cr False (vn_respBodyKey c) (vn_respBodyIV c) buf), s)))"

definition chacha_key :: "vm_crypto \<Rightarrow> bytes \<Rightarrow> bytes" where
  "chacha_key cr key = (let t = take 16 (vc_md5 cr key) in t @ take 16 (vc_md5 cr t))"

definition body_aead :: "vm_crypto \<Rightarrow> u8 \<Rightarrow> bytes \<Rightarrow> AEAD" where
  "body_aead cr security key = (if security = SecurityAES128GCM then vc_gcm cr key else vc_chacha cr (chacha_key cr key))"

definition new_writer :: "vm_crypto \<Rightarrow> VmConn \<Rightarrow> data_writer" where
  "new_writer cr c =
     (let s = NewShakeSizeParser (vn_reqBodyIV c) in
      if vn_opt c AND OptChunkStream \<noteq> OptChunkStream then RawWriter
      else if vn_security c = SecurityNone then PlainWriter s
      else if vn_security c = SecurityAES128GCM \<or> vn_security c = SecurityChacha20Poly1305 then
        SealedWriter (AEADWriter (body_aead cr (vn_security c) (vn_reqBodyKey c)) (vn_reqBodyIV c) s)
      else RawWriter)"

definition new_reader :: "vm_crypto \<Rightarrow> VmConn \<Rightarrow> data_reader" where
  "new_reader cr c =
     (let s = NewShakeSizeParser (vn_respBodyIV c) in
      if vn_opt c AND OptChunkStream \<noteq> OptChunkStream then RawReader
      else if vn_security c = SecurityNone then PlainReader \<lparr>cr_size = s, cr_left = 0\<rparr>
      else if vn_security c = SecurityAES128GCM \<or> vn_security c = SecurityChacha20Poly1305 then
        SealedReader (AEADReader (body_aead cr (vn_security c) (vn_respBodyKey c)) (vn_respBodyIV c) s)
      else RawReader)"

fun dw_Write :: "vm_crypto \<Rightarrow> (nat \<Rightarrow> string option) \<Rightarrow> bytes \<Rightarrow> data_writer \<Rightarrow> bytes \<times> nat \<times> string option \<times> data_writer" where
  "dw_Write cr f b RawWriter = (case f 0 of None \<Rightarrow> (b, length b, None, RawWriter) | Some e \<Rightarrow> ([], 0, Some e, RawWriter))"
| "dw_Write cr f b (PlainWriter s) = (let (out, n, e, s) = chunked_Write (vc_shake cr) f b s in (out, n, e, PlainWriter s))"
| "dw_Write cr f b (SealedWriter w) = (let (out, n, e, w) = vm_Write (vc_shake cr) f b w in (out, n, e, SealedWriter w))"

fun dr_Read :: "vm_crypto \<Rightarrow> (nat \<Rightarrow> 'c \<Rightarrow> bytes res \<times> 'c) \<Rightarrow> nat \<Rightarrow> nat \<Rightarrow> data_reader \<times> 'c \<Rightarrow> bytes res \<times> data_reader \<times> 'c" where
  "dr_Read cr R fuel l (RawReader, s) = apsnd (Pair RawReader) (R l s)"
| "dr_Read cr R fuel l (PlainReader r, s) = apsnd (apfst PlainReader) (chunked_Read (vc_shake cr) R fuel l (r, s))"
| "dr_Read cr R fuel l (SealedReader r, s) = apsnd (apfst SealedReader) (vm_Read (vc_shake cr) R fuel l (r, s))"

definition vn_Write :: "vm_crypto \<Rightarrow> (nat \<Rightarrow> string option) \<Rightarrow> bytes \<Rightarrow> VmConn \<Rightarrow> bytes \<times> nat \<times> string option \<times> VmConn" where
  "vn_Write cr f b c =
     (let w = (case vn_writer c of Some w \<Rightarrow> w | None \<Rightarrow> new_writer cr c); (out, n, e, w') = dw_Write cr f b w
      in (out, n, e, c\<lparr>vn_writer := Some w'\<rparr>))"

definition vn_Read :: "vm_crypto \<Rightarrow> (nat \<Rightarrow> 's \<Rightarrow> bytes res \<times> 's) \<Rightarrow> nat \<Rightarrow> nat \<Rightarrow> VmConn \<times> 's \<Rightarrow> bytes res \<times> VmConn \<times> 's" where
  "vn_Read cr R fuel l cs =
     (case vn_reader (fst cs) of
        Some r \<Rightarrow> apsnd (apfst (\<lambda>r. (fst cs)\<lparr>vn_reader := Some r\<rparr>)) (dr_Read cr R fuel l (r, snd cs))
      | None \<Rightarrow>
          (case DecodeRespHeader cr R fuel (fst cs) (snd cs) of
             (Ok _, s) \<Rightarrow> apsnd (apfst (\<lambda>r. (fst cs)\<lparr>vn_reader := Some r\<rparr>)) (dr_Read cr R fuel l (new_reader cr (fst cs), s))
           | (Err e, s) \<Rightarrow> (Err (''[vmess] error in DecodeRespHeader: '' @ e), fst cs, s)
           | (Panic, s) \<Rightarrow> (Panic, fst cs, s)
           | (Diverge, s) \<Rightarrow> (Diverge, fst cs, s)))"

section \<open>Reading what the server sends\<close>

text \<open>What the algorithms promise.\<close>

definition crypto_ok :: "vm_crypto \<Rightarrow> bool" where
  "crypto_ok cr \<longleftrightarrow> (\<forall>b. length (vc_sha256 cr b) = 32) \<and> (\<forall>key b. length (vc_aes cr key b) = 16) \<and>
     (\<forall>key. aead_ok (vc_gcm cr key) \<and> ae_Overhead (vc_gcm cr key) = 16 \<and> ae_NonceSize (vc_gcm cr key) = 12) \<and>
     (\<forall>key. aead_ok (vc_chacha cr key) \<and> ae_Overhead (vc_chacha cr key) = 16 \<and> ae_NonceSize (vc_chacha cr key) = 12)"

lemma length_fold_hmac: "\<forall>m. length (h m) = 32 \<Longrightarrow> length (fold (\<lambda>v h. hmac h v) path h msg) = 32"
proof (induction path arbitrary: h)
  case (Cons v path)
  then have "\<forall>m. length (hmac h v m) = 32" by (simp add: hmac_def Let_def)
  with Cons.IH show ?case by simp
qed simp

lemma length_kdf: "crypto_ok cr \<Longrightarrow> length (kdf cr key path) = 32"
  unfolding kdf_def hMacCreator_def by (rule length_fold_hmac) (simp add: crypto_ok_def hmac_def Let_def)

lemma gcm_open: "crypto_ok cr \<Longrightarrow> length n = 12 \<Longrightarrow> ae_Open (vc_gcm cr k) n (ae_Seal (vc_gcm cr k) n p ad) ad = Some p"
  and gcm_len: "crypto_ok cr \<Longrightarrow> length n = 12 \<Longrightarrow> length (ae_Seal (vc_gcm cr k) n p ad) = length p + 16"
  by (simp_all add: crypto_ok_def aead_open aead_len)

text \<open>The answer of a server that has read the request.\<close>

definition resp_seal :: "vm_crypto \<Rightarrow> string \<Rightarrow> string \<Rightarrow> bytes \<Rightarrow> bytes \<Rightarrow> bytes \<Rightarrow> bytes" where
  "resp_seal cr keySalt ivSalt key iv data = ae_Seal (vc_gcm cr (take 16 (kdf cr key [to_bytes keySalt]))) (take 12 (kdf cr iv [to_bytes ivSalt])) data []"

definition answers_header :: "vm_crypto \<Rightarrow> VmConn \<Rightarrow> bytes \<Rightarrow> bool" where
  "answers_header cr c x \<longleftrightarrow>
     (if vn_aead c then \<exists>hdr. 4 \<le> length hdr \<and> length hdr + 16 < 65536 \<and> hdr ! 0 = vn_reqRespV c \<and> hdr ! 2 = 0 \<and>
        x = resp_seal cr ''AEAD Resp Header Len Key'' ''AEAD Resp Header Len IV'' (vn_respBodyKey c) (vn_respBodyIV c) (be16 (of_nat (length hdr))) @
            resp_seal cr ''AEAD Resp Header Key'' ''AEAD Resp Header IV'' (vn_respBodyKey c) (vn_respBodyIV c) hdr
      else length x = 4 \<and> vc_cfb cr False (vn_respBodyKey c) (vn_respBodyIV c) x ! 0 = vn_reqRespV c \<and>
        vc_cfb cr False (vn_respBodyKey c) (vn_respBodyIV c) x ! 2 = 0)"

lemma openVMessAEADHeader_ok:
  assumes bs: "byte_stream R H" and cr: "crypto_ok cr" and n: "length hdr + 16 < 65536" and fuel: "65536 \<le> fuel"
    and h: "H s ((resp_seal cr ''AEAD Resp Header Len Key'' ''AEAD Resp Header Len IV'' key iv (be16 (of_nat (length hdr))) @
        resp_seal cr ''AEAD Resp Header Key'' ''AEAD Resp Header IV'' key iv hdr) @ rest)"
  shows "\<exists>s'. openVMessAEADHeader cr R fuel key iv s = (Ok hdr, s') \<and> H s' rest"
proof -
  define l where "l = resp_seal cr ''AEAD Resp Header Len Key'' ''AEAD Resp Header Len IV'' key iv (be16 (of_nat (length hdr)))"
  define b where "b = resp_seal cr ''AEAD Resp Header Key'' ''AEAD Resp Header IV'' key iv hdr"
  have iv: "length (take 12 (kdf cr iv path)) = 12" for path using length_kdf [OF cr] by simp
  have len: "length l = 18" "length b = length hdr + 16" using gcm_len [OF cr iv] by (simp_all add: resp_seal_def l_def b_def)
  have h': "H s (l @ b @ rest)" using h unfolding l_def b_def append_assoc .
  obtain s1 where s1: "ReadFull R fuel 18 s = (Ok l, s1)" "H s1 (b @ rest)"
    using byte_stream.ReadFull_ok [OF bs h', of fuel] fuel len(1) by auto
  obtain s2 where s2: "ReadFull R fuel (length hdr + 16) s1 = (Ok b, s2)" "H s2 rest"
    using byte_stream.ReadFull_ok [OF bs s1(2), of fuel] fuel n len(2) by auto
  have u: "unat (of_nat (length hdr) + 16 :: u16) = length hdr + 16"
    using unat_of_nat_small [of "length hdr + 16", where 'a = 16] n by simp
  have "openVMessAEADHeader cr R fuel key iv s = (Ok hdr, s2)"
    unfolding openVMessAEADHeader_def s1(1) bind_st.simps unfolding l_def resp_seal_def gcm_open [OF cr iv] option.case be16_nth u s2(1) bind_st.simps
    unfolding b_def resp_seal_def gcm_open [OF cr iv] option.case ..
  with s2(2) show ?thesis by blast
qed

lemma DecodeRespHeader_ok:
  assumes bs: "byte_stream R H" and cr: "crypto_ok cr" and x: "answers_header cr c x" and h: "H s (x @ rest)" and fuel: "65536 \<le> fuel"
  shows "\<exists>s'. DecodeRespHeader cr R fuel c s = (Ok (), s') \<and> H s' rest"
proof (cases "vn_aead c")
  case True
  then obtain hdr where hdr: "4 \<le> length hdr" "length hdr + 16 < 65536" "hdr ! 0 = vn_reqRespV c" "hdr ! 2 = 0"
    and "x = resp_seal cr ''AEAD Resp Header Len Key'' ''AEAD Resp Header Len IV'' (vn_respBodyKey c) (vn_respBodyIV c) (be16 (of_nat (length hdr))) @
            resp_seal cr ''AEAD Resp Header Key'' ''AEAD Resp Header IV'' (vn_respBodyKey c) (vn_respBodyIV c) hdr"
    using x by (auto simp: answers_header_def)
  with openVMessAEADHeader_ok [where H = H, OF bs cr hdr(2) fuel, of s "vn_respBodyKey c" "vn_respBodyIV c" rest] h True hdr show ?thesis
    by (auto simp: DecodeRespHeader_def check_header_def)
next
  case False
  then have "length x = 4" using x by (simp add: answers_header_def)
  with byte_stream.ReadFull_ok [OF bs h, of fuel] fuel obtain s' where "ReadFull R fuel 4 s = (Ok x, s')" "H s' rest" by auto
  with False x show ?thesis by (simp add: DecodeRespHeader_def check_header_def answers_header_def)
qed

fun dr_holds :: "vm_crypto \<Rightarrow> ('s \<Rightarrow> bytes \<Rightarrow> bool) \<Rightarrow> data_reader \<times> 's \<Rightarrow> bytes \<Rightarrow> bool" where
  "dr_holds cr H (RawReader, s) d = H s d"
| "dr_holds cr H (PlainReader r, s) d = chunked_holds (vc_shake cr) H (r, s) d"
| "dr_holds cr H (SealedReader r, s) d = vr_holds (vc_shake cr) H (r, s) d"

lemma dr_stream:
  assumes "byte_stream R H" and "vm_chunkSize \<le> fuel"
  shows "byte_stream (dr_Read cr R fuel) (dr_holds cr H)"
proof -
  have "2 \<le> fuel" using assms(2) by (simp add: vm_chunkSize_def)
  note ch = chunked_stream [OF assms(1) this, of "vc_shake cr"] and vm = vm_stream [OF assms, of "vc_shake cr"]
  show ?thesis
  proof
    fix rs d and l :: nat
    assume h: "dr_holds cr H rs d" and d: "d \<noteq> []" and l: "0 < l"
    obtain r s where rs: "rs = (r, s)" by (rule prod.exhaust)
    show "\<exists>out d' s'. dr_Read cr R fuel l rs = (Ok out, s') \<and> out \<noteq> [] \<and> length out \<le> l \<and> d = out @ d' \<and> dr_holds cr H s' d'"
      using h byte_stream.read_some [OF assms(1) _ d l] byte_stream.read_some [OF ch _ d l] byte_stream.read_some [OF vm _ d l]
      unfolding rs by (cases r) fastforce+
  next
    fix rs and l :: nat
    assume h: "dr_holds cr H rs []" and l: "0 < l"
    obtain r s where rs: "rs = (r, s)" by (rule prod.exhaust)
    show "\<exists>s'. dr_Read cr R fuel l rs = (Err ''EOF'', s') \<and> dr_holds cr H s' []"
      using h byte_stream.read_end [OF assms(1) _ l] byte_stream.read_end [OF ch _ l] byte_stream.read_end [OF vm _ l]
      unfolding rs by (cases r) fastforce+
  qed
qed

text \<open>A connection holds the server's data: behind the header of the answer, whatever the new reader makes of the bytes.\<close>

definition vn_holds :: "vm_crypto \<Rightarrow> ('s \<Rightarrow> bytes \<Rightarrow> bool) \<Rightarrow> VmConn \<times> 's \<Rightarrow> bytes \<Rightarrow> bool" where
  "vn_holds cr H cs d \<longleftrightarrow>
     (case vn_reader (fst cs) of
        Some r \<Rightarrow> dr_holds cr H (r, snd cs) d
      | None \<Rightarrow> \<exists>x body. answers_header cr (fst cs) x \<and> H (snd cs) (x @ body) \<and> (\<forall>s'. H s' body \<longrightarrow> dr_holds cr H (new_reader cr (fst cs), s') d))"

lemma vn_Read_body:
  assumes "byte_stream R H" and "crypto_ok cr" and "65536 \<le> fuel" and "vn_holds cr H (c, s) d"
  shows "\<exists>r s'. vn_Read cr R fuel l (c, s) = apsnd (apfst (\<lambda>r. c\<lparr>vn_reader := Some r\<rparr>)) (dr_Read cr R fuel l (r, s')) \<and> dr_holds cr H (r, s') d"
proof (cases "vn_reader c")
  case (Some r)
  then show ?thesis using assms(4) by (auto simp: vn_Read_def vn_holds_def)
next
  case None
  then obtain x body where x: "answers_header cr c x" "H s (x @ body)" "\<forall>s'. H s' body \<longrightarrow> dr_holds cr H (new_reader cr c, s') d"
    using assms(4) by (auto simp: vn_holds_def)
  obtain s' where "DecodeRespHeader cr R fuel c s = (Ok (), s')" "H s' body" using DecodeRespHeader_ok [OF assms(1,2) x(1,2) assms(3)] by blast
  with x(3) None show ?thesis by (intro exI [of _ "new_reader cr c"] exI [of _ s']) (simp add: vn_Read_def)
qed

lemma vn_stream:
  assumes "byte_stream R H" and "crypto_ok cr" and "65536 \<le> fuel"
  shows "byte_stream (vn_Read cr R fuel) (vn_holds cr H)"
proof -
  have "vm_chunkSize \<le> fuel" using assms(3) by (simp add: vm_chunkSize_def)
  note st = dr_stream [OF assms(1) this, of cr]
  show ?thesis
  proof
    fix cs d and l :: nat
    assume h: "vn_holds cr H cs d" and d: "d \<noteq> []" and l: "0 < l"
    obtain c s where cs: "cs = (c, s)" by (rule prod.exhaust)
    from vn_Read_body [OF assms h [unfolded cs], of l] obtain r s' where
      r: "vn_Read cr R fuel l cs = apsnd (apfst (\<lambda>r. c\<lparr>vn_reader := Some r\<rparr>)) (dr_Read cr R fuel l (r, s'))" "dr_holds cr H (r, s') d"
      unfolding cs by blast
    from byte_stream.read_some [OF st r(2) d l] obtain out d' r2 s2 where "dr_Read cr R fuel l (r, s') = (Ok out, r2, s2)"
      "out \<noteq> []" "length out \<le> l" "d = out @ d'" "dr_holds cr H (r2, s2) d'" by force
    with r(1) show "\<exists>out d' s'. vn_Read cr R fuel l cs = (Ok out, s') \<and> out \<noteq> [] \<and> length out \<le> l \<and> d = out @ d' \<and> vn_holds cr H s' d'"
      by (simp add: vn_holds_def)
  next
    fix cs and l :: nat
    assume h: "vn_holds cr H cs []" and l: "0 < l"
    obtain c s where cs: "cs = (c, s)" by (rule prod.exhaust)
    from vn_Read_body [OF assms h [unfolded cs], of l] obtain r s' where
      r: "vn_Read cr R fuel l cs = apsnd (apfst (\<lambda>r. c\<lparr>vn_reader := Some r\<rparr>)) (dr_Read cr R fuel l (r, s'))" "dr_holds cr H (r, s') []"
      unfolding cs by blast
    from byte_stream.read_end [OF st r(2) l] obtain r2 s2 where "dr_Read cr R fuel l (r, s') = (Err ''EOF'', r2, s2)" "dr_holds cr H (r2, s2) []" by force
    with r(1) show "\<exists>s'. vn_Read cr R fuel l cs = (Err ''EOF'', s') \<and> vn_holds cr H s' []"
      by (simp add: vn_holds_def)
  qed
qed

section \<open>Both ends\<close>

text \<open>What a connection writes for a sequence of writes that all succeed.\<close>

primrec vn_writes :: "vm_crypto \<Rightarrow> bytes list \<Rightarrow> VmConn \<Rightarrow> bytes" where
  "vn_writes cr [] c = []"
| "vn_writes cr (b # bs) c = (let (out, n, e, c') = vn_Write cr (\<lambda>_. None) b c in out @ vn_writes cr bs c')"

primrec dw_writes :: "vm_crypto \<Rightarrow> bytes list \<Rightarrow> data_writer \<Rightarrow> bytes" where
  "dw_writes cr [] w = []"
| "dw_writes cr (b # bs) w = (let (out, n, e, w') = dw_Write cr (\<lambda>_. None) b w in out @ dw_writes cr bs w')"

lemma vn_writes_dw: "vn_writes cr bs c = dw_writes cr bs (case vn_writer c of Some w \<Rightarrow> w | None \<Rightarrow> new_writer cr c)"
  by (induction bs arbitrary: c) (simp_all add: vn_Write_def Let_def case_prod_beta)

lemma raw_writes: "dw_writes cr bs RawWriter = concat bs"
  by (induction bs) simp_all

lemma plain_writes: "dw_writes cr bs (PlainWriter \<lparr>sp_nonce = sn, sp_pos = k\<rparr>) = chunk_wire (vc_shake cr) sn k (concat (map (cut_into vm_chunkSize) bs))"
  by (induction bs arbitrary: k) (simp_all add: chunked_Write_ok chunk_wire_append)

lemma sealed_writes:
  assumes "vw_at a base sn k w" and "ae_Overhead a < vm_chunkSize"
  shows "dw_writes cr bs (SealedWriter w) = vm_wire (vc_shake cr) a base sn k (concat (map (cut_into (vm_chunkSize - ae_Overhead a)) bs))"
  using assms(1)
proof (induction bs arbitrary: k w)
  case (Cons b bs)
  obtain w' where w': "vm_Write (vc_shake cr) (\<lambda>_. None) b w = (vm_wire (vc_shake cr) a base sn k (cut_into (vm_chunkSize - ae_Overhead a) b), length b, None, w')"
    "vw_at a base sn (k + length (cut_into (vm_chunkSize - ae_Overhead a) b)) w'"
    using vm_Write_ok [OF Cons.prems assms(2), of "\<lambda>_. None"] by auto
  show ?case using Cons.IH [OF w'(2)] w'(1) by (simp add: vm_wire_append)
qed simp

text \<open>The connection at the server: it writes with the key and the vector of the answer.\<close>

definition server_end :: "VmConn \<Rightarrow> VmConn" where
  "server_end c = c\<lparr>vn_reqBodyIV := vn_respBodyIV c, vn_reqBodyKey := vn_respBodyKey c, vn_writer := None\<rparr>"

lemma body_aead_ok: "crypto_ok cr \<Longrightarrow> body_ok (body_aead cr sec key) (body_nonce (body_aead cr sec key) iv)"
  by (auto simp: body_ok_def body_aead_def crypto_ok_def body_nonce_def Let_def)

lemma list_all_cuts: "(\<And>c b. c \<in> set (cut_into m b) \<Longrightarrow> P c) \<Longrightarrow> list_all P (concat (map (cut_into m) bs))"
  by (auto simp: list_all_iff)

lemma new_ends:
  fixes cr c
  defines "s \<equiv> NewShakeSizeParser (vn_respBodyIV c)" and "a \<equiv> body_aead cr (vn_security c) (vn_respBodyKey c)"
  shows "(new_writer cr (server_end c), new_reader cr c) \<in>
    {(RawWriter, RawReader), (PlainWriter s, PlainReader \<lparr>cr_size = s, cr_left = 0\<rparr>), (SealedWriter (AEADWriter a (vn_respBodyIV c) s), SealedReader (AEADReader a (vn_respBodyIV c) s))}"
  unfolding s_def a_def by (simp add: new_writer_def new_reader_def server_end_def Let_def)

lemma new_reader_holds:
  assumes "crypto_ok cr" and h: "H s (dw_writes cr bs (new_writer cr (server_end c)))"
  shows "dr_holds cr H (new_reader cr c, s) (concat bs)"
proof -
  let ?iv = "vn_respBodyIV c" and ?a = "body_aead cr (vn_security c) (vn_respBodyKey c)"
  consider "new_writer cr (server_end c) = RawWriter" "new_reader cr c = RawReader"
    | "new_writer cr (server_end c) = PlainWriter (NewShakeSizeParser ?iv)" "new_reader cr c = PlainReader \<lparr>cr_size = NewShakeSizeParser ?iv, cr_left = 0\<rparr>"
    | "new_writer cr (server_end c) = SealedWriter (AEADWriter ?a ?iv (NewShakeSizeParser ?iv))" "new_reader cr c = SealedReader (AEADReader ?a ?iv (NewShakeSizeParser ?iv))"
    using new_ends [of cr c] by fastforce
  then show ?thesis
  proof cases
    case 1
    with h show ?thesis by (simp add: raw_writes)
  next
    case 2
    have "H s ([] @ chunk_wire (vc_shake cr) ?iv 0 (concat (map (cut_into vm_chunkSize) bs)))"
      using h by (simp add: 2(1) NewShakeSizeParser_def plain_writes)
    moreover have "list_all plain_ok (concat (map (cut_into vm_chunkSize) bs))"
      using cut_bounds [of vm_chunkSize] by (intro list_all_cuts) (auto simp: plain_ok_def vm_chunkSize_def)
    ultimately have "chunked_holds (vc_shake cr) H (\<lparr>cr_size = NewShakeSizeParser ?iv, cr_left = 0\<rparr>, s) (concat bs)"
      by (intro chunked_holdsI [where x = "[]" and sn = ?iv and k = 0 and cs = "concat (map (cut_into vm_chunkSize) bs)"])
        (simp_all add: NewShakeSizeParser_def concat_cuts)
    then show ?thesis by (simp add: 2(2))
  next
    case 3
    let ?base = "body_nonce ?a ?iv" and ?cs = "concat (map (cut_into (vm_chunkSize - 16)) bs)"
    have ok: "body_ok ?a ?base" using assms(1) by (rule body_aead_ok)
    then have ov: "ae_Overhead ?a = 16" by (simp add: body_ok_def)
    have "vw_at ?a ?base ?iv 0 (AEADWriter ?a ?iv (NewShakeSizeParser ?iv))" by (simp add: vw_at_def AEADWriter_def NewShakeSizeParser_def)
    then have "dw_writes cr bs (SealedWriter (AEADWriter ?a ?iv (NewShakeSizeParser ?iv))) = vm_wire (vc_shake cr) ?a ?base ?iv 0 ?cs"
      using sealed_writes [of ?a ?base ?iv 0] ov by (simp add: vm_chunkSize_def)
    then have "H s (vm_wire (vc_shake cr) ?a ?base ?iv 0 ?cs)" using h 3(1) by simp
    moreover have "list_all sealed_ok ?cs"
      using cut_bounds [of "vm_chunkSize - 16"] by (intro list_all_cuts) (force simp: sealed_ok_def vm_chunkSize_def)
    moreover have "vr_at ?a ?base ?iv 0 (AEADReader ?a ?iv (NewShakeSizeParser ?iv))" by (simp add: vr_at_def AEADReader_def NewShakeSizeParser_def)
    ultimately have "vr_holds (vc_shake cr) H (AEADReader ?a ?iv (NewShakeSizeParser ?iv), s) (concat bs)"
      by (intro vr_holdsI [OF ok, where cs = ?cs and sn = ?iv and k = 0]) (simp_all add: AEADReader_def concat_cuts)
    then show ?thesis by (simp add: 3(2))
  qed
qed

text \<open>
  C37. VMess delivers. Whatever the security (none at all, masked chunks, AES-GCM or ChaCha20-Poly1305), once the server has sent a
  header that answers the request, the client's reads, of any sizes and over any portions of the network, return what a writer of
  the same code with the keys of the answer writes at the other end, in order and complete, and then the end of the stream.
\<close>

theorem vmess_answer_read:
  assumes "crypto_ok cr" and "vn_reader c = None" and "answers_header cr c x" and "in_bytes s = x @ vn_writes cr bs (server_end c)" and "65536 \<le> fuel"
    and "\<forall>l \<in> set ls. 0 < l" and "run_reads (vn_Read cr conn_Read fuel) ls (c, s) = (outs, e)"
  shows "\<exists>d'. concat bs = concat outs @ d' \<and> (length (concat bs) < length ls \<longrightarrow> d' = [] \<and> e = Some ''EOF'')"
proof -
  have w: "vn_writes cr bs (server_end c) = dw_writes cr bs (new_writer cr (server_end c))" by (simp add: vn_writes_dw server_end_def)
  have "conn_holds s (x @ dw_writes cr bs (new_writer cr (server_end c)))" using assms(4) w by (simp add: conn_holds_def)
  moreover have "\<forall>s'. conn_holds s' (dw_writes cr bs (new_writer cr (server_end c))) \<longrightarrow> dr_holds cr conn_holds (new_reader cr c, s') (concat bs)"
    using new_reader_holds [where H = conn_holds, OF assms(1)] by blast
  ultimately have "vn_holds cr conn_holds (c, s) (concat bs)"
    unfolding vn_holds_def fst_conv snd_conv assms(2) option.case using assms(3) by blast
  from byte_stream.reads_deliver [OF vn_stream [OF socket.byte_stream_axioms assms(1,5)] this assms(6,7)] show ?thesis .
qed

definition sample_crypto :: vm_crypto where
  "sample_crypto = \<lparr>vc_sha256 = (\<lambda>_. replicate 32 0), vc_md5 = (\<lambda>_. replicate 16 0), vc_gcm = (\<lambda>_. sample_aead), vc_chacha = (\<lambda>_. sample_aead),
     vc_cfb = (\<lambda>_ _ _ b. b), vc_aes = (\<lambda>_ b. take 16 (b @ replicate 16 0)), vc_crc32 = (\<lambda>_. 7), vc_shake = (\<lambda>_ k. of_nat k)\<rparr>"

lemma sample_crypto_ok: "crypto_ok sample_crypto"
  by (auto simp: crypto_ok_def sample_crypto_def sample_aead_ok)

definition sample_client :: VmClient where
  "sample_client = \<lparr>vm_users = [\<lparr>us_UUID = replicate 16 1, us_CmdKey = replicate 16 2\<rparr>], vm_opt = 5, vm_aead = False, vm_security = SecurityAES128GCM\<rparr>"

definition sample_rand :: vm_rand where
  "sample_rand = \<lparr>rd_user = 0, rd_body = replicate 32 3, rd_respV = 9, rd_padding = [4, 4], rd_time = 5, rd_auth = [6, 6, 6, 6], rd_nonce = replicate 8 8\<rparr>"

theorem vmess_answer_read_witness:
  "\<exists>outs e. run_reads (vn_Read sample_crypto conn_Read 70000) [2, 2, 2, 2, 2] (vm_conn sample_crypto sample_client sample_rand (1, [1, 2, 3, 4], 80),
      \<lparr>in_bytes = [9, 0, 0, 0] @ vn_writes sample_crypto [[1, 2], [3]] (server_end (vm_conn sample_crypto sample_client sample_rand (1, [1, 2, 3, 4], 80))), in_segs = [1, 0]\<rparr>) = (outs, e) \<and>
    concat outs = [1, 2, 3]"
proof -
  let ?c = "vm_conn sample_crypto sample_client sample_rand (1, [1, 2, 3, 4], 80)"
  let ?s = "\<lparr>in_bytes = [9, 0, 0, 0] @ vn_writes sample_crypto [[1, 2], [3]] (server_end ?c), in_segs = [1, 0]\<rparr>"
  obtain outs e where r: "run_reads (vn_Read sample_crypto conn_Read 70000) [2, 2, 2, 2, 2] (?c, ?s) = (outs, e)" by (rule prod.exhaust)
  have "vn_reader ?c = None" "answers_header sample_crypto ?c [9, 0, 0, 0]"
    by (simp_all add: vm_conn_def Let_def answers_header_def sample_client_def sample_crypto_def sample_rand_def)
  from vmess_answer_read [OF sample_crypto_ok this _ _ _ r, of "[[1, 2], [3]]"] have "concat outs = [1, 2, 3]" by simp
  with r show ?thesis by blast
qed

section \<open>The request as the server opens it\<close>

text \<open>How the holder of the command key opens a sealed request: the header, and what follows it.\<close>

definition header_open :: "vm_crypto \<Rightarrow> bytes \<Rightarrow> string \<Rightarrow> string \<Rightarrow> bytes \<Rightarrow> bytes \<Rightarrow> bytes \<Rightarrow> bytes option" where
  "header_open cr key keySalt ivSalt authID nonce data =
     ae_Open (vc_gcm cr (take 16 (kdf cr key [to_bytes keySalt, authID, nonce]))) (take 12 (kdf cr key [to_bytes ivSalt, authID, nonce])) data authID"

definition open_request :: "vm_crypto \<Rightarrow> bytes \<Rightarrow> bytes \<Rightarrow> (bytes \<times> bytes) option" where
  "open_request cr key w =
     (let authID = take 16 w; nonce = take 8 (drop 34 w); rest = drop 42 w in
      case header_open cr key ''VMess Header AEAD Key_Length'' ''VMess Header AEAD Nonce_Length'' authID nonce (take 18 (drop 16 w)) of
        None \<Rightarrow> None
      | Some l \<Rightarrow>
          let n = unat (be16_of (l ! 0) (l ! 1)) + 16 in
          map_option (\<lambda>h. (h, drop n rest)) (header_open cr key ''VMess Header AEAD Key'' ''VMess Header AEAD Nonce'' authID nonce (take n rest)))"

lemma header_open_seal:
  "crypto_ok cr \<Longrightarrow> header_open cr key ks is authID nonce (header_seal cr key ks is authID nonce data) = Some data"
  "crypto_ok cr \<Longrightarrow> length (header_seal cr key ks is authID nonce data) = length data + 16"
  using length_kdf [of cr key] by (simp_all add: header_open_def header_seal_def gcm_open gcm_len)

lemma open_request_seal:
  assumes cr: "crypto_ok cr" and "length (createAuthID cr key time random) = 16" and "length nonce = 8" and "length hdr < 65536"
  shows "open_request cr key (sealVMessAEADHeader cr key hdr time random nonce @ data) = Some (hdr, data)"
proof -
  define A where "A = createAuthID cr key time random"
  define L where "L = header_seal cr key ''VMess Header AEAD Key_Length'' ''VMess Header AEAD Nonce_Length'' A nonce (be16 (of_nat (length hdr)))"
  define B where "B = header_seal cr key ''VMess Header AEAD Key'' ''VMess Header AEAD Nonce'' A nonce hdr"
  have len: "length A = 16" "length L = 18" "length B = length hdr + 16" "length nonce = 8"
    using assms header_open_seal(2) [OF cr] by (simp_all add: A_def L_def B_def)
  have w: "sealVMessAEADHeader cr key hdr time random nonce @ data = A @ L @ nonce @ B @ data"
    by (simp only: sealVMessAEADHeader_def Let_def A_def L_def B_def append_assoc)
  have parts: "take 16 (A @ L @ nonce @ B @ data) = A" "take 8 (drop 34 (A @ L @ nonce @ B @ data)) = nonce"
    "take 18 (drop 16 (A @ L @ nonce @ B @ data)) = L" "drop 42 (A @ L @ nonce @ B @ data) = B @ data"
    using len by simp_all
  have o: "header_open cr key ''VMess Header AEAD Key_Length'' ''VMess Header AEAD Nonce_Length'' A nonce L = Some (be16 (of_nat (length hdr)))"
    "header_open cr key ''VMess Header AEAD Key'' ''VMess Header AEAD Nonce'' A nonce B = Some hdr"
    unfolding L_def B_def by (rule header_open_seal(1) [OF cr])+
  have n: "unat (of_nat (length hdr) :: u16) = length hdr" using assms(4) by (intro unat_of_nat_small) simp
  have t: "take (length hdr + 16) (B @ data) = B" "drop (length hdr + 16) (B @ data) = data" using len(3) by simp_all
  show ?thesis unfolding w open_request_def Let_def parts o(1) option.case be16_nth n t(1) o(2) t(2) option.map ..
qed

lemma pad_sec: "k < 16 \<Longrightarrow> sec < 16 \<Longrightarrow> drop_bit 4 (push_bit 4 (of_nat k) OR sec) = (of_nat k :: u8) \<and> (push_bit 4 (of_nat k) OR sec) AND 15 = (sec :: u8)"
proof -
  assume k: "k < 16" and s: "sec < 16"
  then have "sec \<in> set (map of_nat [0..<16])" by (simp add: word_less_nat_alt image_iff) (metis (no_types, lifting) atLeastLessThan_iff unat_of_nat_small word_nat_cases zero_le)
  moreover have "k \<in> set [0..<16]" using k by simp
  moreover have "\<forall>k \<in> set [0..<16]. \<forall>sec \<in> set (map of_nat [0..<16]). drop_bit 4 (push_bit 4 (of_nat k) OR sec) = (of_nat k :: u8) \<and> (push_bit 4 (of_nat k) OR sec) AND 15 = (sec :: u8)"
    by code_simp
  ultimately show ?thesis by blast
qed

lemma header_fields:
  assumes "length iv = 16" "length key = 16"
  shows "([1] @ iv @ key @ [v, opt, ps, 0, cmd] @ r) ! 0 = (1 :: u8)" "take 16 (drop 1 ([1] @ iv @ key @ [v, opt, ps, 0, cmd] @ r)) = iv"
    "take 16 (drop 17 ([1] @ iv @ key @ [v, opt, ps, 0, cmd] @ r)) = key" "([1] @ iv @ key @ [v, opt, ps, 0, cmd] @ r) ! 33 = v"
    "([1] @ iv @ key @ [v, opt, ps, 0, cmd] @ r) ! 34 = opt" "([1] @ iv @ key @ [v, opt, ps, 0, cmd] @ r) ! 35 = ps"
    "([1] @ iv @ key @ [v, opt, ps, 0, cmd] @ r) ! 37 = cmd" "drop 38 ([1] @ iv @ key @ [v, opt, ps, 0, cmd] @ r) = r"
  using assms by (simp_all add: nth_append nth_Cons')

text \<open>
  C38. A VMess request says what was asked. The holder of the user's command key opens what a new connection has written and finds, in front of whatever
  follows, a header of version 1 with the keys, the options, the security and the command of the connection, from which the target
  that was dialed is read back, followed by the announced padding and the checksum of all before it.
\<close>

theorem vmess_request_ok:
  assumes cr: "crypto_ok cr" and new: "NewConn cr cl rd f target cmd = (Inr c, w)" and "vm_aead cl" and "vm_security cl < 16"
    and rd: "length (rd_body rd) = 32" "length (rd_padding rd) < 16" "length (rd_nonce rd) = 8"
    and t: "plain_host h" "p < 65536" "target = JoinHostPort h (dec p)"
  shows "\<exists>hdr addr. open_request cr (us_CmdKey (vn_user c)) (w @ data) = Some (hdr, data) \<and>
    hdr ! 0 = 1 \<and> take 16 (drop 1 hdr) = vn_reqBodyIV c \<and> take 16 (drop 17 hdr) = vn_reqBodyKey c \<and> hdr ! 33 = vn_reqRespV c \<and>
    hdr ! 34 = vm_opt cl \<and> hdr ! 35 AND 15 = vm_security cl \<and> hdr ! 37 = cmd \<and>
    drop_bit 4 (hdr ! 35) = of_nat (length (rd_padding rd)) \<and>
    eats (Vless_ReadAddrString Done) addr (Done (Inr target)) \<and>
    drop 38 hdr = addr @ rd_padding rd @ be32 (fnv1a (take (length hdr - 4) hdr))"
proof -
  obtain x where x: "Vless_ParseAddr target = Some x" using Vless_ParseAddr_some [OF t(1,2)] t(3) by blast
  have c: "c = vm_conn cr cl rd x" and w: "w = vm_Request cr rd cmd c"
    using new x assms(3) by (auto simp: NewConn_def Let_def split: option.splits)
  let ?iv = "take 16 (rd_body rd)" and ?key = "take 16 (drop 16 (rd_body rd))"
  let ?ps = "push_bit 4 (of_nat (length (rd_padding rd))) OR vm_security cl"
  define pre where "pre = [1] @ ?iv @ ?key @ [rd_respV rd, vm_opt cl, ?ps, 0, cmd] @ vless_addr x @ rd_padding rd"
  have hdr: "request_header rd cmd c = pre @ be32 (fnv1a pre)"
    by (simp add: request_header_def c vm_conn_def Let_def pre_def)
  have len: "length ?iv = 16" "length ?key = 16" using rd(1) by simp_all
  note al = vless_addr_length [OF t(1,2), folded t(3), OF x]
  have "length (request_header rd cmd c) < 65536" unfolding hdr using len al rd(2) by (simp add: pre_def)
  then have o: "open_request cr (us_CmdKey (vn_user c)) (w @ data) = Some (request_header rd cmd c, data)"
    unfolding w vm_Request_def using cr assms(3) rd(3) open_request_seal [OF cr]
    by (simp add: c vm_conn_def Let_def createAuthID_def crypto_ok_def)
  have h: "request_header rd cmd c = [1] @ ?iv @ ?key @ [rd_respV rd, vm_opt cl, ?ps, 0, cmd] @ vless_addr x @ rd_padding rd @ be32 (fnv1a pre)"
    unfolding hdr by (simp add: pre_def)
  note F = header_fields [OF len, where v = "rd_respV rd" and opt = "vm_opt cl" and ps = ?ps and cmd = cmd and r = "vless_addr x @ rd_padding rd @ be32 (fnv1a pre)", folded h]
  have "take (length (request_header rd cmd c) - 4) (request_header rd cmd c) = pre" unfolding hdr by simp
  moreover have "eats (Vless_ReadAddrString Done) (vless_addr x) (Done (Inr target))"
    using vless_roundtrip [OF t(1,2), folded t(3), OF x] .
  moreover have "vn_reqBodyIV c = ?iv" "vn_reqBodyKey c = ?key" "vn_reqRespV c = rd_respV rd" by (simp_all add: c vm_conn_def Let_def)
  ultimately show ?thesis
    using o F pad_sec [OF rd(2) assms(4)]
    by - (rule exI [of _ "request_header rd cmd c"], rule exI [of _ "vless_addr x"], simp only: simp_thms)
qed

theorem vmess_request_ok_witness:
  "\<exists>c w hdr. NewConn sample_crypto (sample_client\<lparr>vm_aead := True\<rparr>) sample_rand (\<lambda>_. None) ''a.com:80'' 1 = (Inr c, w) \<and>
     open_request sample_crypto (us_CmdKey (vn_user c)) (w @ [5]) = Some (hdr, [5]) \<and> hdr ! 37 = 1"
proof -
  have tgt: "''a.com:80'' = JoinHostPort ''a.com'' (dec 80)"
    by (simp add: JoinHostPort_def dec.simps char_of_def bit_iff_odd)
  obtain x where "Vless_ParseAddr ''a.com:80'' = Some x"
    using Vless_ParseAddr_some [OF sample_plain, of 80] by (auto simp flip: tgt)
  then obtain c w where n: "NewConn sample_crypto (sample_client\<lparr>vm_aead := True\<rparr>) sample_rand (\<lambda>_. None) ''a.com:80'' 1 = (Inr c, w)"
    by (simp add: NewConn_def Let_def)
  have s: "vm_aead (sample_client\<lparr>vm_aead := True\<rparr>)" "vm_security (sample_client\<lparr>vm_aead := True\<rparr>) < 16"
    "length (rd_body sample_rand) = 32" "length (rd_padding sample_rand) < 16" "length (rd_nonce sample_rand) = 8"
    by (simp_all add: sample_client_def SecurityAES128GCM_def sample_rand_def)
  from vmess_request_ok [OF sample_crypto_ok n s sample_plain _ tgt, of "[5]"] n show ?thesis by auto
qed

end
