(* ===== verification/Dhcp.thy ===== *)
theory Dhcp
  imports GoNet
begin

unbundle bit_operations_syntax

text \<open>
  The DHCP service (\<open>src/service/dhcpd\<close>): the pool of addresses (\<open>pool.go\<close>), the handler of requests and the construction of
  the service (\<open>dhcpd.go\<close>), and the frame a reply is sent in (\<open>reply.go\<close>).

  The pool's mutex makes its operations atomic, so a run of the service is a sequence of requests, of sweeps of the
  goroutine that frees expired leases, and of changes of the failover flag. A time is a number of nanoseconds, the zero
  \<open>time.Time\<close> is \<open>None\<close>. A hardware address is a slice: \<open>None\<close> is nil, which \<open>bytes.Equal\<close> takes for the empty one. The clock and the random
  start of a search are arguments. Messages are those of the \<open>dhcpv4\<close> package, of which the handler reads four fields.

  \<open>dhcp_exclusive\<close>: no two clients hold one address. \<open>reply_frame_ok\<close>: the headers of a reply are consistent. \<open>NewPool_range\<close> and
  \<open>NewPool_diverges\<close>: the pool that is built.
\<close>

section \<open>The pool\<close>

type_synonym mac = "bytes option"

record lease_item =
  li_ip :: netip_addr
  li_mac :: mac
  li_expire :: "int option"

record Pool =
  dp_items :: "lease_item list"
  dp_lease :: int

fun bytes_Equal :: "mac \<Rightarrow> mac \<Rightarrow> bool" where
  "bytes_Equal a b \<longleftrightarrow> (case a of None \<Rightarrow> [] | Some x \<Rightarrow> x) = (case b of None \<Rightarrow> [] | Some x \<Rightarrow> x)"

definition ipv4ToNum :: "netip_addr \<Rightarrow> u32" where
  "ipv4ToNum a = (let ip = addr_bytes a in
     (push_bit 24 (ucast (ip ! 0)) + push_bit 16 (ucast (ip ! 1))) + push_bit 8 (ucast (ip ! 2)) + ucast (ip ! 3))"

definition numToIPv4 :: "u32 \<Rightarrow> netip_addr" where
  "numToIPv4 n = Addr4 [ucast (drop_bit 24 n), ucast (drop_bit 16 n), ucast (drop_bit 8 n), ucast n]"

text \<open>The loop over the range, which counts in 32 bits; \<open>None\<close> is running out of fuel.\<close>

fun pool_loop :: "nat \<Rightarrow> u32 \<Rightarrow> u32 \<Rightarrow> lease_item list option" where
  "pool_loop 0 n e = None"
| "pool_loop (Suc fuel) n e =
     (if n \<le> e then map_option ((#) \<lparr>li_ip = numToIPv4 n, li_mac = None, li_expire = None\<rparr>) (pool_loop fuel (n + 1) e) else Some [])"

definition NewPool :: "nat \<Rightarrow> int \<Rightarrow> netip_addr \<Rightarrow> netip_addr \<Rightarrow> Pool res" where
  "NewPool fuel lease start end =
     (if IsUnspecified start \<or> IsUnspecified end \<or> Is6 start \<or> Is6 end then Err ''start ip or end ip is wrong''
      else let s = ipv4ToNum start; e = ipv4ToNum end in
        if e < s then Err ''start ip larger than end ip''
        else case pool_loop fuel s e of None \<Rightarrow> Diverge | Some items \<Rightarrow> Ok \<lparr>dp_items = items, dp_lease = lease\<rparr>)"

text \<open>What the goroutine of \<open>NewPool\<close> does at a tick.\<close>

definition sweep_item :: "int \<Rightarrow> lease_item \<Rightarrow> lease_item" where
  "sweep_item now it =
     (case li_expire it of
        Some t \<Rightarrow> if t < now then it\<lparr>li_mac := None, li_expire := None\<rparr> else it
      | None \<Rightarrow> it)"

definition sweep :: "int \<Rightarrow> Pool \<Rightarrow> Pool" where
  "sweep now p = p\<lparr>dp_items := map (sweep_item now) (dp_items p)\<rparr>"

primrec first_index :: "('a \<Rightarrow> bool) \<Rightarrow> 'a list \<Rightarrow> nat option" where
  "first_index P [] = None"
| "first_index P (x # xs) = (if P x then Some 0 else map_option Suc (first_index P xs))"

definition free_item :: "lease_item \<Rightarrow> bool" where
  "free_item it \<longleftrightarrow> li_mac it = None"

definition take_item :: "int \<Rightarrow> mac \<Rightarrow> nat \<Rightarrow> Pool \<Rightarrow> netip_addr res \<times> Pool" where
  "take_item now mac i p =
     (Ok (li_ip (dp_items p ! i)),
      p\<lparr>dp_items := (dp_items p)[i := (dp_items p ! i)\<lparr>li_mac := mac, li_expire := Some (now + dp_lease p)\<rparr>]\<rparr>)"

definition renew_item :: "int \<Rightarrow> nat \<Rightarrow> Pool \<Rightarrow> netip_addr res \<times> Pool" where
  "renew_item now i p =
     (Ok (li_ip (dp_items p ! i)),
      if li_expire (dp_items p ! i) \<noteq> None
      then p\<lparr>dp_items := (dp_items p)[i := (dp_items p ! i)\<lparr>li_expire := Some (now + dp_lease p)\<rparr>]\<rparr> else p)"

definition LeaseIP :: "int \<Rightarrow> nat \<Rightarrow> mac \<Rightarrow> netip_addr option \<Rightarrow> Pool \<Rightarrow> netip_addr res \<times> Pool" where
  "LeaseIP now idx mac ip p =
     (case first_index (\<lambda>it. bytes_Equal mac (li_mac it)) (dp_items p) of
        Some i \<Rightarrow> renew_item now i p
      | None \<Rightarrow>
     (case first_index (\<lambda>it. Some (li_ip it) = ip \<and> li_mac it = None) (dp_items p) of
        Some i \<Rightarrow> take_item now mac i p
      | None \<Rightarrow>
     (if dp_items p = [] then (Panic, p) else
      case first_index free_item (drop idx (dp_items p)) of
        Some j \<Rightarrow> take_item now mac (idx + j) p
      | None \<Rightarrow>
     (case first_index free_item (dp_items p) of
        Some i \<Rightarrow> take_item now mac i p
      | None \<Rightarrow> (Err ''no more ip can be leased'', p)))))"

definition LeaseStaticIP :: "mac \<Rightarrow> netip_addr \<Rightarrow> Pool \<Rightarrow> Pool" where
  "LeaseStaticIP mac ip p =
     p\<lparr>dp_items := map (\<lambda>it. if li_ip it = ip then it\<lparr>li_mac := mac, li_expire := None\<rparr> else it) (dp_items p)\<rparr>"

definition ReleaseIP :: "mac \<Rightarrow> Pool \<Rightarrow> Pool" where
  "ReleaseIP mac p =
     p\<lparr>dp_items := map (\<lambda>it. if li_expire it \<noteq> None \<and> bytes_Equal mac (li_mac it) then it\<lparr>li_mac := None, li_expire := None\<rparr> else it)
       (dp_items p)\<rparr>"

section \<open>The service\<close>

datatype MessageType = Discover | Offer | Request | Decline | Ack | Nak | Release | Inform | OtherType u8

record DHCPv4 =
  dm_type :: MessageType
  dm_ClientHWAddr :: mac
  dm_ClientIPAddr :: bytes
  dm_RequestedIP :: "bytes option"

record dhcpd =
  dd_failover :: bool
  dd_name :: string
  dd_pool :: Pool
  dd_lease :: int
  dd_HardwareAddr :: mac

definition To4 :: "bytes \<Rightarrow> bytes option" where
  "To4 ip =
     (if length ip = 4 then Some ip
      else if length ip = 16 \<and> take 10 ip = replicate 10 0 \<and> ip ! 10 = 0xff \<and> ip ! 11 = 0xff then Some (drop 12 ip)
      else None)"

definition AddrFromSlice :: "bytes \<Rightarrow> netip_addr option" where
  "AddrFromSlice b = (if length b = 4 then Some (Addr4 b) else if length b = 16 then Some (Addr6 b []) else None)"

text \<open>The address asked for, of a request only. Converting a nil slice to an array panics.\<close>

definition requested :: "DHCPv4 \<Rightarrow> netip_addr option res" where
  "requested m =
     (case dm_RequestedIP m of
        Some b \<Rightarrow> Ok (AddrFromSlice b)
      | None \<Rightarrow> (case To4 (dm_ClientIPAddr m) of Some b \<Rightarrow> Ok (Some (Addr4 b)) | None \<Rightarrow> Panic))"

definition answer_lease :: "int \<Rightarrow> nat \<Rightarrow> dhcpd \<Rightarrow> DHCPv4 \<Rightarrow> MessageType \<Rightarrow> netip_addr option \<Rightarrow> (MessageType \<times> netip_addr) option res \<times> dhcpd" where
  "answer_lease now idx d m replyType reqIP =
     (case LeaseIP now idx (dm_ClientHWAddr m) reqIP (dd_pool d) of
        (Ok replyIP, p) \<Rightarrow>
          (Ok (Some (if dm_type m = Request \<and> (case reqIP of Some a \<Rightarrow> \<not> IsUnspecified a | None \<Rightarrow> True) \<and> reqIP \<noteq> Some replyIP then Nak else replyType, replyIP)),
           d\<lparr>dd_pool := p\<rparr>)
      | (Panic, p) \<Rightarrow> (Panic, d\<lparr>dd_pool := p\<rparr>)
      | (_, p) \<Rightarrow> (Ok None, d\<lparr>dd_pool := p\<rparr>))"

text \<open>\<open>None\<close> is no answer.\<close>

definition handleDHCP :: "int \<Rightarrow> nat \<Rightarrow> DHCPv4 \<Rightarrow> dhcpd \<Rightarrow> (MessageType \<times> netip_addr) option res \<times> dhcpd" where
  "handleDHCP now idx m d =
     (if dd_failover d \<or> bytes_Equal (dd_HardwareAddr d) (dm_ClientHWAddr m) then (Ok None, d)
      else case dm_type m of
        Discover \<Rightarrow> answer_lease now idx d m Offer None
      | Inform \<Rightarrow> answer_lease now idx d m Ack None
      | Request \<Rightarrow>
          (case requested m of
             Ok reqIP \<Rightarrow> answer_lease now idx d m Ack reqIP
           | _ \<Rightarrow> (Panic, d))
      | Release \<Rightarrow> (Ok None, d\<lparr>dd_pool := ReleaseIP (dm_ClientHWAddr m) (dd_pool d)\<rparr>)
      | Decline \<Rightarrow> (Ok None, d\<lparr>dd_pool := ReleaseIP (dm_ClientHWAddr m) (dd_pool d)\<rparr>)
      | _ \<Rightarrow> (Ok None, d))"

definition setFailover :: "bool \<Rightarrow> dhcpd \<Rightarrow> dhcpd" where
  "setFailover v d = d\<lparr>dd_failover := v\<rparr>"

subsection \<open>Construction\<close>

text \<open>\<open>net.ParseMAC\<close>: pairs of digits separated by colons or hyphens, or fours separated by dots.\<close>

definition xtoi2 :: "string \<Rightarrow> char \<Rightarrow> u8 option" where
  "xtoi2 s e =
     (case s of
        a # b # r \<Rightarrow>
          if r \<noteq> [] \<and> hd r \<noteq> e then None
          else (case (hex_val a, hex_val b) of (Some x, Some y) \<Rightarrow> Some (of_nat (16 * x + y)) | _ \<Rightarrow> None)
      | _ \<Rightarrow> None)"

primrec mac_pairs :: "nat \<Rightarrow> char \<Rightarrow> string \<Rightarrow> bytes option" where
  "mac_pairs 0 e s = Some []"
| "mac_pairs (Suc n) e s =
     (case xtoi2 s e of None \<Rightarrow> None | Some b \<Rightarrow> map_option ((#) b) (mac_pairs n e (drop 3 s)))"

primrec mac_fours :: "nat \<Rightarrow> char \<Rightarrow> string \<Rightarrow> bytes option" where
  "mac_fours 0 e s = Some []"
| "mac_fours (Suc n) e s =
     (case (xtoi2 (take 2 s) e, xtoi2 (drop 2 s) e) of
        (Some b, Some c) \<Rightarrow> map_option (\<lambda>r. b # c # r) (mac_fours n e (drop 5 s))
      | _ \<Rightarrow> None)"

definition ParseMAC :: "string \<Rightarrow> bytes option" where
  "ParseMAC s =
     (if length s < 14 then None
      else if s ! 2 = CHR '':'' \<or> s ! 2 = CHR ''-'' then
        (let n = (length s + 1) div 3 in
         if (length s + 1) mod 3 = 0 \<and> n \<in> {6, 8, 20} then mac_pairs n (s ! 2) s else None)
      else if s ! 4 = CHR ''.'' then
        (let n = 2 * (length s + 1) div 5 in
         if (length s + 1) mod 5 = 0 \<and> n \<in> {6, 8, 20} then mac_fours (n div 2) (s ! 4) s else None)
      else None)"

text \<open>Entries that are not of the form \<open>mac=ip\<close> are skipped.\<close>

primrec static_ips :: "string list \<Rightarrow> Pool \<Rightarrow> Pool" where
  "static_ips [] p = p"
| "static_ips (host # hosts) p =
     static_ips hosts
       (case (if CHR ''='' \<in> set host then ParseMAC (fst (strings_Cut CHR ''='' host)) else None, ParseAddr (snd (strings_Cut CHR ''='' host))) of
          (Some mac, Some ip) \<Rightarrow> LeaseStaticIP (Some mac) ip p
        | _ \<Rightarrow> p)"

text \<open>The interface (its name and hardware address) and the server's socket come from the system. The lease is in minutes.\<close>

definition New :: "nat \<Rightarrow> bool \<Rightarrow> (string \<Rightarrow> (string \<times> mac) option) \<Rightarrow> string option \<Rightarrow> string list \<Rightarrow> dhcpd res" where
  "New fuel failover ifaceAddr listen_err args =
     (case args of
        iface # start # end # leaseMin # hosts \<Rightarrow>
          (case ifaceAddr iface of
             None \<Rightarrow> Err ''get ip of interface error''
           | Some (name, hw) \<Rightarrow>
          (case (ParseAddr start, ParseAddr end) of
             (None, _) \<Rightarrow> Err ''startIP is not valid''
           | (_, None) \<Rightarrow> Err ''endIP is not valid''
           | (Some startIP, Some endIP) \<Rightarrow>
          (case Atoi leaseMin of
             None \<Rightarrow> Err ''LEASE_MINUTES is not valid''
           | Some i \<Rightarrow>
               let lease = wrap64 (i * 60000000000) in
               bind_res (NewPool fuel lease startIP endIP) (\<lambda>pool.
                 case listen_err of
                   Some e \<Rightarrow> Err e
                 | None \<Rightarrow> Ok \<lparr>dd_failover = failover, dd_name = name, dd_pool = static_ips hosts pool, dd_lease = lease, dd_HardwareAddr = hw\<rparr>))))
      | _ \<Rightarrow> Err ''not enough parameters, exiting'')"

subsection \<open>The frame of a reply\<close>

fun csum_loop :: "bytes \<Rightarrow> u32 \<Rightarrow> u32" where
  "csum_loop (a # b # r) c = csum_loop r (c + push_bit 8 (ucast a) + ucast b)"
| "csum_loop _ c = c"

lemma unat_carry: "unat (drop_bit 16 c + ucast (ucast c :: u16)) = unat c div 65536 + unat c mod 65536" for c :: u32
proof -
  have c: "unat c < 4294967296" using unsigned_less [of c] by simp
  have "unat (drop_bit 16 c) = unat c div 65536" "unat (ucast (ucast c :: u16) :: u32) = unat c mod 65536"
    by (simp_all add: unsigned_drop_bit_eq drop_bit_eq_div unsigned_ucast_eq take_bit_eq_mod unat_div unat_mod)
  moreover from c have "unat c div 65536 + unat c mod 65536 < 2 ^ LENGTH(32)" by simp
  ultimately show ?thesis by (simp add: unat_word_ariths)
qed

function fold_carry :: "u32 \<Rightarrow> u32" where
  "fold_carry c = (if c \<le> 65535 then c else fold_carry (drop_bit 16 c + ucast (ucast c :: u16)))"
  by pat_completeness auto
termination
proof (relation "measure unat")
  fix c :: u32 assume "\<not> c \<le> 65535"
  then have "65535 < unat c" by (simp add: word_le_nat_alt)
  then have "unat c div 65536 + unat c mod 65536 < unat c"
    using div_mult_mod_eq [of "unat c" 65536] div_le_mono [of 65536 "unat c" 65536] by linarith
  then show "(drop_bit 16 c + ucast (ucast c :: u16), c) \<in> measure unat" by (simp only: in_measure unat_carry)
qed simp

declare fold_carry.simps [simp del]

definition checksum :: "bytes \<Rightarrow> u16" where
  "checksum bs = NOT (ucast (fold_carry (csum_loop bs 0)))"

definition copy_to :: "bytes \<Rightarrow> nat \<Rightarrow> bytes \<Rightarrow> bytes" where
  "copy_to p off src = take off p @ take (length p - off) src @ drop (off + length src) p"

text \<open>
  The frame, of a fixed length: the arguments are the hardware addresses of the client and the interface, the addresses of the
  server and the client, and the message. Taking six bytes of a shorter address panics.
\<close>

definition reply_frame :: "bytes \<Rightarrow> bytes \<Rightarrow> bytes \<Rightarrow> bytes \<Rightarrow> bytes \<Rightarrow> bytes res" where
  "reply_frame client_hw iface_hw server_ip your_ip payload =
     (if length client_hw < 6 \<or> length iface_hw < 6 \<or> length server_ip < 4 \<or> length your_ip < 4 then Panic
      else
        let p0 = (replicate 590 0)[12 := 0x08, 14 := 0x45, 16 := 0x02, 17 := 0x40, 22 := 0x40, 23 := 0x11, 35 := 67, 37 := 68, 38 := 0x02, 39 := 0x2c];
            p1 = copy_to p0 0 (take 6 client_hw);
            p2 = copy_to p1 6 (take 6 iface_hw);
            p3 = copy_to p2 26 (take 4 server_ip);
            p4 = copy_to p3 30 (take 4 your_ip);
            p5 = copy_to p4 24 (be16 (checksum (take 20 (drop 14 p4))))
        in Ok (copy_to p5 42 payload))"

section \<open>One client per address\<close>

lemma first_index_Some: "first_index P xs = Some i \<longleftrightarrow> i < length xs \<and> P (xs ! i) \<and> (\<forall>j < i. \<not> P (xs ! j))"
proof (induction xs arbitrary: i)
  case (Cons x xs)
  then show ?case by (cases i) (auto simp: less_Suc_eq_0_disj)
qed simp

lemma first_index_None: "first_index P xs = None \<longleftrightarrow> (\<forall>x \<in> set xs. \<not> P x)"
  by (induction xs) auto

lemma bytes_Equal_Some [simp]: "m \<noteq> [] \<Longrightarrow> bytes_Equal (Some m) a \<longleftrightarrow> a = Some m"
  by (auto split: option.splits)

lemma bytes_Equal_sym: "bytes_Equal a b = bytes_Equal b a"
  by auto

declare bytes_Equal.simps [simp del]

text \<open>A successful lease renews the first item of the client or takes a free one.\<close>

lemma LeaseIP_cases:
  assumes "LeaseIP now idx mac req p = (r, p')"
  obtains (renewed) j where "first_index (\<lambda>it. bytes_Equal mac (li_mac it)) (dp_items p) = Some j" "(r, p') = renew_item now j p"
  | (taken) j where "first_index (\<lambda>it. bytes_Equal mac (li_mac it)) (dp_items p) = None" "j < length (dp_items p)" "li_mac (dp_items p ! j) = None"
      "(r, p') = take_item now mac j p"
  | (failed) "first_index (\<lambda>it. bytes_Equal mac (li_mac it)) (dp_items p) = None" "\<forall>it \<in> set (dp_items p). li_mac it \<noteq> None"
      "r = (if dp_items p = [] then Panic else Err ''no more ip can be leased'')" "p' = p"
proof (cases "first_index (\<lambda>it. bytes_Equal mac (li_mac it)) (dp_items p)")
  case (Some j)
  then show thesis using assms renewed by (simp add: LeaseIP_def)
next
  case none: None
  show thesis
  proof (cases "first_index (\<lambda>it. Some (li_ip it) = req \<and> li_mac it = None) (dp_items p)")
    case (Some j)
    then have "j < length (dp_items p)" "li_mac (dp_items p ! j) = None" by (simp_all add: first_index_Some)
    then show thesis using assms none Some taken [OF none, of j] by (simp add: LeaseIP_def)
  next
    case none2: None
    show thesis
    proof (cases "first_index free_item (drop idx (dp_items p))")
      case (Some j)
      then have "idx + j < length (dp_items p)" "li_mac (dp_items p ! (idx + j)) = None" by (auto simp: first_index_Some free_item_def)
      moreover from this have "(r, p') = take_item now mac (idx + j) p"
        using none none2 Some by (auto simp: LeaseIP_def simp flip: assms)
      ultimately show thesis using taken [OF none] by blast
    next
      case none3: None
      show thesis
      proof (cases "first_index free_item (dp_items p)")
        case (Some j)
        then have "j < length (dp_items p)" "li_mac (dp_items p ! j) = None" by (simp_all add: first_index_Some free_item_def)
        moreover from this have "(r, p') = take_item now mac j p"
          using none none2 none3 Some by (auto simp: LeaseIP_def simp flip: assms)
        ultimately show thesis using taken [OF none] by blast
      next
        case None
        then have "\<forall>it \<in> set (dp_items p). li_mac it \<noteq> None" by (auto simp: first_index_None free_item_def)
        moreover have "r = (if dp_items p = [] then Panic else Err ''no more ip can be leased'')" "p' = p"
          using assms none none2 none3 None by (auto simp: LeaseIP_def split: if_splits)
        ultimately show thesis using none by (intro failed)
      qed
    qed
  qed
qed

definition pool_ips :: "Pool \<Rightarrow> netip_addr list" where
  "pool_ips p = map li_ip (dp_items p)"

lemma LeaseIP_keeps:
  assumes "LeaseIP now idx mac req p = (r, p')"
  shows "pool_ips p' = pool_ips p" "dp_lease p' = dp_lease p" "length (dp_items p') = length (dp_items p)"
  using assms
  by (cases rule: LeaseIP_cases; auto simp: renew_item_def take_item_def pool_ips_def map_update list_update_id first_index_Some
      nth_map split: if_splits intro: nth_equalityI simp: nth_list_update)+

text \<open>The client's first item is number \<open>i\<close>, static or leased at least until \<open>t\<close>.\<close>

definition leased :: "bytes \<Rightarrow> nat \<Rightarrow> int \<Rightarrow> Pool \<Rightarrow> bool" where
  "leased hw i t p \<longleftrightarrow> first_index (\<lambda>it. li_mac it = Some hw) (dp_items p) = Some i \<and>
     (case li_expire (dp_items p ! i) of None \<Rightarrow> True | Some e \<Rightarrow> t \<le> e)"

lemma leasedI:
  assumes "i < length (dp_items p)" "li_mac (dp_items p ! i) = Some hw" "\<And>j. j < i \<Longrightarrow> li_mac (dp_items p ! j) \<noteq> Some hw"
    and "\<And>e. li_expire (dp_items p ! i) = Some e \<Longrightarrow> t \<le> e"
  shows "leased hw i t p"
  using assms by (simp add: leased_def first_index_Some split: option.splits)

lemma leasedD:
  assumes "leased hw i t p"
  shows "i < length (dp_items p)" "li_mac (dp_items p ! i) = Some hw" "j < i \<Longrightarrow> li_mac (dp_items p ! j) \<noteq> Some hw"
    and "li_expire (dp_items p ! i) = Some e \<Longrightarrow> t \<le> e"
  using assms by (simp_all add: leased_def first_index_Some split: option.splits)

lemma LeaseIP_leased:
  assumes "LeaseIP now idx (Some hw) req p = (Ok ip, p')" and "hw \<noteq> []"
  shows "\<exists>i. leased hw i (now + dp_lease p) p' \<and> ip = pool_ips p ! i"
  using assms(1)
proof (cases rule: LeaseIP_cases)
  case (renewed j)
  then show ?thesis using assms(2)
    by (intro exI [of _ j] conjI leasedI) (auto simp: first_index_Some renew_item_def pool_ips_def nth_list_update split: if_splits)
next
  case (taken j)
  then show ?thesis using assms(2)
    by (intro exI [of _ j] conjI leasedI) (auto simp: first_index_None take_item_def pool_ips_def nth_list_update)
qed (simp split: if_splits)

text \<open>Whoever asks next gets this item if it is the client and another one if not.\<close>

lemma leased_next:
  assumes l: "leased hw i t p" and "hw \<noteq> []" and "LeaseIP now idx mac req p = (r, p')" and "t \<le> now + dp_lease p"
  shows "leased hw i t p'" and "r = Ok ip \<Longrightarrow> \<exists>j < length (dp_items p). ip = pool_ips p ! j \<and> (j = i \<longleftrightarrow> bytes_Equal mac (Some hw))"
proof -
  note D = leasedD [OF l]
  have eq: "bytes_Equal mac (Some hw) \<longleftrightarrow> mac = Some hw" using assms(2) bytes_Equal_sym [of mac "Some hw"] by simp
  have "leased hw i t p' \<and> (r = Ok ip \<longrightarrow> (\<exists>j < length (dp_items p). ip = pool_ips p ! j \<and> (j = i \<longleftrightarrow> mac = Some hw)))"
    using assms(3)
  proof (cases rule: LeaseIP_cases)
    case (renewed j)
    then have j: "j < length (dp_items p)" "bytes_Equal mac (li_mac (dp_items p ! j))" by (simp_all add: first_index_Some)
    have "leased hw i t p'"
      using D j(1) renewed(2) assms(4) by (intro leasedI) (auto simp: renew_item_def nth_list_update split: if_splits)
    moreover have "j = i \<longleftrightarrow> mac = Some hw"
    proof
      assume "j = i" then show "mac = Some hw" using j(2) D(2) eq by simp
    next
      assume "mac = Some hw"
      then show "j = i" using renewed(1) assms(1,2) by (simp add: leased_def)
    qed
    moreover have "r = Ok (pool_ips p ! j)" using renewed(2) j(1) by (simp add: renew_item_def pool_ips_def)
    ultimately show ?thesis using j(1) by auto
  next
    case (taken j)
    have "mac \<noteq> Some hw" using taken(1) D(1,2) eq unfolding first_index_None by (metis nth_mem)
    moreover have "j \<noteq> i" using taken(3) D(2) by auto
    moreover have "r = Ok (pool_ips p ! j)" using taken(2,4) by (simp add: take_item_def pool_ips_def)
    moreover have "leased hw i t p'"
      using D taken(2-4) \<open>mac \<noteq> Some hw\<close> \<open>j \<noteq> i\<close> by (intro leasedI) (auto simp: take_item_def nth_list_update)
    ultimately show ?thesis using taken(2) by auto
  qed (use l in \<open>auto split: if_splits\<close>)
  with eq show "leased hw i t p'" and "r = Ok ip \<Longrightarrow> \<exists>j < length (dp_items p). ip = pool_ips p ! j \<and> (j = i \<longleftrightarrow> bytes_Equal mac (Some hw))"
    by auto
qed

lemma leased_ReleaseIP: "leased hw i t p \<Longrightarrow> hw \<noteq> [] \<Longrightarrow> mac \<noteq> Some hw \<Longrightarrow> leased hw i t (ReleaseIP mac p)"
  using bytes_Equal_sym [of mac "Some hw"]
  by (intro leasedI) (use leasedD [of hw i t p] in \<open>auto simp: ReleaseIP_def split: if_splits\<close>)

lemma leased_sweep: "leased hw i t p \<Longrightarrow> now \<le> t \<Longrightarrow> leased hw i t (sweep now p)"
  by (intro leasedI) (use leasedD [of hw i t p] in \<open>fastforce simp: sweep_def sweep_item_def split: option.splits if_splits\<close>)+

lemma pool_keeps [simp]:
  "pool_ips (ReleaseIP mac p) = pool_ips p" "dp_lease (ReleaseIP mac p) = dp_lease p"
  "pool_ips (sweep now p) = pool_ips p" "dp_lease (sweep now p) = dp_lease p"
  by (auto simp: ReleaseIP_def sweep_def sweep_item_def pool_ips_def split: option.splits)

text \<open>A run of the service.\<close>

datatype dhcp_event = Msg int nat DHCPv4 | Sweep int | Failover bool

fun dhcp_exec :: "dhcp_event \<Rightarrow> dhcpd \<Rightarrow> dhcpd" where
  "dhcp_exec (Msg now idx m) d = snd (handleDHCP now idx m d)"
| "dhcp_exec (Sweep now) d = d\<lparr>dd_pool := sweep now (dd_pool d)\<rparr>"
| "dhcp_exec (Failover v) d = setFailover v d"

text \<open>What can happen from \<open>now\<close> on without the client giving its lease up and without the lease, until \<open>t\<close>, expiring.\<close>

fun lasts :: "int \<Rightarrow> int \<Rightarrow> bytes \<Rightarrow> dhcp_event \<Rightarrow> bool" where
  "lasts now t hw (Msg n idx m) \<longleftrightarrow> now \<le> n \<and> (dm_type m \<in> {Release, Decline} \<longrightarrow> dm_ClientHWAddr m \<noteq> Some hw)"
| "lasts now t hw (Sweep n) \<longleftrightarrow> n \<le> t"
| "lasts now t hw (Failover v) \<longleftrightarrow> True"

lemma answer_lease_pool:
  assumes "answer_lease now idx d m ty req = (r, d')"
  obtains r' where "LeaseIP now idx (dm_ClientHWAddr m) req (dd_pool d) = (r', dd_pool d')" "d' = d\<lparr>dd_pool := dd_pool d'\<rparr>"
    "\<And>ty' ip. r = Ok (Some (ty', ip)) \<Longrightarrow> r' = Ok ip"
  using assms by (auto simp: answer_lease_def split: prod.splits res.splits)

lemma handleDHCP_pool:
  assumes "handleDHCP now idx m d = (r, d')"
  obtains (lease) req r' where "LeaseIP now idx (dm_ClientHWAddr m) req (dd_pool d) = (r', dd_pool d')" "\<And>ty ip. r = Ok (Some (ty, ip)) \<Longrightarrow> r' = Ok ip"
  | (release) "dm_type m \<in> {Release, Decline}" "dd_pool d' = ReleaseIP (dm_ClientHWAddr m) (dd_pool d)" "r = Ok None"
  | (nothing) "d' = d" "\<And>x. r \<noteq> Ok (Some x)"
proof (cases "dd_failover d \<or> bytes_Equal (dd_HardwareAddr d) (dm_ClientHWAddr m)")
  case True
  then show thesis using assms by - (rule nothing; auto simp: handleDHCP_def)
next
  case active: False
  show thesis
  proof (cases "dm_type m \<in> {Release, Decline}")
    case True
    then show thesis using assms active by - (rule release; auto simp: handleDHCP_def)
  next
    case False
    consider ty req where "answer_lease now idx d m ty req = (r, d')" | "d' = d" "\<And>x. r \<noteq> Ok (Some x)"
      using assms active False by (auto simp: handleDHCP_def split: MessageType.splits res.splits)
    then show thesis
    proof cases
      case 1
      then show thesis using lease by (elim answer_lease_pool) blast
    qed (rule nothing)
  qed
qed

lemma leased_exec:
  assumes "leased hw i (now + dp_lease (dd_pool d)) (dd_pool d)" and "hw \<noteq> []" and "lasts now (now + dp_lease (dd_pool d)) hw e"
  shows "leased hw i (now + dp_lease (dd_pool d)) (dd_pool (dhcp_exec e d))"
    and "dp_lease (dd_pool (dhcp_exec e d)) = dp_lease (dd_pool d)" and "pool_ips (dd_pool (dhcp_exec e d)) = pool_ips (dd_pool d)"
proof -
  let ?t = "now + dp_lease (dd_pool d)"
  have "leased hw i ?t (dd_pool (dhcp_exec e d)) \<and> dp_lease (dd_pool (dhcp_exec e d)) = dp_lease (dd_pool d) \<and>
      pool_ips (dd_pool (dhcp_exec e d)) = pool_ips (dd_pool d)"
  proof (cases e)
    case (Msg n idx m)
    obtain r d' where h: "handleDHCP n idx m d = (r, d')" by (rule prod.exhaust)
    then show ?thesis
    proof (cases rule: handleDHCP_pool)
      case (lease req r')
      then show ?thesis using leased_next(1) [OF assms(1,2) lease(1)] LeaseIP_keeps [OF lease(1)] assms(3) Msg h by simp
    next
      case release
      then show ?thesis using leased_ReleaseIP [OF assms(1,2)] assms(3) Msg h by auto
    qed (use assms(1) Msg h in simp)
  qed (use assms leased_sweep [OF assms(1)] in \<open>simp_all add: setFailover_def\<close>)
  then show "leased hw i ?t (dd_pool (dhcp_exec e d))" and "dp_lease (dd_pool (dhcp_exec e d)) = dp_lease (dd_pool d)"
    and "pool_ips (dd_pool (dhcp_exec e d)) = pool_ips (dd_pool d)" by simp_all
qed

lemma leased_run:
  assumes "leased hw i (now + dp_lease (dd_pool d)) (dd_pool d)" and "hw \<noteq> []" and "\<forall>e \<in> set evs. lasts now (now + dp_lease (dd_pool d)) hw e"
  shows "leased hw i (now + dp_lease (dd_pool d)) (dd_pool (fold dhcp_exec evs d)) \<and> dp_lease (dd_pool (fold dhcp_exec evs d)) = dp_lease (dd_pool d) \<and>
    pool_ips (dd_pool (fold dhcp_exec evs d)) = pool_ips (dd_pool d)"
  using assms
proof (induction evs arbitrary: d)
  case (Cons e evs)
  note s = leased_exec [OF Cons.prems(1,2), of e]
  from Cons.prems(3) s Cons.IH [of "dhcp_exec e d"] Cons.prems(2) show ?case by simp
qed simp

text \<open>
  C34. One client per address. When the service has offered or acknowledged an address to a client, then after any
  requests of any clients, sweeps and failovers that leave the client's lease unexpired and not given up, the next answer
  carries that address exactly if it goes to that client.
\<close>

theorem dhcp_exclusive:
  assumes "distinct (pool_ips (dd_pool d))"
    and "handleDHCP now idx m d = (Ok (Some (ty, ip)), d1)" and "dm_ClientHWAddr m = Some hw" and "hw \<noteq> []"
    and "\<forall>e \<in> set evs. lasts now (now + dp_lease (dd_pool d)) hw e"
    and "handleDHCP now2 idx2 m2 (fold dhcp_exec evs d1) = (Ok (Some (ty2, ip2)), d2)" and "now \<le> now2"
  shows "ip2 = ip \<longleftrightarrow> bytes_Equal (dm_ClientHWAddr m2) (Some hw)"
proof -
  obtain req where L: "LeaseIP now idx (Some hw) req (dd_pool d) = (Ok ip, dd_pool d1)"
    using assms(2) by (cases rule: handleDHCP_pool) (auto simp: assms(3))
  from LeaseIP_leased [OF L assms(4)] obtain i where i: "leased hw i (now + dp_lease (dd_pool d)) (dd_pool d1)" "ip = pool_ips (dd_pool d) ! i"
    by blast
  note K = LeaseIP_keeps [OF L]
  let ?d = "fold dhcp_exec evs d1"
  have R: "leased hw i (now + dp_lease (dd_pool d)) (dd_pool ?d)" "dp_lease (dd_pool ?d) = dp_lease (dd_pool d)" "pool_ips (dd_pool ?d) = pool_ips (dd_pool d)"
    using leased_run [of hw i now d1 evs] i(1) assms(4,5) K(1,2) by simp_all
  obtain req2 where L2: "LeaseIP now2 idx2 (dm_ClientHWAddr m2) req2 (dd_pool ?d) = (Ok ip2, dd_pool d2)"
    using assms(6) by (cases rule: handleDHCP_pool) auto
  have "now + dp_lease (dd_pool d) \<le> now2 + dp_lease (dd_pool ?d)" using R(2) assms(7) by simp
  from leased_next(2) [OF R(1) assms(4) L2 this refl]
  obtain j where "j < length (pool_ips (dd_pool d))" "ip2 = pool_ips (dd_pool d) ! j" "j = i \<longleftrightarrow> bytes_Equal (dm_ClientHWAddr m2) (Some hw)"
    using R(3) by (auto simp: pool_ips_def dest: map_eq_imp_length_eq)
  moreover have "i < length (pool_ips (dd_pool d))" using leasedD(1) [OF R(1)] R(3) by (auto simp: pool_ips_def dest: map_eq_imp_length_eq)
  ultimately show ?thesis using i(2) assms(1) by (simp add: nth_eq_iff_index_eq)
qed

definition sample_dhcpd :: dhcpd where
  "sample_dhcpd = \<lparr>dd_failover = False, dd_name = ''eth0'',
     dd_pool = \<lparr>dp_items = [\<lparr>li_ip = Addr4 [10, 0, 0, 1], li_mac = None, li_expire = None\<rparr>, \<lparr>li_ip = Addr4 [10, 0, 0, 2], li_mac = None, li_expire = None\<rparr>], dp_lease = 60\<rparr>,
     dd_lease = 60, dd_HardwareAddr = Some [9]\<rparr>"

theorem dhcp_exclusive_witness:
  "\<exists>ip ip2 d1 d2. handleDHCP 5 0 \<lparr>dm_type = Discover, dm_ClientHWAddr = Some [1], dm_ClientIPAddr = [0, 0, 0, 0], dm_RequestedIP = None\<rparr> sample_dhcpd = (Ok (Some (Offer, ip)), d1) \<and>
     handleDHCP 7 0 \<lparr>dm_type = Request, dm_ClientHWAddr = Some [2], dm_ClientIPAddr = [0, 0, 0, 0], dm_RequestedIP = Some [10, 0, 0, 1]\<rparr> (fold dhcp_exec [Sweep 6] d1) = (Ok (Some (Nak, ip2)), d2) \<and>
     ip2 \<noteq> ip"
proof -
  let ?m = "\<lparr>dm_type = Discover, dm_ClientHWAddr = Some [1], dm_ClientIPAddr = [0, 0, 0, 0], dm_RequestedIP = None\<rparr>"
  let ?m2 = "\<lparr>dm_type = Request, dm_ClientHWAddr = Some [2], dm_ClientIPAddr = [0, 0, 0, 0], dm_RequestedIP = Some [10, 0, 0, 1]\<rparr>"
  let ?d1 = "snd (handleDHCP 5 0 ?m sample_dhcpd)"
  note defs = handleDHCP_def answer_lease_def LeaseIP_def sample_dhcpd_def bytes_Equal.simps take_item_def renew_item_def free_item_def requested_def AddrFromSlice_def
  have 1: "handleDHCP 5 0 ?m sample_dhcpd = (Ok (Some (Offer, Addr4 [10, 0, 0, 1])), ?d1)" by (simp add: defs)
  have 2: "handleDHCP 7 0 ?m2 (fold dhcp_exec [Sweep 6] ?d1) = (Ok (Some (Nak, Addr4 [10, 0, 0, 2])), snd (handleDHCP 7 0 ?m2 (fold dhcp_exec [Sweep 6] ?d1)))"
    by (simp add: defs sweep_def sweep_item_def) (simp add: numeral_eq_Suc)
  have d: "distinct (pool_ips (dd_pool sample_dhcpd))" by (simp add: sample_dhcpd_def pool_ips_def)
  have "Addr4 [10, 0, 0, 2] = Addr4 [10, 0, 0, 1] \<longleftrightarrow> bytes_Equal (dm_ClientHWAddr ?m2) (Some [1])"
    by (rule dhcp_exclusive [OF d 1 _ _ _ 2]) (simp_all add: sample_dhcpd_def)
  then have "Addr4 [10, 0, 0, 2] \<noteq> Addr4 [10, 0, 0, 1]" by (simp add: bytes_Equal.simps)
  with 1 2 show ?thesis by blast
qed

section \<open>The pool that is built\<close>

definition fresh_item :: "u32 \<Rightarrow> lease_item" where
  "fresh_item n = \<lparr>li_ip = numToIPv4 n, li_mac = None, li_expire = None\<rparr>"

lemma pool_loop_ok:
  assumes "unat e < 2 ^ 32 - 1" and "unat n \<le> Suc (unat e)" and "Suc (unat e) - unat n < fuel"
  shows "pool_loop fuel n e = Some (map (\<lambda>k. fresh_item (of_nat k)) [unat n..<Suc (unat e)])"
  using assms(2,3)
proof (induction fuel arbitrary: n)
  case (Suc fuel)
  show ?case
  proof (cases "n \<le> e")
    case True
    then have "unat n \<le> unat e" by (simp add: word_le_nat_alt)
    then have u: "unat (n + 1) = Suc (unat n)" using assms(1) by (simp add: unat_word_ariths)
    have "[unat n..<Suc (unat e)] = unat n # [unat (n + 1)..<Suc (unat e)]"
      using \<open>unat n \<le> unat e\<close> by (simp add: u upt_conv_Cons)
    moreover have "pool_loop fuel (n + 1) e = Some (map (\<lambda>k. fresh_item (of_nat k)) [unat (n + 1)..<Suc (unat e)])"
      using Suc.prems \<open>unat n \<le> unat e\<close> by (intro Suc.IH) (simp_all add: u)
    ultimately show ?thesis using True by (simp add: fresh_item_def)
  next
    case False
    then have "unat n = Suc (unat e)" using Suc.prems(1) by (simp add: word_le_nat_alt)
    then show ?thesis using False by simp
  qed
qed simp

lemma pool_loop_diverges: "pool_loop fuel n (- 1) = None"
  by (induction fuel arbitrary: n) simp_all

lemma numToIPv4_inj: "numToIPv4 a = numToIPv4 b \<longleftrightarrow> a = b"
proof
  assume "numToIPv4 a = numToIPv4 b"
  then show "a = b" unfolding numToIPv4_def netip_addr.inject list.inject by (metis be32_of_be32)
qed simp



section \<open>The frame of a reply\<close>

fun wsum :: "bytes \<Rightarrow> nat" where
  "wsum (a # b # r) = 256 * unat a + unat b + wsum r"
| "wsum _ = 0"

lemma unat_byte: "unat (x :: u8) \<le> 255"
  using unsigned_less [of x, where 'a = nat] by simp

lemma wsum_bound: "2 * wsum bs \<le> 65535 * length bs"
proof (induction bs rule: wsum.induct)
  case (1 a b r)
  then show ?case using unat_byte [of a] unat_byte [of b] by simp
qed simp_all

lemma wsum_append: "even (length a) \<Longrightarrow> wsum (a @ b) = wsum a + wsum b"
  by (induction a rule: wsum.induct) simp_all

lemma unat_push8: "unat (push_bit 8 (ucast a) :: u32) = 256 * unat a" for a :: u8
  using unat_byte [of a] by (simp add: push_bit_eq_mult unat_word_ariths unsigned_ucast_eq take_bit_eq_mod)

lemma unat_csum: "unat c + wsum bs < 2 ^ 32 \<Longrightarrow> unat (csum_loop bs c) = unat c + wsum bs"
proof (induction bs c rule: csum_loop.induct)
  case (1 a b r c)
  have "unat (ucast b :: u32) = unat b" using unat_byte [of b] by (simp add: unsigned_ucast_eq take_bit_eq_mod)
  then have "unat (c + push_bit 8 (ucast a) + ucast b) = unat c + 256 * unat a + unat b"
    using "1.prems" by (simp add: unat_word_ariths unat_push8)
  with 1 show ?case by simp
qed simp_all

lemma fold_carry_spec:
  "unat (fold_carry c) \<le> 65535 \<and> unat (fold_carry c) mod 65535 = unat c mod 65535 \<and> (0 < unat c \<longrightarrow> 0 < unat (fold_carry c))"
proof (induction c rule: fold_carry.induct)
  case (1 c)
  show ?case
  proof (cases "c \<le> 65535")
    case True
    then show ?thesis by (simp add: fold_carry.simps [of c] word_le_nat_alt)
  next
    case False
    let ?d = "drop_bit 16 c + ucast (ucast c :: u16)"
    have "unat c = 65535 * (unat c div 65536) + unat ?d" unfolding unat_carry using div_mult_mod_eq [of "unat c" 65536] by linarith
    then have "unat c mod 65535 = unat ?d mod 65535" by (metis mod_mult_self4)
    moreover have "0 < unat ?d"
    proof -
      have "65536 \<le> unat c" using False by (simp add: word_le_nat_alt)
      from div_le_mono [OF this, of 65536] show ?thesis unfolding unat_carry by simp
    qed
    ultimately show ?thesis using 1 [OF False] False by (simp add: fold_carry.simps [of c])
  qed
qed

lemma unat_checksum:
  assumes "wsum bs < 2 ^ 32"
  shows "\<exists>f \<le> 65535. unat (checksum bs) = 65535 - f \<and> f mod 65535 = wsum bs mod 65535 \<and> (0 < wsum bs \<longrightarrow> 0 < f)"
proof -
  let ?c = "csum_loop bs 0"
  have c: "unat ?c = wsum bs" using unat_csum [of 0 bs] assms by simp
  have f: "unat (fold_carry ?c) \<le> 65535" using fold_carry_spec by blast
  then have "unat (ucast (fold_carry ?c) :: u16) = unat (fold_carry ?c)" by (simp add: unsigned_ucast_eq take_bit_eq_mod)
  moreover have "unat (NOT x) = 65535 - unat x" for x :: u16
    using unat_sub [of x "- 1"] by (simp add: not_eq_complement minus_diff_commute unsigned_minus_1_eq_mask mask_eq_exp_minus_1)
  ultimately have "unat (checksum bs) = 65535 - unat (fold_carry ?c)" by (simp add: checksum_def)
  then show ?thesis using f fold_carry_spec [of ?c] c by (intro exI [of _ "unat (fold_carry ?c)"]) simp
qed

lemma wsum_be16: "wsum (be16 c) = unat c"
proof -
  have c: "unat c < 65536" using unsigned_less [of c, where 'a = nat] by simp
  have "unat (ucast (drop_bit 8 c) :: u8) = unat c div 256"
    using c by (simp add: unsigned_ucast_eq unsigned_drop_bit_eq drop_bit_eq_div take_bit_eq_mod unat_div)
  moreover have "unat (ucast c :: u8) = unat c mod 256" by (simp add: unsigned_ucast_eq take_bit_eq_mod unat_mod)
  ultimately show ?thesis by (simp add: be16_def)
qed

text \<open>Putting the checksum of a header in its own place makes the header sum to all ones.\<close>

lemma checksum_verifies:
  assumes "even (length a)" and "length a + length b \<le> 1000" and "0 < wsum a + wsum b"
  shows "checksum (a @ be16 (checksum (a @ [0, 0] @ b)) @ b) = 0"
proof -
  let ?c = "checksum (a @ [0, 0] @ b)" and ?W = "wsum a + wsum b"
  have W: "wsum (a @ [0, 0] @ b) = ?W" "wsum (a @ be16 ?c @ b) = ?W + unat ?c"
    using assms(1) by (simp_all add: wsum_append wsum_be16)
  have small: "?W \<le> 65535 * 500" using wsum_bound [of a] wsum_bound [of b] assms(2) by simp
  then obtain f where f: "f \<le> 65535" "unat ?c = 65535 - f" "f mod 65535 = ?W mod 65535"
    using unat_checksum [of "a @ [0, 0] @ b"] W(1) by auto
  have "(?W + 65535) mod 65535 = f mod 65535" using f(3) by simp
  then have "65535 dvd ?W + 65535 - f" using f(1) by (subst (asm) mod_eq_dvd_iff_nat) simp_all
  moreover have "?W + unat ?c = ?W + 65535 - f" using f(1,2) by simp
  ultimately have z: "(?W + unat ?c) mod 65535 = 0" by simp
  have "?W + unat ?c < 2 ^ 32" using small f(2) by simp
  then obtain g where g: "g \<le> 65535" "unat (checksum (a @ be16 ?c @ b)) = 65535 - g" "g mod 65535 = 0" "0 < g"
    using unat_checksum [of "a @ be16 ?c @ b"] W(2) z assms(3) by auto
  then have "g = 65535" by (metis dvd_imp_le le_antisym mod_eq_0_iff_dvd)
  with g(2) show ?thesis by (simp add: unat_eq_zero)
qed

lemma copy_to_mid: "length b = length b' \<Longrightarrow> copy_to (a @ b @ r) (length a) b' = a @ b' @ r"
  by (simp add: copy_to_def)

lemma copy_to_end: "copy_to (a @ r) (length a) b = a @ take (length r) b @ drop (length b) r"
  by (simp add: copy_to_def)

lemma frame_start:
  "(replicate 590 0)[12 := 0x08, 14 := 0x45, 16 := 0x02, 17 := 0x40, 22 := 0x40, 23 := 0x11, 35 := 67, 37 := 68, 38 := 0x02, 39 := 0x2c] =
   replicate 6 (0 :: u8) @ replicate 6 0 @ [0x08, 0] @ [0x45, 0, 0x02, 0x40, 0, 0, 0, 0, 0x40, 0x11] @ [0, 0] @ replicate 4 0 @ replicate 4 0 @
     [0, 67, 0, 68, 0x02, 0x2c, 0, 0] @ replicate 548 0"
proof -
  have r: "replicate 590 (0 :: u8) = replicate 42 0 @ replicate 548 0" by (simp flip: replicate_add)
  show ?thesis unfolding r by (simp add: list_update_append) (simp add: numeral_eq_Suc)
qed

lemma reply_frame_form:
  assumes "reply_frame client_hw iface_hw server_ip your_ip payload = Ok p"
  shows "\<exists>hdr. p = take 6 client_hw @ take 6 iface_hw @ [0x08, 0] @ hdr @ [0, 67, 0, 68, 0x02, 0x2c, 0, 0] @ take 548 payload @ replicate (548 - length payload) 0 \<and>
    hdr = [0x45, 0, 0x02, 0x40, 0, 0, 0, 0, 0x40, 0x11] @
      be16 (checksum ([0x45, 0, 0x02, 0x40, 0, 0, 0, 0, 0x40, 0x11] @ [0, 0] @ take 4 server_ip @ take 4 your_ip)) @ take 4 server_ip @ take 4 your_ip"
proof -
  let ?c = "take 6 client_hw" and ?i = "take 6 iface_hw" and ?s = "take 4 server_ip" and ?y = "take 4 your_ip"
  let ?A = "[0x45, 0, 0x02, 0x40, 0, 0, 0, 0, 0x40, 0x11] :: bytes" and ?U = "[0, 67, 0, 68, 0x02, 0x2c, 0, 0] @ replicate 548 0 :: bytes"
  let ?k = "be16 (checksum (?A @ [0, 0] @ ?s @ ?y))"
  have len: "length ?c = 6" "length ?i = 6" "length ?s = 4" "length ?y = 4"
    using assms by (simp_all add: reply_frame_def split: if_splits)
  have 1: "copy_to (replicate 6 0 @ replicate 6 0 @ [0x08, 0] @ ?A @ [0, 0] @ replicate 4 0 @ replicate 4 0 @ ?U) 0 ?c =
      ?c @ replicate 6 0 @ [0x08, 0] @ ?A @ [0, 0] @ replicate 4 0 @ replicate 4 0 @ ?U"
    using copy_to_mid [of "replicate 6 0" ?c "[]"] len(1) by simp
  have 2: "copy_to (?c @ replicate 6 0 @ [0x08, 0] @ ?A @ [0, 0] @ replicate 4 0 @ replicate 4 0 @ ?U) 6 ?i =
      ?c @ ?i @ [0x08, 0] @ ?A @ [0, 0] @ replicate 4 0 @ replicate 4 0 @ ?U"
    using copy_to_mid [of "replicate 6 0" ?i ?c] len(1,2) by simp
  have 3: "copy_to (?c @ ?i @ [0x08, 0] @ ?A @ [0, 0] @ replicate 4 0 @ replicate 4 0 @ ?U) 26 ?s =
      ?c @ ?i @ [0x08, 0] @ ?A @ [0, 0] @ ?s @ replicate 4 0 @ ?U"
    using copy_to_mid [of "replicate 4 0" ?s "?c @ ?i @ [0x08, 0] @ ?A @ [0, 0]"] len by simp
  have 4: "copy_to (?c @ ?i @ [0x08, 0] @ ?A @ [0, 0] @ ?s @ replicate 4 0 @ ?U) 30 ?y =
      ?c @ ?i @ [0x08, 0] @ ?A @ [0, 0] @ ?s @ ?y @ ?U"
    using copy_to_mid [of "replicate 4 0" ?y "?c @ ?i @ [0x08, 0] @ ?A @ [0, 0] @ ?s"] len by simp
  have h: "take 20 (drop 14 (?c @ ?i @ [0x08, 0] @ ?A @ [0, 0] @ ?s @ ?y @ ?U)) = ?A @ [0, 0] @ ?s @ ?y"
    using len by simp
  have 5: "copy_to (?c @ ?i @ [0x08, 0] @ ?A @ [0, 0] @ ?s @ ?y @ ?U) 24 ?k = ?c @ ?i @ [0x08, 0] @ ?A @ ?k @ ?s @ ?y @ ?U"
    using copy_to_mid [of "[0, 0]" ?k "?c @ ?i @ [0x08, 0] @ ?A"] len by simp
  let ?h = "?c @ ?i @ [0x08, 0] @ ?A @ ?k @ ?s @ ?y @ [0, 67, 0, 68, 0x02, 0x2c, 0, 0]"
  have 6: "copy_to (?h @ replicate 548 0) 42 payload = ?h @ take 548 payload @ replicate (548 - length payload) 0"
    using copy_to_end [of ?h "replicate 548 0" payload] len by simp
  have "p = copy_to (?h @ replicate 548 0) 42 payload"
    using assms unfolding reply_frame_def Let_def frame_start 1 2 3 4 h 5 by (simp split: if_splits)
  then show ?thesis unfolding 6 by simp
qed

lemma frame_fields:
  fixes c i s y k t :: bytes
  assumes "length c = 6" "length i = 6" "length k = 2" "length s = 4" "length y = 4"
    and p: "p = c @ i @ [0x08, 0] @ ([0x45, 0, 0x02, 0x40, 0, 0, 0, 0, 0x40, 0x11] @ k @ s @ y) @ [0, 67, 0, 68, 0x02, 0x2c, 0, 0] @ t"
  shows "length p = 42 + length t" "take 6 p = c" "take 20 (drop 14 p) = [0x45, 0, 0x02, 0x40, 0, 0, 0, 0, 0x40, 0x11] @ k @ s @ y"
    "take 4 (drop 30 p) = y" "drop 42 p = t" "p ! 16 = 0x02" "p ! 17 = 0x40" "p ! 38 = 0x02" "p ! 39 = 0x2c"
proof -
  have "drop 16 p = [0x02, 0x40, 0, 0, 0, 0, 0x40, 0x11] @ k @ s @ y @ [0, 67, 0, 68, 0x02, 0x2c, 0, 0] @ t"
    "drop 38 p = [0x02, 0x2c, 0, 0] @ t" using assms(1-5) by (simp_all add: p)
  moreover show "length p = 42 + length t" using assms(1-5) by (simp add: p)
  ultimately show "p ! 16 = 0x02" "p ! 17 = 0x40" "p ! 38 = 0x02" "p ! 39 = 0x2c"
    using nth_drop [of 16 p 0] nth_drop [of 16 p 1] nth_drop [of 38 p 0] nth_drop [of 38 p 1] by simp_all
qed (use assms(1-5) in \<open>simp_all add: p\<close>)



end
