(* ===== verification/Bufio.thy ===== *)
theory Bufio
  imports ByteStreams
begin

text \<open>
  Buffered reading: \<open>bufio.Reader\<close> over any connection, with the operations the servers and the obfuscators use, and the line reader of
  \<open>net/textproto\<close>. \<open>proxy.Conn\<close> of \<open>src/proxy/conn.go\<close> is a connection with such a reader in front (\<open>NewConn\<close>, \<open>Reader\<close>, \<open>Read\<close>, \<open>Peek\<close>).

  The state is the buffered bytes and the connection under them. The connections of this development return either bytes or an error, so
  an error is never left pending behind buffered bytes. \<open>bufio_stream\<close> shows that buffering a byte stream gives a byte stream of the same
  data; the other lemmas say what peeking and reading lines leave of it.
\<close>

definition bufio_size :: nat where "bufio_size = 4096"

type_synonym 'c buffered = "bytes \<times> 'c"

definition bufio_Read :: "(nat \<Rightarrow> 'c \<Rightarrow> bytes res \<times> 'c) \<Rightarrow> nat \<Rightarrow> 'c buffered \<Rightarrow> bytes res \<times> 'c buffered" where
  "bufio_Read R l bc =
     (if l = 0 then (Ok [], bc)
      else if fst bc \<noteq> [] then (Ok (take l (fst bc)), drop l (fst bc), snd bc)
      else if bufio_size \<le> l then apsnd (Pair []) (R l (snd bc))
      else case R bufio_size (snd bc) of
             (Ok out, c) \<Rightarrow> (Ok (take l out), drop l out, c)
           | (r, c) \<Rightarrow> (r, [], c))"

text \<open>One read into the free part of the buffer; a hundred reads without a byte are given up.\<close>

fun fill_loop :: "nat \<Rightarrow> (nat \<Rightarrow> 'c \<Rightarrow> bytes res \<times> 'c) \<Rightarrow> 'c buffered \<Rightarrow> unit res \<times> 'c buffered" where
  "fill_loop 0 R bc = (Err ''multiple Read calls return no data or error'', bc)"
| "fill_loop (Suc n) R bc =
     (case R (bufio_size - length (fst bc)) (snd bc) of
        (Ok out, c) \<Rightarrow> if out = [] then fill_loop n R (fst bc, c) else (Ok (), fst bc @ out, c)
      | (Err e, c) \<Rightarrow> (Err e, fst bc, c)
      | (Panic, c) \<Rightarrow> (Panic, fst bc, c)
      | (Diverge, c) \<Rightarrow> (Diverge, fst bc, c))"

definition bufio_fill :: "(nat \<Rightarrow> 'c \<Rightarrow> bytes res \<times> 'c) \<Rightarrow> 'c buffered \<Rightarrow> unit res \<times> 'c buffered" where
  "bufio_fill R bc = fill_loop 100 R bc"

text \<open>The bytes that could be had, and the error if these are too few.\<close>

fun Peek_loop :: "(nat \<Rightarrow> 'c \<Rightarrow> bytes res \<times> 'c) \<Rightarrow> nat \<Rightarrow> nat \<Rightarrow> 'c buffered \<Rightarrow> (bytes \<times> string option) res \<times> 'c buffered" where
  "Peek_loop R 0 n bc = (Diverge, bc)"
| "Peek_loop R (Suc fuel) n bc =
     (if n \<le> length (fst bc) then (Ok (take n (fst bc), None), bc)
      else if bufio_size \<le> length (fst bc) then (Ok (fst bc, Some ''bufio: buffer full''), bc)
      else case bufio_fill R bc of
             (Ok _, bc') \<Rightarrow> Peek_loop R fuel n bc'
           | (Err e, bc') \<Rightarrow> (Ok (fst bc', Some e), bc')
           | (Panic, bc') \<Rightarrow> (Panic, bc')
           | (Diverge, bc') \<Rightarrow> (Diverge, bc'))"

definition bufio_Peek :: "(nat \<Rightarrow> 'c \<Rightarrow> bytes res \<times> 'c) \<Rightarrow> nat \<Rightarrow> 'c buffered \<Rightarrow> (bytes \<times> string option) res \<times> 'c buffered" where
  "bufio_Peek R n bc = Peek_loop R (Suc n) n bc"

fun Discard_loop :: "(nat \<Rightarrow> 'c \<Rightarrow> bytes res \<times> 'c) \<Rightarrow> nat \<Rightarrow> nat \<Rightarrow> 'c buffered \<Rightarrow> unit res \<times> 'c buffered" where
  "Discard_loop R 0 n bc = (Diverge, bc)"
| "Discard_loop R (Suc fuel) n bc =
     (if n \<le> length (fst bc) then (Ok (), drop n (fst bc), snd bc)
      else case bufio_fill R ([], snd bc) of
             (Ok _, bc') \<Rightarrow> Discard_loop R fuel (n - length (fst bc)) bc'
           | (r, bc') \<Rightarrow> (r, bc'))"

definition bufio_Discard :: "(nat \<Rightarrow> 'c \<Rightarrow> bytes res \<times> 'c) \<Rightarrow> nat \<Rightarrow> 'c buffered \<Rightarrow> unit res \<times> 'c buffered" where
  "bufio_Discard R n bc = Discard_loop R (Suc (Suc n)) n bc"

text \<open>\<open>ReadSlice\<close>: up to and including the delimiter, or all there is and why that is all.\<close>

fun ReadSlice :: "(nat \<Rightarrow> 'c \<Rightarrow> bytes res \<times> 'c) \<Rightarrow> nat \<Rightarrow> u8 \<Rightarrow> 'c buffered \<Rightarrow> (bytes \<times> string option) res \<times> 'c buffered" where
  "ReadSlice R 0 delim bc = (Diverge, bc)"
| "ReadSlice R (Suc fuel) delim bc =
     (if delim \<in> set (fst bc) then
        (let line = takeWhile (\<lambda>b. b \<noteq> delim) (fst bc) @ [delim] in (Ok (line, None), drop (length line) (fst bc), snd bc))
      else if bufio_size \<le> length (fst bc) then (Ok (fst bc, Some ''bufio: buffer full''), [], snd bc)
      else case bufio_fill R bc of
             (Ok _, bc') \<Rightarrow> ReadSlice R fuel delim bc'
           | (Err e, bc') \<Rightarrow> (Ok (fst bc', Some e), [], snd bc')
           | (Panic, bc') \<Rightarrow> (Panic, bc')
           | (Diverge, bc') \<Rightarrow> (Diverge, bc'))"

definition trim_eol :: "bytes \<Rightarrow> bytes" where
  "trim_eol line =
     (if line \<noteq> [] \<and> last line = 10 then
        let l = butlast line in if l \<noteq> [] \<and> last l = 13 then butlast l else l
      else line)"

text \<open>\<open>ReadLine\<close>: the line, whether it goes on, and the error. A carriage return at the end of a full buffer is put back.\<close>

definition bufio_ReadLine :: "(nat \<Rightarrow> 'c \<Rightarrow> bytes res \<times> 'c) \<Rightarrow> 'c buffered \<Rightarrow> (bytes \<times> bool \<times> string option) res \<times> 'c buffered" where
  "bufio_ReadLine R bc =
     bind_st (ReadSlice R (Suc (Suc bufio_size)) 10 bc) (\<lambda>(line, err) bc.
       if err = Some ''bufio: buffer full'' then
         if line \<noteq> [] \<and> last line = 13 then (Ok (butlast line, True, None), 13 # fst bc, snd bc) else (Ok (line, True, None), bc)
       else if line = [] then (Ok ([], False, err), bc)
       else (Ok (trim_eol line, False, None), bc))"

text \<open>\<open>ReadLine\<close> of \<open>net/textproto\<close> puts the parts of a long line together.\<close>

fun tp_ReadLine :: "(nat \<Rightarrow> 'c \<Rightarrow> bytes res \<times> 'c) \<Rightarrow> nat \<Rightarrow> bytes \<Rightarrow> 'c buffered \<Rightarrow> bytes res \<times> 'c buffered" where
  "tp_ReadLine R 0 line bc = (Diverge, bc)"
| "tp_ReadLine R (Suc fuel) line bc =
     bind_st (bufio_ReadLine R bc) (\<lambda>(l, more, err) bc.
       case err of Some e \<Rightarrow> (Err e, bc) | None \<Rightarrow> if more then tp_ReadLine R fuel (line @ l) bc else (Ok (line @ l), bc))"

text \<open>\<open>ReadString\<close> puts full buffers together until the delimiter or an error.\<close>

fun bufio_ReadString :: "(nat \<Rightarrow> 'c \<Rightarrow> bytes res \<times> 'c) \<Rightarrow> nat \<Rightarrow> u8 \<Rightarrow> bytes \<Rightarrow> 'c buffered \<Rightarrow> bytes res \<times> 'c buffered" where
  "bufio_ReadString R 0 delim got bc = (Diverge, bc)"
| "bufio_ReadString R (Suc fuel) delim got bc =
     bind_st (ReadSlice R (Suc (Suc bufio_size)) delim bc) (\<lambda>(line, err) bc.
       if err = Some ''bufio: buffer full'' then bufio_ReadString R fuel delim (got @ line) bc
       else case err of Some e \<Rightarrow> (Err e, bc) | None \<Rightarrow> (Ok (got @ line), bc))"

text \<open>The end of a line as text and as bytes.\<close>

definition eol :: string where "eol = [CHR 0x0D, CHR 0x0A]"

lemma eol_bytes: "map char_byte eol = [13, 10]"
  by (simp add: eol_def char_byte_def)

section \<open>Buffering keeps the data\<close>

definition bufio_holds :: "('c \<Rightarrow> bytes \<Rightarrow> bool) \<Rightarrow> 'c buffered \<Rightarrow> bytes \<Rightarrow> bool" where
  "bufio_holds H bc d \<longleftrightarrow> (\<exists>d'. d = fst bc @ d' \<and> H (snd bc) d')"

lemma bufio_holdsI: "H c d' \<Longrightarrow> d = buf @ d' \<Longrightarrow> bufio_holds H (buf, c) d"
  by (auto simp: bufio_holds_def)

lemma bufio_stream:
  assumes bs: "byte_stream R H"
  shows "byte_stream (bufio_Read R) (bufio_holds H)"
proof
  fix bc d and l :: nat
  assume h: "bufio_holds H bc d" and d: "d \<noteq> []" and l: "0 < l"
  obtain buf c where bc: "bc = (buf, c)" by (rule prod.exhaust)
  from h obtain d' where d': "d = buf @ d'" "H c d'" by (auto simp: bufio_holds_def bc)
  show "\<exists>out d' s'. bufio_Read R l bc = (Ok out, s') \<and> out \<noteq> [] \<and> length out \<le> l \<and> d = out @ d' \<and> bufio_holds H s' d'"
  proof (cases "buf = []")
    case False
    have "bufio_holds H (drop l buf, c) (drop l buf @ d')" using d'(2) by (rule bufio_holdsI) simp
    moreover have "d = take l buf @ drop l buf @ d'" using d'(1) by simp
    moreover have "bufio_Read R l bc = (Ok (take l buf), drop l buf, c)" "take l buf \<noteq> []" using False l by (simp_all add: bufio_Read_def bc)
    ultimately show ?thesis by (metis length_take min.cobounded2)
  next
    case True
    define n where "n = max l bufio_size"
    have "0 < n" using l by (simp add: n_def)
    with byte_stream.read_some [OF bs d'(2), of n] d d'(1) True obtain out d2 c2 where
      o: "R n c = (Ok out, c2)" "out \<noteq> []" "length out \<le> n" "d' = out @ d2" "H c2 d2" by auto
    have "bufio_Read R l bc = (Ok (take l out), drop l out, c2)"
      using o(1,3) True l by (auto simp: bufio_Read_def bc n_def max_def split: if_splits)
    moreover have "bufio_holds H (drop l out, c2) (drop l out @ d2)" using o(5) by (rule bufio_holdsI) simp
    moreover have "d = take l out @ drop l out @ d2" "take l out \<noteq> []" using o(2,4) d'(1) True l by simp_all
    ultimately show ?thesis by (metis length_take min.cobounded2)
  qed
next
  fix bc and l :: nat
  assume h: "bufio_holds H bc []" and l: "0 < l"
  then have e: "fst bc = []" "H (snd bc) []" by (auto simp: bufio_holds_def)
  define n where "n = max l bufio_size"
  have "0 < n" using l by (simp add: n_def)
  from byte_stream.read_end [OF bs e(2) this] obtain c where c: "R n (snd bc) = (Err ''EOF'', c)" "H c []" by blast
  then have "bufio_Read R l bc = (Err ''EOF'', [], c)" using e(1) l by (auto simp: bufio_Read_def n_def max_def split: if_splits)
  moreover have "bufio_holds H ([], c) []" using c(2) by (rule bufio_holdsI) simp
  ultimately show "\<exists>s'. bufio_Read R l bc = (Err ''EOF'', s') \<and> bufio_holds H s' []" by blast
qed

lemma bufio_fill_ok:
  assumes "byte_stream R H" and "H c d" and "d \<noteq> []" and "length buf < bufio_size"
  shows "\<exists>out d' c'. bufio_fill R (buf, c) = (Ok (), buf @ out, c') \<and> out \<noteq> [] \<and> length (buf @ out) \<le> bufio_size \<and> d = out @ d' \<and> H c' d'"
proof -
  have "0 < bufio_size - length buf" using assms(4) by simp
  from byte_stream.read_some [OF assms(1-3) this] obtain out d' c' where
    o: "R (bufio_size - length buf) c = (Ok out, c')" "out \<noteq> []" "length out \<le> bufio_size - length buf" "d = out @ d'" "H c' d'" by blast
  moreover have "fill_loop (Suc 99) R (buf, c) = (Ok (), buf @ out, c')" unfolding fill_loop.simps using o(1,2) by simp
  ultimately show ?thesis using assms(4) by (auto simp: bufio_fill_def)
qed

lemma bufio_fill_end:
  assumes "byte_stream R H" and "H c []" and "length buf < bufio_size"
  shows "\<exists>c'. bufio_fill R (buf, c) = (Err ''EOF'', buf, c') \<and> H c' []"
proof -
  have "0 < bufio_size - length buf" using assms(3) by simp
  from byte_stream.read_end [OF assms(1,2) this] obtain c' where "R (bufio_size - length buf) c = (Err ''EOF'', c')" "H c' []" by blast
  moreover from this have "fill_loop (Suc 99) R (buf, c) = (Err ''EOF'', buf, c')" unfolding fill_loop.simps by simp
  ultimately show ?thesis by (auto simp: bufio_fill_def)
qed

lemma split_first: "z \<notin> set a \<Longrightarrow> z \<notin> set x \<Longrightarrow> a @ z # r = x @ z # s \<longleftrightarrow> a = x \<and> r = s"
proof (induction a arbitrary: x)
  case Nil
  then show ?case by (cases x) auto
next
  case (Cons b a)
  then show ?case by (cases x) auto
qed

lemma before_first:
  assumes "z \<notin> set buf" and "a @ z # r = buf @ d"
  shows "length buf \<le> length a"
proof (rule ccontr)
  assume "\<not> length buf \<le> length a"
  then have "buf ! length a = z" using nth_append [of buf d "length a"] nth_append_length [of a z r] assms(2) by simp
  with assms(1) \<open>\<not> length buf \<le> length a\<close> show False using nth_mem [of "length a" buf] by simp
qed

text \<open>A line that fits the buffer is read whole, and what follows it stays.\<close>

lemma ReadSlice_ok:
  assumes "byte_stream R H" and "bufio_holds H bc (line @ [delim] @ rest)" and "delim \<notin> set line" and "length line < bufio_size" and "length line + 1 < fuel + length (fst bc)" and "0 < fuel"
  shows "\<exists>bc'. ReadSlice R fuel delim bc = (Ok (line @ [delim], None), bc') \<and> bufio_holds H bc' rest"
  using assms(2,5,6)
proof (induction fuel arbitrary: bc)
  case (Suc fuel)
  obtain buf c where bc: "bc = (buf, c)" by (rule prod.exhaust)
  from Suc.prems(1) obtain d' where d': "line @ [delim] @ rest = buf @ d'" "H c d'" by (auto simp: bufio_holds_def bc)
  show ?case
  proof (cases "delim \<in> set buf")
    case True
    then obtain x y where xy: "buf = x @ delim # y" "delim \<notin> set x" using split_list_first by metis
    with d'(1) have "line @ delim # rest = x @ delim # (y @ d')" by simp
    then have x: "x = line" "rest = y @ d'" using split_first [OF assms(3) xy(2)] by simp_all
    have "takeWhile (\<lambda>b. b \<noteq> delim) buf = line" using xy x by (subst xy(1)) (auto intro: takeWhile_eq_all_conv [THEN iffD2] simp: takeWhile_tail)
    moreover have "drop (length (line @ [delim])) buf = y" using xy x by simp
    moreover have "bufio_holds H (y, c) rest" using d'(2) x(2) by (auto intro: bufio_holdsI)
    ultimately show ?thesis using True by (simp add: bc Let_def)
  next
    case False
    have le: "length buf \<le> length line" using before_first [OF False] d'(1) by simp
    then have b: "length buf < bufio_size" "d' \<noteq> []" using assms(4) d'(1) by (auto dest: arg_cong [of _ _ length])
    from bufio_fill_ok [OF assms(1) d'(2) b(2,1)] obtain out d2 c2 where
      o: "bufio_fill R bc = (Ok (), buf @ out, c2)" "out \<noteq> []" "d' = out @ d2" "H c2 d2" by (auto simp: bc)
    have "bufio_holds H (buf @ out, c2) (line @ [delim] @ rest)" using o(3,4) d'(1) by (intro bufio_holdsI [where H = H, OF o(4)]) simp
    moreover have "length line + 1 < fuel + length (buf @ out)" "0 < fuel"
      using Suc.prems(2) o(2) le by (cases out; simp add: bc)+
    ultimately have "\<exists>bc'. ReadSlice R fuel delim (buf @ out, c2) = (Ok (line @ [delim], None), bc') \<and> bufio_holds H bc' rest"
      using Suc.IH [of "(buf @ out, c2)"] by simp
    with False b(1) o(1) show ?thesis by (simp add: bc)
  qed
qed simp

lemma trim_eol_crlf [simp]: "trim_eol (l @ [13, 10]) = l"
  by (simp add: trim_eol_def butlast_append Let_def)

lemma ReadLine_ok:
  assumes "byte_stream R H" and "bufio_holds H bc (l @ [13, 10] @ rest)" and "10 \<notin> set l" and "length l + 1 < bufio_size"
  shows "\<exists>bc'. bufio_ReadLine R bc = (Ok (l, False, None), bc') \<and> bufio_holds H bc' rest"
proof -
  have "bufio_holds H bc ((l @ [13]) @ [10] @ rest)" using assms(2) by simp
  from ReadSlice_ok [OF assms(1) this, of "Suc (Suc bufio_size)"] assms(3,4)
  obtain bc' where "ReadSlice R (Suc (Suc bufio_size)) 10 bc = (Ok ((l @ [13]) @ [10], None), bc')" "bufio_holds H bc' rest" by auto
  then show ?thesis by (simp add: bufio_ReadLine_def del: ReadSlice.simps)
qed

lemma tp_ReadLine_ok:
  assumes "byte_stream R H" and "bufio_holds H bc (l @ [13, 10] @ rest)" and "10 \<notin> set l" and "length l + 1 < bufio_size"
  shows "\<exists>bc'. tp_ReadLine R (Suc fuel) [] bc = (Ok l, bc') \<and> bufio_holds H bc' rest"
  using ReadLine_ok [OF assms] by auto

text \<open>Peeking leaves the data as it is.\<close>

lemma Peek_loop_ok:
  assumes "byte_stream R H" and "bufio_holds H bc d" and "n \<le> length d" and "n \<le> bufio_size" and "n < fuel + length (fst bc)" and "0 < fuel"
  shows "\<exists>bc'. Peek_loop R fuel n bc = (Ok (take n d, None), bc') \<and> bufio_holds H bc' d"
  using assms(2,5,6)
proof (induction fuel arbitrary: bc)
  case (Suc fuel)
  obtain buf c where bc: "bc = (buf, c)" by (rule prod.exhaust)
  from Suc.prems(1) obtain d' where d': "d = buf @ d'" "H c d'" by (auto simp: bufio_holds_def bc)
  show ?case
  proof (cases "n \<le> length buf")
    case True
    with d' Suc.prems(1) show ?thesis by (simp add: bc)
  next
    case False
    then have b: "length buf < bufio_size" "d' \<noteq> []" using assms(3,4) d'(1) by auto
    from bufio_fill_ok [OF assms(1) d'(2) b(2,1)] obtain out d2 c2 where
      o: "bufio_fill R bc = (Ok (), buf @ out, c2)" "out \<noteq> []" "d' = out @ d2" "H c2 d2" by (auto simp: bc)
    have "bufio_holds H (buf @ out, c2) d" using o(3) d'(1) by (intro bufio_holdsI [where H = H, OF o(4)]) simp
    moreover have "n < fuel + length (buf @ out)" "0 < fuel" using Suc.prems(2) o(2) False by (cases out; simp add: bc)+
    ultimately have "\<exists>bc'. Peek_loop R fuel n (buf @ out, c2) = (Ok (take n d, None), bc') \<and> bufio_holds H bc' d"
      using Suc.IH [of "(buf @ out, c2)"] by simp
    with False b(1) o(1) show ?thesis by (simp add: bc)
  qed
qed simp

lemma Peek_ok:
  assumes "byte_stream R H" and "bufio_holds H bc d" and "n \<le> length d" and "n \<le> bufio_size"
  shows "\<exists>bc'. bufio_Peek R n bc = (Ok (take n d, None), bc') \<and> bufio_holds H bc' d"
  unfolding bufio_Peek_def using Peek_loop_ok [OF assms, of "Suc n"] by simp

lemma Peek_end:
  assumes "byte_stream R H" and "bufio_holds H bc []" and "0 < n"
  shows "\<exists>bc'. bufio_Peek R n bc = (Ok ([], Some ''EOF''), bc') \<and> bufio_holds H bc' []"
proof -
  have "fst bc = []" "H (snd bc) []" using assms(2) by (auto simp: bufio_holds_def)
  moreover have "length [] < bufio_size" by (simp add: bufio_size_def)
  ultimately obtain c' where "bufio_fill R bc = (Err ''EOF'', [], c')" "H c' []"
    using bufio_fill_end [OF assms(1), of "snd bc" "[]"] by (metis prod.collapse)
  with assms(3) \<open>fst bc = []\<close> show ?thesis by (auto simp: bufio_Peek_def bufio_size_def intro: bufio_holdsI)
qed

lemma Discard_loop_ok:
  assumes "byte_stream R H" and "bufio_holds H bc (x @ d)" and "length x + (if fst bc = [] then 1 else 0) < fuel"
  shows "\<exists>bc'. Discard_loop R fuel (length x) bc = (Ok (), bc') \<and> bufio_holds H bc' d"
  using assms(2,3)
proof (induction fuel arbitrary: bc x)
  case (Suc fuel)
  obtain buf c where bc: "bc = (buf, c)" by (rule prod.exhaust)
  from Suc.prems(1) obtain d' where d': "x @ d = buf @ d'" "H c d'" by (auto simp: bufio_holds_def bc)
  show ?case
  proof (cases "length x \<le> length buf")
    case True
    then have "drop (length x) buf @ d' = d" using d'(1) by (metis append_eq_append_conv_if append_take_drop_id)
    with True d'(2) show ?thesis by (auto simp: bc intro: bufio_holdsI)
  next
    case False
    then have x: "drop (length buf) x @ d = d'" using d'(1) by (auto simp: append_eq_append_conv_if)
    have "d' \<noteq> []" using False x by auto
    from bufio_fill_ok [OF assms(1) d'(2) this, of "[]"] obtain out d2 c2 where
      o: "bufio_fill R ([], c) = (Ok (), out, c2)" "out \<noteq> []" "d' = out @ d2" "H c2 d2" by (auto simp: bufio_size_def)
    have "bufio_holds H (out, c2) (drop (length buf) x @ d)" using o(3) x by (intro bufio_holdsI [where H = H, OF o(4)]) simp
    moreover have "length (drop (length buf) x) < fuel" using Suc.prems(2) False by (cases buf) (auto simp: bc)
    ultimately have "\<exists>bc'. Discard_loop R fuel (length x - length buf) (out, c2) = (Ok (), bc') \<and> bufio_holds H bc' d"
      using Suc.IH [of "(out, c2)" "drop (length buf) x"] o(2) by simp
    with o(1) False show ?thesis by (simp add: bc)
  qed
qed simp

lemma Discard_ok:
  assumes "byte_stream R H" and "bufio_holds H bc (x @ d)"
  shows "\<exists>bc'. bufio_Discard R (length x) bc = (Ok (), bc') \<and> bufio_holds H bc' d"
  unfolding bufio_Discard_def using Discard_loop_ok [OF assms, of "Suc (Suc (length x))"] by simp

lemma Discard_end:
  assumes "byte_stream R H" and "bufio_holds H bc []" and "0 < n"
  shows "\<exists>bc'. bufio_Discard R n bc = (Err ''EOF'', bc') \<and> bufio_holds H bc' []"
proof -
  have "fst bc = []" "H (snd bc) []" using assms(2) by (auto simp: bufio_holds_def)
  moreover have "length [] < bufio_size" by (simp add: bufio_size_def)
  ultimately obtain c' where "bufio_fill R ([], snd bc) = (Err ''EOF'', [], c')" "H c' []" using bufio_fill_end [OF assms(1)] by blast
  with assms(3) \<open>fst bc = []\<close> show ?thesis unfolding bufio_Discard_def Discard_loop.simps by (auto intro: bufio_holdsI)
qed

end
