(* ===== verification/Base64.thy ===== *)
theory Base64
  imports Prelude
begin

text \<open>
  \<open>base64.StdEncoding\<close> of the standard library, which the HTTP proxy and the obfuscators use: \<open>EncodeToString\<close> and \<open>DecodeString\<close>, which skips
  line breaks, wants the padding at the end and ignores the unused bits of the last character. \<open>base64_roundtrip\<close> shows that decoding undoes encoding.
\<close>

definition b64_alphabet :: string where
  "b64_alphabet = ''ABCDEFGHIJKLMNOPQRSTUVWXYZabcdefghijklmnopqrstuvwxyz0123456789+/''"

definition b64_char :: "nat \<Rightarrow> char" where
  "b64_char i = b64_alphabet ! i"

definition b64_val :: "char \<Rightarrow> nat option" where
  "b64_val c = find_index c b64_alphabet"

fun b64_encode :: "bytes \<Rightarrow> string" where
  "b64_encode (a # b # c # r) =
     (let n = 65536 * unat a + 256 * unat b + unat c
      in [b64_char (n div 262144), b64_char (n div 4096 mod 64), b64_char (n div 64 mod 64), b64_char (n mod 64)] @ b64_encode r)"
| "b64_encode [a, b] =
     (let n = 65536 * unat a + 256 * unat b in [b64_char (n div 262144), b64_char (n div 4096 mod 64), b64_char (n div 64 mod 64), CHR ''=''])"
| "b64_encode [a] =
     (let n = 65536 * unat a in [b64_char (n div 262144), b64_char (n div 4096 mod 64), CHR ''='', CHR ''=''])"
| "b64_encode [] = []"

fun b64_quanta :: "string \<Rightarrow> bytes option" where
  "b64_quanta [] = Some []"
| "b64_quanta (w # x # y # z # r) =
     (case (b64_val w, b64_val x) of
        (Some w', Some x') \<Rightarrow>
          let n = 262144 * w' + 4096 * x' in
          if y = CHR ''='' then (if z = CHR ''='' \<and> r = [] then Some [of_nat (n div 65536)] else None)
          else (case b64_val y of
                  None \<Rightarrow> None
                | Some y' \<Rightarrow>
                    let n = n + 64 * y' in
                    if z = CHR ''='' then (if r = [] then Some [of_nat (n div 65536), of_nat (n div 256 mod 256)] else None)
                    else (case b64_val z of
                            None \<Rightarrow> None
                          | Some z' \<Rightarrow>
                              let n = n + z' in
                              map_option (\<lambda>bs. of_nat (n div 65536) # of_nat (n div 256 mod 256) # of_nat (n mod 256) # bs) (b64_quanta r)))
      | _ \<Rightarrow> None)"
| "b64_quanta _ = None"

definition b64_decode :: "string \<Rightarrow> bytes option" where
  "b64_decode s = b64_quanta (filter (\<lambda>c. c \<noteq> char_of (10 :: nat) \<and> c \<noteq> char_of (13 :: nat)) s)"

section \<open>Decoding undoes encoding\<close>

lemma b64_table: "\<forall>i \<in> set [0..<64]. b64_val (b64_char i) = Some i \<and> b64_char i \<noteq> CHR ''='' \<and> b64_char i \<noteq> char_of (10 :: nat) \<and> b64_char i \<noteq> char_of (13 :: nat)"
  by code_simp

lemma b64_char_simps [simp]:
  "i < 64 \<Longrightarrow> b64_val (b64_char i) = Some i" "i < 64 \<Longrightarrow> b64_char i \<noteq> CHR ''=''"
  "i < 64 \<Longrightarrow> b64_char i \<noteq> char_of (10 :: nat)" "i < 64 \<Longrightarrow> b64_char i \<noteq> char_of (13 :: nat)"
  using b64_table by simp_all

lemma byte_less: "unat (b :: u8) < 256"
  using unsigned_less [of b, where 'a = nat] by simp

lemma sextets: "262144 * (n div 262144) + 4096 * (n div 4096 mod 64) + 64 * (n div 64 mod 64) + n mod 64 = (n :: nat)"
proof -
  have e: "n div 4096 = n div 64 div 64" "n div 262144 = n div 64 div 64 div 64" by (simp_all flip: div_mult2_eq)
  have "n = 64 * (n div 64) + n mod 64" by simp
  moreover have "n div 64 = 64 * (n div 64 div 64) + n div 64 mod 64" by simp
  moreover have "n div 64 div 64 = 64 * (n div 64 div 64 div 64) + n div 64 div 64 mod 64" by simp
  ultimately show ?thesis unfolding e by linarith
qed

lemma octets:
  assumes "a < 256" "b < 256" "c < 256"
  shows "(65536 * a + 256 * b + c) div 65536 = (a :: nat)" "(65536 * a + 256 * b + c) div 256 mod 256 = b" "(65536 * a + 256 * b + c) mod 256 = c"
proof -
  have "256 * b + c < 65536" using assms by simp
  then show "(65536 * a + 256 * b + c) div 65536 = a" by (simp add: add.assoc)
  have "(65536 * a + 256 * b + c) div 256 = 256 * a + b" using assms(3) by (intro div_nat_eqI) simp_all
  then show "(65536 * a + 256 * b + c) div 256 mod 256 = b" using assms(2) by simp
  have "65536 * a + 256 * b + c = c + 256 * (256 * a + b)" by simp
  then show "(65536 * a + 256 * b + c) mod 256 = c" using assms(3) by (simp only: mod_mult_self2 mod_less)
qed

lemma b64_quanta_chars:
  assumes "w < 64" "x < 64" "y < 64" "z < 64"
  shows "262144 * w + 4096 * x + 64 * y + z = n \<Longrightarrow> b64_quanta ([b64_char w, b64_char x, b64_char y, b64_char z] @ r) =
      map_option (\<lambda>bs. of_nat (n div 65536) # of_nat (n div 256 mod 256) # of_nat (n mod 256) # bs) (b64_quanta r)"
    and "262144 * w + 4096 * x + 64 * y = n \<Longrightarrow> b64_quanta [b64_char w, b64_char x, b64_char y, CHR ''=''] = Some [of_nat (n div 65536), of_nat (n div 256 mod 256)]"
    and "262144 * w + 4096 * x = n \<Longrightarrow> b64_quanta [b64_char w, b64_char x, CHR ''='', CHR ''=''] = Some [of_nat (n div 65536)]"
  using assms by (simp_all add: Let_def)

lemma b64_quanta_encode: "b64_quanta (b64_encode bs) = Some bs"
proof (induction bs rule: b64_encode.induct)
  case (1 a b c r)
  define n where "n = 65536 * unat a + 256 * unat b + unat c"
  note o = octets [OF byte_less [of a] byte_less [of b] byte_less [of c], folded n_def]
  have "n < 262144 * 64" using byte_less [of a] byte_less [of b] byte_less [of c] by (simp add: n_def)
  then have s: "n div 262144 < 64" by (intro less_mult_imp_div_less) simp
  show ?case unfolding b64_encode.simps Let_def n_def [symmetric]
    by (subst b64_quanta_chars(1) [OF s _ _ _ sextets]) (simp_all add: 1 o)
next
  case (2 a b)
  define n where "n = 65536 * unat a + 256 * unat b"
  have o: "n div 65536 = unat a" "n div 256 mod 256 = unat b" using octets [OF byte_less [of a] byte_less [of b], of 0] by (simp_all add: n_def)
  have "n < 262144 * 64" using byte_less [of a] byte_less [of b] by (simp add: n_def)
  then have s: "n div 262144 < 64" by (intro less_mult_imp_div_less) simp
  have "n = 64 * (1024 * unat a + 4 * unat b)" by (simp add: n_def)
  then have "n mod 64 = 0" by (simp only: mod_mult_self1_is_0)
  then have "262144 * (n div 262144) + 4096 * (n div 4096 mod 64) + 64 * (n div 64 mod 64) = n" using sextets [of n] by linarith
  from b64_quanta_chars(2) [where z = 0, OF s _ _ _ this] show ?case unfolding b64_encode.simps Let_def n_def [symmetric] by (simp add: o del: b64_quanta.simps)
next
  case (3 a)
  define n where "n = 65536 * unat a"
  have o: "n div 65536 = unat a" by (simp add: n_def)
  have "n < 262144 * 64" using byte_less [of a] by (simp add: n_def)
  then have s: "n div 262144 < 64" by (intro less_mult_imp_div_less) simp
  have "n = 64 * (1024 * unat a)" "n div 64 = 64 * (16 * unat a)" by (simp_all add: n_def)
  then have "n mod 64 = 0" "n div 64 mod 64 = 0" by (simp_all only: mod_mult_self1_is_0)
  then have "262144 * (n div 262144) + 4096 * (n div 4096 mod 64) = n" using sextets [of n] by linarith
  from b64_quanta_chars(3) [where y = 0 and z = 0, OF s _ _ _ this] show ?case unfolding b64_encode.simps Let_def n_def [symmetric] by (simp add: o del: b64_quanta.simps)
qed simp

lemma pad_no_break [simp]: "CHR ''='' \<noteq> char_of (10 :: nat)" "CHR ''='' \<noteq> char_of (13 :: nat)"
  by (simp_all add: char_of_def bit_iff_odd)

lemma b64_no_break: "c \<in> set (b64_encode bs) \<Longrightarrow> c \<noteq> char_of (10 :: nat) \<and> c \<noteq> char_of (13 :: nat)"
proof (induction bs rule: b64_encode.induct)
  case (1 a b c' r)
  have "(65536 * unat a + 256 * unat b + unat c') div 262144 < 64"
    using byte_less [of a] byte_less [of b] byte_less [of c'] by (intro less_mult_imp_div_less) simp
  with 1 show ?case by (auto simp: Let_def)
next
  case (2 a b)
  have "(65536 * unat a + 256 * unat b) div 262144 < 64" using byte_less [of a] byte_less [of b] by (intro less_mult_imp_div_less) simp
  with 2 show ?case by (auto simp: Let_def)
next
  case (3 a)
  have "65536 * unat a div 262144 < 64" using byte_less [of a] by (intro less_mult_imp_div_less) simp
  with 3 show ?case by (auto simp: Let_def)
qed simp

lemma base64_roundtrip: "b64_decode (b64_encode bs) = Some bs"
  using b64_no_break [of _ bs] by (simp add: b64_decode_def b64_quanta_encode filter_id_conv [THEN iffD2])

end
