(* ===== verification/Obfs.thy ===== *)
theory Obfs
  imports Bufio Base64 Aead Socks5
begin

text \<open>
  The simple obfuscators (\<open>src/proxy/obfs\<close>): data disguised as a TLS session (\<open>tls.go\<close>) or as a web socket (\<open>http.go\<close>).

  The TLS disguise sends the first data inside the session ticket of a client hello and the rest as application data records, and
  reads records behind a server hello whose content it skips. \<open>obfs_tls_ok\<close> shows that the
  hello is well formed, and that the data of both directions can be read back. The HTTP disguise skips the answer's header
  (\<open>http_obfs_stream\<close>).
\<close>

section \<open>The TLS disguise\<close>

definition obfs_chunkSize :: nat where "obfs_chunkSize = 8192"

record TLSObfsConn =
  to_obfsHost :: string
  to_reqSent :: bool
  to_reader :: "bytes option"
  to_left :: nat

definition cipher_suites :: bytes where
  "cipher_suites =
    [0xc0, 0x2c, 0xc0, 0x30, 0x00, 0x9f, 0xcc, 0xa9, 0xcc, 0xa8, 0xcc, 0xaa, 0xc0, 0x2b, 0xc0, 0x2f,
     0x00, 0x9e, 0xc0, 0x24, 0xc0, 0x28, 0x00, 0x6b, 0xc0, 0x23, 0xc0, 0x27, 0x00, 0x67, 0xc0, 0x0a,
     0xc0, 0x14, 0x00, 0x39, 0xc0, 0x09, 0xc0, 0x13, 0x00, 0x33, 0x00, 0x9d, 0x00, 0x9c, 0x00, 0x3d,
     0x00, 0x3c, 0x00, 0x35, 0x00, 0x2f, 0x00, 0xff]"

text \<open>\<open>now\<close> is the clock, \<open>random\<close> 28 and \<open>sessionID\<close> 32 random bytes.\<close>

definition clientHello :: "u32 \<Rightarrow> bytes \<Rightarrow> bytes \<Rightarrow> bytes" where
  "clientHello now random sessionID =
     [0x03, 0x03] @ be32 now @ random @ [32] @ sessionID @ be16 56 @ cipher_suites @ [0x01] @ [0x00]"

definition server_name :: "string \<Rightarrow> bytes" where
  "server_name server =
     [0x00, 0x00] @ be16 (of_nat (length server + 5)) @ be16 (of_nat (length server + 3)) @ [0x00] @ be16 (of_nat (length server)) @ to_bytes server"

definition fixed_extensions :: bytes where
  "fixed_extensions =
     [0x00, 0x0b] @ be16 4 @ [0x03] @ [0x01, 0x00, 0x02] @
     [0x00, 0x0a] @ be16 10 @ be16 8 @ [0x00, 0x1d, 0x00, 0x17, 0x00, 0x19, 0x00, 0x18] @
     [0x00, 0x0d] @ be16 32 @ be16 30 @
     [0x06, 0x01, 0x06, 0x02, 0x06, 0x03, 0x05, 0x01, 0x05, 0x02, 0x05, 0x03, 0x04, 0x01, 0x04, 0x02,
      0x04, 0x03, 0x03, 0x01, 0x03, 0x02, 0x03, 0x03, 0x02, 0x01, 0x02, 0x02, 0x02, 0x03] @
     [0x00, 0x16] @ be16 0 @
     [0x00, 0x17] @ be16 0"

definition extension :: "bytes \<Rightarrow> string \<Rightarrow> bytes" where
  "extension b server = [0x00, 0x23] @ be16 (of_nat (length b)) @ b @ server_name server @ fixed_extensions"

text \<open>\<open>handshake\<close>: the record with the client hello, whose three lengths have 16, 24 and 16 bits.\<close>

definition be24 :: "nat \<Rightarrow> bytes" where
  "be24 n = [of_nat (n div 65536), of_nat (n div 256), of_nat n]"

definition obfs_handshake :: "u32 \<Rightarrow> bytes \<Rightarrow> bytes \<Rightarrow> string \<Rightarrow> bytes \<Rightarrow> bytes" where
  "obfs_handshake now random sessionID server b =
     (let ext = extension b server; hello = clientHello now random sessionID; extLen = length ext; helloLen = length hello + 2 + extLen; handshakeLen = 4 + helloLen
      in [0x16] @ [0x03, 0x01] @ be16 (of_nat handshakeLen) @ [0x01] @ be24 helloLen @ hello @ be16 (of_nat extLen) @ ext)"

text \<open>The \<open>i\<close>-th write of the connection fails with \<open>f i\<close>. A failure in the middle reports that nothing was written.\<close>

function tls_records :: "(nat \<Rightarrow> string option) \<Rightarrow> bytes \<Rightarrow> bytes \<times> string option" where
  "tls_records f b =
     (if b = [] then ([], None)
      else case f 0 of
             Some e \<Rightarrow> ([], Some e)
           | None \<Rightarrow>
               let chunk = take obfs_chunkSize b; (outs, e) = tls_records (\<lambda>i. f (Suc i)) (drop obfs_chunkSize b)
               in ([0x17, 0x03, 0x03] @ be16 (of_nat (length chunk)) @ chunk @ outs, e))"
  by pat_completeness auto
termination by (relation "measure (\<lambda>(f, b). length b)") (auto simp: obfs_chunkSize_def)

declare tls_records.simps [simp del]

definition tls_Write :: "u32 \<Rightarrow> bytes \<Rightarrow> bytes \<Rightarrow> (nat \<Rightarrow> string option) \<Rightarrow> bytes \<Rightarrow> TLSObfsConn \<Rightarrow> bytes \<times> nat \<times> string option \<times> TLSObfsConn" where
  "tls_Write now random sessionID f b t =
     (if \<not> to_reqSent t then
        (case f 0 of
           Some e \<Rightarrow> ([], 0, Some e, t\<lparr>to_reqSent := True\<rparr>)
         | None \<Rightarrow> (obfs_handshake now random sessionID (to_obfsHost t) b, length b, None, t\<lparr>to_reqSent := True\<rparr>))
      else let (out, e) = tls_records f b in (out, if e = None then length b else 0, e, t))"

text \<open>Bytes are skipped without looking at the error.\<close>

definition skip :: "(nat \<Rightarrow> 'c \<Rightarrow> bytes res \<times> 'c) \<Rightarrow> nat \<Rightarrow> 'c buffered \<Rightarrow> unit res \<times> 'c buffered" where
  "skip R n bc = (case bufio_Discard R n bc of (Err e, bc') \<Rightarrow> (Ok (), bc') | r \<Rightarrow> r)"

definition set_left :: "TLSObfsConn \<Rightarrow> nat \<Rightarrow> bytes \<Rightarrow> TLSObfsConn" where
  "set_left t n buf = t\<lparr>to_left := n, to_reader := Some buf\<rparr>"

definition tls_rest :: "(nat \<Rightarrow> 'c \<Rightarrow> bytes res \<times> 'c) \<Rightarrow> nat \<Rightarrow> TLSObfsConn \<Rightarrow> nat \<Rightarrow> 'c buffered \<Rightarrow> bytes res \<times> TLSObfsConn \<times> 'c" where
  "tls_rest R l t left bc =
     (case bufio_Read R (min l left) bc of
        (Ok out, buf, c) \<Rightarrow> (Ok out, set_left t (left - length out) buf, c)
      | (r, buf, c) \<Rightarrow> (r, set_left t left buf, c))"

definition tls_Read :: "(nat \<Rightarrow> 'c \<Rightarrow> bytes res \<times> 'c) \<Rightarrow> nat \<Rightarrow> nat \<Rightarrow> TLSObfsConn \<times> 'c \<Rightarrow> bytes res \<times> TLSObfsConn \<times> 'c" where
  "tls_Read R fuel l tc =
     (let t = fst tc; start = (case to_reader t of None \<Rightarrow> skip R 102 ([], snd tc) | Some buf \<Rightarrow> (Ok (), buf, snd tc)) in
      case start of
        (Ok _, bc) \<Rightarrow>
          if to_left t = 0 then
            (case skip R 3 bc of
               (Ok _, bc) \<Rightarrow>
                 (case ReadFull (bufio_Read R) fuel 2 bc of
                    (Ok b, bc) \<Rightarrow> tls_rest R l t (unat (be16_of (b ! 0) (b ! 1))) bc
                  | (Err e, bc) \<Rightarrow> (Err e, set_left t 0 (fst bc), snd bc)
                  | (Panic, bc) \<Rightarrow> (Panic, set_left t 0 (fst bc), snd bc)
                  | (Diverge, bc) \<Rightarrow> (Diverge, set_left t 0 (fst bc), snd bc))
             | (_, bc) \<Rightarrow> (Panic, set_left t 0 (fst bc), snd bc))
          else tls_rest R l t (to_left t) bc
      | (_, bc) \<Rightarrow> (Panic, set_left t (to_left t) (fst bc), snd bc))"

section \<open>Reading records\<close>

text \<open>Records as the other end sends them: three bytes that are not looked at, the length and the data.\<close>

fun tls_wire :: "(bytes \<times> bytes) list \<Rightarrow> bytes" where
  "tls_wire [] = []"
| "tls_wire ((h, x) # cs) = h @ be16 (of_nat (length x)) @ x @ tls_wire cs"

definition record_ok :: "bytes \<times> bytes \<Rightarrow> bool" where
  "record_ok hx \<longleftrightarrow> length (fst hx) = 3 \<and> snd hx \<noteq> [] \<and> length (snd hx) < 65536"

definition tls_holds :: "('c \<Rightarrow> bytes \<Rightarrow> bool) \<Rightarrow> TLSObfsConn \<times> 'c \<Rightarrow> bytes \<Rightarrow> bool" where
  "tls_holds H tc d \<longleftrightarrow>
     (\<exists>x cs. length x = to_left (fst tc) \<and> list_all record_ok cs \<and> d = x @ concat (map snd cs) \<and>
       (case to_reader (fst tc) of
          None \<Rightarrow> x = [] \<and> (\<exists>hello. length hello = 102 \<and> H (snd tc) (hello @ tls_wire cs))
        | Some buf \<Rightarrow> bufio_holds H (buf, snd tc) (x @ tls_wire cs)))"

lemma skip_ok:
  assumes "byte_stream R H" and "bufio_holds H bc (x @ d)" and "length x = n"
  shows "\<exists>bc'. skip R n bc = (Ok (), bc') \<and> bufio_holds H bc' d"
  using Discard_ok [OF assms(1,2)] assms(3) by (auto simp: skip_def)

text \<open>After the first skip the reader is there, at the same data.\<close>

lemma tls_started:
  assumes "byte_stream R H" and "tls_holds H (t, c) d"
  shows "\<exists>buf c'. tls_Read R fuel l (t, c) = tls_Read R fuel l (t\<lparr>to_reader := Some buf\<rparr>, c') \<and> tls_holds H (t\<lparr>to_reader := Some buf\<rparr>, c') d"
proof (cases "to_reader t")
  case (Some buf)
  then have "t\<lparr>to_reader := Some buf\<rparr> = t" by simp
  with assms(2) show ?thesis by metis
next
  case None
  then obtain cs hello where h: "to_left t = 0" "list_all record_ok cs" "d = concat (map snd cs)" "length hello = 102" "H c (hello @ tls_wire cs)"
    using assms(2) by (auto simp: tls_holds_def)
  have "bufio_holds H ([], c) (hello @ tls_wire cs)" using h(5) by (auto intro: bufio_holdsI)
  from skip_ok [OF assms(1) this h(4)] obtain buf c' where s: "skip R 102 ([], c) = (Ok (), buf, c')" "bufio_holds H (buf, c') (tls_wire cs)" by auto
  have "tls_holds H (t\<lparr>to_reader := Some buf\<rparr>, c') d" unfolding tls_holds_def using h(1-3) s(2) by (intro exI [of _ "[]"] exI [of _ cs]) simp
  moreover have "tls_Read R fuel l (t, c) = tls_Read R fuel l (t\<lparr>to_reader := Some buf\<rparr>, c')"
    using None s(1) by (simp add: tls_Read_def Let_def set_left_def tls_rest_def split: prod.splits res.splits)
  ultimately show ?thesis by blast
qed

lemma tls_rest_ok:
  assumes bs: "byte_stream R H" and h: "bufio_holds H bc (x @ tls_wire cs)" and cs: "list_all record_ok cs" and "x \<noteq> []" "0 < l"
  shows "\<exists>out d' s'. tls_rest R l t (length x) bc = (Ok out, s') \<and> out \<noteq> [] \<and> length out \<le> l \<and> x @ concat (map snd cs) = out @ d' \<and> tls_holds H s' d'"
proof -
  have "0 < min l (length x)" "x @ tls_wire cs \<noteq> []" using assms(4,5) by auto
  from byte_stream.read_some [OF bufio_stream [OF bs] h this(2,1)]
  obtain out rest buf c' where o: "bufio_Read R (min l (length x)) bc = (Ok out, buf, c')" "out \<noteq> []" "length out \<le> min l (length x)"
    "x @ tls_wire cs = out @ rest" "bufio_holds H (buf, c') rest" by force
  have "length out \<le> length x" using o(3) by simp
  with o(4) obtain x' where x': "x = out @ x'" by (metis append_eq_append_conv_if append_take_drop_id)
  with o(4) have rest: "rest = x' @ tls_wire cs" by simp
  have "tls_holds H (set_left t (length x') buf, c') (x' @ concat (map snd cs))"
    unfolding tls_holds_def using o(5) rest cs by (intro exI [of _ x'] exI [of _ cs]) (simp add: set_left_def)
  with o x' show ?thesis by (auto simp: tls_rest_def)
qed

lemma tls_stream:
  assumes bs: "byte_stream R H" and fuel: "2 \<le> fuel"
  shows "byte_stream (tls_Read R fuel) (tls_holds H)"
proof
  fix tc d and l :: nat
  assume h: "tls_holds H tc d" and ne: "d \<noteq> []" and l: "0 < l"
  obtain t0 c0 where tc: "tc = (t0, c0)" by (rule prod.exhaust)
  from tls_started [OF bs h [unfolded tc]] obtain buf c where
    st: "tls_Read R fuel l tc = tls_Read R fuel l (t0\<lparr>to_reader := Some buf\<rparr>, c)" and h': "tls_holds H (t0\<lparr>to_reader := Some buf\<rparr>, c) d" unfolding tc by blast
  let ?t = "t0\<lparr>to_reader := Some buf\<rparr>"
  from h' obtain x cs where x: "length x = to_left ?t" "list_all record_ok cs" "d = x @ concat (map snd cs)" "bufio_holds H (buf, c) (x @ tls_wire cs)"
    by (auto simp: tls_holds_def)
  show "\<exists>out d' s'. tls_Read R fuel l tc = (Ok out, s') \<and> out \<noteq> [] \<and> length out \<le> l \<and> d = out @ d' \<and> tls_holds H s' d'"
  proof (cases "x = []")
    case False
    then have "to_left ?t \<noteq> 0" unfolding x(1) [symmetric] by simp
    with tls_rest_ok [OF bs x(4,2) False l, of ?t] st x(1,3) show ?thesis by (simp add: tls_Read_def)
  next
    case True
    with x(3) ne obtain hd y cs' where cs: "cs = (hd, y) # cs'" by (cases cs) auto
    then have y: "length hd = 3" "y \<noteq> []" "length y < 65536" "list_all record_ok cs'" using x(2) by (simp_all add: record_ok_def)
    have "bufio_holds H (buf, c) (hd @ be16 (of_nat (length y)) @ y @ tls_wire cs')" using x(4) True cs by simp
    from skip_ok [OF bs this y(1)] obtain bc1 where s1: "skip R 3 (buf, c) = (Ok (), bc1)" "bufio_holds H bc1 (be16 (of_nat (length y)) @ y @ tls_wire cs')" by blast
    from byte_stream.ReadFull_ok [OF bufio_stream [OF bs] s1(2), of fuel] fuel obtain bc2 where
      s2: "ReadFull (bufio_Read R) fuel 2 bc1 = (Ok (be16 (of_nat (length y))), bc2)" "bufio_holds H bc2 (y @ tls_wire cs')" by auto
    have n: "unat (of_nat (length y) :: u16) = length y" using y(3) by (intro unat_of_nat_small) simp
    have "tls_Read R fuel l tc = tls_rest R l ?t (length y) bc2"
      using st s1(1) s2(1) x(1) True by (simp add: tls_Read_def be16_nth n del: One_nat_def)
    with tls_rest_ok [OF bs s2(2) y(4,2) l, of ?t] x(3) True cs show ?thesis by simp
  qed
next
  fix tc and l :: nat
  assume h: "tls_holds H tc []" and l: "0 < l"
  obtain t0 c0 where tc: "tc = (t0, c0)" by (rule prod.exhaust)
  from tls_started [OF bs h [unfolded tc]] obtain buf c where
    st: "tls_Read R fuel l tc = tls_Read R fuel l (t0\<lparr>to_reader := Some buf\<rparr>, c)" and h': "tls_holds H (t0\<lparr>to_reader := Some buf\<rparr>, c) []" unfolding tc by blast
  let ?t = "t0\<lparr>to_reader := Some buf\<rparr>"
  from h' obtain cs where x: "to_left ?t = 0" "list_all record_ok cs" "concat (map snd cs) = []" "bufio_holds H (buf, c) (tls_wire cs)"
    by (auto simp: tls_holds_def)
  then have "cs = []" by (cases cs) (auto simp: record_ok_def)
  with x(4) have e: "bufio_holds H (buf, c) []" by simp
  from Discard_end [OF bs e, of 3] obtain bc1 where s1: "skip R 3 (buf, c) = (Ok (), bc1)" "bufio_holds H bc1 []" by (auto simp: skip_def)
  from byte_stream.ReadFull_end [OF bufio_stream [OF bs] s1(2), of 2 fuel] fuel obtain bc2 where
    s2: "ReadFull (bufio_Read R) fuel 2 bc1 = (Err ''EOF'', bc2)" "bufio_holds H bc2 []" by auto
  have "tls_holds H (set_left ?t 0 (fst bc2), snd bc2) []"
    unfolding tls_holds_def using s2(2) by (intro exI [of _ "[]"] exI [of _ "[]"]) (simp add: set_left_def)
  then show "\<exists>s'. tls_Read R fuel l tc = (Err ''EOF'', s') \<and> tls_holds H s' []"
    using st x(1) s1(1) s2(1) by (simp add: tls_Read_def)
qed

lemma tls_records_wire: "(\<And>i. f i = None) \<Longrightarrow> tls_records f b = (tls_wire (map (Pair [0x17, 0x03, 0x03]) (cut_into obfs_chunkSize b)), None)"
proof (induction "length b" arbitrary: b f rule: less_induct)
  case less
  show ?case
  proof (cases "b = []")
    case True
    then show ?thesis by (simp add: tls_records.simps cut_into.simps)
  next
    case False
    have m: "0 < obfs_chunkSize" by (simp add: obfs_chunkSize_def)
    with False have "length (drop obfs_chunkSize b) < length b" by simp
    from less.hyps [OF this, of "\<lambda>i. f (Suc i)"] less.prems
    have IH: "tls_records (\<lambda>i. f (Suc i)) (drop obfs_chunkSize b) = (tls_wire (map (Pair [0x17, 0x03, 0x03]) (cut_into obfs_chunkSize (drop obfs_chunkSize b))), None)" by simp
    have "cut_into obfs_chunkSize b = take obfs_chunkSize b # cut_into obfs_chunkSize (drop obfs_chunkSize b)"
      using False m by (subst cut_into.simps) simp
    then show ?thesis unfolding tls_records.simps [of f b] using False less.prems IH by (simp add: Let_def)
  qed
qed

lemma tls_wire_append: "tls_wire (xs @ ys) = tls_wire xs @ tls_wire ys"
  by (induction xs rule: tls_wire.induct) simp_all

lemma tls_wire_concat: "tls_wire (concat xss) = concat (map tls_wire xss)"
  by (induction xss) (simp_all add: tls_wire_append)

lemma snd_records: "concat (map snd (concat (map (\<lambda>b. map (Pair h) (cut_into m b)) bs))) = concat bs"
  by (induction bs) (simp_all add: comp_def)

lemma records_ok: "list_all record_ok (concat (map (\<lambda>b. map (Pair [0x17, 0x03, 0x03]) (cut_into obfs_chunkSize b)) bs))"
proof -
  have "c \<noteq> [] \<and> length c < 65536" if "c \<in> set (cut_into obfs_chunkSize b)" for b c
    using cut_bounds [OF _ that] by (simp add: obfs_chunkSize_def)
  then show ?thesis by (fastforce simp: list_all_iff record_ok_def)
qed

text \<open>The hello with its lengths as a reader finds them.\<close>

lemma be24_value:
  assumes "n < 16777216"
  shows "65536 * unat (be24 n ! 0) + 256 * unat (be24 n ! 1) + unat (be24 n ! 2) = n"
proof -
  have "n div 65536 < 256" using assms by (intro less_mult_imp_div_less) simp
  then have "unat (of_nat (n div 65536) :: u8) = n div 65536" by (intro unat_of_nat_small) simp
  moreover have "unat (of_nat (n div 256) :: u8) = n div 256 mod 256" "unat (of_nat n :: u8) = n mod 256" by (simp_all add: unat_of_nat take_bit_eq_mod)
  moreover have "n div 65536 = n div 256 div 256" by (simp flip: div_mult2_eq)
  moreover have "65536 * (n div 256 div 256) + 256 * (n div 256 mod 256) + n mod 256 = n"
    using mult_div_mod_eq [of 256 n] mult_div_mod_eq [of 256 "n div 256"] by linarith
  ultimately show ?thesis by (simp add: be24_def numeral_2_eq_2)
qed

lemma hello_length: "length random = 28 \<Longrightarrow> length sessionID = 32 \<Longrightarrow> length (clientHello now random sessionID) = 127"
  by (simp add: clientHello_def cipher_suites_def)

lemma extension_length: "length (extension b server) = length b + length server + 79"
  by (simp add: extension_def server_name_def fixed_extensions_def)

lemma prefix_nth: "length a = n \<Longrightarrow> i < length b \<Longrightarrow> (a @ b @ r) ! (n + i) = b ! i"
  by (auto simp: nth_append)

lemma hello_fields:
  fixes now random sessionID server b
  defines "p \<equiv> obfs_handshake now random sessionID server b"
  assumes r: "length random = 28" "length sessionID = 32" and small: "length b + length server \<le> 65000"
  shows "5 + unat (be16_of (p ! 3) (p ! 4)) = length p" "9 + (65536 * unat (p ! 6) + 256 * unat (p ! 7) + unat (p ! 8)) = length p"
    "138 + unat (be16_of (p ! 136) (p ! 137)) = length p" "take (unat (be16_of (p ! 140) (p ! 141))) (drop 142 p) = b"
proof -
  define ext where "ext = extension b server"
  define hello where "hello = clientHello now random sessionID"
  define n where "n = length hello + 2 + length ext"
  have hl: "length hello = 127" and el: "length ext = length b + length server + 79" using hello_length [OF r] extension_length by (simp_all add: hello_def ext_def)
  have p: "p = [0x16, 0x03, 0x01] @ be16 (of_nat (4 + n)) @ [0x01] @ be24 n @ hello @ be16 (of_nat (length ext)) @ ext"
    by (simp add: p_def obfs_handshake_def Let_def n_def hello_def ext_def)
  have lp: "length p = 9 + n" by (simp add: p n_def be24_def)
  have w: "unat (of_nat k :: u16) = k" if "k \<le> 65535" for k using that by (intro unat_of_nat_small) simp
  have "p ! 3 = be16 (of_nat (4 + n)) ! 0" "p ! 4 = be16 (of_nat (4 + n)) ! 1" by (simp_all add: p nth_append)
  then show "5 + unat (be16_of (p ! 3) (p ! 4)) = length p" using w [of "4 + n"] small hl el lp by (simp add: be16_nth n_def del: One_nat_def)
  have "p ! 6 = be24 n ! 0" "p ! 7 = be24 n ! 1" "p ! 8 = be24 n ! 2" by (simp_all add: p nth_append be24_def)
  then show "9 + (65536 * unat (p ! 6) + 256 * unat (p ! 7) + unat (p ! 8)) = length p" using be24_value [of n] small hl el lp by (simp add: n_def)
  define pre where "pre = [0x16, 0x03, 0x01] @ be16 (of_nat (4 + n)) @ [0x01] @ be24 n @ hello"
  have pre: "length pre = 136" "p = pre @ be16 (of_nat (length ext)) @ ext" by (simp_all add: pre_def p be24_def hl)
  have "p ! 136 = be16 (of_nat (length ext)) ! 0" "p ! 137 = be16 (of_nat (length ext)) ! 1"
    using prefix_nth [OF pre(1), of 0 "be16 (of_nat (length ext))" ext] prefix_nth [OF pre(1), of 1 "be16 (of_nat (length ext))" ext] pre(2) by simp_all
  then show "138 + unat (be16_of (p ! 136) (p ! 137)) = length p" using w [of "length ext"] small el hl lp by (simp add: be16_nth n_def del: One_nat_def)
  define pre2 where "pre2 = pre @ be16 (of_nat (length ext)) @ [0x00, 0x23]"
  define post where "post = server_name server @ fixed_extensions"
  have pre2: "length pre2 = 140" "p = pre2 @ be16 (of_nat (length b)) @ b @ post" using pre by (simp_all add: pre2_def ext_def extension_def post_def)
  have "p ! 140 = be16 (of_nat (length b)) ! 0" "p ! 141 = be16 (of_nat (length b)) ! 1"
    using prefix_nth [OF pre2(1), of 0 "be16 (of_nat (length b))" "b @ post"] prefix_nth [OF pre2(1), of 1 "be16 (of_nat (length b))" "b @ post"] pre2(2) by simp_all
  then have "unat (be16_of (p ! 140) (p ! 141)) = length b" using w [of "length b"] small by (simp add: be16_nth del: One_nat_def)
  moreover have "drop 142 p = b @ post" using pre2 by simp
  ultimately show "take (unat (be16_of (p ! 140) (p ! 141))) (drop 142 p) = b" by simp
qed

text \<open>
  C39. The TLS disguise carries data both ways. The hello of the first write is well formed (record, handshake and extension lengths all reach exactly
  its end) and holds the written data as the session ticket; and what the other end wrote with the same framing after a server hello of 102 bytes is
  read in order, however the connection cuts it, and whole if the reads go on.
\<close>

theorem obfs_tls_ok:
  assumes "\<not> to_reqSent t" and "length random = 28" and "length sessionID = 32" and "length b + length (to_obfsHost t) \<le> 65000"
    and "tls_Write now random sessionID (\<lambda>_. None) b t = (p, n, e, t')"
    and "to_reader t = None" and "to_left t = 0" and "length hello = 102" and "2 \<le> fuel"
    and "in_bytes s = hello @ concat (map (\<lambda>b. fst (tls_Write now random sessionID (\<lambda>_. None) b t')) bs)"
    and "\<forall>l \<in> set ls. 0 < l" and "run_reads (tls_Read conn_Read fuel) ls (t', s) = (outs, err)"
  shows "n = length b \<and> 5 + unat (be16_of (p ! 3) (p ! 4)) = length p \<and> 9 + (65536 * unat (p ! 6) + 256 * unat (p ! 7) + unat (p ! 8)) = length p \<and>
    138 + unat (be16_of (p ! 136) (p ! 137)) = length p \<and> take (unat (be16_of (p ! 140) (p ! 141))) (drop 142 p) = b \<and>
    (\<exists>d'. concat bs = concat outs @ d' \<and> (length (concat bs) < length ls \<longrightarrow> d' = [] \<and> err = Some ''EOF''))"
proof -
  have w: "p = obfs_handshake now random sessionID (to_obfsHost t) b" "n = length b" "t' = t\<lparr>to_reqSent := True\<rparr>"
    using assms(1,5) by (auto simp: tls_Write_def)
  note hello = hello_fields [OF assms(2-4), of now, folded w(1)]
  define recs where "recs = concat (map (\<lambda>b. map (Pair [0x17, 0x03, 0x03 :: u8]) (cut_into obfs_chunkSize b)) bs)"
  have "in_bytes s = hello @ tls_wire recs"
    using assms(10) by (simp add: w(3) tls_Write_def tls_records_wire recs_def tls_wire_concat comp_def)
  then have "tls_holds conn_holds (t', s) (concat bs)"
    unfolding tls_holds_def using assms(6-8) records_ok [of bs] snd_records [of "[0x17, 0x03, 0x03 :: u8]" obfs_chunkSize bs]
    by - (rule exI [of _ "[]"], rule exI [of _ recs], auto simp: w(3) conn_holds_def recs_def)
  note reads = byte_stream.reads_deliver [OF tls_stream [OF socket.byte_stream_axioms assms(9)] this assms(11,12)]
  show ?thesis by (intro conjI w(2) hello reads)
qed

definition sample_tls :: TLSObfsConn where
  "sample_tls = \<lparr>to_obfsHost = ''a.b'', to_reqSent = False, to_reader = None, to_left = 0\<rparr>"

theorem obfs_tls_ok_witness:
  "\<exists>p n e t' outs err. tls_Write 1 (replicate 28 7) (replicate 32 9) (\<lambda>_. None) [1, 2, 3] sample_tls = (p, n, e, t') \<and>
     take (unat (be16_of (p ! 140) (p ! 141))) (drop 142 p) = [1, 2, 3] \<and>
     run_reads (tls_Read conn_Read 2) [1, 2, 1, 2]
       (t', \<lparr>in_bytes = replicate 102 0 @ concat (map (\<lambda>b. fst (tls_Write 1 (replicate 28 7) (replicate 32 9) (\<lambda>_. None) b t')) [[4], [5, 6]]), in_segs = [3, 0]\<rparr>) = (outs, err) \<and>
     concat outs = [4, 5, 6] \<and> err = Some ''EOF''"
proof -
  obtain p n e t' where w: "tls_Write 1 (replicate 28 7) (replicate 32 9) (\<lambda>_. None) [1, 2, 3] sample_tls = (p, n, e, t')" by (metis prod.exhaust)
  let ?s = "\<lparr>in_bytes = replicate 102 0 @ concat (map (\<lambda>b. fst (tls_Write 1 (replicate 28 7) (replicate 32 9) (\<lambda>_. None) b t')) [[4], [5, 6]]), in_segs = [3, 0]\<rparr>"
  obtain outs err where r: "run_reads (tls_Read conn_Read 2) [1, 2, 1, 2] (t', ?s) = (outs, err)" by (rule prod.exhaust)
  have t: "\<not> to_reqSent sample_tls" "to_reader sample_tls = None" "to_left sample_tls = 0" "to_obfsHost sample_tls = ''a.b''" by (simp_all add: sample_tls_def)
  have "take (unat (be16_of (p ! 140) (p ! 141))) (drop 142 p) = [1, 2, 3] \<and> concat outs = [4, 5, 6] \<and> err = Some ''EOF''"
    using obfs_tls_ok [OF t(1) _ _ _ w t(2,3) _ _ _ _ r, of "replicate 102 0" "[[4], [5, 6]]"] t(4) by auto
  with w r show ?thesis by blast
qed

section \<open>The HTTP disguise\<close>

record HTTPObfs =
  ho_obfsHost :: string
  ho_obfsURI :: string
  ho_obfsUA :: string

text \<open>The request \<open>NewConn\<close> sends; \<open>b\<close> is 16 random bytes.\<close>

definition obfs_writeHeader :: "HTTPObfs \<Rightarrow> bytes \<Rightarrow> bytes" where
  "obfs_writeHeader p b =
     to_bytes (''GET '' @ ho_obfsURI p @ '' HTTP/1.1'' @ eol) @
     to_bytes (''Host: '' @ ho_obfsHost p @ eol) @
     to_bytes (''User-Agent: '' @ ho_obfsUA p @ eol) @
     to_bytes (''Upgrade: websocket'' @ eol) @
     to_bytes (''Connection: Upgrade'' @ eol) @
     to_bytes (''Sec-WebSocket-Key: '' @ b64_encode b @ eol) @
     to_bytes eol"

lemma eol_to_bytes: "to_bytes eol = [13, 10]"
  by (simp add: to_bytes_def eol_bytes)

lemma to_bytes_append: "to_bytes (a @ b) = to_bytes a @ to_bytes b"
  by (simp add: to_bytes_def)

lemma key_line_end: "\<exists>pre. a @ b @ c @ d @ e @ to_bytes (x @ key @ eol) @ to_bytes eol = pre @ to_bytes (x @ key) @ [13, 10, 13, 10]"
  by (rule exI [of _ "a @ b @ c @ d @ e"]) (simp add: to_bytes_append eol_to_bytes)

lemma writeHeader_end: "\<exists>pre. obfs_writeHeader p b = pre @ to_bytes (''Sec-WebSocket-Key: '' @ b64_encode b) @ [13, 10, 13, 10]"
  unfolding obfs_writeHeader_def by (rule key_line_end)

text \<open>\<open>Read\<close>: the first read drops lines up to an empty one. The reader is there even when that failed. \<open>fuel\<close> bounds the lines.\<close>

fun skip_header :: "(nat \<Rightarrow> 'c \<Rightarrow> bytes res \<times> 'c) \<Rightarrow> nat \<Rightarrow> 'c buffered \<Rightarrow> unit res \<times> 'c buffered" where
  "skip_header R 0 bc = (Diverge, bc)"
| "skip_header R (Suc fuel) bc =
     bind_st (bufio_ReadLine R bc) (\<lambda>(l, _, err) bc.
       case err of Some e \<Rightarrow> (Err e, bc) | None \<Rightarrow> if l = [] then (Ok (), bc) else skip_header R fuel bc)"

definition buffered_read :: "(nat \<Rightarrow> 'c \<Rightarrow> bytes res \<times> 'c) \<Rightarrow> nat \<Rightarrow> 'c buffered \<Rightarrow> bytes res \<times> bytes option \<times> 'c" where
  "buffered_read R l bc = apsnd (apfst Some) (bufio_Read R l bc)"

definition http_Read :: "(nat \<Rightarrow> 'c \<Rightarrow> bytes res \<times> 'c) \<Rightarrow> nat \<Rightarrow> nat \<Rightarrow> bytes option \<times> 'c \<Rightarrow> bytes res \<times> bytes option \<times> 'c" where
  "http_Read R fuel l hc =
     (case fst hc of
        Some buf \<Rightarrow> buffered_read R l (buf, snd hc)
      | None \<Rightarrow>
          (case skip_header R fuel ([], snd hc) of
             (Ok _, bc) \<Rightarrow> buffered_read R l bc
           | (Err e, bc) \<Rightarrow> (Err e, Some (fst bc), snd bc)
           | (Panic, bc) \<Rightarrow> (Panic, Some (fst bc), snd bc)
           | (Diverge, bc) \<Rightarrow> (Diverge, Some (fst bc), snd bc)))"

text \<open>Header lines as the reader recognises them: not empty, with no line feed, and short enough for its buffer.\<close>

definition header_line :: "bytes \<Rightarrow> bool" where
  "header_line l \<longleftrightarrow> l \<noteq> [] \<and> 10 \<notin> set l \<and> length l + 1 < bufio_size"

definition header_wire :: "bytes list \<Rightarrow> bytes" where
  "header_wire ls = concat (map (\<lambda>l. l @ [13, 10]) ls) @ [13, 10]"

lemma skip_header_ok:
  assumes "byte_stream R H" and "bufio_holds H bc (header_wire ls @ d)" and "list_all header_line ls" and "length ls < fuel"
  shows "\<exists>bc'. skip_header R fuel bc = (Ok (), bc') \<and> bufio_holds H bc' d"
  using assms(2-4)
proof (induction ls arbitrary: bc fuel)
  case Nil
  have "bufio_holds H bc ([] @ [13, 10] @ d)" using Nil(1) by (simp add: header_wire_def)
  from ReadLine_ok [OF assms(1) this] obtain bc' where "bufio_ReadLine R bc = (Ok ([], False, None), bc')" "bufio_holds H bc' d" by (auto simp: bufio_size_def)
  then show ?case using Nil(3) by (cases fuel) simp_all
next
  case (Cons l ls)
  have "bufio_holds H bc (l @ [13, 10] @ header_wire ls @ d)" using Cons.prems(1) by (simp add: header_wire_def)
  from ReadLine_ok [OF assms(1) this] Cons.prems(2) obtain bc' where
    r: "bufio_ReadLine R bc = (Ok (l, False, None), bc')" "bufio_holds H bc' (header_wire ls @ d)" by (auto simp: header_line_def)
  obtain f where f: "fuel = Suc f" "length ls < f" using Cons.prems(3) by (cases fuel) auto
  have "l \<noteq> []" using Cons.prems(2) by (simp add: header_line_def)
  with Cons.IH [OF r(2) _ f(2)] Cons.prems(2) r(1) f(1) show ?case by simp
qed

definition http_holds :: "nat \<Rightarrow> ('c \<Rightarrow> bytes \<Rightarrow> bool) \<Rightarrow> bytes option \<times> 'c \<Rightarrow> bytes \<Rightarrow> bool" where
  "http_holds fuel H hc d \<longleftrightarrow>
     (case fst hc of
        None \<Rightarrow> \<exists>ls. list_all header_line ls \<and> length ls < fuel \<and> H (snd hc) (header_wire ls @ d)
      | Some buf \<Rightarrow> bufio_holds H (buf, snd hc) d)"

lemma http_started:
  assumes "byte_stream R H" and "http_holds fuel H hc d"
  shows "\<exists>bc. http_Read R fuel l hc = buffered_read R l bc \<and> bufio_holds H bc d"
proof (cases "fst hc")
  case (Some buf)
  then show ?thesis using assms(2) by (auto simp: http_Read_def http_holds_def)
next
  case None
  then obtain ls where ls: "list_all header_line ls" "length ls < fuel" "H (snd hc) (header_wire ls @ d)" using assms(2) by (auto simp: http_holds_def)
  have "bufio_holds H ([], snd hc) (header_wire ls @ d)" using ls(3) by (auto intro: bufio_holdsI)
  from skip_header_ok [OF assms(1) this ls(1,2)] obtain bc where "skip_header R fuel ([], snd hc) = (Ok (), bc)" "bufio_holds H bc d" by blast
  with None show ?thesis by (intro exI [of _ bc]) (simp add: http_Read_def)
qed

lemma http_obfs_stream:
  assumes bs: "byte_stream R H"
  shows "byte_stream (http_Read R fuel) (http_holds fuel H)"
proof
  fix hc d and l :: nat
  assume h: "http_holds fuel H hc d" and "d \<noteq> []" and "0 < l"
  from http_started [OF bs h, of l] obtain bc where r: "http_Read R fuel l hc = buffered_read R l bc" "bufio_holds H bc d" by blast
  from byte_stream.read_some [OF bufio_stream [OF bs] r(2) \<open>d \<noteq> []\<close> \<open>0 < l\<close>] obtain out d' buf c where
    "bufio_Read R l bc = (Ok out, buf, c)" "out \<noteq> []" "length out \<le> l" "d = out @ d'" "bufio_holds H (buf, c) d'" by force
  then show "\<exists>out d' s'. http_Read R fuel l hc = (Ok out, s') \<and> out \<noteq> [] \<and> length out \<le> l \<and> d = out @ d' \<and> http_holds fuel H s' d'"
    using r(1) by (auto simp: buffered_read_def http_holds_def)
next
  fix hc and l :: nat
  assume h: "http_holds fuel H hc []" and "0 < l"
  from http_started [OF bs h, of l] obtain bc where r: "http_Read R fuel l hc = buffered_read R l bc" "bufio_holds H bc []" by blast
  from byte_stream.read_end [OF bufio_stream [OF bs] r(2) \<open>0 < l\<close>] obtain buf c where
    "bufio_Read R l bc = (Err ''EOF'', buf, c)" "bufio_holds H (buf, c) []" by force
  then show "\<exists>s'. http_Read R fuel l hc = (Err ''EOF'', s') \<and> http_holds fuel H s' []"
    using r(1) by (auto simp: buffered_read_def http_holds_def)
qed

section \<open>The dialer\<close>

datatype obfs_conn = obfs_http HTTPObfs | obfs_tls string

record Obfs_dialer =
  ob_addr :: string
  ob_conn :: obfs_conn

text \<open>\<open>NewObfs\<close> on the host and the query of the URL, or the error of parsing it; \<open>or_default\<close> stands in for an empty value.\<close>

definition or_default :: "string \<Rightarrow> string \<Rightarrow> string" where "or_default v d = (if v = '''' then d else v)"

definition default_ua :: string where
  "default_ua = ''Mozilla/5.0 (Windows NT 10.0; Win64; x64) AppleWebKit/537.36 (KHTML, like Gecko) Chrome/71.0.3578.80 Safari/537.36''"

definition NewObfs :: "string + string \<times> (string \<Rightarrow> string) \<Rightarrow> string + Obfs_dialer" where
  "NewObfs u =
     (case u of
        Inl e \<Rightarrow> Inl e
      | Inr (host, query) \<Rightarrow>
          let obfsType = or_default (query ''type'') ''http''; obfsHost = query ''host'' in
          if obfsHost = '''' then Inl ''[obfs] host cannot be null''
          else
            let obfsURI = or_default (query ''uri'') ''/''; obfsUA = or_default (query ''ua'') default_ua in
            if obfsType = ''http'' then Inr \<lparr>ob_addr = host, ob_conn = obfs_http \<lparr>ho_obfsHost = obfsHost, ho_obfsURI = obfsURI, ho_obfsUA = obfsUA\<rparr>\<rparr>
            else if obfsType = ''tls'' then Inr \<lparr>ob_addr = host, ob_conn = obfs_tls obfsHost\<rparr>
            else Inl (''[obfs] unknown obfs type: '' @ obfsType))"

definition Obfs_Addr :: "string \<Rightarrow> Obfs_dialer \<Rightarrow> string" where
  "Obfs_Addr dialer_addr s = (if ob_addr s = '''' then dialer_addr else ob_addr s)"

text \<open>
  \<open>Dial\<close> on the outcome of the dialer below: the bytes sent at once and the state of the connection. The HTTP disguise returns the connection
  also when its header could not be sent, beside that error; whatever the target is, it is not looked at.
\<close>

datatype obfs_state = http_state "bytes option" | tls_state TLSObfsConn

definition obfs_NewConn :: "bytes \<Rightarrow> string option \<Rightarrow> obfs_conn \<Rightarrow> bytes \<times> obfs_state \<times> string option" where
  "obfs_NewConn rand werr k =
     (case k of
        obfs_http p \<Rightarrow> (if werr = None then obfs_writeHeader p rand else [], http_state None, werr)
      | obfs_tls h \<Rightarrow> ([], tls_state \<lparr>to_obfsHost = h, to_reqSent = False, to_reader = None, to_left = 0\<rparr>, None))"

definition Obfs_Dial :: "(string \<Rightarrow> string \<Rightarrow> string option) \<Rightarrow> bytes \<Rightarrow> string option \<Rightarrow> string \<Rightarrow> string \<Rightarrow> Obfs_dialer \<Rightarrow> string + bytes \<times> obfs_state \<times> string option" where
  "Obfs_Dial dial rand werr network addr s =
     (case dial ''tcp'' (ob_addr s) of Some e \<Rightarrow> Inl e | None \<Rightarrow> Inr (obfs_NewConn rand werr (ob_conn s)))"

text \<open>
  C40. A connection of the HTTP disguise, dialled through \<open>Obfs.Dial\<close>, gives the data behind the answer's header: whatever header lines the other end sends
  (each short enough for the buffer), reads return exactly what follows the empty line, however the connection cuts it. Its own request ends with an empty line too, and carries
  the 16 random bytes as the base64 key.
\<close>

theorem obfs_http_ok:
  assumes "NewObfs (Inr (host, query)) = Inr d" and "query ''type'' \<in> {'''', ''http''}" and "dial ''tcp'' host = None"
    and "Obfs_Dial dial rand None network addr d = Inr (req, http_state h, e)"
    and "in_bytes s = header_wire lines @ data" and "list_all header_line lines" and "length lines < fuel"
    and "\<forall>l \<in> set ls. 0 < l" and "run_reads (http_Read conn_Read fuel) ls (h, s) = (outs, err)"
  shows "(\<exists>pre key. req = pre @ to_bytes (''Sec-WebSocket-Key: '' @ key) @ [13, 10, 13, 10] \<and> b64_decode key = Some rand) \<and>
    (\<exists>d'. data = concat outs @ d' \<and> (length data < length ls \<longrightarrow> d' = [] \<and> err = Some ''EOF''))"
proof -
  from assms(1,2) obtain p where "ob_conn d = obfs_http p"
    by (auto simp: NewObfs_def Let_def or_default_def split: if_splits)
  with assms(4) have n: "req = obfs_writeHeader p rand" "h = None" by (auto simp: Obfs_Dial_def obfs_NewConn_def split: option.splits)
  have "\<exists>pre. req = pre @ to_bytes (''Sec-WebSocket-Key: '' @ b64_encode rand) @ [13, 10, 13, 10]"
    unfolding n(1) by (rule writeHeader_end)
  moreover have "http_holds fuel conn_holds (h, s) data" using n(2) assms(5-7) by (auto simp: http_holds_def conn_holds_def)
  note byte_stream.reads_deliver [OF http_obfs_stream [OF socket.byte_stream_axioms] this assms(8,9)]
  ultimately show ?thesis using base64_roundtrip by blast
qed

definition sample_query :: "string \<Rightarrow> string" where
  "sample_query k = (if k = ''host'' then ''h'' else '''')"

theorem obfs_http_ok_witness:
  "\<exists>d req outs err. NewObfs (Inr (''p:1'', sample_query)) = Inr d \<and> Obfs_Dial (\<lambda>_ _. None) [1, 2, 3] None ''tcp'' ''t:2'' d = Inr (req, http_state None, None) \<and>
     run_reads (http_Read conn_Read 3) [2, 1, 2] (None, \<lparr>in_bytes = header_wire [[72, 84], [65]] @ [7, 8], in_segs = [4, 1]\<rparr>) = (outs, err) \<and>
     concat outs = [7, 8] \<and> err = Some ''EOF'' \<and>
     (\<exists>pre key. req = pre @ to_bytes (''Sec-WebSocket-Key: '' @ key) @ [13, 10, 13, 10] \<and> b64_decode key = Some [1, 2, 3])"
proof -
  let ?s = "\<lparr>in_bytes = header_wire [[72, 84], [65]] @ [7, 8], in_segs = [4, 1]\<rparr>"
  let ?d = "\<lparr>ob_addr = ''p:1'', ob_conn = obfs_http \<lparr>ho_obfsHost = ''h'', ho_obfsURI = ''/'', ho_obfsUA = default_ua\<rparr>\<rparr>"
  have d: "NewObfs (Inr (''p:1'', sample_query)) = Inr ?d" by (simp add: NewObfs_def sample_query_def or_default_def)
  obtain req where q: "Obfs_Dial (\<lambda>_ _. None) [1, 2, 3] None ''tcp'' ''t:2'' ?d = Inr (req, http_state None, None)"
    by (simp add: Obfs_Dial_def obfs_NewConn_def)
  obtain outs err where r: "run_reads (http_Read conn_Read 3) [2, 1, 2] (None, ?s) = (outs, err)" by (rule prod.exhaust)
  have "list_all header_line [[72, 84], [65]]" by (simp add: header_line_def bufio_size_def)
  from obfs_http_ok [OF d _ _ q _ this _ _ r, of "[7, 8]"]
  have "concat outs = [7, 8] \<and> err = Some ''EOF'' \<and> (\<exists>pre key. req = pre @ to_bytes (''Sec-WebSocket-Key: '' @ key) @ [13, 10, 13, 10] \<and> b64_decode key = Some [1, 2, 3])"
    by (simp add: sample_query_def)
  with d q r show ?thesis by blast
qed

end
