(* ===== verification/Spec2Isabelle.thy ===== *)
theory Spec2Isabelle
  imports Status_Races DnsClient Socks5 WsFrame SmuxDelivery AnyTlsPool BufPool Shadowsocks UdpSessions Vmess Dhcp Obfs
begin

text \<open>
  Verification of glider, a forward proxy with forwarder groups, rules, a DNS forwarder and many
  proxy protocols. The development follows the source tree under \<open>src\<close>.

  \<^bold>\<open>The program.\<close> \<open>main\<close> builds the rule proxy (\<open>rule.NewProxy\<close>) from the configuration. A listener
  accepts a connection, asks the rule proxy for the dialer of the target (\<open>findDialer\<close>), and the group
  behind it picks forwarders and retries (\<open>FwdrGroup.Dial\<close>). Health checkers run beside the traffic and
  enable and disable forwarders. The DNS server resolves through the same proxy and tells it the
  addresses of names, so that rules on names apply to connections to addresses. A forwarder is a
  chain of dialers, each speaking one proxy protocol over the connection of the one before.

  \<^bold>\<open>Conventions.\<close> Objects on the Go heap are identifiers into stores kept in the state (\<open>world\<close> for forwarders
  and groups, the item memory of the cache, the stores of streams of a session). Bytes are \<open>8 word\<close>,
  16 and 32-bit integers are words, \<open>int\<close>, \<open>int64\<close> and durations are \<open>int\<close> wrapped by \<open>wrap64\<close> where the code
  can overflow. A call returns \<open>res\<close>: a value, an error, a panic or no return. What the environment decides (the
  outcome of a dial, the clock, random bytes, the order of a map) is an argument. Atomic sections are functions; what
  runs concurrently is a step relation over them, and \<open>reach\<close> with the locale \<open>inductive_invariant\<close>
  of \<open>Prelude\<close> gives the invariants of all interleavings.

  \<^bold>\<open>Forwarder groups.\<close> \<open>Forwarding\<close>: \<open>rule/forward.go\<close> and the status handling of \<open>rule/group.go\<close>, with the group
  invariant \<open>world_ok\<close>. \<open>Status_Races\<close>: the same operations interleaved, with the flags read at once and one by one.
  \<open>Dialing\<close>: construction, the four strategies and the retrying dial. \<open>ForwarderURL\<close>: from the
  text of a forwarder to a group. \<open>Checker\<close>: \<open>rule/check.go\<close> and the check loops.
  Shown: a quiescent rotation is exactly the enabled forwarders of the best priority; round robin is fair; a dial tries
  every candidate once within its budget and charges each failure to the forwarder that failed; checkers keep the invariant.

  \<^bold>\<open>Rules.\<close> \<open>GoNet\<close>: the functions of \<open>net\<close>, \<open>netip\<close> and \<open>strconv\<close> on addresses. \<open>DomainWalk\<close>: the walk over the suffixes of
  a name that \<open>rule\<close>, \<open>dns\<close> and \<open>ipset\<close> share. \<open>RuleProxy\<close>: \<open>rule/proxy.go\<close> and \<open>rule/status.go\<close>. Shown: which group a target is
  routed to, and that a reload replaces a whole generation and stops its checkers.

  \<^bold>\<open>DNS.\<close> \<open>DnsMessage\<close>: \<open>dns/message.go\<close>. \<open>DnsCache\<close>: \<open>dns/cache.go\<close>, refining an abstract least-recently-used cache.
  \<open>DnsClient\<close>: \<open>dns/client.go\<close>, \<open>dns/upstream.go\<close>, \<open>dns/server.go\<close>. Shown: messages round-trip, what a request is
  answered, that a working upstream is found; and the messages that make the decoder panic or loop.

  \<^bold>\<open>Protocols.\<close> \<open>Channels\<close>: dialogues over a byte stream and their interleavings. \<open>SocksAddr\<close>: addresses of SOCKS, VLESS and VMess and
  the UDP packets built on them. \<open>Socks5\<close>: both ends of the handshake, composed. \<open>WsFrame\<close>: \<open>proxy/ws/frame.go\<close>.
  \<open>SmuxFrame\<close>, \<open>SmuxStream\<close>, \<open>SmuxSession\<close>, \<open>SmuxDelivery\<close>: \<open>pkg/smux\<close>, with flow control, the
  receive budget and end-to-end delivery. \<open>AnyTlsStream\<close>, \<open>AnyTlsSession\<close>, \<open>AnyTlsPool\<close>: \<open>proxy/anytls\<close>.

  \<^bold>\<open>Bounds.\<close> Recursion on the input is structural or has a measure. Two decoders follow the peer's data
  without a bound of their own: \<open>UnmarshalMessage\<close> takes fuel, \<open>Diverge\<close> is running out of it, and the round trip is proved for
  all fuel above the length of the message, while \<open>pointer_loop_diverges\<close> holds for every fuel. The retry loop of \<open>Dial\<close> ends because every
  turn removes a candidate.

  \<^bold>\<open>Not modelled.\<close> Listening, sockets and their options, files, signals and logging are I/O of the
  operating system. Cryptographic primitives, TLS, SSH, KCP and the DHCP and netlink codecs
  are libraries. The manifest lists every part with the reason.
\<close>

text \<open>
  C10. From DNS to routing. When an answer for a name has been handled with the proxy's handler
  registered, as \<open>main\<close> does, and all domain rules that match the name lead to one group, then
  connections to the name and to every usable address of the answer are routed to that group.
\<close>

theorem resolved_name_routes:
  assumes "handleAnswer env b s = (Ok (), s')" and "UnmarshalMessage (e_fuel env) b = Ok resp"
    and "c_handlers (d_client s) = [AddDomainIP]" and "q_QNAME (m_Question resp) = name"
    and "agree (d_state s) name g"
    and "rr \<in> set (m_Answers resp)" and "usable rr ip"
    and "SplitHostPort dst = Some (host, port)" and "ParseAddr host = Some ip"
    and "SplitHostPort named = Some (name, port')" and "ParseAddr name = None"
  shows "findDialer order (d_state s') dst = g \<and> findDialer order (d_state s') named = g"
proof -
  obtain ips ttl where "extractAnswer (d_client s) resp (d_state s) = (ips, ttl, d_state s')"
    using handleAnswer_Ok [OF assms(1)] assms(2) by (metis res.inject(1))
  then have "fold (extract_one [AddDomainIP] name) (m_Answers resp) ([], dc_MinTTL (c_config (d_client s)), d_state s) =
      (ips, ttl, d_state s')"
    by (simp add: extractAnswer_def assms(3,4))
  from extract_records [OF assms(5) this] have "ps_domain (d_state s') = ps_domain (d_state s)" "ps_ip (d_state s') ip = Some g"
    using assms(6,7) by auto
  moreover have "route_host (d_state s') name = g"
    using agree_first(1) [OF assms(5)] rules.route_spec [of "d_state s'" name] calculation(1) by simp
  ultimately show ?thesis
    using assms(8-11) by (simp add: findDialer_def route_ip_def)
qed

definition one_rule :: dns where
  "one_rule = sample_dns\<lparr>d_client := Dns_AddHandler AddDomainIP (d_client sample_dns),
     d_state := two_rules\<lparr>ps_domain := (\<lambda>_. None)(''com'' := Some 1)\<rparr>\<rparr>"

theorem resolved_name_routes_witness:
  "\<exists>s'. handleAnswer sample_dns_env (wire sample_message) one_rule = (Ok (), s') \<and>
     findDialer [] (d_state s') ''1.2.3.4:80'' = 1 \<and> findDialer [] (d_state s') ''a.com:80'' = 1"
proof -
  let ?f = "\<lambda>m. m\<lparr>m_Header := SetAncount (int (length (m_Answers m))) (SetQdcount 1 (m_Header m))\<rparr>"
  have c: "c_cache (d_client one_rule) = NewLruCache 4096" "c_handlers (d_client one_rule) = [AddDomainIP]"
    by (simp_all add: one_rule_def Dns_AddHandler_def sample_cache) (simp add: sample_dns_def NewClient_def sample_dns_config_def)
  obtain s' where h: "handleAnswer sample_dns_env (wire sample_message) one_rule = (Ok (), s')"
    using sample_handled [OF c(1)] by blast
  have q: "q_QNAME (m_Question (?f sample_message)) = ''a.com''" by (simp add: sample_message_ok)
  have g: "agree (d_state one_rule) ''a.com'' 1" by (simp add: agree_def sample_keys one_rule_def)
  let ?rr = "\<lparr>rr_NAME = ''a.com'', rr_TYPE = QTypeA, rr_CLASS = ClassINET, rr_TTL = 60, rr_RDLENGTH = 4,
       rr_RDATA = [1, 2, 3, 4], rr_IP = Some (Addr4 [1, 2, 3, 4])\<rparr>"
  have r: "?rr \<in> set (m_Answers (?f sample_message))"
    by (simp add: sample_message_def AddAnswer_def SetQuestion_def NewMessage_def)
  have u: "usable ?rr (Addr4 [1, 2, 3, 4])" by (simp add: usable_def numeral_eq_Suc)
  from h resolved_name_routes [OF h wire_message c(2) q g r u sample_hosts(2,4,1,3), of "[]"] show ?thesis by blast
qed

end
